(* ===== verification/Xv6_Prelude.thy ===== *)
theory Xv6_Prelude
  imports Main "HOL-Library.Word"
begin

text \<open>
  Shared vocabulary of the development: the machine integers of
  \<^verbatim>\<open>kernel/types.h\<close>, the outcome of a kernel function that can panic, block or
  fault, little-endian views of byte sequences, and the generic facts on words,
  lists and folds that the component theories use.
\<close>

unbundle bit_operations_syntax

section \<open>Collections of facts\<close>

named_theorems word_nat \<open>reading word arithmetic as arithmetic on naturals\<close>
named_theorems frame \<open>what an operation leaves unchanged\<close>

section \<open>Machine integers\<close>

text \<open>\<^verbatim>\<open>kernel/types.h\<close>: \<open>uint8\<close>, \<open>uint16\<close>, \<open>uint32\<close> (and \<open>uint\<close>), \<open>uint64\<close>.\<close>

type_synonym u8 = "8 word"
type_synonym u16 = "16 word"
type_synonym u32 = "32 word"
type_synonym u64 = "64 word"

section \<open>Outcomes\<close>

text \<open>
  A kernel function returns a value, or does not return: it calls \<open>panic\<close> with a
  message, it calls \<open>sleep\<close> on a channel that nobody but another thread can wake, or it
  touches memory outside the object it was given (undefined behaviour of the C code).
\<close>

datatype kerr = Panic string | Blocked string | Fault string

datatype 'a res = Ok 'a | Fail kerr

definition rbind :: "'a res \<Rightarrow> ('a \<Rightarrow> 'b res) \<Rightarrow> 'b res" where
  "rbind m f = (case m of Ok x \<Rightarrow> f x | Fail e \<Rightarrow> Fail e)"

lemma rbind_simps [simp]:
  "rbind (Ok x) f = f x"
  "rbind (Fail e) f = Fail e"
  by (simp_all add: rbind_def)

lemma rbind_Ok_iff: "rbind m f = Ok y \<longleftrightarrow> (\<exists>x. m = Ok x \<and> f x = Ok y)"
  by (cases m) auto

lemma rbind_Fail_iff:
  "rbind m f = Fail e \<longleftrightarrow> m = Fail e \<or> (\<exists>x. m = Ok x \<and> f x = Fail e)"
  by (cases m) auto

lemma rbind_OkE [elim]:
  assumes "rbind m f = Ok y"
  obtains x where "m = Ok x" and "f x = Ok y"
  using assms by (auto simp: rbind_Ok_iff)

lemma rbind_assoc: "rbind (rbind m f) g = rbind m (\<lambda>x. rbind (f x) g)"
  by (cases m) simp_all

lemma rbind_cong [fundef_cong]:
  assumes "m = m'" and "\<And>x. m' = Ok x \<Longrightarrow> f x = f' x"
  shows "rbind m f = rbind m' f'"
  using assms by (cases m') simp_all

lemma if_Fail_Ok_iff [simp]:
  "(if b then Fail e else m) = Ok y \<longleftrightarrow> \<not> b \<and> m = Ok y"
  "(if b then m else Fail e) = Ok y \<longleftrightarrow> b \<and> m = Ok y"
  by simp_all

text \<open>A \<open>for\<close> loop whose body can fail.\<close>

primrec rfold :: "('a \<Rightarrow> 's \<Rightarrow> 's res) \<Rightarrow> 'a list \<Rightarrow> 's \<Rightarrow> 's res" where
  "rfold f [] s = Ok s"
| "rfold f (x # xs) s = rbind (f x s) (rfold f xs)"

lemma rfold_append: "rfold f (xs @ ys) s = rbind (rfold f xs s) (rfold f ys)"
  by (induction xs arbitrary: s) (simp_all add: rbind_def split: res.splits)

lemma rfold_upt_Ok:
  assumes "P 0 s" and "\<And>i t. i < n \<Longrightarrow> P i t \<Longrightarrow> \<exists>t'. f i t = Ok t' \<and> P (Suc i) t'"
  shows "\<exists>t. rfold f [0..<n] s = Ok t \<and> P n t"
  using assms(2)
proof (induction n)
  case 0
  then show ?case using assms(1) by simp
next
  case (Suc n)
  then obtain t where "rfold f [0..<n] s = Ok t" "P n t" by fastforce
  moreover from Suc.prems [of n t] this obtain t' where "f n t = Ok t'" "P (Suc n) t'" by auto
  ultimately show ?case by (simp add: rfold_append)
qed

section \<open>Words read as naturals\<close>

lemma unat_add_no_wrap [word_nat]:
  fixes a b :: "'a::len word"
  assumes "unat a + unat b < 2 ^ LENGTH('a)"
  shows "unat (a + b) = unat a + unat b"
  using assms by (simp add: unat_word_ariths)

lemma unat_add_of_nat [word_nat]:
  fixes a :: "'a::len word"
  assumes "unat a + n < 2 ^ LENGTH('a)"
  shows "unat (a + of_nat n) = unat a + n"
proof -
  have "n < 2 ^ LENGTH('a)" using assms by simp
  then have "unat (of_nat n :: 'a word) = n" by (simp add: unat_of_nat take_bit_nat_eq_self)
  then show ?thesis using assms by (simp add: unat_word_ariths)
qed

lemma unat_diff_le [word_nat]:
  fixes a b :: "'a::len word"
  assumes "b \<le> a"
  shows "unat (a - b) = unat a - unat b"
  using assms by (simp add: unat_sub_if' word_le_nat_alt)

lemma of_nat_unat_diff [simp]: "a + of_nat (unat (x - a)) = (x :: 'a::len word)"
  by simp

lemma unat_of_nat_small [word_nat]:
  "n < 2 ^ LENGTH('a) \<Longrightarrow> unat (of_nat n :: 'a::len word) = n"
  by (simp add: unat_of_nat take_bit_nat_eq_self)

lemma unat_less: "unat (n :: 'a::len word) < 2 ^ LENGTH('a)"
  by (rule unsigned_less)

lemma unat_u32_le: "unat (n :: u32) \<le> 2 ^ 64"
  using unat_less [of n] by simp

lemma unat_ucast_up [word_nat]:
  assumes "LENGTH('a) \<le> LENGTH('b)"
  shows "unat (ucast (n :: 'a::len word) :: 'b::len word) = unat n"
proof -
  have "unat n < 2 ^ LENGTH('b)"
    using unat_less [of n] assms by (meson less_le_trans one_le_numeral power_increasing)
  then show ?thesis by (simp add: unsigned_ucast_eq take_bit_nat_eq_self)
qed

lemma of_nat_inj_small:
  assumes "(of_nat i :: 'a::len word) = of_nat j" and "i < 2 ^ LENGTH('a)" and "j < 2 ^ LENGTH('a)"
  shows "i = j"
  using assms by (metis unat_of_nat_small)

lemma div_eq_iff_bounds:
  fixes n d k :: nat
  assumes "0 < d"
  shows "n div d = k \<longleftrightarrow> d * k \<le> n \<and> n < d * k + d"
proof
  assume "n div d = k"
  moreover have "n = d * (n div d) + n mod d" by simp
  moreover have "n mod d < d" using assms by simp
  ultimately show "d * k \<le> n \<and> n < d * k + d" by (metis le_add1 nat_add_left_cancel_less)
next
  assume "d * k \<le> n \<and> n < d * k + d"
  then show "n div d = k" by (intro div_nat_eqI) simp_all
qed

lemma eq_add_of_nat_iff:
  fixes x d :: "'a::len word"
  assumes "n < 2 ^ LENGTH('a)"
  shows "x = d + of_nat n \<longleftrightarrow> unat (x - d) = n"
proof
  assume "x = d + of_nat n"
  then show "unat (x - d) = n" using assms by (simp add: unat_of_nat_small)
next
  assume "unat (x - d) = n"
  then show "x = d + of_nat n" by auto
qed

section \<open>Little-endian views of bytes\<close>

text \<open>
  RISC-V stores a multi-byte integer with its least significant byte first.
  \<open>le_word f c\<close> is the integer whose bytes are \<open>f 0, \<dots>, f (c - 1)\<close>; \<open>le_byte v i\<close> is
  byte \<open>i\<close> of \<open>v\<close>.
\<close>

definition le_word :: "(nat \<Rightarrow> u8) \<Rightarrow> nat \<Rightarrow> 'a::len word" where
  "le_word f c = foldr (\<lambda>i acc. ucast (f i) OR push_bit 8 acc) [0..<c] 0"

definition le_byte :: "'a::len word \<Rightarrow> nat \<Rightarrow> u8" where
  "le_byte v i = ucast (drop_bit (8 * i) v)"

lemma bit_le_word_from:
  "bit (foldr (\<lambda>i acc. ucast (f i :: u8) OR push_bit 8 acc) [k..<k + c] 0 :: 'a::len word) n
     \<longleftrightarrow> n < LENGTH('a) \<and> n < 8 * c \<and> bit (f (k + n div 8)) (n mod 8)"
proof (induction c arbitrary: k n)
  case 0
  then show ?case by simp
next
  case (Suc c)
  have upt: "[k..<k + Suc c] = k # [Suc k..<Suc k + c]"
    by (simp add: upt_conv_Cons del: upt_Suc)
  show ?case
  proof (cases "n < 8")
    case True
    then show ?thesis by (subst upt) (auto simp: bit_simps simp del: upt_Suc)
  next
    case False
    then obtain m where m: "n = m + 8" by (metis add.commute le_add_diff_inverse not_less)
    have hi: "\<not> bit (ucast (f k :: u8) :: 'a word) (m + 8)"
      using bit_imp_le_length [of "f k" "m + 8"] by (auto simp: bit_simps)
    have dv: "(m + 8) div 8 = Suc (m div 8)" by simp
    show ?thesis
      using hi Suc.IH [of "Suc k" m]
      by (subst upt) (auto simp: m dv bit_simps simp del: upt_Suc)
  qed
qed

lemma bit_le_word:
  "bit (le_word f c :: 'a::len word) n
     \<longleftrightarrow> n < LENGTH('a) \<and> n < 8 * c \<and> bit (f (n div 8)) (n mod 8)"
  using bit_le_word_from [of f 0 c n] by (simp add: le_word_def)

lemma le_word_le_byte [simp]:
  fixes v :: "'a::len word"
  assumes "LENGTH('a) \<le> 8 * c"
  shows "le_word (le_byte v) c = v"
proof (rule bit_word_eqI)
  fix n assume "n < LENGTH('a)"
  then show "bit (le_word (le_byte v) c :: 'a word) n = bit v n"
    using assms by (auto simp: bit_le_word le_byte_def bit_simps)
qed

lemma le_word_cong:
  assumes "\<And>i. i < c \<Longrightarrow> f i = g i"
  shows "le_word f c = (le_word g c :: 'a::len word)"
  by (rule bit_word_eqI) (auto simp: bit_le_word assms)

lemma le_word_const_0 [simp]: "le_word (\<lambda>_. 0) c = (0 :: 'a::len word)"
  by (rule bit_word_eqI) (simp add: bit_le_word)

end
