(* ===== verification/Xv6_Machine.thy ===== *)
theory Xv6_Machine
  imports Xv6_Prelude
begin

text \<open>
  The constants and macros of \<^verbatim>\<open>kernel/riscv.h\<close>, \<^verbatim>\<open>kernel/memlayout.h\<close> and
  \<^verbatim>\<open>kernel/param.h\<close> that the rest of the kernel computes with: page rounding, the
  page-table-entry format, the split of a virtual address into three 9-bit indices, the
  layout of the address space. The lab of this repository builds with \<^verbatim>\<open>LAB_PGTBL\<close>
  (\<^verbatim>\<open>conf/lab.mk\<close>), so the code under that macro is part of the program.
\<close>

section \<open>Parameters\<close>

definition NPROC :: nat where [simp]: "NPROC = 64"
definition NCPU :: nat where [simp]: "NCPU = 8"
definition NOFILE :: nat where [simp]: "NOFILE = 16"
definition NFILE :: nat where [simp]: "NFILE = 100"
definition NINODE :: nat where [simp]: "NINODE = 50"
definition NDEV :: nat where [simp]: "NDEV = 10"
definition ROOTDEV :: u32 where [simp]: "ROOTDEV = 1"
definition MAXARG :: nat where [simp]: "MAXARG = 32"
definition MAXOPBLOCKS :: nat where [simp]: "MAXOPBLOCKS = 10"
definition LOGSIZE :: nat where [simp]: "LOGSIZE = MAXOPBLOCKS * 3"
definition NBUF :: nat where [simp]: "NBUF = MAXOPBLOCKS * 3"
definition FSSIZE :: nat where [simp]: "FSSIZE = 2000"
definition MAXPATH :: nat where [simp]: "MAXPATH = 128"

section \<open>Pages\<close>

definition PGSIZE :: u64 where [simp]: "PGSIZE = 4096"

definition PGROUNDUP :: "u64 \<Rightarrow> u64" where
  "PGROUNDUP sz = (sz + PGSIZE - 1) AND NOT (PGSIZE - 1)"

definition PGROUNDDOWN :: "u64 \<Rightarrow> u64" where
  "PGROUNDDOWN a = a AND NOT (PGSIZE - 1)"

text \<open>Being page-aligned, as the code tests it: \<^verbatim>\<open>a % PGSIZE == 0\<close>.\<close>

definition page_aligned :: "u64 \<Rightarrow> bool" where
  "page_aligned a \<longleftrightarrow> a mod PGSIZE = 0"

section \<open>Page table entries\<close>

definition PTE_V :: u64 where "PTE_V = 1"
definition PTE_R :: u64 where "PTE_R = 2"
definition PTE_W :: u64 where "PTE_W = 4"
definition PTE_X :: u64 where "PTE_X = 8"
definition PTE_U :: u64 where "PTE_U = 16"
definition PTE_A :: u64 where "PTE_A = 64"

definition PTE_LEAF :: "u64 \<Rightarrow> u64" where
  "PTE_LEAF pte = (pte AND PTE_R) OR (pte AND PTE_W) OR (pte AND PTE_X)"

definition PA2PTE :: "u64 \<Rightarrow> u64" where
  "PA2PTE pa = push_bit 10 (drop_bit 12 pa)"

definition PTE2PA :: "u64 \<Rightarrow> u64" where
  "PTE2PA pte = push_bit 12 (drop_bit 10 pte)"

definition PTE_FLAGS :: "u64 \<Rightarrow> u64" where
  "PTE_FLAGS pte = pte AND 0x3FF"

section \<open>Virtual addresses\<close>

definition PXSHIFT :: "nat \<Rightarrow> nat" where
  "PXSHIFT level = 12 + 9 * level"

definition PX :: "nat \<Rightarrow> u64 \<Rightarrow> u64" where
  "PX level va = drop_bit (PXSHIFT level) va AND 0x1FF"

definition MAXVA :: u64 where [simp]: "MAXVA = push_bit (9 + 9 + 9 + 12 - 1) 1"

section \<open>Memory layout\<close>

definition UART0 :: u64 where [simp]: "UART0 = 0x10000000"
definition VIRTIO0 :: u64 where [simp]: "VIRTIO0 = 0x10001000"
definition PLIC :: u64 where [simp]: "PLIC = 0x0c000000"
definition KERNBASE :: u64 where [simp]: "KERNBASE = 0x80000000"
definition PHYSTOP :: u64 where [simp]: "PHYSTOP = KERNBASE + 128 * 1024 * 1024"
definition TRAMPOLINE :: u64 where [simp]: "TRAMPOLINE = MAXVA - PGSIZE"
definition KSTACK :: "u64 \<Rightarrow> u64" where
  "KSTACK p = TRAMPOLINE - p * 2 * PGSIZE - 3 * PGSIZE"
definition TRAPFRAME :: u64 where [simp]: "TRAPFRAME = TRAMPOLINE - PGSIZE"
definition USYSCALL :: u64 where [simp]: "USYSCALL = TRAPFRAME - PGSIZE"

section \<open>Facts about rounding\<close>

lemma and_not_mask_word: "(a :: 'a::len word) AND NOT (mask n) = push_bit n (drop_bit n a)"
  by (rule bit_word_eqI) (auto simp: bit_simps)

lemma and_minus_4096: "(a :: u64) AND - 4096 = push_bit 12 (drop_bit 12 a)"
proof -
  have "(- 4096 :: u64) = NOT (mask 12)" by (simp add: mask_eq_exp_minus_1)
  then show ?thesis by (simp only: and_not_mask_word)
qed

lemma unat_push_drop: "unat (push_bit n (drop_bit n (a :: 'a::len word))) = unat a div 2 ^ n * 2 ^ n"
proof -
  have "unat a div 2 ^ n * 2 ^ n < 2 ^ LENGTH('a)"
    by (metis div_times_less_eq_dividend le_less_trans unsigned_less)
  moreover have "unat (push_bit n (drop_bit n a)) = take_bit LENGTH('a) (unat a div 2 ^ n * 2 ^ n)"
    by (simp only: unsigned_push_bit_eq unat_drop_bit_eq) (simp only: push_bit_eq_mult drop_bit_eq_div)
  ultimately show ?thesis by (simp add: take_bit_nat_eq_self)
qed

lemma unat_PGROUNDDOWN [word_nat]: "unat (PGROUNDDOWN a) = unat a div 4096 * 4096"
  using unat_push_drop [of 12 a] by (simp add: PGROUNDDOWN_def and_minus_4096)

lemma unat_PGROUNDUP [word_nat]:
  assumes "unat a + 4095 < 2 ^ 64"
  shows "unat (PGROUNDUP a) = (unat a + 4095) div 4096 * 4096"
proof -
  have "a + PGSIZE - 1 = a + 4095" by simp
  moreover have "unat (a + 4095) = unat a + 4095"
    using unat_add_of_nat [of a 4095] assms by simp
  ultimately show ?thesis
    using unat_push_drop [of 12 "a + 4095"] by (simp add: PGROUNDUP_def and_minus_4096 add.commute)
qed

lemma page_aligned_unat: "page_aligned a \<longleftrightarrow> unat a mod 4096 = 0"
proof -
  have "page_aligned a \<longleftrightarrow> unat (a mod 4096) = 0"
    by (simp add: page_aligned_def unat_eq_0)
  then show ?thesis by (simp add: unat_mod)
qed

lemma page_aligned_PGROUNDDOWN [simp]: "page_aligned (PGROUNDDOWN a)"
  by (simp add: page_aligned_unat unat_PGROUNDDOWN)

lemma page_aligned_PGROUNDUP [simp]: "page_aligned (PGROUNDUP a)"
  using unat_push_drop [of 12 "a + 4095"]
  by (simp add: page_aligned_unat PGROUNDUP_def and_minus_4096 add.commute)

lemma PGROUNDDOWN_aligned: "page_aligned a \<Longrightarrow> PGROUNDDOWN a = a"
proof -
  assume "page_aligned a"
  then have "unat a mod 4096 = 0" by (simp add: page_aligned_unat)
  then have "unat (PGROUNDDOWN a) = unat a"
    by (simp add: unat_PGROUNDDOWN mod_eq_0_iff_dvd)
  then show ?thesis by (simp add: word_unat_eq_iff)
qed

lemma PGROUNDDOWN_le: "PGROUNDDOWN a \<le> a"
  by (simp add: word_le_nat_alt unat_PGROUNDDOWN)

lemma PGROUNDDOWN_offset: "unat (a - PGROUNDDOWN a) = unat a mod 4096"
  by (simp add: unat_diff_le [OF PGROUNDDOWN_le] unat_PGROUNDDOWN minus_div_mult_eq_mod)

lemma page_aligned_take_bit: "page_aligned a \<longleftrightarrow> take_bit 12 a = 0"
  by (simp add: page_aligned_def take_bit_eq_mod)

section \<open>Facts about page table entries\<close>

lemma PTE2PA_PA2PTE:
  assumes "page_aligned pa" and "flags < 1024"
  shows "PTE2PA (PA2PTE pa OR flags) = pa"
proof (rule bit_word_eqI)
  fix n assume n: "n < LENGTH(64)"
  have lo: "\<not> bit pa n" if "n < 12"
  proof -
    have "take_bit 12 pa = 0" using assms(1) by (simp add: page_aligned_take_bit)
    then have "\<not> bit (take_bit 12 pa) n" by simp
    then show ?thesis using that by (simp add: bit_simps)
  qed
  have fl: "\<not> bit flags k" if "10 \<le> k" for k
  proof -
    have "take_bit 10 flags = flags"
      using assms(2)
      by (simp add: take_bit_eq_mod word_unat_eq_iff unat_mod word_less_nat_alt)
    then show ?thesis using that by (metis bit_take_bit_iff not_le)
  qed
  show "bit (PTE2PA (PA2PTE pa OR flags)) n = bit pa n"
  proof (cases "n < 12")
    case True
    with lo show ?thesis by (simp add: PTE2PA_def bit_simps)
  next
    case False
    with n fl show ?thesis by (auto simp: PTE2PA_def PA2PTE_def bit_simps)
  qed
qed

lemmas pte_bits = PTE_V_def PTE_R_def PTE_W_def PTE_X_def PTE_U_def PTE_A_def

definition pte_valid :: "u64 \<Rightarrow> bool" where
  "pte_valid e \<longleftrightarrow> e AND PTE_V \<noteq> 0"

definition pte_leaf :: "u64 \<Rightarrow> bool" where
  "pte_leaf e \<longleftrightarrow> PTE_LEAF e \<noteq> 0"

lemma pte_valid_bit: "pte_valid e \<longleftrightarrow> bit e 0"
  by (simp add: pte_valid_def PTE_V_def and_one_eq bit_0 even_iff_mod_2_eq_zero)

lemma not_pte_valid_0 [simp]: "\<not> pte_valid 0"
  by (simp add: pte_valid_def)

lemma pte_valid_or [simp]: "pte_valid (e OR PTE_V)"
  by (simp add: pte_valid_bit bit_simps PTE_V_def)

lemma PTE_LEAF_and: "PTE_LEAF e = e AND (PTE_R OR PTE_W OR PTE_X)"
  by (simp add: PTE_LEAF_def bit.conj_disj_distrib or.assoc)

lemma bit_PA2PTE_low: "k < 10 \<Longrightarrow> \<not> bit (PA2PTE pa) k"
  by (simp add: PA2PTE_def bit_simps)

text \<open>The entry that points to a lower-level table.\<close>

lemma link_entry [simp]:
  shows "\<not> pte_leaf (PA2PTE p OR PTE_V)"
    and "page_aligned p \<Longrightarrow> PTE2PA (PA2PTE p OR PTE_V) = p"
proof -
  have "PTE_R OR PTE_W OR PTE_X = (14 :: u64)" by (simp add: pte_bits)
  moreover have "(PA2PTE p OR PTE_V) AND 14 = 0"
  proof (rule bit_word_eqI)
    fix n assume "n < LENGTH(64)"
    have 14: "(14 :: u64) = push_bit 1 (mask 3)" by (simp add: mask_eq_exp_minus_1)
    have "bit (14 :: u64) n \<Longrightarrow> 0 < n \<and> n < 4"
      unfolding 14 by (simp only: bit_push_bit_iff bit_mask_iff) auto
    then show "bit ((PA2PTE p OR PTE_V) AND 14) n = bit (0 :: u64) n"
      using bit_PA2PTE_low [of n p] by (auto simp: bit_simps PTE_V_def)
  qed
  ultimately show "\<not> pte_leaf (PA2PTE p OR PTE_V)" by (simp add: pte_leaf_def PTE_LEAF_and)
  show "page_aligned p \<Longrightarrow> PTE2PA (PA2PTE p OR PTE_V) = p"
    by (rule PTE2PA_PA2PTE) (simp_all add: PTE_V_def)
qed

end
