(* ===== verification/Xv6_String.thy ===== *)
theory Xv6_String
  imports Xv6_Machine
begin

text \<open>
  Byte-addressed memory and the routines of \<^verbatim>\<open>kernel/string.c\<close>. Memory is a total map
  from 64-bit addresses to bytes; a pointer is an address, \<open>*p\<close> is \<open>m p\<close>, and \<open>*p = c\<close>
  is \<open>m(p := c)\<close>. A C loop that runs a known number of times is a fold over its index
  range or a recursion on the count; \<open>strlen\<close>, which runs until it meets a NUL byte, is a
  partial function.
\<close>

section \<open>Memory\<close>

type_synonym mem = "u64 \<Rightarrow> u8"

text \<open>An aligned 64-bit access, as for \<open>*pte\<close> or \<open>r->next\<close>.\<close>

definition load64 :: "mem \<Rightarrow> u64 \<Rightarrow> u64" where
  "load64 m a = le_word (\<lambda>i. m (a + of_nat i)) 8"

definition store64 :: "mem \<Rightarrow> u64 \<Rightarrow> u64 \<Rightarrow> mem" where
  "store64 m a v = (\<lambda>x. if unat (x - a) < 8 then le_byte v (unat (x - a)) else m x)"

section \<open>The routines of string.c\<close>

text \<open>\<open>memset\<close>: the \<open>int\<close> \<open>c\<close> is cut to a byte by the assignment. The index of the loop is an \<open>int\<close>, so this is the code for \<open>n\<close> up to \<^verbatim>\<open>2^31\<close>; every call passes far less.\<close>

definition memset :: "mem \<Rightarrow> u64 \<Rightarrow> u32 \<Rightarrow> u32 \<Rightarrow> mem" where
  "memset m dst c n = fold (\<lambda>i m. m(dst + of_nat i := ucast c)) [0..<unat n] m"

primrec memcmp_loop :: "mem \<Rightarrow> u64 \<Rightarrow> u64 \<Rightarrow> nat \<Rightarrow> int" where
  "memcmp_loop m s1 s2 0 = 0"
| "memcmp_loop m s1 s2 (Suc n) =
     (if m s1 \<noteq> m s2 then uint (m s1) - uint (m s2) else memcmp_loop m (s1 + 1) (s2 + 1) n)"

definition memcmp :: "mem \<Rightarrow> u64 \<Rightarrow> u64 \<Rightarrow> u32 \<Rightarrow> int" where
  "memcmp m v1 v2 n = memcmp_loop m v1 v2 (unat n)"

text \<open>
  \<open>memmove\<close> copies downwards when the destination overlaps the end of the source, and
  upwards otherwise.
\<close>

definition copy_up :: "mem \<Rightarrow> u64 \<Rightarrow> u64 \<Rightarrow> nat \<Rightarrow> mem" where
  "copy_up m d s n = fold (\<lambda>i m. m(d + of_nat i := m (s + of_nat i))) [0..<n] m"

definition copy_down :: "mem \<Rightarrow> u64 \<Rightarrow> u64 \<Rightarrow> nat \<Rightarrow> mem" where
  "copy_down m d s n = fold (\<lambda>i m. m(d + of_nat i := m (s + of_nat i))) (rev [0..<n]) m"

definition memmove :: "mem \<Rightarrow> u64 \<Rightarrow> u64 \<Rightarrow> u32 \<Rightarrow> mem" where
  "memmove m dst src n =
     (if n = 0 then m
      else if src < dst \<and> src + ucast n > dst then copy_down m dst src (unat n)
      else copy_up m dst src (unat n))"

definition memcpy :: "mem \<Rightarrow> u64 \<Rightarrow> u64 \<Rightarrow> u32 \<Rightarrow> mem" where
  "memcpy m dst src n = memmove m dst src n"

primrec strncmp_loop :: "mem \<Rightarrow> u64 \<Rightarrow> u64 \<Rightarrow> nat \<Rightarrow> int" where
  "strncmp_loop m p q 0 = 0"
| "strncmp_loop m p q (Suc n) =
     (if m p \<noteq> 0 \<and> m p = m q then strncmp_loop m (p + 1) (q + 1) n
      else uint (m p) - uint (m q))"

definition strncmp :: "mem \<Rightarrow> u64 \<Rightarrow> u64 \<Rightarrow> u32 \<Rightarrow> int" where
  "strncmp m p q n = strncmp_loop m p q (unat n)"

text \<open>The second loop of \<open>strncpy\<close>: fill the rest with zeroes.\<close>

primrec zero_fill :: "mem \<Rightarrow> u64 \<Rightarrow> nat \<Rightarrow> mem" where
  "zero_fill m s 0 = m"
| "zero_fill m s (Suc n) = zero_fill (m(s := 0)) (s + 1) n"

primrec strncpy_loop :: "mem \<Rightarrow> u64 \<Rightarrow> u64 \<Rightarrow> nat \<Rightarrow> mem" where
  "strncpy_loop m s t 0 = m"
| "strncpy_loop m s t (Suc n) =
     (let c = m t; m' = m(s := c) in
      if c \<noteq> 0 then strncpy_loop m' (s + 1) (t + 1) n else zero_fill m' (s + 1) n)"

definition strncpy :: "mem \<Rightarrow> u64 \<Rightarrow> u64 \<Rightarrow> int \<Rightarrow> mem" where
  "strncpy m s t n = strncpy_loop m s t (nat n)"

text \<open>
  \<open>safestrcpy\<close>: when the loop stops at a NUL, \<open>s\<close> has already moved past it, so the final
  \<open>*s = 0\<close> writes one byte further (still inside the \<open>n\<close> bytes).
\<close>

primrec safestrcpy_loop :: "mem \<Rightarrow> u64 \<Rightarrow> u64 \<Rightarrow> nat \<Rightarrow> mem" where
  "safestrcpy_loop m s t 0 = m(s := 0)"
| "safestrcpy_loop m s t (Suc n) =
     (let c = m t; m' = m(s := c) in
      if c \<noteq> 0 then safestrcpy_loop m' (s + 1) (t + 1) n else m'(s + 1 := 0))"

definition safestrcpy :: "mem \<Rightarrow> u64 \<Rightarrow> u64 \<Rightarrow> int \<Rightarrow> mem" where
  "safestrcpy m s t n = (if n \<le> 0 then m else safestrcpy_loop m s t (nat n - 1))"

partial_function (option) strlen_from :: "mem \<Rightarrow> u64 \<Rightarrow> nat \<Rightarrow> nat option" where
  "strlen_from m s n = (if m (s + of_nat n) = 0 then Some n else strlen_from m s (Suc n))"

definition strlen :: "mem \<Rightarrow> u64 \<Rightarrow> nat option" where
  "strlen m s = strlen_from m s 0"

section \<open>Regions of memory\<close>

definition in_region :: "u64 \<Rightarrow> u64 \<Rightarrow> nat \<Rightarrow> bool" where
  "in_region x a n \<longleftrightarrow> unat (x - a) < n"

lemma in_region_0 [simp]: "\<not> in_region x a 0"
  by (simp add: in_region_def)

lemma in_region_unat:
  assumes "unat a + n \<le> 2 ^ 64"
  shows "in_region x a n \<longleftrightarrow> unat a \<le> unat x \<and> unat x < unat a + n"
proof (cases "a \<le> x")
  case True
  then show ?thesis
    by (auto simp: in_region_def unat_diff_le word_le_nat_alt)
next
  case False
  then have "unat x < unat a" by (simp add: word_le_nat_alt)
  moreover have "unat (x - a) = unat x + 2 ^ 64 - unat a"
    using False by (simp add: unat_sub_if' word_le_nat_alt)
  ultimately show ?thesis using assms by (auto simp: in_region_def)
qed

lemma in_region_add: "i < n \<Longrightarrow> i < 2 ^ 64 \<Longrightarrow> in_region (a + of_nat i) a n"
  by (simp add: in_region_def unat_of_nat_small)

lemma in_region_Suc:
  assumes "Suc n \<le> 2 ^ 64"
  shows "in_region x a (Suc n) \<longleftrightarrow> x = a \<or> in_region x (a + 1) n"
proof (cases "x = a")
  case True
  then show ?thesis by (simp add: in_region_def)
next
  case False
  then have nz: "x - a \<noteq> 0" by simp
  then have "unat (x - a) \<noteq> 0" by (simp add: unat_eq_0)
  moreover have "unat (x - (a + 1)) = unat (x - a) - 1"
    using unat_minus_one [OF nz] by (simp add: diff_diff_eq)
  ultimately show ?thesis using False by (auto simp: in_region_def)
qed

section \<open>Loads and stores\<close>

lemma load64_store64 [simp]: "load64 (store64 m a v) a = v"
proof -
  have "load64 (store64 m a v) a = le_word (le_byte v) 8"
    unfolding load64_def
    by (rule le_word_cong) (simp add: store64_def unat_of_nat_small)
  then show ?thesis by simp
qed

lemma load64_cong:
  assumes "\<And>i. i < 8 \<Longrightarrow> m (a + of_nat i) = m' (a + of_nat i)"
  shows "load64 m a = load64 m' a"
  unfolding load64_def by (rule le_word_cong) (rule assms)

lemma store64_other: "\<not> in_region x a 8 \<Longrightarrow> store64 m a v x = m x"
  by (simp add: store64_def in_region_def)

section \<open>Correctness of the routines\<close>

lemma fold_upd_index:
  assumes "n \<le> 2 ^ 64"
  shows "fold (\<lambda>i m. m(d + of_nat i := c)) [0..<n] m x = (if in_region x d n then c else m x)"
  using assms
proof (induction n)
  case 0
  then show ?case by simp
next
  case (Suc n)
  then have n: "n < 2 ^ 64" by simp
  then have "x = d + of_nat n \<longleftrightarrow> unat (x - d) = n" by (intro eq_add_of_nat_iff) simp
  with Suc show ?case by (auto simp: in_region_def less_Suc_eq)
qed

lemma memset_apply: "memset m d c n x = (if in_region x d (unat n) then ucast c else m x)"
proof -
  have "unat n \<le> 2 ^ 64" by (rule unat_u32_le)
  then show ?thesis by (simp add: memset_def fold_upd_index)
qed

text \<open>An upward copy is right if no byte is overwritten before it is read.\<close>

lemma copy_up_apply:
  assumes "n \<le> 2 ^ 64" and "\<And>i j. i < j \<Longrightarrow> j < n \<Longrightarrow> d + of_nat i \<noteq> s + of_nat j"
  shows "copy_up m d s n x = (if in_region x d n then m (s + (x - d)) else m x)"
  using assms
proof (induction n arbitrary: x)
  case 0
  then show ?case by (simp add: copy_up_def)
next
  case (Suc n)
  let ?m = "copy_up m d s n"
  have IH: "?m y = (if in_region y d n then m (s + (y - d)) else m y)" for y
    using Suc by simp
  have step: "copy_up m d s (Suc n) = ?m(d + of_nat n := ?m (s + of_nat n))"
    by (simp add: copy_up_def)
  have "\<not> in_region (s + of_nat n) d n"
  proof
    assume "in_region (s + of_nat n) d n"
    then obtain i where "i < n" "s + of_nat n = d + of_nat i"
      by (metis in_region_def of_nat_unat_diff)
    with Suc.prems(2) [of i n] show False by simp
  qed
  then have src: "?m (s + of_nat n) = m (s + of_nat n)" by (simp add: IH)
  show ?case
  proof (cases "x = d + of_nat n")
    case True
    with Suc.prems(1) show ?thesis by (simp add: step src in_region_def unat_of_nat_small)
  next
    case False
    then have "unat (x - d) \<noteq> n" using Suc.prems(1) by (simp add: eq_add_of_nat_iff)
    with False show ?thesis by (auto simp: step IH in_region_def less_Suc_eq)
  qed
qed

text \<open>A downward copy likewise.\<close>

lemma copy_down_apply:
  assumes "n \<le> 2 ^ 64" and "\<And>i j. i < j \<Longrightarrow> j < n \<Longrightarrow> s + of_nat i \<noteq> d + of_nat j"
  shows "copy_down m d s n x = (if in_region x d n then m (s + (x - d)) else m x)"
  using assms
proof (induction n arbitrary: m)
  case 0
  then show ?case by (simp add: copy_down_def)
next
  case (Suc n)
  let ?m = "m(d + of_nat n := m (s + of_nat n))"
  have "copy_down m d s (Suc n) = copy_down ?m d s n"
    by (simp add: copy_down_def)
  then have IH: "copy_down m d s (Suc n) x = (if in_region x d n then ?m (s + (x - d)) else ?m x)"
    using Suc by simp
  show ?case
  proof (cases "in_region x d n")
    case True
    then have lt: "unat (x - d) < n" by (simp add: in_region_def)
    then have "s + of_nat (unat (x - d)) \<noteq> d + of_nat n" using Suc.prems(2) by blast
    with True lt show ?thesis by (simp add: IH) (simp add: in_region_def)
  next
    case False
    have "x = d + of_nat n \<longleftrightarrow> unat (x - d) = n"
      using Suc.prems(1) by (simp add: eq_add_of_nat_iff)
    with False show ?thesis by (auto simp: IH in_region_def less_Suc_eq)
  qed
qed

lemma memmove_apply:
  assumes "unat dst + unat n \<le> 2 ^ 64" and "unat src + unat n \<le> 2 ^ 64"
  shows "memmove m dst src n x = (if in_region x dst (unat n) then m (src + (x - dst)) else m x)"
proof -
  have n: "unat n \<le> 2 ^ 64" by (rule unat_u32_le)
  have idx: "unat (a + of_nat i) = unat a + i"
    if "unat a + unat n \<le> 2 ^ 64" "i < unat n" for a :: u64 and i
    using that by (intro unat_add_of_nat) simp
  show ?thesis
  proof (cases "src < dst \<and> src + ucast n > dst")
    case True
    have "src + of_nat i \<noteq> dst + of_nat j" if "i < j" "j < unat n" for i j
    proof -
      have "unat (src + of_nat i) < unat (dst + of_nat j)"
        using True that assms by (simp add: idx word_less_nat_alt)
      then show ?thesis by auto
    qed
    with True n show ?thesis by (auto simp: memmove_def copy_down_apply)
  next
    case False
    have "dst + of_nat i \<noteq> src + of_nat j" if "i < j" "j < unat n" for i j
    proof (cases "dst \<le> src")
      case True
      then have "unat (dst + of_nat i) < unat (src + of_nat j)"
        using that assms by (simp add: idx word_le_nat_alt)
      then show ?thesis by auto
    next
      case nle: False
      have "unat (src + of_nat j) < unat (dst + of_nat i)"
      proof (cases "unat src + unat n < 2 ^ 64")
        case True
        then have "unat (src + ucast n) = unat src + unat n"
          by (intro trans [OF unat_add_no_wrap]) (simp_all add: unat_ucast_up)
        with nle False have "unat src + unat n \<le> unat dst"
          by (simp add: word_less_nat_alt word_le_nat_alt)
        then show ?thesis using that assms by (simp add: idx)
      next
        case ovf: False
        with assms(2) have "unat src + unat n = 2 ^ 64" by simp
        moreover have "unat dst + unat n \<le> 2 ^ 64" by (rule assms(1))
        ultimately show ?thesis using nle by (simp add: word_le_nat_alt)
      qed
      then show ?thesis by auto
    qed
    with False n show ?thesis by (auto simp: memmove_def copy_up_apply)
  qed
qed

section \<open>Strings\<close>

text \<open>
  The bytes from \<open>p\<close> up to the first NUL, at most \<open>n\<close> of them: what a bounded string
  routine sees. A directory entry's name may fill its 14 bytes without a NUL.
\<close>

primrec strn :: "mem \<Rightarrow> u64 \<Rightarrow> nat \<Rightarrow> u8 list" where
  "strn m p 0 = []"
| "strn m p (Suc n) = (if m p = 0 then [] else m p # strn m (p + 1) n)"

text \<open>A NUL-terminated string stored at \<open>p\<close>.\<close>

primrec cstr :: "mem \<Rightarrow> u64 \<Rightarrow> u8 list \<Rightarrow> bool" where
  "cstr m p [] \<longleftrightarrow> m p = 0"
| "cstr m p (c # cs) \<longleftrightarrow> c \<noteq> 0 \<and> m p = c \<and> cstr m (p + 1) cs"

lemma length_strn: "length (strn m p n) \<le> n"
  by (induction n arbitrary: p) auto

lemma cstr_strn: "cstr m p cs \<Longrightarrow> length cs < n \<Longrightarrow> strn m p n = cs"
proof (induction cs arbitrary: p n)
  case Nil
  then show ?case by (cases n) auto
next
  case (Cons c cs)
  then show ?case by (cases n) auto
qed

lemma strlen_from_cstr: "cstr m (s + of_nat n) cs \<Longrightarrow> strlen_from m s n = Some (n + length cs)"
proof (induction cs arbitrary: n)
  case Nil
  then show ?case by (subst strlen_from.simps) simp
next
  case (Cons c cs)
  then have "cstr m (s + of_nat (Suc n)) cs" by (simp add: ac_simps)
  then have "strlen_from m s (Suc n) = Some (Suc n + length cs)" by (rule Cons.IH)
  with Cons.prems show ?case by (subst strlen_from.simps) simp
qed

lemma strlen_cstr: "cstr m s cs \<Longrightarrow> strlen m s = Some (length cs)"
  using strlen_from_cstr [of m s 0 cs] by (simp add: strlen_def)

lemma uint_diff_eq_0 [simp]: "uint a - uint b = 0 \<longleftrightarrow> (a :: 'a::len word) = b"
  by (simp add: word_uint_eq_iff)

lemma strncmp_loop_eq_0: "strncmp_loop m p q n = 0 \<longleftrightarrow> strn m p n = strn m q n"
  by (induction n arbitrary: p q) (auto simp: uint_0_iff simp flip: word_uint_eq_iff)

lemma zero_fill_apply:
  assumes "n \<le> 2 ^ 64"
  shows "zero_fill m s n x = (if in_region x s n then 0 else m x)"
  using assms
proof (induction n arbitrary: m s)
  case 0
  then show ?case by simp
next
  case (Suc n)
  have "in_region x s (Suc n) \<longleftrightarrow> x = s \<or> in_region x (s + 1) n"
    using Suc.prems by (rule in_region_Suc)
  with Suc show ?case by auto
qed

text \<open>The source of a copy, \<open>n\<close> bytes at \<open>t\<close>, lies outside the destination, \<open>n\<close> bytes at \<open>s\<close>.\<close>

definition apart :: "u64 \<Rightarrow> u64 \<Rightarrow> nat \<Rightarrow> bool" where
  "apart s t n \<longleftrightarrow> (\<forall>i<n. \<not> in_region (t + of_nat i) s n)"

lemma apartI:
  assumes "unat s + n \<le> 2 ^ 64" and "unat t + n \<le> 2 ^ 64"
    and "unat t + n \<le> unat s \<or> unat s + n \<le> unat t"
  shows "apart s t n"
  unfolding apart_def
proof (intro allI impI)
  fix i assume "i < n"
  then have "unat (t + of_nat i) = unat t + i" using assms(2) by (intro unat_add_of_nat) simp
  with \<open>i < n\<close> assms show "\<not> in_region (t + of_nat i) s n" by (auto simp: in_region_unat)
qed

lemma apart_Suc:
  assumes "apart s t (Suc n)" and "Suc n \<le> 2 ^ 64"
  shows "apart (s + 1) (t + 1) n" and "i < Suc n \<Longrightarrow> t + of_nat i \<noteq> s"
proof -
  have *: "\<not> in_region (t + of_nat i) s (Suc n)" if "i < Suc n" for i
    using assms(1) that by (auto simp: apart_def)
  then show "i < Suc n \<Longrightarrow> t + of_nat i \<noteq> s"
    using assms(2) by (auto simp: in_region_Suc)
  show "apart (s + 1) (t + 1) n"
    unfolding apart_def
  proof (intro allI impI)
    fix i assume "i < n"
    with * [of "Suc i"] assms(2) show "\<not> in_region (t + 1 + of_nat i) (s + 1) n"
      by (auto simp: in_region_Suc ac_simps)
  qed
qed

lemma strn_upd:
  "(\<And>i. i < n \<Longrightarrow> p + of_nat i \<noteq> a) \<Longrightarrow> strn (m(a := c)) p n = strn m p n"
proof (induction n arbitrary: p)
  case 0
  then show ?case by simp
next
  case (Suc n)
  have "p + 1 + of_nat i \<noteq> a" if "i < n" for i
    using Suc.prems [of "Suc i"] that by (simp add: ac_simps)
  then have "strn (m(a := c)) (p + 1) n = strn m (p + 1) n" by (rule Suc.IH)
  moreover have "p \<noteq> a" using Suc.prems [of 0] by simp
  ultimately show ?case by (simp add: fun_upd_def)
qed

lemma strncpy_loop_apply:
  assumes "n \<le> 2 ^ 64" and "apart s t n"
  shows "strncpy_loop m s t n x =
    (if in_region x s n
     then (if unat (x - s) < length (strn m t n) then m (t + (x - s)) else 0) else m x)"
  using assms
proof (induction n arbitrary: m s t)
  case 0
  then show ?case by simp
next
  case (Suc n)
  let ?m = "m(s := m t)"
  note ap = apart_Suc [OF Suc.prems(2,1)]
  have reg: "in_region x s (Suc n) \<longleftrightarrow> x = s \<or> in_region x (s + 1) n"
    using Suc.prems(1) by (rule in_region_Suc)
  have n: "n \<le> 2 ^ 64" using Suc.prems(1) by simp
  show ?case
  proof (cases "m t = 0")
    case True
    with n show ?thesis by (auto simp: Let_def zero_fill_apply reg)
  next
    case False
    have str: "strn ?m (t + 1) n = strn m (t + 1) n"
    proof (rule strn_upd)
      fix i assume "i < n"
      with ap(2) [of "Suc i"] show "t + 1 + of_nat i \<noteq> s" by (simp add: ac_simps)
    qed
    have IH: "strncpy_loop ?m (s + 1) (t + 1) n x =
      (if in_region x (s + 1) n
       then (if unat (x - (s + 1)) < length (strn m (t + 1) n)
             then ?m (t + 1 + (x - (s + 1))) else 0)
       else ?m x)"
      using Suc.IH [OF n ap(1)] by (simp add: str)
    show ?thesis
    proof (cases "in_region x (s + 1) n")
      case True
      have "x \<noteq> s"
      proof
        assume "x = s"
        with True have "unat (- 1 :: u64) < n" by (simp add: in_region_def)
        with Suc.prems(1) show False by (simp add: unsigned_minus_1_eq_mask mask_eq_exp_minus_1)
      qed
      then have "x - s \<noteq> 0" by simp
      then have un: "unat (x - s) = Suc (unat (x - (s + 1)))"
        using unat_minus_one [of "x - s"] by (simp add: diff_diff_eq unat_eq_0 [symmetric])
      have "unat (x - s) < Suc n" using True un by (simp add: in_region_def)
      then have "t + of_nat (unat (x - s)) \<noteq> s" by (rule ap(2))
      then have "t + (x - s) \<noteq> s" by simp
      with True False un \<open>x \<noteq> s\<close> show ?thesis by (simp add: Let_def IH reg)
    next
      case out: False
      with False show ?thesis by (auto simp: Let_def IH reg)
    qed
  qed
qed

lemma safestrcpy_loop_frame:
  assumes "Suc n \<le> 2 ^ 64" and "\<not> in_region x s (Suc n)"
  shows "safestrcpy_loop m s t n x = m x"
  using assms
proof (induction n arbitrary: m s t)
  case 0
  then show ?case by (auto simp: in_region_def)
next
  case (Suc n)
  have x: "x \<noteq> s" "\<not> in_region x (s + 1) (Suc n)"
    using Suc.prems by (auto simp: in_region_Suc)
  moreover have "x \<noteq> s + 1" using x(2) by (auto simp: in_region_def)
  ultimately show ?case using Suc.IH [of "s + 1"] Suc.prems(1) by (simp add: Let_def)
qed

lemma safestrcpy_loop_cstr:
  assumes "Suc n \<le> 2 ^ 64" and "apart s t (Suc n)"
  shows "cstr (safestrcpy_loop m s t n) s (strn m t n)"
  using assms
proof (induction n arbitrary: m s t)
  case 0
  then show ?case by simp
next
  case (Suc n)
  let ?m = "m(s := m t)"
  note ap = apart_Suc [OF Suc.prems(2,1)]
  show ?case
  proof (cases "m t = 0")
    case True
    then show ?thesis by (simp add: Let_def)
  next
    case False
    have "strn ?m (t + 1) n = strn m (t + 1) n"
    proof (rule strn_upd)
      fix i assume "i < n"
      with ap(2) [of "Suc i"] show "t + 1 + of_nat i \<noteq> s" by (simp add: ac_simps)
    qed
    with Suc.IH [of "s + 1" "t + 1" ?m] ap(1) Suc.prems(1)
    have tail: "cstr (safestrcpy_loop ?m (s + 1) (t + 1) n) (s + 1) (strn m (t + 1) n)"
      by (simp add: fun_upd_def)
    have "\<not> in_region s (s + 1) (Suc n)"
      using Suc.prems(1) by (simp add: in_region_def unsigned_minus_1_eq_mask mask_eq_exp_minus_1)
    then have "safestrcpy_loop ?m (s + 1) (t + 1) n s = ?m s"
      using Suc.prems(1) by (intro safestrcpy_loop_frame) simp_all
    with False tail show ?thesis by (simp add: Let_def fun_upd_def)
  qed
qed

section \<open>Properties\<close>

text \<open>C23: \<open>memmove\<close> copies the \<open>n\<close> source bytes as they were before the call, whatever the
  overlap of source and destination, and changes nothing else (for regions that do not run
  over the end of the address space).\<close>

theorem memmove_correct:
  assumes "unat dst + unat n \<le> 2 ^ 64" and "unat src + unat n \<le> 2 ^ 64"
  shows "(\<forall>i<unat n. memmove m dst src n (dst + of_nat i) = m (src + of_nat i)) \<and>
    (\<forall>x. \<not> in_region x dst (unat n) \<longrightarrow> memmove m dst src n x = m x)"
proof (intro conjI allI impI)
  fix i assume i: "i < unat n"
  then have "i < 2 ^ LENGTH(64)" using unat_u32_le [of n] by simp
  then show "memmove m dst src n (dst + of_nat i) = m (src + of_nat i)"
    using i by (simp add: memmove_apply [OF assms] in_region_def unat_of_nat_small)
qed (simp add: memmove_apply [OF assms])

text \<open>An overlapping move: four bytes shifted up by one.\<close>

theorem memmove_correct_witness:
  "memmove (\<lambda>x. ucast x) 101 100 4 104 = 103 \<and> memmove (\<lambda>x. ucast x) 101 100 4 105 = 105"
proof -
  let ?m = "\<lambda>x::u64. ucast x :: u8"
  have up: "\<forall>i<unat (4 :: u32). memmove ?m 101 100 4 (101 + of_nat i) = ?m (100 + of_nat i)"
    and out: "\<forall>x. \<not> in_region x 101 (unat (4 :: u32)) \<longrightarrow> memmove ?m 101 100 4 x = ?m x"
    using memmove_correct [of 101 4 100 ?m] by simp_all
  from up have "memmove ?m 101 100 4 (101 + of_nat 3) = ?m (100 + of_nat 3)"
    by (rule allE [of _ 3]) simp
  moreover from out have "memmove ?m 101 100 4 105 = ?m 105"
    by (rule allE [of _ 105]) (simp add: in_region_def)
  ultimately show ?thesis by simp
qed

text \<open>\<open>strncmp\<close> returns zero exactly when the two strings agree on their first \<open>n\<close> bytes
  up to the first NUL, so names that fill a directory entry without a NUL are compared in full.\<close>

lemma strncmp_zero_iff: "strncmp m p q n = 0 \<longleftrightarrow> strn m p (unat n) = strn m q (unat n)"
  by (simp add: strncmp_def strncmp_loop_eq_0)

text \<open>\<open>safestrcpy\<close> leaves a NUL-terminated string, the longest prefix of the source that
  fits, and writes nothing outside the \<open>n\<close> bytes of the destination.\<close>

lemma safestrcpy_terminates_string:
  assumes "0 < n" and "nat n \<le> 2 ^ 64" and "apart s t (nat n)"
  shows "cstr (safestrcpy m s t n) s (strn m t (nat n - 1)) \<and>
    (\<forall>x. \<not> in_region x s (nat n) \<longrightarrow> safestrcpy m s t n x = m x)"
proof -
  have n: "Suc (nat n - 1) = nat n" using assms(1) by simp
  then show ?thesis
    using assms safestrcpy_loop_cstr [of "nat n - 1" s t m] safestrcpy_loop_frame [of "nat n - 1" _ s m t]
    by (simp add: safestrcpy_def)
qed

end
