(* ===== verification/Xv6_Allocator.thy ===== *)
theory Xv6_Allocator
  imports Xv6_Prelude
begin

text \<open>
  The contract that the kernel's allocators share. \<open>kalloc\<close> hands out physical pages,
  \<open>balloc\<close> disk blocks, \<open>filealloc\<close> file-table slots, \<open>alloc_desc\<close> disk descriptors; each
  takes a unit from a pool or reports that the pool is empty, and a matching operation puts
  a unit back. \<open>avail\<close> is the pool, \<open>ok\<close> the units that may be put back.
\<close>

locale allocator =
  fixes inv :: "'s \<Rightarrow> bool"
    and avail :: "'s \<Rightarrow> 'a set"
    and alloc :: "'s \<Rightarrow> ('a \<times> 's) option"
  assumes alloc_None: "inv s \<Longrightarrow> alloc s = None \<longleftrightarrow> avail s = {}"
    and alloc_takes: "inv s \<Longrightarrow> alloc s = Some (a, s') \<Longrightarrow> a \<in> avail s \<and> avail s' = avail s - {a}"
    and alloc_inv: "inv s \<Longrightarrow> alloc s = Some (a, s') \<Longrightarrow> inv s'"
begin

text \<open>\<open>n\<close> allocations in a row.\<close>

fun alloc_n :: "nat \<Rightarrow> 's \<Rightarrow> ('a list \<times> 's) option" where
  "alloc_n 0 s = Some ([], s)"
| "alloc_n (Suc n) s =
     (case alloc s of None \<Rightarrow> None
      | Some (a, s') \<Rightarrow> (case alloc_n n s' of None \<Rightarrow> None | Some (as, t) \<Rightarrow> Some (a # as, t)))"

lemma alloc_n_distinct:
  assumes "inv s" and "alloc_n n s = Some (as, t)"
  shows "distinct as \<and> set as \<union> avail t = avail s \<and> set as \<inter> avail t = {} \<and> length as = n \<and> inv t"
  using assms
proof (induction n arbitrary: s as)
  case 0
  then show ?case by simp
next
  case (Suc n)
  then obtain a s' bs where a: "alloc s = Some (a, s')" and bs: "alloc_n n s' = Some (bs, t)"
    and as: "as = a # bs"
    by (auto split: option.splits)
  have "inv s'" using alloc_inv [OF Suc.prems(1) a] .
  note IH = Suc.IH [OF this bs]
  have "a \<in> avail s" "avail s' = avail s - {a}"
    using alloc_takes [OF Suc.prems(1) a] by auto
  with IH as show ?case by auto
qed

lemma alloc_n_possible:
  assumes "inv s" and "finite (avail s)" and "n \<le> card (avail s)"
  shows "\<exists>as t. alloc_n n s = Some (as, t)"
  using assms
proof (induction n arbitrary: s)
  case 0
  then show ?case by simp
next
  case (Suc n)
  then have "avail s \<noteq> {}" by auto
  then obtain a s' where a: "alloc s = Some (a, s')"
    using alloc_None [OF Suc.prems(1)] by fastforce
  have in_s: "a \<in> avail s" and av: "avail s' = avail s - {a}"
    using alloc_takes [OF Suc.prems(1) a] by auto
  have "card (avail s') = card (avail s) - 1"
    using in_s by (simp add: av)
  then have "n \<le> card (avail s')" and "finite (avail s')"
    using Suc.prems by (simp_all add: av)
  with Suc.IH alloc_inv [OF Suc.prems(1) a] obtain as t where "alloc_n n s' = Some (as, t)"
    by blast
  with a show ?case by simp
qed

lemma alloc_n_exhausts:
  assumes "inv s" and "finite (avail s)" and "alloc_n (card (avail s)) s = Some (as, t)"
  shows "alloc t = None"
proof -
  from alloc_n_distinct [OF assms(1,3)] have *: "distinct as" "set as \<union> avail t = avail s"
    "set as \<inter> avail t = {}" "length as = card (avail s)" "inv t" by auto
  then have "card (set as) = card (avail s)" by (simp add: distinct_card)
  with * assms(2) have "set as = avail s" by (metis Un_upper1 card_subset_eq)
  with * have "avail t = {}" by auto
  with \<open>inv t\<close> show ?thesis by (simp add: alloc_None)
qed

end

locale allocator_free = allocator inv avail alloc
  for inv :: "'s \<Rightarrow> bool" and avail :: "'s \<Rightarrow> 'a set" and alloc :: "'s \<Rightarrow> ('a \<times> 's) option" +
  fixes ok :: "'s \<Rightarrow> 'a \<Rightarrow> bool"
    and free :: "'s \<Rightarrow> 'a \<Rightarrow> 's option"
  assumes avail_ok: "inv s \<Longrightarrow> a \<in> avail s \<Longrightarrow> ok s a"
    and alloc_ok: "inv s \<Longrightarrow> alloc s = Some (a, s') \<Longrightarrow> ok s' = ok s"
    and free_gives: "inv s \<Longrightarrow> ok s a \<Longrightarrow> a \<notin> avail s \<Longrightarrow>
      \<exists>s'. free s a = Some s' \<and> inv s' \<and> avail s' = insert a (avail s) \<and> ok s' = ok s"
begin

text \<open>What is allocated can be put back, and the pool is then as before.\<close>

lemma alloc_free:
  assumes "inv s" and "alloc s = Some (a, s')"
  shows "\<exists>t. free s' a = Some t \<and> inv t \<and> avail t = avail s"
proof -
  have a: "a \<in> avail s" "avail s' = avail s - {a}" using alloc_takes [OF assms] by auto
  have inv': "inv s'" using alloc_inv [OF assms] .
  have "ok s' a" using avail_ok [OF assms(1) a(1)] alloc_ok [OF assms] by simp
  with free_gives [OF inv' this] a show ?thesis by auto
qed

end

end
