(* ===== verification/Xv6_Kalloc.thy ===== *)
theory Xv6_Kalloc
  imports Xv6_String Xv6_Allocator
begin

text \<open>
  The physical page allocator of \<^verbatim>\<open>kernel/kalloc.c\<close>. Free pages form a linked list
  threaded through the pages themselves: the first eight bytes of a free page hold the
  address of the next one. The state is the physical memory, the list head
  \<^verbatim>\<open>kmem.freelist\<close>, and the linker symbol \<^verbatim>\<open>end\<close>, the first address after the kernel.
  The sections between \<open>acquire(&kmem.lock)\<close> and its \<open>release\<close> are one step here; the lock
  itself is the subject of the spinlock theory.
\<close>

section \<open>State and operations\<close>

record kmem =
  k_mem :: mem
  k_freelist :: u64
  k_end :: u64

definition kfree :: "kmem \<Rightarrow> u64 \<Rightarrow> kmem res" where
  "kfree s pa =
     (if \<not> page_aligned pa \<or> pa < k_end s \<or> pa \<ge> PHYSTOP then Fail (Panic ''kfree'')
      else let m1 = memset (k_mem s) pa 1 4096;
               m2 = store64 m1 pa (k_freelist s)
           in Ok (s\<lparr>k_mem := m2, k_freelist := pa\<rparr>))"

text \<open>The result 0 is the null pointer: no page is free.\<close>

definition kalloc :: "kmem \<Rightarrow> u64 \<times> kmem" where
  "kalloc s =
     (let r = k_freelist s;
          s1 = (if r \<noteq> 0 then s\<lparr>k_freelist := load64 (k_mem s) r\<rparr> else s)
      in (r, if r \<noteq> 0 then s1\<lparr>k_mem := memset (k_mem s1) r 5 4096\<rparr> else s1))"

text \<open>
  The loop of \<open>freerange\<close>. It cannot run for ever: \<open>kfree\<close> panics on an address at or
  beyond \<open>PHYSTOP\<close>, so below it the address only grows.
\<close>

lemma kfree_Ok_bound: "kfree s p = Ok s' \<Longrightarrow> unat p < 0x88000000"
  by (auto simp: kfree_def Let_def word_le_nat_alt split: if_splits)

function freerange_loop :: "kmem \<Rightarrow> u64 \<Rightarrow> u64 \<Rightarrow> kmem res" where
  "freerange_loop s p pa_end =
     (if p + PGSIZE \<le> pa_end
      then rbind (kfree s p) (\<lambda>s'. freerange_loop s' (p + PGSIZE) pa_end)
      else Ok s)"
  by pat_completeness auto
termination
proof (relation "measure (\<lambda>(s, p, pa_end). 2 ^ 64 - unat p)")
  fix s p pa_end s'
  assume "kfree s p = Ok s'"
  then have p: "unat p < 0x88000000" by (rule kfree_Ok_bound)
  then have "unat (p + PGSIZE) = unat p + 4096"
    using unat_add_of_nat [of p 4096] by simp
  with p show "((s', p + PGSIZE, pa_end), s, p, pa_end) \<in> measure (\<lambda>(s, p, pa_end). 2 ^ 64 - unat p)"
    by simp
qed simp

declare freerange_loop.simps [simp del]

definition freerange :: "kmem \<Rightarrow> u64 \<Rightarrow> u64 \<Rightarrow> kmem res" where
  "freerange s pa_start pa_end = freerange_loop s (PGROUNDUP pa_start) pa_end"

definition kinit :: "kmem \<Rightarrow> kmem res" where
  "kinit s = freerange s (k_end s) PHYSTOP"

section \<open>Pages as regions\<close>

lemma in_page: "page_aligned p \<Longrightarrow> in_region x p 4096 \<longleftrightarrow> PGROUNDDOWN x = p"
proof -
  assume "page_aligned p"
  then obtain k where k: "unat p = 4096 * k" by (auto simp: page_aligned_unat)
  have "unat p < 2 ^ 64" using unat_less [of p] by simp
  then have "k < 2 ^ 52" using k by simp
  then have "unat p + 4096 \<le> 2 ^ 64" using k by simp
  then have "in_region x p 4096 \<longleftrightarrow> unat p \<le> unat x \<and> unat x < unat p + 4096"
    by (rule in_region_unat)
  also have "\<dots> \<longleftrightarrow> unat x div 4096 * 4096 = unat p"
    using k by (simp add: div_eq_iff_bounds mult.commute)
  finally show ?thesis by (simp add: word_unat_eq_iff unat_PGROUNDDOWN)
qed

lemma page_offset:
  assumes "page_aligned p" and "n < 4096"
  shows "PGROUNDDOWN (p + of_nat n) = p"
  using assms in_page [of p "p + of_nat n"] by (simp add: in_region_def unat_of_nat_small)

text \<open>\<open>slot p i\<close> is the address of the \<open>i\<close>-th 64-bit cell of page \<open>p\<close>: \<^verbatim>\<open>&p[i]\<close>.\<close>

definition slot :: "u64 \<Rightarrow> nat \<Rightarrow> u64" where
  "slot p i = p + of_nat (8 * i)"

lemma slot_0 [simp]: "slot p 0 = p"
  by (simp add: slot_def)

lemma slot_byte:
  assumes "page_aligned p" and "i < 512" and "j < 8"
  shows "PGROUNDDOWN (slot p i + of_nat j) = p"
proof -
  have "slot p i + of_nat j = p + of_nat (8 * i + j)" by (simp add: slot_def)
  then show ?thesis using assms by (simp only:) (rule page_offset, simp_all)
qed

lemma load64_slot_cong:
  assumes "page_aligned p" and "i < 512" and "\<And>x. PGROUNDDOWN x = p \<Longrightarrow> m x = m' x"
  shows "load64 m (slot p i) = load64 m' (slot p i)"
  by (rule load64_cong) (rule assms(3), rule slot_byte, use assms in simp_all)

lemma store64_slot_other_page:
  assumes "page_aligned p" and "i < 512" and "PGROUNDDOWN x \<noteq> p"
  shows "store64 m (slot p i) v x = m x"
proof (rule store64_other)
  show "\<not> in_region x (slot p i) 8"
  proof
    assume "in_region x (slot p i) 8"
    then have j: "unat (x - slot p i) < 8" by (simp add: in_region_def)
    have "x = slot p i + of_nat (unat (x - slot p i))" by simp
    with slot_byte [OF assms(1,2) j] have "PGROUNDDOWN x = p" by simp
    with assms(3) show False by simp
  qed
qed

lemma load64_store64_slot_neq:
  assumes "i < 512" and "j < 512" and "i \<noteq> j"
  shows "load64 (store64 m (slot p i) v) (slot p j) = load64 m (slot p j)"
proof (rule load64_cong)
  fix k :: nat assume k: "k < 8"
  have "\<not> in_region (slot p j + of_nat k) (slot p i) 8"
  proof
    assume "in_region (slot p j + of_nat k) (slot p i) 8"
    then have l: "unat (slot p j + of_nat k - slot p i) < 8" (is "?l < 8") by (simp add: in_region_def)
    have "slot p j + of_nat k = slot p i + of_nat ?l" by simp
    then have "(of_nat (8 * j + k) :: u64) = of_nat (8 * i + ?l)" by (simp add: slot_def)
    then have "8 * j + k = 8 * i + ?l"
      by (rule of_nat_inj_small) (use assms k l in simp_all)
    with k l assms(3) show False by presburger
  qed
  then show "store64 m (slot p i) v (slot p j + of_nat k) = m (slot p j + of_nat k)"
    by (rule store64_other)
qed

lemma memset_page_other:
  "page_aligned p \<Longrightarrow> PGROUNDDOWN x \<noteq> p \<Longrightarrow> memset m p c 4096 x = m x"
  by (simp add: memset_apply in_page)

lemma memset_page_same:
  "page_aligned p \<Longrightarrow> PGROUNDDOWN x = p \<Longrightarrow> memset m p c 4096 x = ucast c"
  by (simp add: memset_apply in_page)

lemma load64_memset_zero:
  assumes "page_aligned p" and "i < 512"
  shows "load64 (memset m p 0 4096) (slot p i) = 0"
proof -
  have "load64 (memset m p 0 4096) (slot p i) = load64 (\<lambda>_. 0) (slot p i)"
    by (rule load64_slot_cong) (use assms in \<open>simp_all add: memset_page_same\<close>)
  then show ?thesis by (simp add: load64_def)
qed

section \<open>The free list\<close>

text \<open>\<open>flist m p xs\<close>: following the links from \<open>p\<close> visits the pages \<open>xs\<close> and ends at 0.\<close>

primrec flist :: "mem \<Rightarrow> u64 \<Rightarrow> u64 list \<Rightarrow> bool" where
  "flist m p [] \<longleftrightarrow> p = 0"
| "flist m p (x # xs) \<longleftrightarrow> p = x \<and> p \<noteq> 0 \<and> flist m (load64 m p) xs"

text \<open>An address that \<open>kfree\<close> accepts.\<close>

definition page_ok :: "u64 \<Rightarrow> u64 \<Rightarrow> bool" where
  "page_ok e p \<longleftrightarrow> page_aligned p \<and> e \<le> p \<and> p < PHYSTOP"

definition kmem_inv :: "kmem \<Rightarrow> u64 list \<Rightarrow> bool" where
  "kmem_inv s xs \<longleftrightarrow> flist (k_mem s) (k_freelist s) xs \<and> distinct xs \<and>
     (\<forall>p\<in>set xs. page_ok (k_end s) p) \<and> 0 < k_end s"

text \<open>Two memories agree on the pages in \<open>P\<close>.\<close>

definition agree :: "u64 set \<Rightarrow> mem \<Rightarrow> mem \<Rightarrow> bool" where
  "agree P m m' \<longleftrightarrow> (\<forall>x. PGROUNDDOWN x \<in> P \<longrightarrow> m' x = m x)"

lemma agreeD: "agree P m m' \<Longrightarrow> PGROUNDDOWN x \<in> P \<Longrightarrow> m' x = m x"
  by (simp add: agree_def)

lemma agree_refl [simp]: "agree P m m"
  by (simp add: agree_def)

lemma agree_trans: "agree P m m' \<Longrightarrow> agree P m' m'' \<Longrightarrow> agree P m m''"
  by (simp add: agree_def)

lemma agree_mono: "agree P m m' \<Longrightarrow> Q \<subseteq> P \<Longrightarrow> agree Q m m'"
  by (auto simp: agree_def)

lemma agree_load64:
  assumes "agree P m m'" and "page_aligned p" and "p \<in> P" and "i < 512"
  shows "load64 m' (slot p i) = load64 m (slot p i)"
  using assms by (intro load64_slot_cong) (auto dest: agreeD)

lemma agree_load64_head:
  "agree P m m' \<Longrightarrow> page_aligned p \<Longrightarrow> p \<in> P \<Longrightarrow> load64 m' p = load64 m p"
  using agree_load64 [of P m m' p 0] by simp

lemma flist_agree:
  assumes "flist m p xs" and "agree (set xs) m m'" and "\<forall>q\<in>set xs. page_aligned q"
  shows "flist m' p xs"
  using assms
proof (induction xs arbitrary: p)
  case Nil
  then show ?case by simp
next
  case (Cons x xs)
  then have "load64 m' p = load64 m p" by (auto intro: agree_load64_head)
  moreover have "agree (set xs) m m'" using Cons.prems(2) by (auto intro: agree_mono)
  ultimately show ?case using Cons.prems Cons.IH by auto
qed

lemma flist_unique: "flist m p xs \<Longrightarrow> flist m p ys \<Longrightarrow> xs = ys"
proof (induction xs arbitrary: p ys)
  case Nil
  then show ?case by (cases ys) auto
next
  case (Cons x xs)
  then show ?case by (cases ys) auto
qed

lemma kmem_invD:
  assumes "kmem_inv s xs"
  shows "flist (k_mem s) (k_freelist s) xs" "distinct xs"
    "p \<in> set xs \<Longrightarrow> page_ok (k_end s) p" "p \<in> set xs \<Longrightarrow> page_aligned p"
    "p \<in> set xs \<Longrightarrow> p \<noteq> 0" "0 < k_end s"
  using assms by (auto simp: kmem_inv_def page_ok_def)

text \<open>A change of memory away from the free pages keeps the free list.\<close>

lemma kmem_inv_mem:
  assumes "kmem_inv s xs" and "agree (set xs) (k_mem s) m"
  shows "kmem_inv (s\<lparr>k_mem := m\<rparr>) xs"
  using assms by (auto simp: kmem_inv_def page_ok_def intro: flist_agree)

subsection \<open>kalloc and kfree\<close>

lemma kalloc_empty: "kmem_inv s [] \<Longrightarrow> kalloc s = (0, s)"
  by (simp add: kmem_inv_def kalloc_def)

lemma kalloc_nonempty:
  assumes "kmem_inv s (p # xs)"
  obtains s' where "kalloc s = (p, s')" "kmem_inv s' xs" "k_end s' = k_end s"
    "agree (- {p}) (k_mem s) (k_mem s')" "p \<noteq> 0" "page_ok (k_end s) p" "p \<notin> set xs"
proof -
  note inv = kmem_invD [OF assms]
  have p: "k_freelist s = p" "p \<noteq> 0" "flist (k_mem s) (load64 (k_mem s) p) xs"
    using inv(1) by auto
  have pa: "page_aligned p" using inv(4) by simp
  let ?s = "s\<lparr>k_freelist := load64 (k_mem s) p, k_mem := memset (k_mem s) p 5 4096\<rparr>"
  have ag: "agree (- {p}) (k_mem s) (memset (k_mem s) p 5 4096)"
    using pa by (auto simp: agree_def memset_page_other)
  have "agree (set xs) (k_mem s) (memset (k_mem s) p 5 4096)"
    using ag inv(2) by (auto intro: agree_mono)
  then have "flist (memset (k_mem s) p 5 4096) (load64 (k_mem s) p) xs"
    using p(3) inv(4) by (auto intro: flist_agree)
  then have "kmem_inv ?s xs" using assms by (auto simp: kmem_inv_def)
  moreover have "kalloc s = (p, ?s)" using p by (simp add: kalloc_def Let_def)
  ultimately show ?thesis
    using that [of ?s] p ag inv(2) inv(3) [of p] by simp
qed

lemma kfree_ok:
  assumes "kmem_inv s xs" and "page_ok (k_end s) p" and "p \<notin> set xs"
  obtains s' where "kfree s p = Ok s'" "kmem_inv s' (p # xs)" "k_end s' = k_end s"
    "agree (- {p}) (k_mem s) (k_mem s')"
proof -
  note inv = kmem_invD [OF assms(1)]
  have pa: "page_aligned p" "k_end s \<le> p" "p < PHYSTOP" using assms(2) by (auto simp: page_ok_def)
  have "p \<noteq> 0" using pa(2) inv(6) by auto
  let ?m = "store64 (memset (k_mem s) p 1 4096) p (k_freelist s)"
  let ?s = "s\<lparr>k_mem := ?m, k_freelist := p\<rparr>"
  have ag: "agree (- {p}) (k_mem s) ?m"
    using pa store64_slot_other_page [of p 0] by (auto simp: agree_def memset_page_other)
  have "agree (set xs) (k_mem s) ?m" using ag assms(3) by (auto intro: agree_mono)
  then have "flist ?m (k_freelist s) xs" using inv(1,4) by (auto intro: flist_agree)
  then have "kmem_inv ?s (p # xs)"
    using assms \<open>p \<noteq> 0\<close> by (auto simp: kmem_inv_def)
  moreover have "kfree s p = Ok ?s" using pa by (simp add: kfree_def Let_def not_less not_le)
  ultimately show ?thesis using that [of ?s] ag by simp
qed

lemma kfree_panics:
  "\<not> page_ok (k_end s) p \<Longrightarrow> kfree s p = Fail (Panic ''kfree'')"
  by (auto simp: kfree_def page_ok_def not_less not_le)

subsection \<open>kinit\<close>

text \<open>The pages \<open>a, a + 4096, \<dots>\<close>, the last one first: the order in which \<open>freerange\<close> leaves them.\<close>

primrec pages_rev :: "u64 \<Rightarrow> nat \<Rightarrow> u64 list" where
  "pages_rev a 0 = []"
| "pages_rev a (Suc n) = pages_rev (a + 4096) n @ [a]"

lemma page_step:
  assumes "page_aligned p" and "unat p + 4096 < 2 ^ 64"
  shows "unat (p + 4096) = unat p + 4096" and "page_aligned (p + 4096)"
proof -
  show *: "unat (p + 4096) = unat p + 4096"
    using unat_add_of_nat [of p 4096] assms(2) by simp
  show "page_aligned (p + 4096)"
    using assms(1) by (simp add: page_aligned_unat * mod_add_self2)
qed

lemma set_pages_rev:
  assumes "page_aligned a" and "unat a + 4096 * n < 2 ^ 64"
  shows "x \<in> set (pages_rev a n) \<longleftrightarrow> page_aligned x \<and> unat a \<le> unat x \<and> unat x < unat a + 4096 * n"
  using assms
proof (induction n arbitrary: a)
  case 0
  then show ?case by auto
next
  case (Suc n)
  have st: "unat (a + 4096) = unat a + 4096" "page_aligned (a + 4096)"
    using page_step [of a] Suc.prems by auto
  then have "x \<in> set (pages_rev (a + 4096) n) \<longleftrightarrow>
      page_aligned x \<and> unat a + 4096 \<le> unat x \<and> unat x < unat a + 4096 * Suc n"
    using Suc.IH [of "a + 4096"] Suc.prems by (simp add: add.assoc)
  moreover have "page_aligned x \<Longrightarrow> unat a \<le> unat x \<Longrightarrow> unat x < unat a + 4096 \<Longrightarrow> x = a"
  proof -
    assume x: "page_aligned x" "unat a \<le> unat x" "unat x < unat a + 4096"
    then obtain k l where "unat x = 4096 * k" "unat a = 4096 * l"
      using Suc.prems(1) by (auto simp: page_aligned_unat elim!: dvdE)
    with x have "unat x = unat a" by simp
    then show "x = a" by (simp add: word_unat_eq_iff)
  qed
  ultimately show ?case using Suc.prems by auto
qed

lemma distinct_pages_rev:
  assumes "page_aligned a" and "unat a + 4096 * n < 2 ^ 64"
  shows "distinct (pages_rev a n)"
  using assms
proof (induction n arbitrary: a)
  case (Suc n)
  have st: "unat (a + 4096) = unat a + 4096" "page_aligned (a + 4096)"
    using page_step [of a] Suc.prems by auto
  then have "a \<notin> set (pages_rev (a + 4096) n)"
    using Suc.prems by (subst set_pages_rev) auto
  then show ?case using Suc.IH [of "a + 4096"] st Suc.prems by simp
qed simp

lemma freerange_loop_spec:
  assumes "kmem_inv s xs" and "page_aligned p" and "k_end s \<le> p"
    and "unat p + 4096 * n \<le> unat pa_end" and "unat pa_end < unat p + 4096 * Suc n"
    and "unat pa_end \<le> 0x88000000" and "\<forall>x\<in>set xs. unat x < unat p"
  shows "\<exists>s'. freerange_loop s p pa_end = Ok s' \<and> kmem_inv s' (pages_rev p n @ xs) \<and> k_end s' = k_end s"
  using assms
proof (induction n arbitrary: s p xs)
  case 0
  have "unat (p + 4096) = unat p + 4096"
    using unat_add_of_nat [of p 4096] "0.prems" by simp
  then have "\<not> p + 4096 \<le> pa_end" using "0.prems" by (simp add: word_le_nat_alt)
  then show ?case using "0.prems" by (simp add: freerange_loop.simps)
next
  case (Suc n)
  have st: "unat (p + 4096) = unat p + 4096" "page_aligned (p + 4096)"
    using page_step [of p] Suc.prems by auto
  have le: "p + 4096 \<le> pa_end" using Suc.prems(4) by (simp add: word_le_nat_alt st)
  have ok: "page_ok (k_end s) p"
    using Suc.prems by (simp add: page_ok_def word_less_nat_alt)
  obtain s1 where s1: "kfree s p = Ok s1" "kmem_inv s1 (p # xs)" "k_end s1 = k_end s"
    using kfree_ok [OF Suc.prems(1) ok] Suc.prems(7) by auto
  have "k_end s \<le> p + 4096" using Suc.prems(3) by (simp add: word_le_nat_alt st)
  then obtain s' where "freerange_loop s1 (p + 4096) pa_end = Ok s'"
    "kmem_inv s' (pages_rev (p + 4096) n @ p # xs)" "k_end s' = k_end s"
    using Suc.IH [OF s1(2) st(2)] Suc.prems s1(3) st(1) by fastforce
  then show ?case using le s1 by (simp add: freerange_loop.simps)
qed

lemma kinit_list:
  assumes "k_freelist s = 0" and "0 < k_end s" and "k_end s \<le> PHYSTOP"
  obtains s' xs where "kinit s = Ok s'" "kmem_inv s' xs" "k_end s' = k_end s"
    "set xs = {p. page_ok (k_end s) p}"
proof -
  let ?a = "PGROUNDUP (k_end s)"
  define n where "n = (0x88000000 - unat ?a) div 4096"
  have e: "unat (k_end s) \<le> 0x88000000" using assms(3) by (simp add: word_le_nat_alt)
  have ua: "unat ?a = (unat (k_end s) + 4095) div 4096 * 4096"
    using e by (simp add: unat_PGROUNDUP)
  define q where "q = (unat (k_end s) + 4095) div 4096"
  have q: "unat (k_end s) + 4095 = 4096 * q + (unat (k_end s) + 4095) mod 4096"
    "(unat (k_end s) + 4095) mod 4096 < 4096" unfolding q_def by simp_all
  have "q < 557057" unfolding q_def using e by (intro less_mult_imp_div_less) simp
  then have a: "unat (k_end s) \<le> unat ?a" "unat ?a \<le> 0x88000000" "unat ?a < unat (k_end s) + 4096"
    unfolding ua q_def [symmetric] using e q by linarith+
  have n: "unat ?a + 4096 * n = 0x88000000"
    using a(2) unfolding n_def ua q_def [symmetric] by simp
  have inv: "kmem_inv s []" using assms by (simp add: kmem_inv_def)
  obtain s' where s': "freerange_loop s ?a PHYSTOP = Ok s'" "kmem_inv s' (pages_rev ?a n @ [])"
    "k_end s' = k_end s"
    using freerange_loop_spec [OF inv, of ?a n PHYSTOP] a n
    by (auto simp: word_le_nat_alt)
  have set: "p \<in> set (pages_rev ?a n) \<longleftrightarrow> page_aligned p \<and> unat ?a \<le> unat p \<and> unat p < 0x88000000" for p
    using set_pages_rev [of ?a n p] n by simp
  have "p \<in> set (pages_rev ?a n) \<longleftrightarrow> page_ok (k_end s) p" for p
  proof -
    have "unat ?a \<le> unat p" if p: "page_aligned p" "unat (k_end s) \<le> unat p"
    proof -
      obtain k where k: "unat p = 4096 * k" using p(1) by (auto simp: page_aligned_unat elim!: dvdE)
      show ?thesis using p(2) unfolding ua k by simp
    qed
    then show ?thesis using a
      by (auto simp: set page_ok_def word_le_nat_alt word_less_nat_alt)
  qed
  then show ?thesis using that [of s' "pages_rev ?a n"] s' by (simp add: kinit_def freerange_def set_eq_iff)
qed

section \<open>The allocator contract\<close>

definition kinv :: "kmem \<Rightarrow> bool" where
  "kinv s \<longleftrightarrow> (\<exists>xs. kmem_inv s xs)"

definition free_pages :: "kmem \<Rightarrow> u64 set" where
  "free_pages s = {p. \<exists>xs. kmem_inv s xs \<and> p \<in> set xs}"

definition kalloc_opt :: "kmem \<Rightarrow> (u64 \<times> kmem) option" where
  "kalloc_opt s = (case kalloc s of (p, s') \<Rightarrow> if p = 0 then None else Some (p, s'))"

definition kfree_opt :: "kmem \<Rightarrow> u64 \<Rightarrow> kmem option" where
  "kfree_opt s p = (case kfree s p of Ok s' \<Rightarrow> Some s' | Fail e \<Rightarrow> None)"

lemma kmem_inv_unique: "kmem_inv s xs \<Longrightarrow> kmem_inv s ys \<Longrightarrow> xs = ys"
  by (auto simp: kmem_inv_def intro: flist_unique)

lemma free_pages_eq: "kmem_inv s xs \<Longrightarrow> free_pages s = set xs"
  using kmem_inv_unique by (auto simp: free_pages_def)

lemma kinvI [intro]: "kmem_inv s xs \<Longrightarrow> kinv s"
  by (auto simp: kinv_def)

lemma kinvE:
  assumes "kinv s"
  obtains xs where "kmem_inv s xs" "free_pages s = set xs"
  using assms free_pages_eq by (auto simp: kinv_def)

lemma finite_free_pages [simp]: "kinv s \<Longrightarrow> finite (free_pages s)"
  by (auto elim: kinvE)

lemma free_pages_ok: "kinv s \<Longrightarrow> p \<in> free_pages s \<Longrightarrow> page_ok (k_end s) p"
  by (auto elim!: kinvE dest: kmem_invD(3))

lemma free_pages_nonzero: "kinv s \<Longrightarrow> 0 \<notin> free_pages s"
  by (auto elim!: kinvE dest: kmem_invD(5))

text \<open>The two outcomes of \<open>kalloc\<close> and the effect of \<open>kfree\<close>, over the set of free pages.\<close>

lemma kalloc_cases:
  assumes "kinv s"
  obtains (none) "kalloc s = (0, s)" "free_pages s = {}"
  | (page) p s' where "kalloc s = (p, s')" "kinv s'" "p \<in> free_pages s"
      "free_pages s' = free_pages s - {p}" "k_end s' = k_end s"
      "agree (- {p}) (k_mem s) (k_mem s')" "p \<noteq> 0" "page_ok (k_end s) p"
proof -
  obtain xs where xs: "kmem_inv s xs" "free_pages s = set xs" using assms by (rule kinvE)
  show ?thesis
  proof (cases xs)
    case Nil
    then show ?thesis using xs kalloc_empty none by simp
  next
    case (Cons p ys)
    then have inv: "kmem_inv s (p # ys)" using xs by simp
    obtain s' where s': "kalloc s = (p, s')" "kmem_inv s' ys" "k_end s' = k_end s"
      "agree (- {p}) (k_mem s) (k_mem s')" "p \<noteq> 0" "page_ok (k_end s) p" "p \<notin> set ys"
      using inv by (rule kalloc_nonempty)
    show ?thesis
      using page [OF s'(1)] s' xs Cons free_pages_eq [OF s'(2)] by auto
  qed
qed

lemma kfree_spec:
  assumes "kinv s" and "page_ok (k_end s) p" and "p \<notin> free_pages s"
  obtains s' where "kfree s p = Ok s'" "kinv s'" "free_pages s' = insert p (free_pages s)"
    "k_end s' = k_end s" "agree (- {p}) (k_mem s) (k_mem s')"
proof -
  obtain xs where xs: "kmem_inv s xs" "free_pages s = set xs" using assms(1) by (rule kinvE)
  obtain s' where s': "kfree s p = Ok s'" "kmem_inv s' (p # xs)" "k_end s' = k_end s"
    "agree (- {p}) (k_mem s) (k_mem s')"
    using kfree_ok [OF xs(1) assms(2)] assms(3) xs(2) by auto
  show ?thesis using that [OF s'(1)] s' xs free_pages_eq [OF s'(2)] by auto
qed

lemma kinv_mem:
  assumes "kinv s" and "agree (free_pages s) (k_mem s) m"
  shows "kinv (s\<lparr>k_mem := m\<rparr>)" and "free_pages (s\<lparr>k_mem := m\<rparr>) = free_pages s"
proof -
  obtain xs where xs: "kmem_inv s xs" "free_pages s = set xs" using assms(1) by (rule kinvE)
  then have "kmem_inv (s\<lparr>k_mem := m\<rparr>) xs" using assms(2) by (auto intro: kmem_inv_mem)
  then show "kinv (s\<lparr>k_mem := m\<rparr>)" "free_pages (s\<lparr>k_mem := m\<rparr>) = free_pages s"
    using xs free_pages_eq by auto
qed

interpretation pg: allocator_free kinv free_pages kalloc_opt "\<lambda>s. page_ok (k_end s)" kfree_opt
proof unfold_locales
  fix s a s'
  assume inv: "kinv s"
  show "kalloc_opt s = None \<longleftrightarrow> free_pages s = {}"
    using inv by (cases rule: kalloc_cases) (auto simp: kalloc_opt_def)
  assume a: "kalloc_opt s = Some (a, s')"
  show "a \<in> free_pages s \<and> free_pages s' = free_pages s - {a}" "kinv s'"
    "page_ok (k_end s') = page_ok (k_end s)"
    using inv a by (cases rule: kalloc_cases; auto simp: kalloc_opt_def)+
next
  fix s a
  assume inv: "kinv s"
  show "a \<in> free_pages s \<Longrightarrow> page_ok (k_end s) a" using inv by (rule free_pages_ok)
  assume "page_ok (k_end s) a" "a \<notin> free_pages s"
  with inv obtain s' where "kfree s a = Ok s'" "kinv s'" "free_pages s' = insert a (free_pages s)"
    "k_end s' = k_end s"
    by (rule kfree_spec)
  then have "kfree_opt s a = Some s' \<and> kinv s' \<and> free_pages s' = insert a (free_pages s) \<and>
      page_ok (k_end s') = page_ok (k_end s)"
    by (simp add: kfree_opt_def)
  then show "\<exists>s'. kfree_opt s a = Some s' \<and> kinv s' \<and> free_pages s' = insert a (free_pages s) \<and>
      page_ok (k_end s') = page_ok (k_end s)"
    by (rule exI)
qed

text \<open>A memory with a single free page, for concrete runs.\<close>

definition one_page :: kmem where
  "one_page = \<lparr>k_mem = (\<lambda>_. 0), k_freelist = 0x87fff000, k_end = 0x80021d00\<rparr>"

lemma load64_zero_mem [simp]: "load64 (\<lambda>_. 0) a = 0"
  by (simp add: load64_def le_word_const_0)

lemma one_page_inv: "kmem_inv one_page [0x87fff000]"
  by (simp add: kmem_inv_def one_page_def page_ok_def page_aligned_def)

lemma one_page_kalloc:
  "kalloc one_page = (0x87fff000, one_page\<lparr>k_freelist := 0, k_mem := memset (\<lambda>_. 0) 0x87fff000 5 4096\<rparr>)"
  by (simp add: kalloc_def one_page_def)

section \<open>Properties\<close>

text \<open>
  C24: \<open>kinit\<close> returns, and the free list then holds exactly the page-aligned addresses from
  the end of the kernel up to \<open>PHYSTOP\<close>.
\<close>

theorem kinit_frees_all:
  assumes "k_freelist s = 0" and "0 < k_end s" and "k_end s \<le> PHYSTOP"
  shows "\<exists>s'. kinit s = Ok s' \<and> kinv s' \<and>
    free_pages s' = {p. page_aligned p \<and> k_end s \<le> p \<and> p < PHYSTOP}"
proof -
  obtain s' xs where s': "kinit s = Ok s'" "kmem_inv s' xs" "k_end s' = k_end s"
    "set xs = {p. page_ok (k_end s) p}"
    using assms by (rule kinit_list)
  have "free_pages s' = {p. page_ok (k_end s) p}" using free_pages_eq [OF s'(2)] s'(4) by simp
  then show ?thesis using s'(1) kinvI [OF s'(2)] by (simp add: page_ok_def)
qed

theorem kinit_frees_all_witness:
  "\<exists>s'. kinit \<lparr>k_mem = (\<lambda>_. 0), k_freelist = 0, k_end = 0x80021d00\<rparr> = Ok s' \<and> kinv s' \<and>
    free_pages s' = {p. page_aligned p \<and> 0x80021d00 \<le> p \<and> p < PHYSTOP}"
  using kinit_frees_all [of "\<lparr>k_mem = (\<lambda>_. 0), k_freelist = 0, k_end = 0x80021d00\<rparr>"] by simp

text \<open>
  C25: any number of \<open>kalloc\<close> calls that succeed return pairwise different pages, each of which
  was free, and leave exactly the others free.
\<close>

theorem kalloc_distinct_pages:
  assumes "kinv s" and "pg.alloc_n n s = Some (ps, t)"
  shows "distinct ps \<and> length ps = n \<and> set ps \<union> free_pages t = free_pages s \<and>
    set ps \<inter> free_pages t = {} \<and> kinv t"
  using pg.alloc_n_distinct [OF assms] by blast

theorem kalloc_distinct_pages_witness:
  "\<exists>t. pg.alloc_n 1 one_page = Some ([0x87fff000], t) \<and> free_pages t = {}"
proof -
  have inv: "kinv one_page" "free_pages one_page = {0x87fff000}"
    using one_page_inv free_pages_eq [OF one_page_inv] by auto
  have "\<exists>t. pg.alloc_n 1 one_page = Some ([0x87fff000], t)"
    by (simp add: kalloc_opt_def one_page_kalloc)
  then obtain t where t: "pg.alloc_n 1 one_page = Some ([0x87fff000], t)" ..
  from kalloc_distinct_pages [OF inv(1) t] inv(2) have "free_pages t = {}" by auto
  with t show ?thesis by blast
qed

text \<open>
  C26: a page that \<open>kalloc\<close> returns can be given back to \<open>kfree\<close>: it does not panic and the set
  of free pages is then what it was; and only the bytes of that page have changed.
\<close>

theorem kalloc_then_kfree:
  assumes "kinv s" and "kalloc s = (p, s')" and "p \<noteq> 0"
  shows "\<exists>t. kfree s' p = Ok t \<and> kinv t \<and> free_pages t = free_pages s \<and>
    agree (- {p}) (k_mem s) (k_mem t)"
proof -
  have s': "kinv s'" "p \<in> free_pages s" "free_pages s' = free_pages s - {p}" "k_end s' = k_end s"
    "agree (- {p}) (k_mem s) (k_mem s')" "page_ok (k_end s) p"
    using assms(1) by (cases rule: kalloc_cases; use assms(2,3) in auto)+
  then have fr: "page_ok (k_end s') p" "p \<notin> free_pages s'" by auto
  obtain t where "kfree s' p = Ok t" "kinv t" "free_pages t = insert p (free_pages s')"
    "k_end t = k_end s'" "agree (- {p}) (k_mem s') (k_mem t)"
    using s'(1) fr by (rule kfree_spec)
  with s' show ?thesis by (auto intro: agree_trans)
qed

theorem kalloc_then_kfree_witness:
  "\<exists>t. kfree (snd (kalloc one_page)) 0x87fff000 = Ok t \<and> free_pages t = {0x87fff000}"
proof -
  have inv: "kinv one_page" "free_pages one_page = {0x87fff000}"
    using one_page_inv free_pages_eq [OF one_page_inv] by auto
  have "kalloc one_page = (0x87fff000, snd (kalloc one_page))" by (simp add: one_page_kalloc)
  from kalloc_then_kfree [OF inv(1) this] inv(2) show ?thesis by auto
qed

end
