(* ===== verification/Xv6_Vm.thy ===== *)
theory Xv6_Vm
  imports Xv6_Kalloc
begin

text \<open>
  Page tables and user memory: \<^verbatim>\<open>kernel/vm.c\<close>, in the configuration the Makefile
  builds (\<^verbatim>\<open>LAB_PGTBL\<close> defined). The kernel runs with physical memory mapped at its own
  address, so a page table is a page of the physical memory \<open>k_mem\<close>, a \<open>pte_t *\<close> is an
  address, and \<open>*pte\<close> is an aligned 64-bit access. Every operation takes the allocator state
  and returns the new one. The null pointer is 0; an access through it, which the hardware
  would fault on, is \<open>Fail (Fault _)\<close>.
\<close>

section \<open>walk\<close>

text \<open>The \<open>for\<close> loop over the levels; the first argument is the level still to be looked at.\<close>

primrec walk_loop :: "nat \<Rightarrow> kmem \<Rightarrow> u64 \<Rightarrow> u64 \<Rightarrow> bool \<Rightarrow> u64 \<times> kmem" where
  "walk_loop 0 s pagetable va alloc = (slot pagetable (unat (PX 0 va)), s)"
| "walk_loop (Suc level) s pagetable va alloc =
     (let pte = slot pagetable (unat (PX (Suc level) va));
          e = load64 (k_mem s) pte
      in if e AND PTE_V \<noteq> 0
         then if PTE_LEAF e \<noteq> 0 then (pte, s)
              else walk_loop level s (PTE2PA e) va alloc
         else if \<not> alloc then (0, s)
         else (case kalloc s of (p, s1) \<Rightarrow>
           if p = 0 then (0, s1)
           else let m1 = memset (k_mem s1) p 0 4096;
                    m2 = store64 m1 pte (PA2PTE p OR PTE_V)
                in walk_loop level (s1\<lparr>k_mem := m2\<rparr>) p va alloc))"

definition walk :: "kmem \<Rightarrow> u64 \<Rightarrow> u64 \<Rightarrow> bool \<Rightarrow> (u64 \<times> kmem) res" where
  "walk s pagetable va alloc =
     (if va \<ge> MAXVA then Fail (Panic ''walk'')
      else Ok (walk_loop 2 s pagetable va alloc))"

lemma walk_Ok_bound: "walk s pt va alloc = Ok r \<Longrightarrow> unat va < 2 ^ 38"
  by (simp add: walk_def word_le_nat_alt)

definition walkaddr :: "kmem \<Rightarrow> u64 \<Rightarrow> u64 \<Rightarrow> u64 res" where
  "walkaddr s pagetable va =
     (if va \<ge> MAXVA then Ok 0
      else rbind (walk s pagetable va False) (\<lambda>(pte, _).
        if pte = 0 then Ok 0
        else let e = load64 (k_mem s) pte in
          if e AND PTE_V = 0 then Ok 0
          else if e AND PTE_U = 0 then Ok 0
          else Ok (PTE2PA e)))"

definition pgpte :: "kmem \<Rightarrow> u64 \<Rightarrow> u64 \<Rightarrow> u64 res" where
  "pgpte s pagetable va = rbind (walk s pagetable va False) (\<lambda>(pte, _). Ok pte)"

section \<open>Mapping and unmapping\<close>

text \<open>
  The loops below advance by a page per round and call \<open>walk\<close>, which panics beyond \<open>MAXVA\<close>;
  this bounds them whatever their other arguments are.
\<close>

lemma page_up_decreases:
  assumes "unat (a :: u64) < 2 ^ 38"
  shows "2 ^ 64 - unat (a + 4096) < 2 ^ 64 - unat a"
proof -
  have "unat (a + 4096) = unat a + 4096" using unat_add_of_nat [of a 4096] assms by simp
  then show ?thesis using assms by simp
qed

text \<open>\<open>perm\<close> is an \<open>int\<close>, sign-extended where it meets the 64-bit entry.\<close>

function mappages_loop :: "kmem \<Rightarrow> u64 \<Rightarrow> u64 \<Rightarrow> u64 \<Rightarrow> u64 \<Rightarrow> u32 \<Rightarrow> (int \<times> kmem) res" where
  "mappages_loop s pagetable a last_a pa perm =
     rbind (walk s pagetable a True) (\<lambda>(pte, s1).
       if pte = 0 then Ok (-1, s1)
       else if load64 (k_mem s1) pte AND PTE_V \<noteq> 0 then Fail (Panic ''mappages: remap'')
       else let s2 = s1\<lparr>k_mem := store64 (k_mem s1) pte (PA2PTE pa OR scast perm OR PTE_V)\<rparr> in
         if a = last_a then Ok (0, s2)
         else mappages_loop s2 pagetable (a + PGSIZE) last_a (pa + PGSIZE) perm)"
  by pat_completeness auto
termination
  by (relation "measure (\<lambda>(s, pt, a, last_a, pa, perm). 2 ^ 64 - unat a)")
    (auto dest!: walk_Ok_bound page_up_decreases)

declare mappages_loop.simps [simp del]

definition mappages :: "kmem \<Rightarrow> u64 \<Rightarrow> u64 \<Rightarrow> u64 \<Rightarrow> u64 \<Rightarrow> u32 \<Rightarrow> (int \<times> kmem) res" where
  "mappages s pagetable va sz pa perm =
     (if va mod PGSIZE \<noteq> 0 then Fail (Panic ''mappages: va not aligned'')
      else if sz mod PGSIZE \<noteq> 0 then Fail (Panic ''mappages: size not aligned'')
      else if sz = 0 then Fail (Panic ''mappages: size'')
      else mappages_loop s pagetable va (va + sz - PGSIZE) pa perm)"

definition kvmmap :: "kmem \<Rightarrow> u64 \<Rightarrow> u64 \<Rightarrow> u64 \<Rightarrow> u64 \<Rightarrow> u32 \<Rightarrow> kmem res" where
  "kvmmap s kpgtbl va pa sz perm =
     rbind (mappages s kpgtbl va sz pa perm) (\<lambda>(r, s1).
       if r \<noteq> 0 then Fail (Panic ''kvmmap'') else Ok s1)"

text \<open>\<open>e\<close> is the end of the range, \<open>va + npages*PGSIZE\<close>.\<close>

function uvmunmap_loop :: "kmem \<Rightarrow> u64 \<Rightarrow> u64 \<Rightarrow> u64 \<Rightarrow> bool \<Rightarrow> kmem res" where
  "uvmunmap_loop s pagetable a e do_free =
     (if a < e
      then rbind (walk s pagetable a False) (\<lambda>(pte, _).
        if pte = 0 then Fail (Panic ''uvmunmap: walk'')
        else let v = load64 (k_mem s) pte in
          if v AND PTE_V = 0 then Fail (Panic ''uvmunmap: not mapped'')
          else if PTE_FLAGS v = PTE_V then Fail (Panic ''uvmunmap: not a leaf'')
          else rbind (if do_free then kfree s (PTE2PA v) else Ok s) (\<lambda>s1.
            uvmunmap_loop (s1\<lparr>k_mem := store64 (k_mem s1) pte 0\<rparr>) pagetable (a + PGSIZE) e do_free))
      else Ok s)"
  by pat_completeness auto
termination
  by (relation "measure (\<lambda>(s, pt, a, e, do_free). 2 ^ 64 - unat a)")
    (auto dest!: walk_Ok_bound page_up_decreases)

declare uvmunmap_loop.simps [simp del]

definition uvmunmap :: "kmem \<Rightarrow> u64 \<Rightarrow> u64 \<Rightarrow> u64 \<Rightarrow> bool \<Rightarrow> kmem res" where
  "uvmunmap s pagetable va npages do_free =
     (if va mod PGSIZE \<noteq> 0 then Fail (Panic ''uvmunmap: not aligned'')
      else uvmunmap_loop s pagetable va (va + npages * PGSIZE) do_free)"

section \<open>User address spaces\<close>

definition uvmcreate :: "kmem \<Rightarrow> u64 \<times> kmem" where
  "uvmcreate s =
     (case kalloc s of (p, s1) \<Rightarrow>
       if p = 0 then (0, s1) else (p, s1\<lparr>k_mem := memset (k_mem s1) p 0 4096\<rparr>))"

definition uvmfirst :: "kmem \<Rightarrow> u64 \<Rightarrow> u64 \<Rightarrow> u32 \<Rightarrow> kmem res" where
  "uvmfirst s pagetable src sz =
     (if ucast sz \<ge> PGSIZE then Fail (Panic ''uvmfirst: more than a page'')
      else case kalloc s of (p, s1) \<Rightarrow>
        if p = 0 then Fail (Fault ''null page'')
        else rbind (mappages (s1\<lparr>k_mem := memset (k_mem s1) p 0 4096\<rparr>) pagetable 0 PGSIZE p
                     (ucast (PTE_W OR PTE_R OR PTE_X OR PTE_U)))
               (\<lambda>(_, s2). Ok (s2\<lparr>k_mem := memmove (k_mem s2) p src sz\<rparr>)))"

text \<open>The \<open>int npages\<close> of \<open>uvmdealloc\<close> is cut to 32 bits and sign-extended by the call.\<close>

definition uvmdealloc :: "kmem \<Rightarrow> u64 \<Rightarrow> u64 \<Rightarrow> u64 \<Rightarrow> (u64 \<times> kmem) res" where
  "uvmdealloc s pagetable oldsz newsz =
     (if newsz \<ge> oldsz then Ok (oldsz, s)
      else if PGROUNDUP newsz < PGROUNDUP oldsz
      then let npages = ucast ((PGROUNDUP oldsz - PGROUNDUP newsz) div PGSIZE) :: u32 in
        rbind (uvmunmap s pagetable (PGROUNDUP newsz) (scast npages) True) (\<lambda>s1. Ok (newsz, s1))
      else Ok (newsz, s))"

lemma mappages_Ok_bound: "mappages s pt va sz pa perm = Ok r \<Longrightarrow> unat va < 2 ^ 38"
  by (auto simp: mappages_def mappages_loop.simps [of s pt va] elim!: rbind_OkE dest: walk_Ok_bound)

function uvmalloc_loop :: "kmem \<Rightarrow> u64 \<Rightarrow> u64 \<Rightarrow> u64 \<Rightarrow> u64 \<Rightarrow> u32 \<Rightarrow> (u64 \<times> kmem) res" where
  "uvmalloc_loop s pagetable a oldsz newsz xperm =
     (if a < newsz
      then case kalloc s of (p, s1) \<Rightarrow>
        if p = 0 then rbind (uvmdealloc s1 pagetable a oldsz) (\<lambda>(_, s2). Ok (0, s2))
        else rbind (mappages (s1\<lparr>k_mem := memset (k_mem s1) p 0 4096\<rparr>) pagetable a PGSIZE p
                     (ucast (PTE_R OR PTE_U) OR xperm)) (\<lambda>(r, s2).
          if r \<noteq> 0
          then rbind (kfree s2 p) (\<lambda>s3.
               rbind (uvmdealloc s3 pagetable a oldsz) (\<lambda>(_, s4). Ok (0, s4)))
          else uvmalloc_loop s2 pagetable (a + PGSIZE) oldsz newsz xperm)
      else Ok (newsz, s))"
  by pat_completeness auto
termination
  by (relation "measure (\<lambda>(s, pt, a, oldsz, newsz, xperm). 2 ^ 64 - unat a)")
    (auto dest!: mappages_Ok_bound page_up_decreases)

declare uvmalloc_loop.simps [simp del]

definition uvmalloc :: "kmem \<Rightarrow> u64 \<Rightarrow> u64 \<Rightarrow> u64 \<Rightarrow> u32 \<Rightarrow> (u64 \<times> kmem) res" where
  "uvmalloc s pagetable oldsz newsz xperm =
     (if newsz < oldsz then Ok (oldsz, s)
      else uvmalloc_loop s pagetable (PGROUNDUP oldsz) (PGROUNDUP oldsz) newsz xperm)"

text \<open>
  \<open>freewalk\<close> recurses into every child table. The first argument bounds the depth of the
  recursion; a table of three levels needs three, and a cyclic one would overflow the kernel
  stack.
\<close>

primrec freewalk :: "nat \<Rightarrow> u64 \<Rightarrow> kmem \<Rightarrow> kmem res" where
  "freewalk 0 pagetable s = Fail (Fault ''kernel stack'')"
| "freewalk (Suc depth) pagetable s =
     rbind (rfold (\<lambda>i s.
         let pte = load64 (k_mem s) (slot pagetable i) in
         if pte AND PTE_V \<noteq> 0 \<and> pte AND (PTE_R OR PTE_W OR PTE_X) = 0
         then rbind (freewalk depth (PTE2PA pte) s) (\<lambda>s1.
                Ok (s1\<lparr>k_mem := store64 (k_mem s1) (slot pagetable i) 0\<rparr>))
         else if pte AND PTE_V \<noteq> 0 then Fail (Panic ''freewalk: leaf'')
         else Ok s) [0..<512] s)
       (\<lambda>s. kfree s pagetable)"

definition uvmfree :: "kmem \<Rightarrow> u64 \<Rightarrow> u64 \<Rightarrow> kmem res" where
  "uvmfree s pagetable sz =
     rbind (if sz > 0 then uvmunmap s pagetable 0 (PGROUNDUP sz div PGSIZE) True else Ok s)
       (\<lambda>s1. freewalk 3 pagetable s1)"

text \<open>The loop of \<open>uvmcopy\<close> with its error exit \<open>err:\<close>.\<close>

function uvmcopy_loop :: "kmem \<Rightarrow> u64 \<Rightarrow> u64 \<Rightarrow> u64 \<Rightarrow> u64 \<Rightarrow> (int \<times> kmem) res" where
  "uvmcopy_loop s old new i sz =
     (if i < sz
      then rbind (walk s old i False) (\<lambda>(pte, _).
        if pte = 0 then Fail (Panic ''uvmcopy: pte should exist'')
        else let e = load64 (k_mem s) pte in
          if e AND PTE_V = 0 then Fail (Panic ''uvmcopy: page not present'')
          else let pa = PTE2PA e; flags = ucast (PTE_FLAGS e) :: u32 in
            case kalloc s of (p, s1) \<Rightarrow>
              if p = 0 then rbind (uvmunmap s1 new 0 (i div PGSIZE) True) (\<lambda>s2. Ok (-1, s2))
              else let s2 = s1\<lparr>k_mem := memmove (k_mem s1) p pa 4096\<rparr> in
                rbind (mappages s2 new i PGSIZE p flags) (\<lambda>(r, s3).
                  if r \<noteq> 0
                  then rbind (kfree s3 p) (\<lambda>s4.
                       rbind (uvmunmap s4 new 0 (i div PGSIZE) True) (\<lambda>s5. Ok (-1, s5)))
                  else uvmcopy_loop s3 old new (i + PGSIZE) sz))
      else Ok (0, s))"
  by pat_completeness auto
termination
  by (relation "measure (\<lambda>(s, old, new, i, sz). 2 ^ 64 - unat i)")
    (auto dest!: walk_Ok_bound page_up_decreases)

declare uvmcopy_loop.simps [simp del]

definition uvmcopy :: "kmem \<Rightarrow> u64 \<Rightarrow> u64 \<Rightarrow> u64 \<Rightarrow> (int \<times> kmem) res" where
  "uvmcopy s old new sz = uvmcopy_loop s old new 0 sz"

definition uvmclear :: "kmem \<Rightarrow> u64 \<Rightarrow> u64 \<Rightarrow> kmem res" where
  "uvmclear s pagetable va =
     rbind (walk s pagetable va False) (\<lambda>(pte, _).
       if pte = 0 then Fail (Panic ''uvmclear'')
       else Ok (s\<lparr>k_mem := store64 (k_mem s) pte (load64 (k_mem s) pte AND NOT PTE_U)\<rparr>))"

section \<open>Copying between kernel and user memory\<close>

text \<open>The number of bytes a round of the copy loops moves: to the end of the page, at most \<open>len\<close>.\<close>

definition chunk :: "u64 \<Rightarrow> u64 \<Rightarrow> u64" where
  "chunk va len = (let n = PGSIZE - (va - PGROUNDDOWN va) in if n > len then len else n)"

lemma unat_chunk: "unat (chunk va len) = min (4096 - unat va mod 4096) (unat len)"
proof -
  have lt: "unat va mod 4096 < 4096" by simp
  have "unat (4096 - (va - PGROUNDDOWN va)) = 4096 - unat va mod 4096"
    using lt by (subst unat_diff_le) (simp_all add: word_le_nat_alt PGROUNDDOWN_offset)
  then show ?thesis by (auto simp: chunk_def Let_def word_less_nat_alt)
qed

lemma chunk_bounds:
  assumes "0 < len"
  shows "0 < unat (chunk va len)" "unat (chunk va len) \<le> unat len" "unat (chunk va len) \<le> 4096"
    "unat (len - chunk va len) = unat len - unat (chunk va len)"
proof -
  have len: "0 < unat len" using assms by (simp add: word_less_nat_alt)
  have "unat va mod 4096 < 4096" by simp
  then show "0 < unat (chunk va len)" using len unfolding unat_chunk by linarith
  show le: "unat (chunk va len) \<le> unat len" "unat (chunk va len) \<le> 4096"
    unfolding unat_chunk by auto
  show "unat (len - chunk va len) = unat len - unat (chunk va len)"
    using le by (simp add: unat_diff_le word_le_nat_alt)
qed

lemma chunk_decreases: "0 < len \<Longrightarrow> unat (len - chunk va len) < unat len"
  using chunk_bounds [of len va] by (simp add: word_less_nat_alt)

function copyout :: "kmem \<Rightarrow> u64 \<Rightarrow> u64 \<Rightarrow> u64 \<Rightarrow> u64 \<Rightarrow> (int \<times> kmem) res" where
  "copyout s pagetable dstva src len =
     (if len > 0
      then let va0 = PGROUNDDOWN dstva in
        if va0 \<ge> MAXVA then Ok (-1, s)
        else rbind (walk s pagetable va0 False) (\<lambda>(pte, _).
          if pte = 0 then Ok (-1, s)
          else if load64 (k_mem s) pte AND PTE_W = 0 then Ok (-1, s)
          else rbind (walkaddr s pagetable va0) (\<lambda>pa0.
            if pa0 = 0 then Ok (-1, s)
            else let n = chunk dstva len in
              copyout (s\<lparr>k_mem := memmove (k_mem s) (pa0 + (dstva - va0)) src (ucast n)\<rparr>)
                pagetable (va0 + PGSIZE) (src + n) (len - n)))
      else Ok (0, s))"
  by pat_completeness auto
termination
  by (relation "measure (\<lambda>(s, pt, dstva, src, len). unat len)") (simp_all add: chunk_decreases)

declare copyout.simps [simp del]

function copyin :: "kmem \<Rightarrow> u64 \<Rightarrow> u64 \<Rightarrow> u64 \<Rightarrow> u64 \<Rightarrow> (int \<times> kmem) res" where
  "copyin s pagetable dst srcva len =
     (if len > 0
      then let va0 = PGROUNDDOWN srcva in
        rbind (walkaddr s pagetable va0) (\<lambda>pa0.
          if pa0 = 0 then Ok (-1, s)
          else let n = chunk srcva len in
            copyin (s\<lparr>k_mem := memmove (k_mem s) dst (pa0 + (srcva - va0)) (ucast n)\<rparr>)
              pagetable (dst + n) (va0 + PGSIZE) (len - n))
      else Ok (0, s))"
  by pat_completeness auto
termination
  by (relation "measure (\<lambda>(s, pt, dst, srcva, len). unat len)") (simp_all add: chunk_decreases)

declare copyin.simps [simp del]

text \<open>The inner loop of \<open>copyinstr\<close>: whether a NUL was met, and the memory.\<close>

primrec copyinstr_page :: "mem \<Rightarrow> u64 \<Rightarrow> u64 \<Rightarrow> nat \<Rightarrow> bool \<times> mem" where
  "copyinstr_page m dst p 0 = (False, m)"
| "copyinstr_page m dst p (Suc n) =
     (if m p = 0 then (True, m(dst := 0))
      else copyinstr_page (m(dst := m p)) (dst + 1) (p + 1) n)"

function copyinstr :: "kmem \<Rightarrow> u64 \<Rightarrow> u64 \<Rightarrow> u64 \<Rightarrow> u64 \<Rightarrow> (int \<times> kmem) res" where
  "copyinstr s pagetable dst srcva mx =
     (if mx > 0
      then let va0 = PGROUNDDOWN srcva in
        rbind (walkaddr s pagetable va0) (\<lambda>pa0.
          if pa0 = 0 then Ok (-1, s)
          else let n = chunk srcva mx in
            case copyinstr_page (k_mem s) dst (pa0 + (srcva - va0)) (unat n) of (got_null, m) \<Rightarrow>
              if got_null then Ok (0, s\<lparr>k_mem := m\<rparr>)
              else copyinstr (s\<lparr>k_mem := m\<rparr>) pagetable (dst + n) (va0 + PGSIZE) (mx - n))
      else Ok (-1, s))"
  by pat_completeness auto
termination
  by (relation "measure (\<lambda>(s, pt, dst, srcva, mx). unat mx)") (simp_all add: chunk_decreases)

declare copyinstr.simps [simp del]

section \<open>The kernel's own page table\<close>

text \<open>
  \<open>etext\<close> and \<open>trampoline\<close> are linker symbols. \<open>proc_mapstacks\<close> is in \<^verbatim>\<open>kernel/proc.c\<close>.
\<close>

definition proc_mapstacks :: "kmem \<Rightarrow> u64 \<Rightarrow> kmem res" where
  "proc_mapstacks s kpgtbl =
     rfold (\<lambda>i s. case kalloc s of (pa, s1) \<Rightarrow>
         if pa = 0 then Fail (Panic ''kalloc'')
         else kvmmap s1 kpgtbl (KSTACK (of_nat i)) pa PGSIZE (ucast (PTE_R OR PTE_W)))
       [0..<NPROC] s"

definition kvmmake :: "u64 \<Rightarrow> u64 \<Rightarrow> kmem \<Rightarrow> (u64 \<times> kmem) res" where
  "kvmmake etext trampoline s0 =
     (case kalloc s0 of (kpgtbl, s1) \<Rightarrow>
       if kpgtbl = 0 then Fail (Fault ''null page'')
       else
       let s2 = s1\<lparr>k_mem := memset (k_mem s1) kpgtbl 0 4096\<rparr>;
           rw = ucast (PTE_R OR PTE_W);
           rx = ucast (PTE_R OR PTE_X)
       in rbind (kvmmap s2 kpgtbl UART0 UART0 PGSIZE rw) (\<lambda>s3.
          rbind (kvmmap s3 kpgtbl VIRTIO0 VIRTIO0 PGSIZE rw) (\<lambda>s4.
          rbind (kvmmap s4 kpgtbl PLIC PLIC 0x4000000 rw) (\<lambda>s5.
          rbind (kvmmap s5 kpgtbl KERNBASE KERNBASE (etext - KERNBASE) rx) (\<lambda>s6.
          rbind (kvmmap s6 kpgtbl etext etext (PHYSTOP - etext) rw) (\<lambda>s7.
          rbind (kvmmap s7 kpgtbl TRAMPOLINE trampoline PGSIZE rx) (\<lambda>s8.
          rbind (proc_mapstacks s8 kpgtbl) (\<lambda>s9. Ok (kpgtbl, s9)))))))))"

definition SATP_SV39 :: u64 where
  "SATP_SV39 = push_bit 60 8"

definition MAKE_SATP :: "u64 \<Rightarrow> u64" where
  "MAKE_SATP pagetable = SATP_SV39 OR drop_bit 12 pagetable"

end
