(* ===== verification/Xv6_PageTable.thy ===== *)
theory Xv6_PageTable
  imports Xv6_Vm
begin

text \<open>
  The page-table tree in memory and \<open>walk\<close>. \<open>tables\<close> is the set of pages a table occupies,
  \<open>wf_pt\<close> says that it is a tree of distinct allocated pages without leaves above the lowest
  level, and \<open>pte_of\<close> is the entry that translates an address. \<open>walk\<close> finds that entry, and
  with \<open>alloc\<close> set grows the tree by pages from the free list without changing any translation.
\<close>

section \<open>Tables as trees\<close>

definition ix :: "nat \<Rightarrow> u64 \<Rightarrow> nat" where
  "ix l va = unat (PX l va)"

definition ent :: "mem \<Rightarrow> u64 \<Rightarrow> nat \<Rightarrow> u64" where
  "ent m pt i = load64 m (slot pt i)"

definition kids :: "mem \<Rightarrow> u64 \<Rightarrow> nat set" where
  "kids m pt = {i. i < 512 \<and> pte_valid (ent m pt i)}"

definition kid :: "mem \<Rightarrow> u64 \<Rightarrow> nat \<Rightarrow> u64" where
  "kid m pt i = PTE2PA (ent m pt i)"

primrec tables :: "mem \<Rightarrow> nat \<Rightarrow> u64 \<Rightarrow> u64 set" where
  "tables m 0 pt = {pt}"
| "tables m (Suc l) pt = insert pt (\<Union>i\<in>kids m pt. tables m l (kid m pt i))"

primrec wf_pt :: "u64 \<Rightarrow> mem \<Rightarrow> nat \<Rightarrow> u64 \<Rightarrow> bool" where
  "wf_pt e m 0 pt \<longleftrightarrow> page_ok e pt"
| "wf_pt e m (Suc l) pt \<longleftrightarrow> page_ok e pt \<and>
     (\<forall>i\<in>kids m pt. \<not> pte_leaf (ent m pt i) \<and> wf_pt e m l (kid m pt i) \<and> pt \<notin> tables m l (kid m pt i)) \<and>
     (\<forall>i\<in>kids m pt. \<forall>j\<in>kids m pt. i \<noteq> j \<longrightarrow> tables m l (kid m pt i) \<inter> tables m l (kid m pt j) = {})"

primrec leaf_tab :: "mem \<Rightarrow> nat \<Rightarrow> u64 \<Rightarrow> u64 \<Rightarrow> u64 option" where
  "leaf_tab m 0 pt va = Some pt"
| "leaf_tab m (Suc l) pt va =
     (if ix (Suc l) va \<in> kids m pt then leaf_tab m l (kid m pt (ix (Suc l) va)) va else None)"

definition pte_of :: "mem \<Rightarrow> nat \<Rightarrow> u64 \<Rightarrow> u64 \<Rightarrow> u64" where
  "pte_of m l pt va = (case leaf_tab m l pt va of None \<Rightarrow> 0 | Some q \<Rightarrow> ent m q (ix 0 va))"

lemma ix_less [simp]: "ix l va < 512"
proof -
  have "unat (drop_bit (PXSHIFT l) va AND mask 9) < 2 ^ 9"
    by (simp only: take_bit_eq_mask [symmetric]) (metis take_bit_nat_less_exp unsigned_take_bit_eq)
  then show ?thesis by (simp add: ix_def PX_def mask_eq_exp_minus_1)
qed

lemma ix_nat: "ix l va = unat va div 2 ^ (12 + 9 * l) mod 512"
proof -
  have "(0x1FF :: u64) = mask 9" by (simp add: mask_eq_exp_minus_1)
  then have "ix l va = unat (take_bit 9 (drop_bit (PXSHIFT l) va))"
    by (simp add: ix_def PX_def take_bit_eq_mask)
  also have "\<dots> = take_bit 9 (drop_bit (PXSHIFT l) (unat va))"
    by (simp only: unsigned_take_bit_eq unat_drop_bit_eq)
  finally show ?thesis by (simp add: PXSHIFT_def take_bit_eq_mod drop_bit_eq_div)
qed

lemma mem_kids: "i \<in> kids m pt \<longleftrightarrow> i < 512 \<and> pte_valid (ent m pt i)"
  by (simp add: kids_def)

lemma root_in_tables [simp]: "pt \<in> tables m l pt"
  by (cases l) simp_all

lemma kid_tables: "i \<in> kids m pt \<Longrightarrow> tables m l (kid m pt i) \<subseteq> tables m (Suc l) pt"
  by auto

lemma wf_pt_page: "wf_pt e m l pt \<Longrightarrow> page_ok e pt"
  by (cases l) simp_all

lemma wf_tables_page: "wf_pt e m l pt \<Longrightarrow> q \<in> tables m l pt \<Longrightarrow> page_ok e q"
  by (induction l arbitrary: pt) auto

lemma page_ok_aligned: "page_ok e p \<Longrightarrow> page_aligned p"
  by (simp add: page_ok_def)

lemma wf_tables_aligned: "wf_pt e m l pt \<Longrightarrow> q \<in> tables m l pt \<Longrightarrow> page_aligned q"
  using wf_tables_page page_ok_aligned by blast

lemma leaf_tab_in: "leaf_tab m l pt va = Some q \<Longrightarrow> q \<in> tables m l pt"
  by (induction l arbitrary: pt) (auto split: if_splits)

lemma finite_tables [simp]: "finite (tables m l pt)"
  by (induction l arbitrary: pt) (auto simp: kids_def)

subsection \<open>Frame\<close>

lemma agree_ent:
  "agree P m m' \<Longrightarrow> page_aligned p \<Longrightarrow> p \<in> P \<Longrightarrow> i < 512 \<Longrightarrow> ent m' p i = ent m p i"
  by (simp add: ent_def agree_load64)

lemma agree_kids:
  assumes "agree P m m'" and "page_aligned p" and "p \<in> P"
  shows "kids m' p = kids m p" and "i \<in> kids m p \<Longrightarrow> kid m' p i = kid m p i"
  using agree_ent [OF assms] by (auto simp: kids_def kid_def)

lemma tables_agree:
  assumes "wf_pt e m l pt" and "agree (tables m l pt) m m'"
  shows "tables m' l pt = tables m l pt \<and> wf_pt e m' l pt \<and> leaf_tab m' l pt = leaf_tab m l pt"
  using assms
proof (induction l arbitrary: pt)
  case 0
  then show ?case by (auto simp: fun_eq_iff)
next
  case (Suc l)
  have al: "page_aligned pt" using Suc.prems(1) by (simp add: page_ok_def)
  note k = agree_kids [OF Suc.prems(2) al root_in_tables]
    agree_ent [OF Suc.prems(2) al root_in_tables]
  have IH: "tables m' l (kid m pt i) = tables m l (kid m pt i) \<and> wf_pt e m' l (kid m pt i) \<and>
      leaf_tab m' l (kid m pt i) = leaf_tab m l (kid m pt i)" if i: "i \<in> kids m pt" for i
  proof (rule Suc.IH)
    show "wf_pt e m l (kid m pt i)" using Suc.prems(1) i by simp
    show "agree (tables m l (kid m pt i)) m m'"
      using Suc.prems(2) kid_tables [OF i] by (rule agree_mono)
  qed
  have lt: "i < 512" if "i \<in> kids m pt" for i using that by (simp add: kids_def)
  have "wf_pt e m' (Suc l) pt"
    using Suc.prems(1) by (simp add: k IH lt)
  moreover have "tables m' (Suc l) pt = tables m (Suc l) pt" by (simp add: k IH)
  moreover have "leaf_tab m' (Suc l) pt = leaf_tab m (Suc l) pt" by (simp add: k IH fun_eq_iff)
  ultimately show ?case by blast
qed

lemma pte_of_agree:
  assumes "wf_pt e m l pt" and "agree (tables m l pt) m m'"
  shows "pte_of m' l pt va = pte_of m l pt va"
proof (cases "leaf_tab m l pt va")
  case None
  then show ?thesis using tables_agree [OF assms] by (simp add: pte_of_def)
next
  case (Some q)
  then have "q \<in> tables m l pt" by (rule leaf_tab_in)
  then have "ent m' q (ix 0 va) = ent m q (ix 0 va)"
    using assms wf_tables_aligned by (intro agree_ent) auto
  then show ?thesis using Some tables_agree [OF assms] by (simp add: pte_of_def)
qed

subsection \<open>Changing one subtree\<close>

text \<open>
  \<open>m'\<close> differs from \<open>m\<close> only inside the subtree below entry \<open>i\<close> of \<open>pt\<close> (and outside the table);
  that subtree is again a tree, possibly over other pages.
\<close>

lemma subtree_update:
  assumes wf: "wf_pt e m (Suc l) pt" and i: "i \<in> kids m pt" and c: "c = kid m pt i"
    and ag: "agree (tables m (Suc l) pt - tables m l c) m m'"
    and wf': "wf_pt e m' l c"
    and dj: "tables m' l c \<inter> (tables m (Suc l) pt - tables m l c) = {}"
  shows "wf_pt e m' (Suc l) pt"
    and "tables m' (Suc l) pt = (tables m (Suc l) pt - tables m l c) \<union> tables m' l c"
    and "leaf_tab m' (Suc l) pt va =
      (if ix (Suc l) va = i then leaf_tab m' l c va else leaf_tab m (Suc l) pt va)"
    and "pte_of m' (Suc l) pt va =
      (if ix (Suc l) va = i then pte_of m' l c va else pte_of m (Suc l) pt va)"
proof -
  let ?D = "tables m (Suc l) pt - tables m l c"
  have al: "page_aligned pt" using wf by (simp add: page_ok_def)
  have ptc: "pt \<notin> tables m l c" using wf i c by simp
  then have pt: "pt \<in> ?D" by simp
  note k = agree_kids [OF ag al pt] agree_ent [OF ag al pt]
  have sub: "tables m l (kid m pt j) \<subseteq> ?D" if j: "j \<in> kids m pt" "j \<noteq> i" for j
  proof -
    have "tables m l (kid m pt j) \<inter> tables m l c = {}" using wf i j c by simp
    then show ?thesis using kid_tables [OF j(1), of l] by blast
  qed
  have J: "tables m' l (kid m pt j) = tables m l (kid m pt j)" "wf_pt e m' l (kid m pt j)"
    "leaf_tab m' l (kid m pt j) = leaf_tab m l (kid m pt j)"
    "pte_of m' l (kid m pt j) = pte_of m l (kid m pt j)"
    if j: "j \<in> kids m pt" "j \<noteq> i" for j
  proof -
    have w: "wf_pt e m l (kid m pt j)" using wf j by simp
    have a: "agree (tables m l (kid m pt j)) m m'" using ag sub [OF j] by (rule agree_mono)
    show "tables m' l (kid m pt j) = tables m l (kid m pt j)" "wf_pt e m' l (kid m pt j)"
      "leaf_tab m' l (kid m pt j) = leaf_tab m l (kid m pt j)"
      using tables_agree [OF w a] by auto
    show "pte_of m' l (kid m pt j) = pte_of m l (kid m pt j)"
      using pte_of_agree [OF w a] by (simp add: fun_eq_iff)
  qed
  have lt: "j < 512" if "j \<in> kids m pt" for j using that by (simp add: kids_def)
  have D: "?D = insert pt (\<Union>j\<in>kids m pt - {i}. tables m l (kid m pt j))"
    using sub ptc c by auto
  have dj': "tables m' l c \<inter> tables m l (kid m pt j) = {}" if "j \<in> kids m pt" "j \<noteq> i" for j
    using dj sub [OF that] by blast
  have ptc': "pt \<notin> tables m' l c" using dj pt by blast
  have one: "\<not> pte_leaf (ent m' pt j) \<and> wf_pt e m' l (kid m' pt j) \<and> pt \<notin> tables m' l (kid m' pt j)"
    if j: "j \<in> kids m pt" for j
    using wf j ptc' wf' J [OF j] by (cases "j = i") (simp_all add: k lt c)
  have two: "tables m' l (kid m' pt j) \<inter> tables m' l (kid m' pt j') = {}"
    if j: "j \<in> kids m pt" "j' \<in> kids m pt" "j \<noteq> j'" for j j'
  proof -
    consider "j = i" "j' \<noteq> i" | "j \<noteq> i" "j' = i" | "j \<noteq> i" "j' \<noteq> i" using j(3) by blast
    then show ?thesis
    proof cases
      case 1
      then show ?thesis using dj' [of j'] j J(1) [of j'] by (simp add: k c)
    next
      case 2
      then show ?thesis using dj' [of j] j J(1) [of j] by (simp add: k c Int_commute)
    next
      case 3
      then show ?thesis using wf j J(1) [of j] J(1) [of j'] by (simp add: k)
    qed
  qed
  show "wf_pt e m' (Suc l) pt" using wf one two by (simp add: k(1))
  have "(\<Union>j\<in>kids m pt. tables m' l (kid m' pt j)) =
      tables m' l c \<union> (\<Union>j\<in>kids m pt - {i}. tables m l (kid m pt j))"
    using i c J(1) k(2) by auto
  then show "tables m' (Suc l) pt = ?D \<union> tables m' l c" unfolding D by (auto simp: k(1))
  show "leaf_tab m' (Suc l) pt va =
      (if ix (Suc l) va = i then leaf_tab m' l c va else leaf_tab m (Suc l) pt va)"
    using i J(3) by (simp add: k c)
  show "pte_of m' (Suc l) pt va =
      (if ix (Suc l) va = i then pte_of m' l c va else pte_of m (Suc l) pt va)"
    using i J(4) by (simp add: pte_of_def k c fun_eq_iff)
qed

subsection \<open>Hanging an empty table below an unused entry\<close>

lemma zero_table:
  assumes "page_ok e p" and "\<And>i. i < 512 \<Longrightarrow> ent m p i = 0"
  shows "tables m l p = {p}" and "wf_pt e m l p" and "pte_of m l p va = 0"
proof -
  have k: "kids m p = {}" using assms(2) by (auto simp: kids_def)
  show "tables m l p = {p}" "wf_pt e m l p" using assms(1) by (cases l; simp add: k)+
  show "pte_of m l p va = 0" using assms(2) by (cases l) (simp_all add: pte_of_def k)
qed

lemma ent_store_same [simp]: "ent (store64 m (slot p i) v) p i = v"
  by (simp add: ent_def)

lemma ent_store_other:
  assumes "i < 512" "j < 512" "page_aligned p" "page_aligned q" "(p, i) \<noteq> (q, j)"
  shows "ent (store64 m (slot p i) v) q j = ent m q j"
proof (cases "p = q")
  case True
  then show ?thesis using assms by (auto simp: ent_def load64_store64_slot_neq)
next
  case False
  have "load64 (store64 m (slot p i) v) (slot q j) = load64 m (slot q j)"
    by (rule load64_slot_cong) (use False assms in \<open>auto simp: store64_slot_other_page\<close>)
  then show ?thesis by (simp add: ent_def)
qed

lemma agree_store_slot:
  "page_aligned p \<Longrightarrow> i < 512 \<Longrightarrow> p \<notin> P \<Longrightarrow> agree P m (store64 m (slot p i) v)"
  by (auto simp: agree_def intro!: store64_slot_other_page)

lemma agree_memset_page:
  "page_aligned p \<Longrightarrow> p \<notin> P \<Longrightarrow> agree P m (memset m p c 4096)"
  by (auto simp: agree_def intro!: memset_page_other)

lemma install_table:
  assumes wf: "wf_pt e m (Suc l) pt" and i: "i < 512" "i \<notin> kids m pt"
    and p: "page_ok e p" "p \<notin> tables m (Suc l) pt" "\<And>j. j < 512 \<Longrightarrow> ent m p j = 0"
    and m': "m' = store64 m (slot pt i) (PA2PTE p OR PTE_V)"
  shows "wf_pt e m' (Suc l) pt"
    and "tables m' (Suc l) pt = insert p (tables m (Suc l) pt)"
    and "pte_of m' (Suc l) pt va = pte_of m (Suc l) pt va"
    and "i \<in> kids m' pt" and "kid m' pt i = p" and "tables m' l p = {p}"
proof -
  have al: "page_aligned pt" "page_aligned p" using wf p(1) by (auto simp: page_ok_def)
  have ptp: "pt \<noteq> p" using p(2) by auto
  have en: "ent m' pt j = (if j = i then PA2PTE p OR PTE_V else ent m pt j)" if "j < 512" for j
    using that i al by (simp add: m' ent_store_other)
  have kids: "kids m' pt = insert i (kids m pt)"
    using i(1) by (auto simp: kids_def en)
  have lt: "j < 512" "j \<noteq> i" if "j \<in> kids m pt" for j
    using that i(2) by (auto simp: kids_def)
  have kd: "kid m' pt j = (if j = i then p else kid m pt j)" if "j \<in> insert i (kids m pt)" for j
    using that i(1) lt(1) al by (auto simp: kid_def en)
  have zp: "ent m' p j = 0" if "j < 512" for j
    using that i(1) al ptp p(3) by (simp add: m' ent_store_other)
  note z = zero_table [OF p(1) zp]
  have J: "tables m' l (kid m pt j) = tables m l (kid m pt j) \<and> wf_pt e m' l (kid m pt j) \<and>
      pte_of m' l (kid m pt j) = pte_of m l (kid m pt j)" if j: "j \<in> kids m pt" for j
  proof -
    have w: "wf_pt e m l (kid m pt j)" and "pt \<notin> tables m l (kid m pt j)" using wf j by auto
    then have a: "agree (tables m l (kid m pt j)) m m'"
      unfolding m' using al i(1) by (intro agree_store_slot)
    show ?thesis using tables_agree [OF w a] pte_of_agree [OF w a] by (simp add: fun_eq_iff)
  qed
  have np: "p \<notin> tables m l (kid m pt j)" if "j \<in> kids m pt" for j
    using p(2) that by auto
  show "wf_pt e m' (Suc l) pt"
    using wf lt J np ptp z by (auto simp: kids kd en i(1))
  show "tables m' (Suc l) pt = insert p (tables m (Suc l) pt)"
  proof -
    have "(\<Union>j\<in>kids m pt. tables m' l (kid m' pt j)) = (\<Union>j\<in>kids m pt. tables m l (kid m pt j))"
      using J lt by (simp add: kd)
    then show ?thesis using z by (auto simp: kids kd)
  qed
  show "i \<in> kids m' pt" "kid m' pt i = p" by (simp_all add: kids kd)
  show "tables m' l p = {p}" by (rule z)
  show "pte_of m' (Suc l) pt va = pte_of m (Suc l) pt va"
  proof (cases "ix (Suc l) va = i")
    case True
    then have "pte_of m' (Suc l) pt va = pte_of m' l p va" by (simp add: pte_of_def kids kd)
    moreover have "pte_of m (Suc l) pt va = 0" using True i(2) by (simp add: pte_of_def)
    ultimately show ?thesis using z by simp
  next
    case False
    then show ?thesis using J [of "ix (Suc l) va"] by (auto simp: pte_of_def kids kd fun_eq_iff)
  qed
qed

subsection \<open>Changing a translation\<close>

definition same_ix :: "nat \<Rightarrow> u64 \<Rightarrow> u64 \<Rightarrow> bool" where
  "same_ix l va va' \<longleftrightarrow> (\<forall>k\<le>l. ix k va = ix k va')"

lemma same_ix_Suc: "same_ix (Suc l) va va' \<longleftrightarrow> same_ix l va va' \<and> ix (Suc l) va = ix (Suc l) va'"
  by (auto simp: same_ix_def le_Suc_eq)

lemma leaf_store:
  assumes "wf_pt e m l pt" and "leaf_tab m l pt va = Some q"
    and m': "m' = store64 m (slot q (ix 0 va)) v"
  shows "wf_pt e m' l pt" and "tables m' l pt = tables m l pt"
    and "leaf_tab m' l pt va' = leaf_tab m l pt va'"
    and "pte_of m' l pt va' = (if same_ix l va' va then v else pte_of m l pt va')"
proof -
  have "wf_pt e m' l pt \<and> tables m' l pt = tables m l pt \<and> leaf_tab m' l pt va' = leaf_tab m l pt va' \<and>
     pte_of m' l pt va' = (if same_ix l va' va then v else pte_of m l pt va')"
    using assms(1,2)
  proof (induction l arbitrary: pt)
    case 0
    then have "page_aligned pt" by (simp add: page_ok_def)
    then show ?case using 0
      by (auto simp: pte_of_def m' same_ix_def ent_store_other)
  next
    case (Suc l)
    let ?i = "ix (Suc l) va"
    have i: "?i \<in> kids m pt" and lt: "leaf_tab m l (kid m pt ?i) va = Some q"
      using Suc.prems(2) by (auto split: if_splits)
    define c where "c = kid m pt ?i"
    have wc: "wf_pt e m l c" using Suc.prems(1) i by (simp add: c_def)
    have IH: "wf_pt e m' l c \<and> tables m' l c = tables m l c \<and> leaf_tab m' l c va' = leaf_tab m l c va' \<and>
       pte_of m' l c va' = (if same_ix l va' va then v else pte_of m l c va')"
      using Suc.IH [OF wc] lt by (simp add: c_def)
    have q: "q \<in> tables m l c" using lt by (auto simp: c_def dest: leaf_tab_in)
    then have "page_aligned q" using wc wf_tables_aligned by blast
    then have ag: "agree (tables m (Suc l) pt - tables m l c) m m'"
      unfolding m' using q by (intro agree_store_slot) auto
    have dj: "tables m' l c \<inter> (tables m (Suc l) pt - tables m l c) = {}" using IH by auto
    have wf': "wf_pt e m' l c" using IH by simp
    note U = subtree_update [OF Suc.prems(1) i c_def ag wf' dj]
    have "tables m' (Suc l) pt = tables m (Suc l) pt"
      using U(2) IH kid_tables [OF i, of l] by (auto simp: c_def)
    moreover have "leaf_tab m' (Suc l) pt va' = leaf_tab m (Suc l) pt va'"
      using U(3) [of va'] IH i by (auto simp: c_def)
    moreover have "pte_of m' (Suc l) pt va' =
        (if same_ix (Suc l) va' va then v else pte_of m (Suc l) pt va')"
    proof (cases "ix (Suc l) va' = ?i")
      case True
      then have "pte_of m (Suc l) pt va' = pte_of m l c va'" using i by (simp add: pte_of_def c_def)
      then show ?thesis using U(4) [of va'] IH True by (simp add: same_ix_Suc)
    qed (use U(4) [of va'] in \<open>simp add: same_ix_Suc\<close>)
    ultimately show ?case using U(1) by blast
  qed
  then show "wf_pt e m' l pt" "tables m' l pt = tables m l pt"
    "leaf_tab m' l pt va' = leaf_tab m l pt va'"
    "pte_of m' l pt va' = (if same_ix l va' va then v else pte_of m l pt va')" by auto
qed

text \<open>Below \<open>MAXVA\<close> the three indices determine the page.\<close>

lemma same_ix_page:
  assumes "unat va < 2 ^ 38" and "unat va' < 2 ^ 38"
  shows "same_ix 2 va va' \<longleftrightarrow> PGROUNDDOWN va = PGROUNDDOWN va'"
proof -
  have split: "unat v div 4096 = ix 0 v + 512 * ix 1 v + 262144 * ix 2 v" if "unat v < 2 ^ 38" for v
  proof -
    let ?n = "unat v div 4096"
    have n: "?n < 67108864" using that by (intro less_mult_imp_div_less) simp
    have "ix 0 v = ?n mod 512" "ix 1 v = ?n div 512 mod 512"
      "ix 2 v = ?n div 262144 mod 512"
      by (simp_all add: ix_nat div_mult2_eq [symmetric])
    moreover have "?n div 262144 mod 512 = ?n div 262144"
      using n by (intro mod_less less_mult_imp_div_less) simp
    moreover have "?n div 512 div 512 = ?n div 262144" by (simp add: div_mult2_eq [symmetric])
    ultimately show ?thesis
      using mult_div_mod_eq [of 512 ?n] mult_div_mod_eq [of 512 "?n div 512"] by linarith
  qed
  have "PGROUNDDOWN va = PGROUNDDOWN va' \<longleftrightarrow> unat va div 4096 = unat va' div 4096"
    by (simp add: word_unat_eq_iff unat_PGROUNDDOWN)
  also have "\<dots> \<longleftrightarrow> ix 0 va = ix 0 va' \<and> ix 1 va = ix 1 va' \<and> ix 2 va = ix 2 va'"
  proof
    assume "unat va div 4096 = unat va' div 4096"
    then have "unat va div 4096 div 512 ^ k = unat va' div 4096 div 512 ^ k" for k :: nat by simp
    then have "unat va div 2 ^ (12 + 9 * k) = unat va' div 2 ^ (12 + 9 * k)" for k :: nat
      by (simp add: power_add power_mult div_mult2_eq)
    then show "ix 0 va = ix 0 va' \<and> ix 1 va = ix 1 va' \<and> ix 2 va = ix 2 va'"
      by (simp only: ix_nat)
  qed (use split [OF assms(1)] split [OF assms(2)] in simp)
  also have "\<dots> \<longleftrightarrow> same_ix 2 va va'"
    by (auto simp: same_ix_def le_Suc_eq numeral_2_eq_2)
  finally show ?thesis by simp
qed

section \<open>walk\<close>

text \<open>Without \<open>alloc\<close>, \<open>walk\<close> changes nothing and finds the entry if there is one.\<close>

lemma walk_loop_find:
  assumes "wf_pt e (k_mem s) l pt"
  shows "walk_loop l s pt va False =
    (case leaf_tab (k_mem s) l pt va of None \<Rightarrow> 0 | Some q \<Rightarrow> slot q (ix 0 va), s)"
  using assms
proof (induction l arbitrary: pt)
  case 0
  then show ?case by (simp add: ix_def)
next
  case (Suc l)
  let ?i = "ix (Suc l) va"
  show ?case
  proof (cases "?i \<in> kids (k_mem s) pt")
    case True
    then have "\<not> pte_leaf (ent (k_mem s) pt ?i)" "wf_pt e (k_mem s) l (kid (k_mem s) pt ?i)"
      using Suc.prems by auto
    then show ?thesis using True Suc.IH
      by (simp add: Let_def ent_def [symmetric] ix_def [symmetric] pte_valid_def [symmetric]
          pte_leaf_def [symmetric] mem_kids kid_def)
  next
    case False
    then show ?thesis
      by (simp add: Let_def ent_def [symmetric] ix_def [symmetric] pte_valid_def [symmetric] mem_kids)
  qed
qed

text \<open>
  With \<open>alloc\<close>, the tree grows by exactly the pages taken from the free list, every translation
  stays, and memory outside the tree and those pages is untouched. The result is null only if
  the free list is exhausted.
\<close>

definition grown :: "kmem \<Rightarrow> kmem \<Rightarrow> nat \<Rightarrow> u64 \<Rightarrow> bool" where
  "grown s s' l pt \<longleftrightarrow> kinv s' \<and> k_end s' = k_end s \<and> free_pages s' \<subseteq> free_pages s \<and>
     wf_pt (k_end s) (k_mem s') l pt \<and>
     tables (k_mem s') l pt = tables (k_mem s) l pt \<union> (free_pages s - free_pages s') \<and>
     (\<forall>va. pte_of (k_mem s') l pt va = pte_of (k_mem s) l pt va) \<and>
     agree (- (tables (k_mem s) l pt \<union> (free_pages s - free_pages s'))) (k_mem s) (k_mem s')"

lemma grown_refl: "kinv s \<Longrightarrow> wf_pt (k_end s) (k_mem s) l pt \<Longrightarrow> grown s s l pt"
  by (simp add: grown_def)

lemma grown_trans:
  assumes "grown s t l pt" and "grown t u l pt"
  shows "grown s u l pt"
proof -
  have eq: "tables (k_mem t) l pt \<union> (free_pages t - free_pages u) =
      tables (k_mem s) l pt \<union> (free_pages s - free_pages u)"
    using assms unfolding grown_def by blast
  have "agree (- (tables (k_mem s) l pt \<union> (free_pages s - free_pages u))) (k_mem s) (k_mem t)"
    using assms unfolding grown_def by (elim conjE) (erule agree_mono, blast)
  moreover have "agree (- (tables (k_mem t) l pt \<union> (free_pages t - free_pages u))) (k_mem t) (k_mem u)"
    using assms(2) unfolding grown_def by blast
  ultimately have "agree (- (tables (k_mem s) l pt \<union> (free_pages s - free_pages u))) (k_mem s) (k_mem u)"
    unfolding eq by (rule agree_trans)
  then show ?thesis using assms eq unfolding grown_def by auto
qed

text \<open>Growing the subtree below entry \<open>i\<close> grows the tree.\<close>

lemma grown_subtree:
  assumes wf: "wf_pt (k_end s) (k_mem s) (Suc l) pt" and i: "i \<in> kids (k_mem s) pt"
    and c: "c = kid (k_mem s) pt i"
    and fr: "tables (k_mem s) (Suc l) pt \<inter> free_pages s = {}" and g: "grown s s' l c"
  shows "grown s s' (Suc l) pt"
    and "leaf_tab (k_mem s') (Suc l) pt va =
      (if ix (Suc l) va = i then leaf_tab (k_mem s') l c va else leaf_tab (k_mem s) (Suc l) pt va)"
proof -
  let ?m = "k_mem s" and ?m' = "k_mem s'" and ?N = "free_pages s - free_pages s'"
  have sub: "tables ?m l c \<subseteq> tables ?m (Suc l) pt" using kid_tables [OF i] by (simp add: c)
  have g': "wf_pt (k_end s) ?m' l c" "tables ?m' l c = tables ?m l c \<union> ?N"
    "\<And>va. pte_of ?m' l c va = pte_of ?m l c va" "agree (- (tables ?m l c \<union> ?N)) ?m ?m'"
    using g by (auto simp: grown_def)
  have ag: "agree (tables ?m (Suc l) pt - tables ?m l c) ?m ?m'"
    using g'(4) by (rule agree_mono) (use fr in auto)
  have dj: "tables ?m' l c \<inter> (tables ?m (Suc l) pt - tables ?m l c) = {}"
    using fr g'(2) by auto
  note U = subtree_update [OF wf i c ag g'(1) dj]
  show "leaf_tab ?m' (Suc l) pt va =
      (if ix (Suc l) va = i then leaf_tab ?m' l c va else leaf_tab ?m (Suc l) pt va)" by (rule U(3))
  have "pte_of ?m' (Suc l) pt va = pte_of ?m (Suc l) pt va" for va
  proof (cases "ix (Suc l) va = i")
    case True
    then have "pte_of ?m (Suc l) pt va = pte_of ?m l c va" using i by (simp add: pte_of_def c)
    then show ?thesis using U(4) [of va] g'(3) True by simp
  qed (use U(4) [of va] in simp)
  moreover have "tables ?m' (Suc l) pt = tables ?m (Suc l) pt \<union> ?N" using U(2) g'(2) sub by blast
  moreover have "agree (- (tables ?m (Suc l) pt \<union> ?N)) ?m ?m'"
    using g'(4) by (rule agree_mono) (use sub in auto)
  ultimately show "grown s s' (Suc l) pt" using g U(1) by (simp add: grown_def)
qed

text \<open>Allocating a page, clearing it and hanging it below an unused entry grows the tree.\<close>

lemma grown_install:
  assumes inv: "kinv s" and wf: "wf_pt (k_end s) (k_mem s) (Suc l) pt"
    and fr: "tables (k_mem s) (Suc l) pt \<inter> free_pages s = {}"
    and i: "i < 512" "i \<notin> kids (k_mem s) pt"
    and p: "kalloc s = (p, s1)" "p \<noteq> 0"
    and s2: "s2 = s1\<lparr>k_mem := store64 (memset (k_mem s1) p 0 4096) (slot pt i) (PA2PTE p OR PTE_V)\<rparr>"
  shows "grown s s2 (Suc l) pt" and "i \<in> kids (k_mem s2) pt" and "kid (k_mem s2) pt i = p"
    and "free_pages s2 = free_pages s - {p}" and "tables (k_mem s2) l p = {p}"
    and "kids (k_mem s2) pt \<subseteq> insert i (kids (k_mem s) pt)"
proof -
  have a: "kinv s1" "p \<in> free_pages s" "free_pages s1 = free_pages s - {p}" "k_end s1 = k_end s"
    "agree (- {p}) (k_mem s) (k_mem s1)" "page_ok (k_end s) p"
    using inv by (cases rule: kalloc_cases; use p in auto)+
  let ?T = "tables (k_mem s) (Suc l) pt"
  let ?m1 = "memset (k_mem s1) p 0 4096"
  have pT: "p \<notin> ?T" using a(2) fr by auto
  have al: "page_aligned p" "page_aligned pt" using a(6) wf by (auto simp: page_ok_def)
  have "agree (- {p}) (k_mem s1) ?m1" using al by (intro agree_memset_page) auto
  with a(5) have ag1: "agree (- {p}) (k_mem s) ?m1" by (rule agree_trans)
  have agT: "agree ?T (k_mem s) ?m1" using ag1 by (rule agree_mono) (use pT in auto)
  note T = tables_agree [OF wf agT] pte_of_agree [OF wf agT]
  have wf1: "wf_pt (k_end s) ?m1 (Suc l) pt" using T(1) by simp
  have i1: "i \<notin> kids ?m1 pt" using agree_kids(1) [OF agT al(2) root_in_tables] i(2) by simp
  have pT1: "p \<notin> tables ?m1 (Suc l) pt" using T(1) pT by simp
  have z: "ent ?m1 p j = 0" if "j < 512" for j
    using that al by (simp add: ent_def load64_memset_zero)
  have m2: "k_mem s2 = store64 ?m1 (slot pt i) (PA2PTE p OR PTE_V)" by (simp add: s2)
  note I = install_table [OF wf1 i(1) i1 a(6) pT1 z m2]
  have ag2: "agree (- {pt}) ?m1 (k_mem s2)"
    unfolding m2 using al i(1) by (intro agree_store_slot) auto
  have "agree (- (insert p ?T)) (k_mem s) ?m1" using ag1 by (rule agree_mono) auto
  moreover have "agree (- (insert p ?T)) ?m1 (k_mem s2)" using ag2 by (rule agree_mono) auto
  ultimately have agS: "agree (- (insert p ?T)) (k_mem s) (k_mem s2)" by (rule agree_trans)
  have "agree (free_pages s1) (k_mem s1) ?m1"
    using al a(3) by (intro agree_memset_page) auto
  moreover have "agree (free_pages s1) ?m1 (k_mem s2)"
    using ag2 by (rule agree_mono) (use fr a(3) in auto)
  ultimately have "agree (free_pages s1) (k_mem s1) (k_mem s2)" by (rule agree_trans)
  from kinv_mem [OF a(1) this] have kv: "kinv s2" "free_pages s2 = free_pages s - {p}"
    by (simp_all add: s2 a(3))
  then show "free_pages s2 = free_pages s - {p}" by simp
  have N: "free_pages s - free_pages s2 = {p}" using kv(2) a(2) by auto
  have "tables (k_mem s2) (Suc l) pt = ?T \<union> {p}" using I(2) T(1) by auto
  moreover have "pte_of (k_mem s2) (Suc l) pt va = pte_of (k_mem s) (Suc l) pt va" for va
    using I(3) [of va] T(2) [of va] by simp
  moreover have "k_end s2 = k_end s" using a(4) by (simp add: s2)
  ultimately show "grown s s2 (Suc l) pt"
    using agS I(1) kv unfolding grown_def N by auto
  show "i \<in> kids (k_mem s2) pt" "kid (k_mem s2) pt i = p" "tables (k_mem s2) l p = {p}"
    using I by auto
  have "ent (k_mem s2) pt j = ent ?m1 pt j" if "j < 512" "j \<noteq> i" for j
    using that i(1) al unfolding m2 by (simp add: ent_store_other)
  then have "kids (k_mem s2) pt \<subseteq> insert i (kids ?m1 pt)" by (auto simp: kids_def)
  then show "kids (k_mem s2) pt \<subseteq> insert i (kids (k_mem s) pt)"
    using agree_kids(1) [OF agT al(2) root_in_tables] by simp
qed

lemma slot_nonzero:
  assumes "page_ok e q" and "0 < e" and "i < 512"
  shows "slot q i \<noteq> 0"
proof
  assume "slot q i = 0"
  then have "PGROUNDDOWN 0 = q" using slot_byte [of q i 0] assms by (simp add: page_ok_def)
  then have "q = 0" by (simp add: PGROUNDDOWN_def)
  with assms show False by (auto simp: page_ok_def)
qed

lemma kinv_end: "kinv s \<Longrightarrow> 0 < k_end s"
  by (auto elim!: kinvE dest: kmem_invD(6))

lemma walk_loop_alloc:
  assumes "kinv s" and "wf_pt (k_end s) (k_mem s) l pt"
    and "tables (k_mem s) l pt \<inter> free_pages s = {}"
    and "walk_loop l s pt va True = (a, s')"
  shows "grown s s' l pt \<and>
    (if a = 0 then free_pages s' = {}
     else \<exists>q. leaf_tab (k_mem s') l pt va = Some q \<and> a = slot q (ix 0 va))"
  using assms
proof (induction l arbitrary: s pt)
  case 0
  then have "slot pt (ix 0 va) \<noteq> 0"
    using slot_nonzero [of "k_end s" pt "ix 0 va"] kinv_end by auto
  then show ?case using 0 by (auto simp: grown_refl ix_def)
next
  case (Suc l)
  let ?i = "ix (Suc l) va"
  have down: "grown t s' (Suc l) pt \<and>
      (if a = 0 then free_pages s' = {}
       else \<exists>q. leaf_tab (k_mem s') (Suc l) pt va = Some q \<and> a = slot q (ix 0 va))"
    if t: "kinv t" "wf_pt (k_end t) (k_mem t) (Suc l) pt"
      "tables (k_mem t) (Suc l) pt \<inter> free_pages t = {}" "?i \<in> kids (k_mem t) pt"
      "walk_loop l t (kid (k_mem t) pt ?i) va True = (a, s')" for t
  proof -
    let ?c = "kid (k_mem t) pt ?i"
    have "tables (k_mem t) l ?c \<inter> free_pages t = {}" using t(3) kid_tables [OF t(4), of l] by auto
    moreover have "wf_pt (k_end t) (k_mem t) l ?c" using t(2,4) by simp
    ultimately have g: "grown t s' l ?c" and q: "if a = 0 then free_pages s' = {}
        else \<exists>q. leaf_tab (k_mem s') l ?c va = Some q \<and> a = slot q (ix 0 va)"
      using Suc.IH [OF t(1) _ _ t(5)] by auto
    note G = grown_subtree [OF t(2,4) refl t(3) g]
    show ?thesis using G(1) G(2) [of va] q by simp
  qed
  show ?case
  proof (cases "?i \<in> kids (k_mem s) pt")
    case True
    then have "\<not> pte_leaf (ent (k_mem s) pt ?i)" using Suc.prems(2) by simp
    then have "walk_loop l s (kid (k_mem s) pt ?i) va True = (a, s')"
      using Suc.prems(4) True
      by (simp add: Let_def ent_def [symmetric] ix_def [symmetric] pte_valid_def [symmetric]
          pte_leaf_def [symmetric] mem_kids kid_def)
    then show ?thesis using down [OF Suc.prems(1-3) True] by blast
  next
    case False
    obtain p s1 where k: "kalloc s = (p, s1)" by fastforce
    define s2 where "s2 = s1\<lparr>k_mem := store64 (memset (k_mem s1) p 0 4096) (slot pt ?i) (PA2PTE p OR PTE_V)\<rparr>"
    have w: "(if p = 0 then (0, s1) else walk_loop l s2 p va True) = (a, s')"
      using Suc.prems(4) False k
      by (simp add: Let_def ent_def [symmetric] ix_def [symmetric] pte_valid_def [symmetric] mem_kids s2_def
          split: if_splits)
    show ?thesis
    proof (cases "p = 0")
      case True
      have "s1 = s" "free_pages s = {}"
        using Suc.prems(1) by (cases rule: kalloc_cases; use k True in simp)+
      then show ?thesis using w True Suc.prems by (auto simp: grown_refl)
    next
      case p: False
      note I = grown_install [OF Suc.prems(1-3) ix_less False k p s2_def]
      have g: "kinv s2" "k_end s2 = k_end s" "wf_pt (k_end s) (k_mem s2) (Suc l) pt"
        "tables (k_mem s2) (Suc l) pt = tables (k_mem s) (Suc l) pt \<union> (free_pages s - free_pages s2)"
        "free_pages s2 \<subseteq> free_pages s"
        using I(1) unfolding grown_def by blast+
      have "tables (k_mem s2) (Suc l) pt \<inter> free_pages s2 = {}"
        using g(4,5) Suc.prems(3) by blast
      moreover have "walk_loop l s2 (kid (k_mem s2) pt ?i) va True = (a, s')"
        using w p by (simp add: I(3))
      moreover have "wf_pt (k_end s2) (k_mem s2) (Suc l) pt" using g(2,3) by simp
      ultimately have "grown s2 s' (Suc l) pt \<and>
        (if a = 0 then free_pages s' = {}
         else \<exists>q. leaf_tab (k_mem s') (Suc l) pt va = Some q \<and> a = slot q (ix 0 va))"
        using down [OF g(1) _ _ I(2)] by blast
      then show ?thesis using I(1) grown_trans by blast
    qed
  qed
qed

text \<open>In the root, \<open>walk\<close> uses no other entry than the one for its address.\<close>

lemma walk_loop_alloc_root:
  assumes inv: "kinv s" and wf: "wf_pt (k_end s) (k_mem s) (Suc l) pt"
    and fr: "tables (k_mem s) (Suc l) pt \<inter> free_pages s = {}"
    and w: "walk_loop (Suc l) s pt va True = (a, s')"
  shows "kids (k_mem s') pt \<subseteq> insert (ix (Suc l) va) (kids (k_mem s) pt)"
proof -
  let ?i = "ix (Suc l) va"
  have down: "kids (k_mem s') pt = kids (k_mem t) pt"
    if t: "kinv t" "wf_pt (k_end t) (k_mem t) (Suc l) pt"
      "tables (k_mem t) (Suc l) pt \<inter> free_pages t = {}" "?i \<in> kids (k_mem t) pt"
      "walk_loop l t (kid (k_mem t) pt ?i) va True = (a, s')" for t
  proof -
    let ?c = "kid (k_mem t) pt ?i"
    have c: "tables (k_mem t) l ?c \<inter> free_pages t = {}" "wf_pt (k_end t) (k_mem t) l ?c"
      "pt \<notin> tables (k_mem t) l ?c" "page_aligned pt"
      using t(2,3,4) kid_tables [OF t(4), of l] by (auto simp: page_ok_def)
    have g: "grown t s' l ?c" using walk_loop_alloc [OF t(1) c(2,1) t(5)] by blast
    then have "agree (- (tables (k_mem t) l ?c \<union> (free_pages t - free_pages s'))) (k_mem t) (k_mem s')"
      by (simp add: grown_def)
    then show ?thesis by (rule agree_kids(1) [OF _ c(4)]) (use c(3) t(3) in auto)
  qed
  show ?thesis
  proof (cases "?i \<in> kids (k_mem s) pt")
    case True
    then have "\<not> pte_leaf (ent (k_mem s) pt ?i)" using wf by simp
    then have "walk_loop l s (kid (k_mem s) pt ?i) va True = (a, s')"
      using w True
      by (simp add: Let_def ent_def [symmetric] ix_def [symmetric] pte_valid_def [symmetric]
          pte_leaf_def [symmetric] mem_kids kid_def)
    then show ?thesis using down [OF inv wf fr True] by auto
  next
    case False
    obtain p s1 where k: "kalloc s = (p, s1)" by fastforce
    define s2 where "s2 = s1\<lparr>k_mem := store64 (memset (k_mem s1) p 0 4096) (slot pt ?i) (PA2PTE p OR PTE_V)\<rparr>"
    have w2: "(if p = 0 then (0, s1) else walk_loop l s2 p va True) = (a, s')"
      using w False k
      by (simp add: Let_def ent_def [symmetric] ix_def [symmetric] pte_valid_def [symmetric] mem_kids s2_def
          split: if_splits)
    show ?thesis
    proof (cases "p = 0")
      case True
      have "s1 = s" using inv by (cases rule: kalloc_cases) (use k True in simp_all)
      then show ?thesis using w2 True by auto
    next
      case p: False
      note I = grown_install [OF inv wf fr ix_less False k p s2_def]
      have g: "kinv s2" "k_end s2 = k_end s" "wf_pt (k_end s) (k_mem s2) (Suc l) pt"
        "tables (k_mem s2) (Suc l) pt \<inter> free_pages s2 = {}"
        using I(1) fr unfolding grown_def by blast+
      then have "kids (k_mem s') pt = kids (k_mem s2) pt"
        using down [of s2] w2 p I(2,3) by simp
      moreover have "kids (k_mem s2) pt \<subseteq> insert ?i (kids (k_mem s) pt)"
        using I(6) by blast
      ultimately show ?thesis by simp
    qed
  qed
qed

section \<open>Address spaces\<close>

text \<open>
  A page table that belongs to the kernel: a tree of pages none of which is free, with nothing
  in the upper half of the root, which no address below \<open>MAXVA\<close> reaches. \<open>pte\<close> is the entry for
  a virtual address (0 where the tree has no table for it).
\<close>

definition vm_inv :: "kmem \<Rightarrow> u64 \<Rightarrow> bool" where
  "vm_inv s pt \<longleftrightarrow> kinv s \<and> wf_pt (k_end s) (k_mem s) 2 pt \<and>
     tables (k_mem s) 2 pt \<inter> free_pages s = {} \<and> kids (k_mem s) pt \<subseteq> {..<256}"

definition pte :: "kmem \<Rightarrow> u64 \<Rightarrow> u64 \<Rightarrow> u64" where
  "pte s pt va = pte_of (k_mem s) 2 pt va"

definition tabs :: "kmem \<Rightarrow> u64 \<Rightarrow> u64 set" where
  "tabs s pt = tables (k_mem s) 2 pt"

text \<open>
  \<open>vm_step s s' pt f\<close>: from \<open>s\<close> to \<open>s'\<close> the tree of \<open>pt\<close> took some pages from the free list, its
  translations became \<open>f\<close>, and no other page of memory changed.
\<close>

definition vm_step :: "kmem \<Rightarrow> kmem \<Rightarrow> u64 \<Rightarrow> (u64 \<Rightarrow> u64) \<Rightarrow> bool" where
  "vm_step s s' pt f \<longleftrightarrow> vm_inv s' pt \<and> k_end s' = k_end s \<and> free_pages s' \<subseteq> free_pages s \<and>
     tabs s' pt = tabs s pt \<union> (free_pages s - free_pages s') \<and>
     (\<forall>va. unat va < 2 ^ 38 \<longrightarrow> pte s' pt va = f va) \<and>
     agree (- (tabs s pt \<union> (free_pages s - free_pages s'))) (k_mem s) (k_mem s')"

lemma vm_stepD:
  assumes "vm_step s s' pt f"
  shows "vm_inv s' pt" "k_end s' = k_end s" "free_pages s' \<subseteq> free_pages s"
    "tabs s' pt = tabs s pt \<union> (free_pages s - free_pages s')"
    "unat va < 2 ^ 38 \<Longrightarrow> pte s' pt va = f va"
    "agree (- (tabs s pt \<union> (free_pages s - free_pages s'))) (k_mem s) (k_mem s')"
  using assms unfolding vm_step_def by blast+

lemma vm_step_refl: "vm_inv s pt \<Longrightarrow> vm_step s s pt (pte s pt)"
  by (simp add: vm_step_def)

lemma vm_step_cong:
  "vm_step s s' pt f \<Longrightarrow> (\<And>va. unat va < 2 ^ 38 \<Longrightarrow> f va = g va) \<Longrightarrow> vm_step s s' pt g"
  by (simp add: vm_step_def)

lemma vm_step_trans:
  assumes "vm_step s t pt f" and "vm_step t u pt g"
  shows "vm_step s u pt g"
proof -
  let ?X = "tabs s pt \<union> (free_pages s - free_pages u)"
  have eq: "tabs t pt \<union> (free_pages t - free_pages u) = ?X"
    using assms unfolding vm_step_def by blast
  have "agree (- ?X) (k_mem s) (k_mem t)"
    using vm_stepD(6) [OF assms(1)] by (rule agree_mono) (use vm_stepD(3) [OF assms(2)] in blast)
  moreover have "agree (- ?X) (k_mem t) (k_mem u)" using vm_stepD(6) [OF assms(2)] unfolding eq .
  ultimately have "agree (- ?X) (k_mem s) (k_mem u)" by (rule agree_trans)
  then show ?thesis using assms eq unfolding vm_step_def by auto
qed

lemma vm_inv_parts:
  assumes "vm_inv s pt"
  shows "kinv s" "wf_pt (k_end s) (k_mem s) 2 pt" "tabs s pt \<inter> free_pages s = {}" "0 < k_end s"
    "q \<in> tabs s pt \<Longrightarrow> page_ok (k_end s) q" "kids (k_mem s) pt \<subseteq> {..<256}"
proof -
  show "kinv s" "wf_pt (k_end s) (k_mem s) 2 pt" "tabs s pt \<inter> free_pages s = {}"
    "kids (k_mem s) pt \<subseteq> {..<256}"
    using assms unfolding vm_inv_def tabs_def by blast+
  then show "0 < k_end s" "q \<in> tabs s pt \<Longrightarrow> page_ok (k_end s) q"
    by (auto simp: tabs_def kinv_end dest: wf_tables_page)
qed

lemma ix_2_low: "unat va < 2 ^ 38 \<Longrightarrow> ix 2 va < 256"
proof -
  assume "unat va < 2 ^ 38"
  then have "unat va div 1073741824 < 256" by (intro less_mult_imp_div_less) simp
  moreover have "unat va div 1073741824 mod 512 \<le> unat va div 1073741824" by (rule mod_less_eq_dividend)
  ultimately show ?thesis by (simp add: ix_nat)
qed

lemma walk_find:
  assumes "vm_inv s pt" and "unat va < 2 ^ 38"
  shows "walk s pt va False =
    Ok (case leaf_tab (k_mem s) 2 pt va of None \<Rightarrow> 0 | Some q \<Rightarrow> slot q (ix 0 va), s)"
  using assms vm_inv_parts(2) [OF assms(1)] by (simp add: walk_def walk_loop_find word_le_nat_alt)

lemma walk_alloc:
  assumes "vm_inv s pt" and "unat va < 2 ^ 38"
  obtains (full) s' where "walk s pt va True = Ok (0, s')" "vm_step s s' pt (pte s pt)" "free_pages s' = {}"
  | (found) q s' where "walk s pt va True = Ok (slot q (ix 0 va), s')" "vm_step s s' pt (pte s pt)"
      "leaf_tab (k_mem s') 2 pt va = Some q" "slot q (ix 0 va) \<noteq> 0"
proof -
  note v = vm_inv_parts [OF assms(1)]
  obtain a s' where w: "walk_loop 2 s pt va True = (a, s')" by fastforce
  then have g: "grown s s' 2 pt" and q: "if a = 0 then free_pages s' = {}
      else \<exists>q. leaf_tab (k_mem s') 2 pt va = Some q \<and> a = slot q (ix 0 va)"
    using walk_loop_alloc [OF v(1,2) v(3) [unfolded tabs_def] w] by auto
  have "kids (k_mem s') pt \<subseteq> insert (ix 2 va) (kids (k_mem s) pt)"
    using walk_loop_alloc_root [of s 1 pt va a s'] v(1-3) w by (simp add: tabs_def numeral_2_eq_2)
  then have "kids (k_mem s') pt \<subseteq> {..<256}" using v(6) ix_2_low [OF assms(2)] by auto
  then have st: "vm_step s s' pt (pte s pt)"
    using g v(3) unfolding vm_step_def grown_def vm_inv_def tabs_def pte_def by auto
  have "walk s pt va True = Ok (a, s')" using assms(2) w by (simp add: walk_def word_le_nat_alt)
  then show ?thesis using q st full [of s'] found [of _ s'] by (cases "a = 0") auto
qed

lemma pte_leaf_tab: "leaf_tab (k_mem s) 2 pt va = Some q \<Longrightarrow> load64 (k_mem s) (slot q (ix 0 va)) = pte s pt va"
  by (simp add: pte_def pte_of_def ent_def)

text \<open>Writing through the pointer that \<open>walk\<close> returned changes the translation of one page.\<close>

lemma vm_step_store:
  assumes "vm_inv s pt" and "leaf_tab (k_mem s) 2 pt va = Some q" and "unat va < 2 ^ 38"
  shows "vm_step s (s\<lparr>k_mem := store64 (k_mem s) (slot q (ix 0 va)) v\<rparr>) pt
    (\<lambda>va'. if PGROUNDDOWN va' = PGROUNDDOWN va then v else pte s pt va')"
proof -
  let ?m = "store64 (k_mem s) (slot q (ix 0 va)) v"
  let ?s = "s\<lparr>k_mem := ?m\<rparr>"
  note v = vm_inv_parts [OF assms(1)]
  note L = leaf_store [OF v(2) assms(2) refl, of v]
  have q: "q \<in> tabs s pt" using leaf_tab_in [OF assms(2)] by (simp add: tabs_def)
  then have al: "page_aligned q" using v(5) by (simp add: page_ok_def)
  have "agree (free_pages s) (k_mem s) ?m" using al q v(3) by (intro agree_store_slot) auto
  from kinv_mem [OF v(1) this] have k: "kinv ?s" "free_pages ?s = free_pages s" .
  have t: "tabs ?s pt = tabs s pt" using L(2) by (simp add: tabs_def)
  have "pt \<noteq> q"
    using v(2) assms(2) leaf_tab_in [of "k_mem s" 1 _ va q] by (auto simp: numeral_2_eq_2 split: if_splits)
  then have "kids ?m pt = kids (k_mem s) pt"
    using al v(5) [of pt] by (auto simp: kids_def tabs_def page_ok_def ent_store_other)
  then have "vm_inv ?s pt" using k L(1,2) v(3,6) by (simp add: vm_inv_def tabs_def)
  moreover have "pte ?s pt va' = (if PGROUNDDOWN va' = PGROUNDDOWN va then v else pte s pt va')"
    if "unat va' < 2 ^ 38" for va'
    using L(4) [of va'] same_ix_page [OF that assms(3)] by (simp add: pte_def)
  moreover have "agree (- tabs s pt) (k_mem s) ?m" using al q by (intro agree_store_slot) auto
  ultimately show ?thesis by (simp add: vm_step_def k t)
qed

end
