(* ===== verification/Xv6_VmMap.thy ===== *)
theory Xv6_VmMap
  imports Xv6_PageTable
begin

text \<open>
  Functional correctness of \<open>mappages\<close> and \<open>uvmunmap\<close>: which translations they change, which
  pages they take from or give back to the free list, and that nothing else moves.
\<close>

section \<open>Frames\<close>

lemma vm_inv_frame:
  assumes "vm_inv s pt" and "kinv s'" and "k_end s' = k_end s"
    and "agree (tabs s pt) (k_mem s) (k_mem s')" and "free_pages s' \<inter> tabs s pt = {}"
  shows "vm_inv s' pt" and "tabs s' pt = tabs s pt" and "pte s' pt va = pte s pt va"
    and "leaf_tab (k_mem s') 2 pt va = leaf_tab (k_mem s) 2 pt va"
proof -
  note v = vm_inv_parts [OF assms(1)]
  note T = tables_agree [OF v(2) assms(4) [unfolded tabs_def]]
  show "tabs s' pt = tabs s pt" using T by (simp add: tabs_def)
  moreover have "kids (k_mem s') pt = kids (k_mem s) pt"
    by (rule agree_kids(1) [OF assms(4)]) (use v(5) [of pt] in \<open>auto simp: tabs_def page_ok_def\<close>)
  ultimately show "vm_inv s' pt" using T assms(2,3,5) v(6) by (auto simp: vm_inv_def tabs_def)
  show "pte s' pt va = pte s pt va"
    using pte_of_agree [OF v(2) assms(4) [unfolded tabs_def]] by (simp add: pte_def)
  show "leaf_tab (k_mem s') 2 pt va = leaf_tab (k_mem s) 2 pt va" using T by simp
qed

lemma pte_valid_leaf_tab:
  assumes "pte_valid (pte s pt va)"
  obtains q where "leaf_tab (k_mem s) 2 pt va = Some q"
  using assms by (cases "leaf_tab (k_mem s) 2 pt va") (simp_all add: pte_def pte_of_def)

text \<open>For a mapped address, \<open>walk\<close> returns a non-null pointer to its entry.\<close>

lemma walk_mapped:
  assumes "vm_inv s pt" and "unat va < 2 ^ 38" and "pte_valid (pte s pt va)"
  obtains q where "walk s pt va False = Ok (slot q (ix 0 va), s)" "slot q (ix 0 va) \<noteq> 0"
    "leaf_tab (k_mem s) 2 pt va = Some q" "load64 (k_mem s) (slot q (ix 0 va)) = pte s pt va"
proof -
  obtain q where q: "leaf_tab (k_mem s) 2 pt va = Some q" using assms(3) by (rule pte_valid_leaf_tab)
  note v = vm_inv_parts [OF assms(1)]
  have "q \<in> tabs s pt" using leaf_tab_in [OF q] by (simp add: tabs_def)
  then have "slot q (ix 0 va) \<noteq> 0" using slot_nonzero [OF v(5) v(4) ix_less] by simp
  then show ?thesis using that q walk_find [OF assms(1,2)] pte_leaf_tab [OF q] by simp
qed

section \<open>mappages\<close>

definition leaf_pte :: "u64 \<Rightarrow> u32 \<Rightarrow> u64" where
  "leaf_pte pa perm = PA2PTE pa OR scast perm OR PTE_V"

text \<open>The translations \<open>f\<close> after mapping \<open>n\<close> pages from \<open>va\<close> on to the pages from \<open>pa\<close> on.\<close>

definition map_upd :: "(u64 \<Rightarrow> u64) \<Rightarrow> u64 \<Rightarrow> nat \<Rightarrow> u64 \<Rightarrow> u32 \<Rightarrow> u64 \<Rightarrow> u64" where
  "map_upd f va n pa perm = (\<lambda>x. if unat va \<le> unat x \<and> unat x < unat va + 4096 * n
     then leaf_pte (pa + (PGROUNDDOWN x - va)) perm else f x)"

lemma map_upd_0 [simp]: "map_upd f va 0 pa perm = f"
  by (rule ext) (auto simp: map_upd_def)

lemma page_range:
  assumes "page_aligned a"
  shows "PGROUNDDOWN x = a \<longleftrightarrow> unat a \<le> unat x \<and> unat x < unat a + 4096"
proof -
  obtain k where k: "unat a = 4096 * k" using assms by (auto simp: page_aligned_unat)
  have "PGROUNDDOWN x = a \<longleftrightarrow> unat x div 4096 = k"
    by (simp add: word_unat_eq_iff unat_PGROUNDDOWN k)
  then show ?thesis by (simp add: div_eq_iff_bounds k)
qed

lemma map_upd_1:
  assumes "page_aligned a"
  shows "map_upd f a (Suc 0) pa perm = (\<lambda>x. if PGROUNDDOWN x = a then leaf_pte pa perm else f x)"
proof
  fix x
  show "map_upd f a (Suc 0) pa perm x = (if PGROUNDDOWN x = a then leaf_pte pa perm else f x)"
    using page_range [OF assms, of x] by (cases "PGROUNDDOWN x = a") (auto simp: map_upd_def)
qed

lemma map_upd_Suc:
  assumes "page_aligned a" and "unat a + 4096 < 2 ^ 64"
  shows "map_upd (map_upd f a (Suc 0) pa perm) (a + 4096) n (pa + 4096) perm = map_upd f a (Suc n) pa perm"
proof
  fix x
  have st: "unat (a + 4096) = unat a + 4096" using page_step [OF assms] by simp
  have r: "PGROUNDDOWN x = a \<longleftrightarrow> unat a \<le> unat x \<and> unat x < unat a + 4096"
    using page_range [OF assms(1)] .
  show "map_upd (map_upd f a (Suc 0) pa perm) (a + 4096) n (pa + 4096) perm x = map_upd f a (Suc n) pa perm x"
    unfolding map_upd_1 [OF assms(1)] unfolding map_upd_def st using r by auto
qed

text \<open>One round of the loop: the entry found by \<open>walk\<close> is filled in.\<close>

lemma map_one:
  assumes st: "vm_step s s' pt (pte s pt)" and q: "leaf_tab (k_mem s') 2 pt a = Some q"
    and a: "page_aligned a" "unat a < 2 ^ 38"
  shows "vm_step s (s'\<lparr>k_mem := store64 (k_mem s') (slot q (ix 0 a)) (leaf_pte pa perm)\<rparr>) pt
      (map_upd (pte s pt) a (Suc 0) pa perm)"
    and "load64 (k_mem s') (slot q (ix 0 a)) = pte s pt a"
proof -
  let ?t = "s'\<lparr>k_mem := store64 (k_mem s') (slot q (ix 0 a)) (leaf_pte pa perm)\<rparr>"
  have "vm_step s' ?t pt (\<lambda>x. if PGROUNDDOWN x = PGROUNDDOWN a then leaf_pte pa perm else pte s' pt x)"
    using vm_step_store [OF vm_stepD(1) [OF st] q a(2)] .
  then have "vm_step s' ?t pt (map_upd (pte s pt) a (Suc 0) pa perm)"
    by (rule vm_step_cong)
      (use vm_stepD(5) [OF st] a(1) in \<open>simp add: map_upd_1 PGROUNDDOWN_aligned\<close>)
  then show "vm_step s ?t pt (map_upd (pte s pt) a (Suc 0) pa perm)" by (rule vm_step_trans [OF st])
  show "load64 (k_mem s') (slot q (ix 0 a)) = pte s pt a"
    using pte_leaf_tab [OF q] vm_stepD(5) [OF st a(2)] by simp
qed

text \<open>The rounds compose.\<close>

lemma map_more:
  assumes one: "vm_step s t pt (map_upd (pte s pt) a (Suc 0) pa perm)"
    and more: "vm_step t u pt (map_upd (pte t pt) (a + 4096) k (pa + 4096) perm)"
    and a: "page_aligned a" "unat a + 4096 < 2 ^ 64"
  shows "vm_step s u pt (map_upd (pte s pt) a (Suc k) pa perm)"
proof -
  have "vm_step t u pt (map_upd (pte s pt) a (Suc k) pa perm)"
    using more
  proof (rule vm_step_cong)
    fix x :: u64 assume "unat x < 2 ^ 38"
    then have "pte t pt x = map_upd (pte s pt) a (Suc 0) pa perm x" using vm_stepD(5) [OF one] by blast
    then have "map_upd (pte t pt) (a + 4096) k (pa + 4096) perm x =
        map_upd (map_upd (pte s pt) a (Suc 0) pa perm) (a + 4096) k (pa + 4096) perm x"
      by (simp add: map_upd_def)
    then show "map_upd (pte t pt) (a + 4096) k (pa + 4096) perm x = map_upd (pte s pt) a (Suc k) pa perm x"
      using map_upd_Suc [OF a, of "pte s pt" pa perm k] by simp
  qed
  then show ?thesis by (rule vm_step_trans [OF one])
qed

lemma mappages_loop_spec:
  assumes "vm_inv s pt" and "page_aligned a" and "unat a + 4096 * Suc n \<le> 2 ^ 38"
    and "last_a = a + of_nat (4096 * n)"
    and "\<forall>x. unat a \<le> unat x \<and> unat x < unat a + 4096 * Suc n \<longrightarrow> \<not> pte_valid (pte s pt x)"
  shows "\<exists>r s'. mappages_loop s pt a last_a pa perm = Ok (r, s') \<and>
    (r = 0 \<and> vm_step s s' pt (map_upd (pte s pt) a (Suc n) pa perm) \<or>
     r = -1 \<and> free_pages s' = {} \<and> (\<exists>k\<le>n. vm_step s s' pt (map_upd (pte s pt) a k pa perm)))"
  using assms
proof (induction n arbitrary: s a pa)
  case (0 s a pa)
  have lt: "unat a < 2 ^ 38" using "0.prems"(3) by simp
  show ?case
    using "0.prems"(1) lt
  proof (cases rule: walk_alloc)
    case (full s')
    then show ?thesis by (auto simp: mappages_loop.simps)
  next
    case (found q s')
    note one = map_one [OF found(2,3) "0.prems"(2) lt]
    then have "\<not> pte_valid (load64 (k_mem s') (slot q (ix 0 a)))" using "0.prems"(5) by simp
    then show ?thesis using found one(1) [of pa perm] "0.prems"(4)
      by (auto simp: mappages_loop.simps pte_valid_def leaf_pte_def Let_def)
  qed
next
  case (Suc n s a pa)
  have lt: "unat a < 2 ^ 38" using Suc.prems(3) by simp
  have st: "unat (a + 4096) = unat a + 4096" "page_aligned (a + 4096)"
    using page_step [OF Suc.prems(2)] lt by auto
  show ?case
    using Suc.prems(1) lt
  proof (cases rule: walk_alloc)
    case (full s')
    then show ?thesis by (auto simp: mappages_loop.simps intro!: exI [of _ 0])
  next
    case (found q s')
    let ?t = "s'\<lparr>k_mem := store64 (k_mem s') (slot q (ix 0 a)) (leaf_pte pa perm)\<rparr>"
    note one = map_one [OF found(2,3) Suc.prems(2) lt]
    then have nv: "\<not> pte_valid (load64 (k_mem s') (slot q (ix 0 a)))" using Suc.prems(5) by simp
    have la: "last_a = (a + 4096) + of_nat (4096 * n)" using Suc.prems(4) by (simp add: algebra_simps)
    have "unat last_a = unat a + 4096 * Suc n"
      using Suc.prems(3) by (simp only: Suc.prems(4)) (rule unat_add_of_nat, simp)
    then have "a \<noteq> last_a" by auto
    then have eq: "mappages_loop s pt a last_a pa perm = mappages_loop ?t pt (a + 4096) last_a (pa + 4096) perm"
      using found nv by (subst mappages_loop.simps) (simp add: pte_valid_def leaf_pte_def Let_def)
    have nomap: "\<forall>x. unat (a + 4096) \<le> unat x \<and> unat x < unat (a + 4096) + 4096 * Suc n \<longrightarrow>
        \<not> pte_valid (pte ?t pt x)"
    proof (intro allI impI)
      fix x :: u64 assume x: "unat (a + 4096) \<le> unat x \<and> unat x < unat (a + 4096) + 4096 * Suc n"
      then have "unat x < 2 ^ 38" using Suc.prems(3) st(1) by simp
      then have "pte ?t pt x = map_upd (pte s pt) a (Suc 0) pa perm x"
        using vm_stepD(5) [OF one(1)] by blast
      also have "\<dots> = pte s pt x" using x st(1) by (simp add: map_upd_def)
      finally show "\<not> pte_valid (pte ?t pt x)" using Suc.prems(5) x st(1) by simp
    qed
    have more: "vm_step s u pt (map_upd (pte s pt) a (Suc k) pa perm)"
      if "vm_step ?t u pt (map_upd (pte ?t pt) (a + 4096) k (pa + 4096) perm)" for u k
      using map_more [OF one(1) that Suc.prems(2)] lt by simp
    obtain r u where ru: "mappages_loop ?t pt (a + 4096) last_a (pa + 4096) perm = Ok (r, u)"
      "r = 0 \<and> vm_step ?t u pt (map_upd (pte ?t pt) (a + 4096) (Suc n) (pa + 4096) perm) \<or>
       r = -1 \<and> free_pages u = {} \<and> (\<exists>k\<le>n. vm_step ?t u pt (map_upd (pte ?t pt) (a + 4096) k (pa + 4096) perm))"
      using Suc.IH [OF vm_stepD(1) [OF one(1)] st(2) _ la nomap, of "pa + 4096"] Suc.prems(3) st(1) by auto
    then show ?thesis unfolding eq using more by (metis Suc_le_mono)
  qed
qed

lemma mappages_spec:
  assumes "vm_inv s pt" and "page_aligned va" and "page_aligned sz" and "sz \<noteq> 0"
    and "unat va + unat sz \<le> 2 ^ 38"
    and "\<forall>x. unat va \<le> unat x \<and> unat x < unat va + unat sz \<longrightarrow> \<not> pte_valid (pte s pt x)"
  obtains (mapped) s' where "mappages s pt va sz pa perm = Ok (0, s')"
      "vm_step s s' pt (map_upd (pte s pt) va (unat sz div 4096) pa perm)"
  | (full) s' k where "mappages s pt va sz pa perm = Ok (-1, s')" "free_pages s' = {}"
      "k < unat sz div 4096" "vm_step s s' pt (map_upd (pte s pt) va k pa perm)"
proof -
  obtain j where j: "unat sz = 4096 * j" using assms(3) by (auto simp: page_aligned_unat)
  have "0 < unat sz" using assms(4) by (simp add: unat_gt_0)
  then obtain n where n: "unat sz = 4096 * Suc n" using j by (cases j) auto
  have "sz = of_nat (unat sz)" by simp
  also have "\<dots> = of_nat (4096 * n) + 4096" by (simp only: n) simp
  finally have "sz = of_nat (4096 * n) + 4096" .
  then have la: "va + sz - PGSIZE = va + of_nat (4096 * n)" by simp
  have "mappages s pt va sz pa perm = mappages_loop s pt va (va + sz - PGSIZE) pa perm"
    using assms(2-4) by (simp add: mappages_def page_aligned_def)
  then show ?thesis
    using mappages_loop_spec [OF assms(1,2) _ la, of pa perm] assms(5,6) n that
    by (auto simp: less_Suc_eq_le)
qed

section \<open>uvmunmap\<close>

text \<open>
  \<open>vm_release s s' pt f R\<close>: the translations became \<open>f\<close>, the pages \<open>R\<close> were given to the free
  list, and no page outside the tables and \<open>R\<close> changed.
\<close>

definition vm_release :: "kmem \<Rightarrow> kmem \<Rightarrow> u64 \<Rightarrow> (u64 \<Rightarrow> u64) \<Rightarrow> u64 set \<Rightarrow> bool" where
  "vm_release s s' pt f R \<longleftrightarrow> vm_inv s' pt \<and> k_end s' = k_end s \<and> tabs s' pt = tabs s pt \<and>
     free_pages s' = free_pages s \<union> R \<and> (\<forall>va. unat va < 2 ^ 38 \<longrightarrow> pte s' pt va = f va) \<and>
     agree (- (tabs s pt \<union> R)) (k_mem s) (k_mem s')"

lemma vm_releaseD:
  assumes "vm_release s s' pt f R"
  shows "vm_inv s' pt" "k_end s' = k_end s" "tabs s' pt = tabs s pt"
    "free_pages s' = free_pages s \<union> R" "unat va < 2 ^ 38 \<Longrightarrow> pte s' pt va = f va"
    "agree (- (tabs s pt \<union> R)) (k_mem s) (k_mem s')"
  using assms unfolding vm_release_def by blast+

lemma vm_release_trans:
  assumes "vm_release s t pt f R" and "vm_release t u pt g Q"
  shows "vm_release s u pt g (R \<union> Q)"
proof -
  have "agree (- (tabs s pt \<union> (R \<union> Q))) (k_mem s) (k_mem t)"
    using vm_releaseD(6) [OF assms(1)] by (rule agree_mono) blast
  moreover have "agree (- (tabs s pt \<union> (R \<union> Q))) (k_mem t) (k_mem u)"
    using vm_releaseD(6) [OF assms(2)] by (rule agree_mono) (use vm_releaseD(3) [OF assms(1)] in blast)
  ultimately have "agree (- (tabs s pt \<union> (R \<union> Q))) (k_mem s) (k_mem u)" by (rule agree_trans)
  then show ?thesis using assms unfolding vm_release_def by auto
qed

lemma vm_release_cong:
  "vm_release s s' pt f R \<Longrightarrow> (\<And>va. unat va < 2 ^ 38 \<Longrightarrow> f va = g va) \<Longrightarrow> vm_release s s' pt g R"
  by (simp add: vm_release_def)

definition unmap_upd :: "(u64 \<Rightarrow> u64) \<Rightarrow> u64 \<Rightarrow> nat \<Rightarrow> u64 \<Rightarrow> u64" where
  "unmap_upd f va n = (\<lambda>x. if unat va \<le> unat x \<and> unat x < unat va + 4096 * n then 0 else f x)"

definition nth_page :: "kmem \<Rightarrow> u64 \<Rightarrow> u64 \<Rightarrow> nat \<Rightarrow> u64" where
  "nth_page s pt a k = PTE2PA (pte s pt (a + of_nat (4096 * k)))"

lemma unmap_upd_0 [simp]: "unmap_upd f va 0 = f"
  by (rule ext) (auto simp: unmap_upd_def)

lemma unmap_upd_Suc:
  assumes "unat (a + 4096) = unat a + 4096"
  shows "unmap_upd (unmap_upd f a (Suc 0)) (a + 4096) n = unmap_upd f a (Suc n)"
  by (rule ext) (auto simp: unmap_upd_def assms)

lemma unmap_one:
  assumes v: "vm_inv s pt" and a: "page_aligned a" "unat a < 2 ^ 38"
    and q: "leaf_tab (k_mem s) 2 pt a = Some q"
    and p: "do_free \<Longrightarrow> page_ok (k_end s) p \<and> p \<notin> tabs s pt \<union> free_pages s"
  obtains s1 where "(if do_free then kfree s p else Ok s) = Ok s1"
    "vm_release s (s1\<lparr>k_mem := store64 (k_mem s1) (slot q (ix 0 a)) 0\<rparr>) pt
       (unmap_upd (pte s pt) a (Suc 0)) (if do_free then {p} else {})"
proof -
  have store: "vm_release t (t\<lparr>k_mem := store64 (k_mem t) (slot q (ix 0 a)) 0\<rparr>) pt
      (unmap_upd (pte t pt) a (Suc 0)) {}"
    if t: "vm_inv t pt" "leaf_tab (k_mem t) 2 pt a = Some q" for t
  proof -
    let ?t = "t\<lparr>k_mem := store64 (k_mem t) (slot q (ix 0 a)) 0\<rparr>"
    have st: "vm_step t ?t pt (\<lambda>x. if PGROUNDDOWN x = PGROUNDDOWN a then 0 else pte t pt x)"
      by (rule vm_step_store [OF t a(2)])
    have "q \<in> tabs t pt" using leaf_tab_in [OF t(2)] by (simp add: tabs_def)
    then have "page_aligned q" "q \<notin> free_pages t"
      using vm_inv_parts(3,5) [OF t(1)] by (auto simp: page_ok_def)
    then have "free_pages ?t = free_pages t"
      using vm_inv_parts(1) [OF t(1)] by (intro kinv_mem(2) agree_store_slot) auto
    moreover have "(if PGROUNDDOWN x = PGROUNDDOWN a then 0 else pte t pt x) = unmap_upd (pte t pt) a (Suc 0) x"
      for x
      using page_range [OF a(1), of x] a(1) by (auto simp: unmap_upd_def PGROUNDDOWN_aligned)
    ultimately show ?thesis using st unfolding vm_step_def vm_release_def by auto
  qed
  show ?thesis
  proof (cases do_free)
    case False
    then show ?thesis using that [of s] store [OF v q] by simp
  next
    case True
    note P = p [OF True] and V = vm_inv_parts [OF v]
    obtain s1 where s1: "kfree s p = Ok s1" "kinv s1" "free_pages s1 = insert p (free_pages s)"
      "k_end s1 = k_end s" "agree (- {p}) (k_mem s) (k_mem s1)"
      using V(1) P by (elim conjE UnE) (rule kfree_spec [of s p], auto)
    have ag: "agree (tabs s pt) (k_mem s) (k_mem s1)" using s1(5) by (rule agree_mono) (use P in auto)
    have fr: "free_pages s1 \<inter> tabs s pt = {}" using s1(3) P V(3) by auto
    note F = vm_inv_frame [OF v s1(2,4) ag fr]
    have "agree (- (tabs s pt \<union> {p})) (k_mem s) (k_mem s1)" using s1(5) by (rule agree_mono) auto
    then have "vm_release s s1 pt (pte s pt) {p}"
      unfolding vm_release_def using F s1 by auto
    from vm_release_trans [OF this store [of s1]] F q
    have "vm_release s (s1\<lparr>k_mem := store64 (k_mem s1) (slot q (ix 0 a)) 0\<rparr>) pt
       (unmap_upd (pte s1 pt) a (Suc 0)) {p}" by simp
    moreover have "pte s1 pt = pte s pt" using F(3) by (rule ext)
    ultimately show ?thesis using that [of s1] s1(1) True by simp
  qed
qed

text \<open>What \<open>uvmunmap\<close> expects of \<open>n\<close> pages from \<open>a\<close> on: leaves; and, to free them, pages of their own.\<close>

definition leaves :: "kmem \<Rightarrow> u64 \<Rightarrow> u64 \<Rightarrow> nat \<Rightarrow> bool" where
  "leaves s pt a n \<longleftrightarrow> (\<forall>k<n. let e = pte s pt (a + of_nat (4096 * k)) in pte_valid e \<and> PTE_FLAGS e \<noteq> PTE_V)"

definition own_pages :: "kmem \<Rightarrow> u64 \<Rightarrow> u64 \<Rightarrow> nat \<Rightarrow> bool" where
  "own_pages s pt a n \<longleftrightarrow> inj_on (nth_page s pt a) {..<n} \<and>
     (\<forall>k<n. page_ok (k_end s) (nth_page s pt a k) \<and> nth_page s pt a k \<notin> tabs s pt \<union> free_pages s)"

lemma page_shift: "(a :: u64) + 4096 + of_nat (4096 * k) = a + of_nat (4096 * Suc k)"
  by (simp add: algebra_simps)

lemma lessThan_Suc_image: "{..<Suc n} = insert 0 (Suc ` {..<n})"
  by (rule lessThan_Suc_eq_insert_0)

lemma unmap_rest:
  assumes rel: "vm_release s t pt (unmap_upd (pte s pt) a (Suc 0)) R"
    and a: "unat a + 4096 * Suc n \<le> 2 ^ 38" and R: "R \<subseteq> {nth_page s pt a 0}"
  shows "k < n \<Longrightarrow> pte t pt (a + 4096 + of_nat (4096 * k)) = pte s pt (a + of_nat (4096 * Suc k))"
    and "k < n \<Longrightarrow> nth_page t pt (a + 4096) k = nth_page s pt a (Suc k)"
    and "leaves s pt a (Suc n) \<Longrightarrow> leaves t pt (a + 4096) n"
    and "own_pages s pt a (Suc n) \<Longrightarrow> own_pages t pt (a + 4096) n"
proof -
  have P: "pte t pt (a + 4096 + of_nat (4096 * k)) = pte s pt (a + of_nat (4096 * Suc k))" if k: "k < n" for k
  proof -
    have u: "unat (a + of_nat (4096 * Suc k)) = unat a + 4096 * Suc k"
      by (rule unat_add_of_nat) (use a k in simp)
    then have "unat (a + of_nat (4096 * Suc k)) < 2 ^ 38" using a k by simp
    then have "pte t pt (a + of_nat (4096 * Suc k)) = unmap_upd (pte s pt) a (Suc 0) (a + of_nat (4096 * Suc k))"
      by (rule vm_releaseD(5) [OF rel])
    then show ?thesis unfolding page_shift using u by (simp add: unmap_upd_def)
  qed
  then show "k < n \<Longrightarrow> pte t pt (a + 4096 + of_nat (4096 * k)) = pte s pt (a + of_nat (4096 * Suc k))" .
  have N: "nth_page t pt (a + 4096) k = nth_page s pt a (Suc k)" if "k < n" for k
    using P [OF that] by (simp only: nth_page_def)
  then show "k < n \<Longrightarrow> nth_page t pt (a + 4096) k = nth_page s pt a (Suc k)" .
  show "leaves s pt a (Suc n) \<Longrightarrow> leaves t pt (a + 4096) n"
    using P by (auto simp: leaves_def Let_def simp del: of_nat_mult of_nat_Suc mult_Suc_right)
  assume p: "own_pages s pt a (Suc n)"
  then have inj: "inj_on (nth_page s pt a) {..<Suc n}" by (simp add: own_pages_def)
  have "inj_on (nth_page t pt (a + 4096)) {..<n}"
  proof (rule inj_onI)
    fix x y assume "x \<in> {..<n}" "y \<in> {..<n}" "nth_page t pt (a + 4096) x = nth_page t pt (a + 4096) y"
    then show "x = y" using inj_onD [OF inj, of "Suc x" "Suc y"] N by simp
  qed
  moreover have "nth_page s pt a (Suc k) \<notin> R" if "k < n" for k
  proof
    assume "nth_page s pt a (Suc k) \<in> R"
    then have "nth_page s pt a (Suc k) = nth_page s pt a 0" using R by auto
    then show False using inj_onD [OF inj, of "Suc k" 0] that by simp
  qed
  ultimately show "own_pages t pt (a + 4096) n"
    using p N vm_releaseD(2-4) [OF rel] unfolding own_pages_def by auto
qed

lemma uvmunmap_loop_spec:
  assumes "vm_inv s pt" and "page_aligned a" and "unat a + 4096 * n \<le> 2 ^ 38"
    and "e = a + of_nat (4096 * n)" and "leaves s pt a n" and "do_free \<Longrightarrow> own_pages s pt a n"
  shows "\<exists>s'. uvmunmap_loop s pt a e do_free = Ok s' \<and>
    vm_release s s' pt (unmap_upd (pte s pt) a n) (if do_free then nth_page s pt a ` {..<n} else {})"
  using assms
proof (induction n arbitrary: s a)
  case 0
  then show ?case by (simp add: uvmunmap_loop.simps vm_release_def)
next
  case (Suc n)
  let ?p = "nth_page s pt a 0"
  have lt: "unat a < 2 ^ 38" using Suc.prems(3) by simp
  have st: "unat (a + 4096) = unat a + 4096" "page_aligned (a + 4096)"
    using page_step [OF Suc.prems(2)] lt by auto
  have "unat e = unat a + 4096 * Suc n"
    using Suc.prems(3) by (simp only: Suc.prems(4)) (rule unat_add_of_nat, simp)
  then have ae: "a < e" by (simp add: word_less_nat_alt)
  have e: "e = a + 4096 + of_nat (4096 * n)" using Suc.prems(4) by (simp only: page_shift)
  have lf: "pte_valid (pte s pt a)" "PTE_FLAGS (pte s pt a) \<noteq> PTE_V"
    using Suc.prems(5) by (auto simp: leaves_def Let_def dest: spec [of _ 0])
  obtain q where q: "walk s pt a False = Ok (slot q (ix 0 a), s)" "slot q (ix 0 a) \<noteq> 0"
    "leaf_tab (k_mem s) 2 pt a = Some q" "load64 (k_mem s) (slot q (ix 0 a)) = pte s pt a"
    using Suc.prems(1) lt lf(1) by (rule walk_mapped)
  have p: "?p = PTE2PA (pte s pt a)" by (simp add: nth_page_def)
  have pok: "do_free \<Longrightarrow> page_ok (k_end s) ?p \<and> ?p \<notin> tabs s pt \<union> free_pages s"
    using Suc.prems(6) by (auto simp: own_pages_def)
  obtain s1 where s1: "(if do_free then kfree s ?p else Ok s) = Ok s1"
    "vm_release s (s1\<lparr>k_mem := store64 (k_mem s1) (slot q (ix 0 a)) 0\<rparr>) pt
       (unmap_upd (pte s pt) a (Suc 0)) (if do_free then {?p} else {})"
    using Suc.prems(1,2) lt q(3) pok by (rule unmap_one)
  let ?t = "s1\<lparr>k_mem := store64 (k_mem s1) (slot q (ix 0 a)) 0\<rparr>"
  have eq: "uvmunmap_loop s pt a e do_free = uvmunmap_loop ?t pt (a + 4096) e do_free"
    using q lf s1(1) ae unfolding p
    by (subst uvmunmap_loop.simps) (cases do_free, simp_all add: pte_valid_def Let_def)
  have R: "(if do_free then {?p} else {}) \<subseteq> {?p}" by simp
  note rest = unmap_rest [OF s1(2) Suc.prems(3) R]
  have "\<exists>s'. uvmunmap_loop ?t pt (a + 4096) e do_free = Ok s' \<and>
    vm_release ?t s' pt (unmap_upd (pte ?t pt) (a + 4096) n)
      (if do_free then nth_page ?t pt (a + 4096) ` {..<n} else {})"
    using Suc.IH [OF vm_releaseD(1) [OF s1(2)] st(2) _ e rest(3) [OF Suc.prems(5)]]
      rest(4) [OF Suc.prems(6)] Suc.prems(3) st(1) by simp
  then obtain s' where s': "uvmunmap_loop ?t pt (a + 4096) e do_free = Ok s'"
    "vm_release ?t s' pt (unmap_upd (pte ?t pt) (a + 4096) n)
      (if do_free then nth_page ?t pt (a + 4096) ` {..<n} else {})" by blast
  have "vm_release ?t s' pt (unmap_upd (pte s pt) a (Suc n))
      (if do_free then nth_page ?t pt (a + 4096) ` {..<n} else {})"
    using s'(2)
  proof (rule vm_release_cong)
    fix x :: u64 assume "unat x < 2 ^ 38"
    then have "pte ?t pt x = unmap_upd (pte s pt) a (Suc 0) x" by (rule vm_releaseD(5) [OF s1(2)])
    then have "unmap_upd (pte ?t pt) (a + 4096) n x = unmap_upd (unmap_upd (pte s pt) a (Suc 0)) (a + 4096) n x"
      by (simp add: unmap_upd_def)
    then show "unmap_upd (pte ?t pt) (a + 4096) n x = unmap_upd (pte s pt) a (Suc n) x"
      by (simp only: unmap_upd_Suc [OF st(1)])
  qed
  moreover have "nth_page ?t pt (a + 4096) ` {..<n} = (\<lambda>k. nth_page s pt a (Suc k)) ` {..<n}"
    using rest(2) by (intro image_cong) auto
  ultimately have "vm_release s s' pt (unmap_upd (pte s pt) a (Suc n))
      (if do_free then nth_page s pt a ` {..<Suc n} else {})"
    using vm_release_trans [OF s1(2)] by (cases do_free) (fastforce simp: lessThan_Suc_image image_image)+
  then show ?case using eq s'(1) by auto
qed

lemma uvmunmap_spec:
  assumes "vm_inv s pt" and "page_aligned va" and "unat va + 4096 * unat npages \<le> 2 ^ 38"
    and "leaves s pt va (unat npages)" and "do_free \<Longrightarrow> own_pages s pt va (unat npages)"
  obtains s' where "uvmunmap s pt va npages do_free = Ok s'"
    "vm_release s s' pt (unmap_upd (pte s pt) va (unat npages))
      (if do_free then nth_page s pt va ` {..<unat npages} else {})"
proof -
  have "va + npages * PGSIZE = va + of_nat (4096 * unat npages)" by (simp add: mult.commute)
  then show ?thesis
    using uvmunmap_loop_spec [OF assms(1-3) _ assms(4,5), of "va + npages * PGSIZE"] assms(2) that
    by (auto simp: uvmunmap_def page_aligned_def)
qed

end
