(* ===== verification/Xv6_Uvm.thy ===== *)
theory Xv6_Uvm
  imports Xv6_VmMap
begin

text \<open>
  User address spaces. \<open>as_inv s pt n\<close> says that the first \<open>n\<close> virtual pages of \<open>pt\<close> are mapped to
  pages that the address space has for itself: they are pairwise different, no table of \<open>pt\<close> and
  not free. \<open>uvmalloc\<close>, \<open>uvmdealloc\<close> and \<open>uvmcopy\<close> keep it, and account for every page
  they take or give back.
\<close>

section \<open>Entries\<close>

lemma scast_small:
  assumes "unat (x :: u32) < 2 ^ 31"
  shows "(scast x :: u64) = ucast x"
proof -
  have "unat (take_bit 31 x) = unat x"
    using assms by (simp only: unsigned_take_bit_eq) (simp add: take_bit_nat_eq_self)
  then have "take_bit 31 x = x" by (simp add: word_unat_eq_iff)
  then have hi: "\<not> bit x n" if "31 \<le> n" for n
    using that by (metis bit_take_bit_iff not_le)
  show ?thesis
  proof (rule bit_word_eqI)
    fix n assume "n < LENGTH(64)"
    then show "bit (scast x :: u64) n = bit (ucast x :: u64) n"
      using hi [of n] hi [of 31] by (cases "n < 31") (simp_all add: bit_signed_iff bit_unsigned_iff min_def)
  qed
qed

lemma scast_ucast_back:
  assumes "unat (x :: u64) < 2 ^ 31"
  shows "scast (ucast x :: u32) = x"
proof -
  have u: "unat (ucast x :: u32) = unat x"
    using assms by (simp add: unsigned_ucast_eq take_bit_nat_eq_self)
  then have "(scast (ucast x :: u32) :: u64) = ucast (ucast x :: u32)" using assms by (intro scast_small) simp
  moreover have "unat (ucast (ucast x :: u32) :: u64) = unat x" using u by (simp add: unat_ucast_up)
  ultimately show ?thesis by (simp add: word_unat_eq_iff)
qed

text \<open>The entry that \<open>mappages\<close> writes, for permission bits that fit the ten flag bits.\<close>

lemma leaf_pte_facts:
  assumes "page_aligned pa" and "perm < 1024"
  shows "PTE2PA (leaf_pte pa perm) = pa" and "pte_valid (leaf_pte pa perm)"
    and "PTE_FLAGS (leaf_pte pa perm) = ucast perm OR PTE_V"
proof -
  have u: "unat perm < 1024" using assms(2) by (simp add: word_less_nat_alt)
  then have sc: "(scast perm :: u64) = ucast perm" by (intro scast_small) simp
  have lo: "\<not> bit (ucast perm OR PTE_V :: u64) n" if "10 \<le> n" for n
  proof -
    have "unat (take_bit 10 perm) = unat perm"
      using u by (simp only: unsigned_take_bit_eq) (simp add: take_bit_nat_eq_self)
    then have "take_bit 10 perm = perm" by (simp add: word_unat_eq_iff)
    then have "\<not> bit perm n" using that by (metis bit_take_bit_iff not_le)
    then show ?thesis using that by (auto simp: bit_simps PTE_V_def bit_unsigned_iff)
  qed
  have tk: "take_bit 10 (ucast perm OR PTE_V :: u64) = ucast perm OR PTE_V"
    by (rule bit_word_eqI, simp only: bit_take_bit_iff) (use lo not_less in blast)
  have "unat (take_bit 10 (ucast perm OR PTE_V :: u64)) < 2 ^ 10"
    by (simp only: unsigned_take_bit_eq) (rule take_bit_nat_less_exp)
  then have lt: "(ucast perm OR PTE_V :: u64) < 1024" unfolding tk by (simp add: word_less_nat_alt)
  have e: "leaf_pte pa perm = PA2PTE pa OR (ucast perm OR PTE_V)" by (simp add: leaf_pte_def sc or.assoc)
  show "PTE2PA (leaf_pte pa perm) = pa" unfolding e by (rule PTE2PA_PA2PTE [OF assms(1) lt])
  show "pte_valid (leaf_pte pa perm)" by (simp add: leaf_pte_def or.assoc [symmetric])
  have m: "(0x3FF :: u64) = mask 10" by (simp add: mask_eq_exp_minus_1)
  have "PTE_FLAGS (leaf_pte pa perm) = take_bit 10 (leaf_pte pa perm)"
    by (simp only: PTE_FLAGS_def m take_bit_eq_mask)
  also have "\<dots> = take_bit 10 (ucast perm OR PTE_V)"
    unfolding e by (rule bit_word_eqI) (auto simp: bit_take_bit_iff bit_or_iff bit_PA2PTE_low)
  finally show "PTE_FLAGS (leaf_pte pa perm) = ucast perm OR PTE_V" using tk by simp
qed

section \<open>Sizes in pages\<close>

definition npg :: "u64 \<Rightarrow> nat" where
  "npg sz = (unat sz + 4095) div 4096"

definition pva :: "nat \<Rightarrow> u64" where
  "pva k = of_nat (4096 * k)"

lemma unat_pva: "4096 * k < 2 ^ 64 \<Longrightarrow> unat (pva k) = 4096 * k"
  unfolding pva_def by (rule unat_of_nat_small) simp

lemma page_aligned_pva: "4096 * k < 2 ^ 64 \<Longrightarrow> page_aligned (pva k)"
  by (simp add: page_aligned_unat unat_pva)

lemma PGROUNDUP_npg: "unat sz < 2 ^ 63 \<Longrightarrow> PGROUNDUP sz = pva (npg sz)"
proof -
  assume a: "unat sz < 2 ^ 63"
  have "(unat sz + 4095) div 4096 * 4096 \<le> unat sz + 4095" by simp
  then have "4096 * npg sz < 2 ^ 64" using a unfolding npg_def by (simp add: mult.commute)
  then have "unat (PGROUNDUP sz) = unat (pva (npg sz))"
    using a by (simp add: unat_pva unat_PGROUNDUP npg_def)
  then show ?thesis by (simp add: word_unat_eq_iff)
qed

lemma npg_bounds: "unat sz \<le> 4096 * npg sz" "4096 * npg sz < unat sz + 4096"
  unfolding npg_def using div_mult_mod_eq [of "unat sz + 4095" 4096] mod_less_divisor [of 4096 "unat sz + 4095"]
  by linarith+

lemma npg_mono: "a \<le> b \<Longrightarrow> npg a \<le> npg b"
  unfolding npg_def by (intro div_le_mono) (simp add: word_le_nat_alt)

lemma npg_pva [simp]: "4096 * k < 2 ^ 64 \<Longrightarrow> npg (pva k) = k"
  by (simp add: npg_def unat_pva)

lemma nth_page_pva: "nth_page s pt (pva j) k = nth_page s pt 0 (j + k)"
  by (simp add: nth_page_def pva_def distrib_left)

lemma pte_pva: "pte s pt (pva j + of_nat (4096 * k)) = pte s pt (pva (j + k))"
  by (simp add: pva_def distrib_left)

section \<open>The invariant\<close>

definition as_inv :: "kmem \<Rightarrow> u64 \<Rightarrow> nat \<Rightarrow> bool" where
  "as_inv s pt n \<longleftrightarrow> vm_inv s pt \<and> 4096 * n \<le> 2 ^ 38 \<and> leaves s pt 0 n \<and> own_pages s pt 0 n"

definition upages :: "kmem \<Rightarrow> u64 \<Rightarrow> nat \<Rightarrow> nat \<Rightarrow> u64 set" where
  "upages s pt j k = nth_page s pt 0 ` {j..<k}"

lemma leaves_pva: "leaves s pt (pva j) k \<longleftrightarrow> (\<forall>i. j \<le> i \<and> i < j + k \<longrightarrow>
    pte_valid (pte s pt (pva i)) \<and> PTE_FLAGS (pte s pt (pva i)) \<noteq> PTE_V)"
  unfolding leaves_def Let_def pte_pva by (metis add_less_cancel_left le_Suc_ex le_add1)

lemma leaves_0: "leaves s pt 0 n \<longleftrightarrow> (\<forall>i<n. pte_valid (pte s pt (pva i)) \<and> PTE_FLAGS (pte s pt (pva i)) \<noteq> PTE_V)"
  by (simp add: leaves_def Let_def pva_def)

lemma nth_page_0: "nth_page s pt 0 k = PTE2PA (pte s pt (pva k))"
  by (simp add: nth_page_def pva_def)

lemma own_pages_pva:
  assumes "own_pages s pt 0 n" and "j + k \<le> n"
  shows "own_pages s pt (pva j) k"
proof -
  have "inj_on (nth_page s pt (pva j)) {..<k}"
  proof (rule inj_onI)
    fix x y assume "x \<in> {..<k}" "y \<in> {..<k}" "nth_page s pt (pva j) x = nth_page s pt (pva j) y"
    then show "x = y"
      using assms inj_onD [of "nth_page s pt 0" "{..<n}" "j + x" "j + y"]
      by (simp add: nth_page_pva own_pages_def)
  qed
  then show ?thesis using assms by (auto simp: own_pages_def nth_page_pva)
qed

lemma upages_image: "nth_page s pt (pva j) ` {..<k} = upages s pt j (j + k)"
proof -
  have "{j..<j + k} = (+) j ` {..<k}" by (simp add: lessThan_atLeast0 add.commute)
  then show ?thesis by (simp add: upages_def image_image nth_page_pva)
qed

text \<open>Giving back the pages from \<open>j\<close> on.\<close>

lemma as_unmap:
  assumes inv: "as_inv s pt n" and j: "j \<le> n" and n: "unat npages = n - j"
  obtains s' where "uvmunmap s pt (pva j) npages True = Ok s'"
    "vm_release s s' pt (unmap_upd (pte s pt) (pva j) (n - j)) (upages s pt j n)" "as_inv s' pt j"
proof -
  have v: "vm_inv s pt" "4096 * n \<le> 2 ^ 38" "leaves s pt 0 n" "own_pages s pt 0 n"
    using inv by (auto simp: as_inv_def)
  have u: "unat (pva j) = 4096 * j" "page_aligned (pva j)"
    using v(2) j by (auto intro!: unat_pva page_aligned_pva)
  have lv: "leaves s pt (pva j) (unat npages)" using v(3) j unfolding leaves_pva leaves_0 n by auto
  have ow: "own_pages s pt (pva j) (unat npages)" by (rule own_pages_pva [OF v(4)]) (use j n in simp)
  have b: "unat (pva j) + 4096 * unat npages \<le> 2 ^ 38" using v(2) j by (simp add: u n)
  obtain s' where s': "uvmunmap s pt (pva j) npages True = Ok s'"
    "vm_release s s' pt (unmap_upd (pte s pt) (pva j) (unat npages))
      (if True then nth_page s pt (pva j) ` {..<unat npages} else {})"
    using v(1) u(2) b lv ow by (rule uvmunmap_spec)
  have R: "vm_release s s' pt (unmap_upd (pte s pt) (pva j) (n - j)) (upages s pt j n)"
    using s'(2) j by (simp add: n upages_image)
  note D = vm_releaseD [OF R]
  have P: "pte s' pt (pva i) = pte s pt (pva i)" if "i < j" for i
  proof -
    have "unat (pva i) = 4096 * i" using that j v(2) by (intro unat_pva) simp
    then show ?thesis using D(5) [of "pva i"] that j v(2) by (simp add: unmap_upd_def u)
  qed
  then have N: "nth_page s' pt 0 i = nth_page s pt 0 i" if "i < j" for i
    using that by (simp add: nth_page_0)
  have inj: "inj_on (nth_page s pt 0) {..<n}" using v(4) by (simp add: own_pages_def)
  have "own_pages s' pt 0 j"
    unfolding own_pages_def
  proof (intro conjI allI impI)
    show "inj_on (nth_page s' pt 0) {..<j}"
      using inj j N by (auto simp: inj_on_def)
    fix k assume k: "k < j"
    then show "page_ok (k_end s') (nth_page s' pt 0 k)"
      using v(4) N D(2) j by (simp add: own_pages_def)
    have "nth_page s pt 0 k \<notin> upages s pt j n"
      using k j inj by (auto simp: upages_def dest!: inj_onD)
    then show "nth_page s' pt 0 k \<notin> tabs s' pt \<union> free_pages s'"
      using v(4) N k j D(3,4) by (simp add: own_pages_def)
  qed
  then have "as_inv s' pt j" using D(1) v P j unfolding as_inv_def leaves_0 by simp
  then show ?thesis using that s'(1) R by blast
qed

lemma uvmdealloc_spec:
  assumes inv: "as_inv s pt (npg oldsz)" and le: "newsz \<le> oldsz"
  obtains s' where "uvmdealloc s pt oldsz newsz = Ok (newsz, s')" "as_inv s' pt (npg newsz)"
    "vm_release s s' pt (unmap_upd (pte s pt) (PGROUNDUP newsz) (npg oldsz - npg newsz))
      (upages s pt (npg newsz) (npg oldsz))"
proof -
  have v: "vm_inv s pt" "4096 * npg oldsz \<le> 2 ^ 38" using inv by (auto simp: as_inv_def)
  have o38: "unat oldsz \<le> 2 ^ 38" using npg_bounds(1) [of oldsz] v(2) by linarith
  have nl: "unat newsz \<le> unat oldsz" using le by (simp add: word_le_nat_alt)
  have np: "npg newsz \<le> npg oldsz" using le by (rule npg_mono)
  have r: "PGROUNDUP oldsz = pva (npg oldsz)" "PGROUNDUP newsz = pva (npg newsz)"
    using o38 nl by (simp_all add: PGROUNDUP_npg)
  have u: "unat (pva (npg oldsz)) = 4096 * npg oldsz" "unat (pva (npg newsz)) = 4096 * npg newsz"
    using v(2) np by (auto intro!: unat_pva)
  show ?thesis
  proof (cases "npg newsz = npg oldsz")
    case True
    have "uvmdealloc s pt oldsz newsz = Ok (newsz, s)"
      using le True r by (auto simp: uvmdealloc_def)
    then show ?thesis using that [of s] inv v(1) True by (simp add: vm_release_def upages_def)
  next
    case False
    then have lt: "npg newsz < npg oldsz" using np by simp
    have ne: "\<not> newsz \<ge> oldsz" using lt npg_mono [of oldsz newsz] by auto
    let ?d = "(PGROUNDUP oldsz - PGROUNDUP newsz) div PGSIZE"
    have "pva (npg newsz) \<le> pva (npg oldsz)" using np by (simp add: word_le_nat_alt u)
    then have ud: "unat ?d = npg oldsz - npg newsz"
      unfolding r by (simp add: unat_div unat_diff_le u diff_mult_distrib2 [symmetric])
    then have "scast (ucast ?d :: u32) = ?d" using v(2) by (intro scast_ucast_back) simp
    moreover have "PGROUNDUP newsz < PGROUNDUP oldsz" using lt by (simp add: r word_less_nat_alt u)
    ultimately have eq: "uvmdealloc s pt oldsz newsz =
        rbind (uvmunmap s pt (pva (npg newsz)) ?d True) (\<lambda>s1. Ok (newsz, s1))"
      using ne by (simp add: uvmdealloc_def Let_def r)
    obtain s' where "uvmunmap s pt (pva (npg newsz)) ?d True = Ok s'"
      "vm_release s s' pt (unmap_upd (pte s pt) (pva (npg newsz)) (npg oldsz - npg newsz))
        (upages s pt (npg newsz) (npg oldsz))" "as_inv s' pt (npg newsz)"
      using inv np ud by (rule as_unmap)
    then show ?thesis using that eq r by simp
  qed
qed

section \<open>Growing by a page\<close>

text \<open>The valid translations; an invalid entry counts as absent whatever its other bits are.\<close>

definition xlate :: "kmem \<Rightarrow> u64 \<Rightarrow> u64 \<Rightarrow> u64 option" where
  "xlate s pt va = (if pte_valid (pte s pt va) then Some (pte s pt va) else None)"

lemma xlate_None_iff [simp]: "xlate s pt va = None \<longleftrightarrow> \<not> pte_valid (pte s pt va)"
  by (simp add: xlate_def)

lemma leaf_tab_same_ix: "same_ix l va va' \<Longrightarrow> leaf_tab m l pt va = leaf_tab m l pt va'"
  by (induction l arbitrary: pt) (simp_all add: same_ix_Suc)

lemma pte_same_page:
  assumes "PGROUNDDOWN va = PGROUNDDOWN va'" and "unat va < 2 ^ 38" and "unat va' < 2 ^ 38"
  shows "pte s pt va = pte s pt va'"
proof -
  have same: "same_ix 2 va va'" using assms same_ix_page by blast
  then have "ix 0 va = ix 0 va'" by (simp add: same_ix_def)
  then show ?thesis using leaf_tab_same_ix [OF same] by (simp add: pte_def pte_of_def split: option.split)
qed

text \<open>
  \<open>grew s0 s pt j k\<close>: from \<open>s0\<close> to \<open>s\<close> the address space grew from \<open>j\<close> to \<open>k\<close> pages. Every page that
  left the free list is now a table of \<open>pt\<close> or one of the new pages; the other translations and
  the memory outside the tables and the formerly free pages are as before.
\<close>

definition grew :: "kmem \<Rightarrow> kmem \<Rightarrow> u64 \<Rightarrow> nat \<Rightarrow> nat \<Rightarrow> bool" where
  "grew s0 s pt j k \<longleftrightarrow> as_inv s pt k \<and> j \<le> k \<and> k_end s = k_end s0 \<and> tabs s0 pt \<subseteq> tabs s pt \<and>
     free_pages s0 = free_pages s \<union> (tabs s pt - tabs s0 pt) \<union> upages s pt j k \<and>
     (\<forall>va. unat va < 2 ^ 38 \<and> (unat va < 4096 * j \<or> 4096 * k \<le> unat va) \<longrightarrow> xlate s pt va = xlate s0 pt va) \<and>
     agree (- (tabs s0 pt \<union> free_pages s0)) (k_mem s0) (k_mem s)"

lemma grewD:
  assumes "grew s0 s pt j k"
  shows "as_inv s pt k" "j \<le> k" "k_end s = k_end s0" "tabs s0 pt \<subseteq> tabs s pt"
    "free_pages s0 = free_pages s \<union> (tabs s pt - tabs s0 pt) \<union> upages s pt j k"
    "unat va < 2 ^ 38 \<Longrightarrow> unat va < 4096 * j \<or> 4096 * k \<le> unat va \<Longrightarrow> xlate s pt va = xlate s0 pt va"
    "agree (- (tabs s0 pt \<union> free_pages s0)) (k_mem s0) (k_mem s)"
  using assms unfolding grew_def by blast+

lemma grewI:
  assumes "as_inv s pt k" "j \<le> k" "k_end s = k_end s0" "tabs s0 pt \<subseteq> tabs s pt"
    "free_pages s0 = free_pages s \<union> (tabs s pt - tabs s0 pt) \<union> upages s pt j k"
    "\<And>va. unat va < 2 ^ 38 \<Longrightarrow> unat va < 4096 * j \<or> 4096 * k \<le> unat va \<Longrightarrow> xlate s pt va = xlate s0 pt va"
    "agree (- (tabs s0 pt \<union> free_pages s0)) (k_mem s0) (k_mem s)"
  shows "grew s0 s pt j k"
  unfolding grew_def using assms by blast

lemma grew_refl: "as_inv s pt k \<Longrightarrow> grew s s pt k k"
  by (simp add: grew_def upages_def)

lemma as_invD:
  assumes "as_inv s pt n"
  shows "vm_inv s pt" "4096 * n \<le> 2 ^ 38" "leaves s pt 0 n" "own_pages s pt 0 n" "kinv s"
    "tabs s pt \<inter> free_pages s = {}"
    "i < n \<Longrightarrow> pte_valid (pte s pt (pva i))" "i < n \<Longrightarrow> PTE_FLAGS (pte s pt (pva i)) \<noteq> PTE_V"
    "i < n \<Longrightarrow> page_ok (k_end s) (nth_page s pt 0 i)"
    "i < n \<Longrightarrow> nth_page s pt 0 i \<notin> tabs s pt" "i < n \<Longrightarrow> nth_page s pt 0 i \<notin> free_pages s"
    "i < n \<Longrightarrow> i' < n \<Longrightarrow> nth_page s pt 0 i = nth_page s pt 0 i' \<Longrightarrow> i = i'"
proof -
  show v: "vm_inv s pt" "4096 * n \<le> 2 ^ 38" "leaves s pt 0 n" "own_pages s pt 0 n"
    using assms by (auto simp: as_inv_def)
  show "kinv s" "tabs s pt \<inter> free_pages s = {}" using vm_inv_parts [OF v(1)] by auto
  show "i < n \<Longrightarrow> pte_valid (pte s pt (pva i))" "i < n \<Longrightarrow> PTE_FLAGS (pte s pt (pva i)) \<noteq> PTE_V"
    using v(3) by (auto simp: leaves_0)
  show "i < n \<Longrightarrow> page_ok (k_end s) (nth_page s pt 0 i)"
    "i < n \<Longrightarrow> nth_page s pt 0 i \<notin> tabs s pt" "i < n \<Longrightarrow> nth_page s pt 0 i \<notin> free_pages s"
    "i < n \<Longrightarrow> i' < n \<Longrightarrow> nth_page s pt 0 i = nth_page s pt 0 i' \<Longrightarrow> i = i'"
    using v(4) by (auto simp: own_pages_def dest: inj_onD)
qed

text \<open>A state in which one page \<open>p\<close> has left the free list and holds arbitrary contents.\<close>

definition took :: "kmem \<Rightarrow> kmem \<Rightarrow> u64 \<Rightarrow> bool" where
  "took s s1 p \<longleftrightarrow> kinv s1 \<and> k_end s1 = k_end s \<and> p \<in> free_pages s \<and>
     free_pages s1 = free_pages s - {p} \<and> agree (- {p}) (k_mem s) (k_mem s1)"

lemma took_kalloc:
  assumes "kinv s" and "kalloc s = (p, s1)" and "p \<noteq> 0" and "agree (- {p}) (k_mem s1) m"
  shows "took s (s1\<lparr>k_mem := m\<rparr>) p"
proof -
  have a: "kinv s1" "p \<in> free_pages s" "free_pages s1 = free_pages s - {p}" "k_end s1 = k_end s"
    "agree (- {p}) (k_mem s) (k_mem s1)"
    using assms(1) by (cases rule: kalloc_cases; use assms(2,3) in auto)+
  have "agree (free_pages s1) (k_mem s1) m" using assms(4) by (rule agree_mono) (use a(3) in auto)
  from kinv_mem [OF a(1) this] show ?thesis
    using a agree_trans [OF a(5) assms(4)] by (simp add: took_def)
qed

lemma took_frame:
  assumes "took s s1 p" and "vm_inv s pt"
  shows "vm_inv s1 pt" "tabs s1 pt = tabs s pt" "pte s1 pt va = pte s pt va" "p \<notin> tabs s pt"
proof -
  have t: "kinv s1" "k_end s1 = k_end s" "p \<in> free_pages s" "free_pages s1 = free_pages s - {p}"
    "agree (- {p}) (k_mem s) (k_mem s1)" using assms(1) by (auto simp: took_def)
  have d: "tabs s pt \<inter> free_pages s = {}" using vm_inv_parts(3) [OF assms(2)] .
  show p: "p \<notin> tabs s pt" using d t(3) by auto
  have "agree (tabs s pt) (k_mem s) (k_mem s1)" using t(5) by (rule agree_mono) (use p in auto)
  moreover have "free_pages s1 \<inter> tabs s pt = {}" using d t(4) by auto
  ultimately show "vm_inv s1 pt" "tabs s1 pt = tabs s pt" "pte s1 pt va = pte s pt va"
    using vm_inv_frame [OF assms(2) t(1,2)] by auto
qed

text \<open>The page becomes page \<open>k\<close> of the address space.\<close>

lemma as_map_page:
  assumes inv: "as_inv s pt k" and k: "4096 * Suc k \<le> 2 ^ 38" and t: "took s s1 p"
    and perm: "perm < 1024" "ucast perm OR PTE_V \<noteq> PTE_V"
    and st: "vm_step s1 s2 pt (map_upd (pte s1 pt) (pva k) (Suc 0) p perm)"
  shows "grew s s2 pt k (Suc k)" and "nth_page s2 pt 0 k = p"
    and "pte s2 pt (pva k) = leaf_pte p perm" and "agree {p} (k_mem s1) (k_mem s2)"
proof -
  note I = as_invD [OF inv] and F = took_frame [OF t as_invD(1) [OF inv]] and D = vm_stepD [OF st]
  have T: "kinv s1" "k_end s1 = k_end s" "p \<in> free_pages s" "free_pages s1 = free_pages s - {p}"
    "agree (- {p}) (k_mem s) (k_mem s1)" using t by (auto simp: took_def)
  have pok: "page_ok (k_end s) p" using free_pages_ok [OF I(5) T(3)] .
  then have al: "page_aligned p" by (simp add: page_ok_def)
  note L = leaf_pte_facts [OF al perm(1)]
  have al_k: "page_aligned (pva k)" and u: "unat (pva k) = 4096 * k"
    using k by (auto intro!: page_aligned_pva unat_pva)
  have P: "pte s2 pt va = (if PGROUNDDOWN va = pva k then leaf_pte p perm else pte s pt va)"
    if "unat va < 2 ^ 38" for va
    using D(5) [OF that] by (simp add: map_upd_1 [OF al_k] F(3))
  show pk: "pte s2 pt (pva k) = leaf_pte p perm" using P [of "pva k"] k by (simp add: u PGROUNDDOWN_aligned al_k)
  then show nk: "nth_page s2 pt 0 k = p" by (simp add: nth_page_0 L)
  have po: "pte s2 pt (pva i) = pte s pt (pva i)" if "i < k" for i
  proof -
    have ui: "unat (pva i) = 4096 * i" "page_aligned (pva i)" using that k by (auto intro!: unat_pva page_aligned_pva)
    then have "PGROUNDDOWN (pva i) \<noteq> pva k" using that u by (auto simp: PGROUNDDOWN_aligned word_unat_eq_iff)
    then show ?thesis using P [of "pva i"] ui that k by simp
  qed
  then have no: "nth_page s2 pt 0 i = nth_page s pt 0 i" if "i < k" for i using that by (simp add: nth_page_0)
  have tb: "tabs s2 pt = tabs s pt \<union> (free_pages s - {p} - free_pages s2)"
    using D(4) F(2) T(4) by simp
  have fr: "free_pages s2 \<subseteq> free_pages s - {p}" using D(3) T(4) by simp
  have lv: "leaves s2 pt 0 (Suc k)"
    unfolding leaves_0
  proof (intro allI impI)
    fix i assume "i < Suc k"
    then show "pte_valid (pte s2 pt (pva i)) \<and> PTE_FLAGS (pte s2 pt (pva i)) \<noteq> PTE_V"
      using I(7,8) po pk L perm(2) by (cases "i = k") simp_all
  qed
  have notin: "nth_page s pt 0 i \<notin> tabs s2 pt" "nth_page s pt 0 i \<notin> free_pages s2" "nth_page s pt 0 i \<noteq> p"
    if "i < k" for i
    using I(10,11) [OF that] tb fr T(3) by auto
  have "inj_on (nth_page s2 pt 0) {..<Suc k}"
  proof (rule inj_onI)
    fix x y assume "x \<in> {..<Suc k}" "y \<in> {..<Suc k}" "nth_page s2 pt 0 x = nth_page s2 pt 0 y"
    then show "x = y" using I(12) [of x y] nk no notin(3) [of x] notin(3) [of y] by (auto simp: less_Suc_eq)
  qed
  moreover have "page_ok (k_end s2) (nth_page s2 pt 0 i) \<and> nth_page s2 pt 0 i \<notin> tabs s2 pt \<union> free_pages s2"
    if "i < Suc k" for i
  proof (cases "i = k")
    case True
    then show ?thesis using nk pok D(2) T(2) tb fr F(4) by auto
  next
    case False
    then have "i < k" using that by simp
    then show ?thesis using no I(9) [of i] notin [of i] D(2) T(2) by simp
  qed
  ultimately have ow: "own_pages s2 pt 0 (Suc k)" by (simp add: own_pages_def)
  have X: "xlate s2 pt va = xlate s pt va"
    if "unat va < 2 ^ 38" "unat va < 4096 * k \<or> 4096 * Suc k \<le> unat va" for va
    using P [OF that(1)] page_range [OF al_k, of va] that(2) u by (auto simp: xlate_def)
  have up: "upages s2 pt k (Suc k) = {p}" by (simp add: upages_def nk)
  have "agree (- (tabs s pt \<union> free_pages s)) (k_mem s) (k_mem s1)"
    using T(5) by (rule agree_mono) (use T(3) in auto)
  moreover have "agree (- (tabs s pt \<union> free_pages s)) (k_mem s1) (k_mem s2)"
    using D(6) by (rule agree_mono) (use F(2) T(4) in auto)
  ultimately have ag: "agree (- (tabs s pt \<union> free_pages s)) (k_mem s) (k_mem s2)" by (rule agree_trans)
  have cons: "free_pages s = free_pages s2 \<union> (tabs s2 pt - tabs s pt) \<union> upages s2 pt k (Suc k)"
    unfolding up tb using fr T(3) I(6) by auto
  show "grew s s2 pt k (Suc k)"
  proof (rule grewI)
    show "as_inv s2 pt (Suc k)" using D(1) k lv ow by (simp add: as_inv_def)
    show "k_end s2 = k_end s" using D(2) T(2) by simp
    show "tabs s pt \<subseteq> tabs s2 pt" using tb by blast
  qed (simp_all only: cons [symmetric] X ag le_SucI order_refl)
  show "agree {p} (k_mem s1) (k_mem s2)"
    using D(6) by (rule agree_mono) (use F(2,4) T(4) in auto)
qed

lemma grew_pte:
  assumes "grew s t pt k l" and "as_inv s pt k" and "i < k"
  shows "pte t pt (pva i) = pte s pt (pva i)" and "nth_page t pt 0 i = nth_page s pt 0 i"
proof -
  have u: "unat (pva i) = 4096 * i" "unat (pva i) < 2 ^ 38"
    using assms(3) as_invD(2) [OF assms(2)] by (auto simp: unat_pva)
  have "xlate t pt (pva i) = xlate s pt (pva i)" using grewD(6) [OF assms(1) u(2)] assms(3) u(1) by simp
  then show "pte t pt (pva i) = pte s pt (pva i)"
    using as_invD(7) [OF assms(2,3)] by (auto simp: xlate_def split: if_splits)
  then show "nth_page t pt 0 i = nth_page s pt 0 i" by (simp add: nth_page_0)
qed

text \<open>The old pages keep their contents.\<close>

lemma grew_contents:
  assumes "grew s t pt k l" and "as_inv s pt k" and "i < k" and "PGROUNDDOWN x = nth_page s pt 0 i"
  shows "k_mem t x = k_mem s x"
  by (rule agreeD [OF grewD(7) [OF assms(1)]]) (use as_invD(10,11) [OF assms(2,3)] assms(4) in auto)

lemma grew_trans:
  assumes "grew s0 s pt j k" and "grew s t pt k l"
  shows "grew s0 t pt j l"
proof -
  note A = grewD [OF assms(1)] and B = grewD [OF assms(2)]
  have "{j..<l} = {j..<k} \<union> {k..<l}" using A(2) B(2) by auto
  moreover have "nth_page t pt 0 ` {j..<k} = nth_page s pt 0 ` {j..<k}"
    using grew_pte(2) [OF assms(2) A(1)] by (intro image_cong) auto
  ultimately have up: "upages t pt j l = upages s pt j k \<union> upages t pt k l"
    by (simp add: upages_def image_Un)
  have d: "tabs t pt \<inter> free_pages t = {}" by (rule as_invD(6) [OF B(1)])
  have cons: "free_pages s0 = free_pages t \<union> (tabs t pt - tabs s0 pt) \<union> upages t pt j l"
  proof -
    have 1: "tabs t pt - tabs s0 pt = (tabs t pt - tabs s pt) \<union> (tabs s pt - tabs s0 pt)"
      using A(4) B(4) by blast
    show ?thesis unfolding up 1 using A(5) B(5) by blast
  qed
  have sub: "tabs s pt \<union> free_pages s \<subseteq> tabs s0 pt \<union> free_pages s0" using A(4,5) by blast
  have "agree (- (tabs s0 pt \<union> free_pages s0)) (k_mem s) (k_mem t)"
    using B(7) by (rule agree_mono) (use sub in blast)
  with A(7) have ag: "agree (- (tabs s0 pt \<union> free_pages s0)) (k_mem s0) (k_mem t)" by (rule agree_trans)
  have "xlate t pt va = xlate s0 pt va"
    if "unat va < 2 ^ 38" "unat va < 4096 * j \<or> 4096 * l \<le> unat va" for va
    using A(6) [OF that(1)] B(6) [OF that(1)] that(2) A(2) B(2) by auto
  then show ?thesis using A B cons ag unfolding grew_def by auto
qed

text \<open>Giving the new pages back leaves only new tables behind.\<close>

lemma grew_back:
  assumes g: "grew s0 s pt j k" and inv0: "as_inv s0 pt j"
    and none: "\<And>va. 4096 * j \<le> unat va \<Longrightarrow> unat va < 4096 * k \<Longrightarrow> xlate s0 pt va = None"
    and rel: "vm_release s s' pt (unmap_upd (pte s pt) (pva j) (k - j)) (upages s pt j k)"
    and inv: "as_inv s' pt j"
  shows "grew s0 s' pt j j"
proof -
  note A = grewD [OF g] and R = vm_releaseD [OF rel]
  have u: "unat (pva j) = 4096 * j" using as_invD(2) [OF inv0] by (simp add: unat_pva)
  have "free_pages s0 = free_pages s' \<union> (tabs s' pt - tabs s0 pt)" using A(5) R(3,4) by blast
  moreover have "xlate s' pt va = xlate s0 pt va" if "unat va < 2 ^ 38" for va
  proof (cases "4096 * j \<le> unat va \<and> unat va < 4096 * k")
    case True
    then have "unat va < 4096 * j + 4096 * (k - j)" using A(2) by (simp add: diff_mult_distrib2)
    then show ?thesis using R(5) [OF that] none [of va] True by (simp add: unmap_upd_def u xlate_def)
  next
    case False
    then have "pte s' pt va = pte s pt va" using R(5) [OF that] A(2) by (auto simp: unmap_upd_def u)
    then have "xlate s' pt va = xlate s pt va" by (simp add: xlate_def)
    then show ?thesis using A(6) [OF that] False by auto
  qed
  moreover have "agree (- (tabs s0 pt \<union> free_pages s0)) (k_mem s) (k_mem s')"
    using R(6) by (rule agree_mono) (use A(4,5) in blast)
  then have "agree (- (tabs s0 pt \<union> free_pages s0)) (k_mem s0) (k_mem s')" by (rule agree_trans [OF A(7)])
  ultimately show ?thesis using inv A(3,4) R(2,3) by (simp add: grew_def upages_def)
qed

text \<open>A page that could not be mapped is freed again.\<close>

lemma as_unmapped_page:
  assumes inv: "as_inv s pt k" and t: "took s s1 p" and st: "vm_step s1 s2 pt (pte s1 pt)"
  obtains s3 where "kfree s2 p = Ok s3" "grew s s3 pt k k"
proof -
  note I = as_invD [OF inv] and F = took_frame [OF t as_invD(1) [OF inv]] and D = vm_stepD [OF st]
  have T: "kinv s1" "k_end s1 = k_end s" "p \<in> free_pages s" "free_pages s1 = free_pages s - {p}"
    "agree (- {p}) (k_mem s) (k_mem s1)" using t by (auto simp: took_def)
  have pok: "page_ok (k_end s2) p" using free_pages_ok [OF I(5) T(3)] D(2) T(2) by simp
  have pf: "p \<notin> free_pages s2" using D(3) T(4) by auto
  obtain s3 where s3: "kfree s2 p = Ok s3" "kinv s3" "free_pages s3 = insert p (free_pages s2)"
    "k_end s3 = k_end s2" "agree (- {p}) (k_mem s2) (k_mem s3)"
    using vm_inv_parts(1) [OF D(1)] pok pf by (rule kfree_spec)
  have tb: "tabs s2 pt = tabs s pt \<union> (free_pages s - {p} - free_pages s2)" using D(4) F(2) T(4) by simp
  have ag: "agree (tabs s2 pt) (k_mem s2) (k_mem s3)" using s3(5) by (rule agree_mono) (use tb F(4) in auto)
  have dj: "free_pages s3 \<inter> tabs s2 pt = {}"
    using s3(3) vm_inv_parts(3) [OF D(1)] tb F(4) by auto
  note G = vm_inv_frame [OF D(1) s3(2,4) ag dj]
  have P: "pte s3 pt va = pte s pt va" if "unat va < 2 ^ 38" for va
    using G(3) D(5) [OF that] F(3) by simp
  have u: "unat (pva i) < 2 ^ 38" if "i < k" for i
  proof -
    have "unat (pva i) = 4096 * i" by (rule unat_pva) (use that I(2) in simp)
    then show ?thesis using that I(2) by simp
  qed
  then have N: "nth_page s3 pt 0 i = nth_page s pt 0 i" if "i < k" for i
    using that P by (simp add: nth_page_0)
  have own: "nth_page s pt 0 i \<notin> tabs s3 pt \<union> free_pages s3" if "i < k" for i
    using I(10,11) [OF that] G(2) tb s3(3) T(3) D(3) T(4) by auto
  have ke: "k_end s3 = k_end s" using s3(4) D(2) T(2) by simp
  have "inj_on (nth_page s3 pt 0) {..<k}" using N I(12) by (auto simp: inj_on_def)
  then have "as_inv s3 pt k"
    using G(1) I(2,7,8,9) P u N own ke unfolding as_inv_def leaves_0 own_pages_def by simp
  moreover have ag3: "agree (- (tabs s pt \<union> free_pages s)) (k_mem s) (k_mem s3)"
  proof -
    have "agree (- (tabs s pt \<union> free_pages s)) (k_mem s) (k_mem s1)"
      using T(5) by (rule agree_mono) (use T(3) in auto)
    moreover have "agree (- (tabs s pt \<union> free_pages s)) (k_mem s1) (k_mem s2)"
      using D(6) by (rule agree_mono) (use F(2) T(4) in auto)
    moreover have "agree (- (tabs s pt \<union> free_pages s)) (k_mem s2) (k_mem s3)"
      using s3(5) by (rule agree_mono) (use T(3) in auto)
    ultimately show ?thesis by (blast intro: agree_trans)
  qed
  moreover have "free_pages s = free_pages s3 \<union> (tabs s3 pt - tabs s pt) \<union> upages s3 pt k k"
    unfolding s3(3) G(2) tb using T(3,4) D(3) I(6) by (auto simp: upages_def)
  moreover have "tabs s pt \<subseteq> tabs s3 pt" using G(2) tb by blast
  moreover have "xlate s3 pt va = xlate s pt va" if "unat va < 2 ^ 38" for va
    using P [OF that] by (simp add: xlate_def)
  ultimately have "grew s s3 pt k k" using ke by (intro grewI) blast+
  then show ?thesis using that s3(1) by blast
qed

section \<open>uvmalloc\<close>

lemma less_npg: "4096 * k < unat sz \<longleftrightarrow> k < npg sz"
  using npg_bounds [of sz] by linarith

text \<open>Page \<open>i\<close> is mapped with permissions \<open>perm\<close> and all its bytes are 0.\<close>

definition zero_page :: "kmem \<Rightarrow> u64 \<Rightarrow> u32 \<Rightarrow> nat \<Rightarrow> bool" where
  "zero_page s pt perm i \<longleftrightarrow> pte s pt (pva i) = leaf_pte (nth_page s pt 0 i) perm \<and>
     (\<forall>x. PGROUNDDOWN x = nth_page s pt 0 i \<longrightarrow> k_mem s x = 0)"

lemma zero_page_grew:
  assumes "grew s t pt k l" and "as_inv s pt k" and "i < k" and "zero_page s pt perm i"
  shows "zero_page t pt perm i"
  using assms grew_pte [OF assms(1-3)] grew_contents [OF assms(1-3)] by (simp add: zero_page_def)

text \<open>Mapping a fresh page: it becomes the next page, or the free list is empty.\<close>

lemma map_fresh_page:
  assumes inv: "as_inv s pt k" and k: "4096 * Suc k \<le> 2 ^ 38"
    and perm: "perm < 1024" "ucast perm OR PTE_V \<noteq> PTE_V"
    and none: "\<forall>va. 4096 * k \<le> unat va \<and> unat va < 4096 * k + 4096 \<longrightarrow> xlate s pt va = None"
    and t: "took s s2 p"
  obtains (mapped) s3 where "mappages s2 pt (pva k) PGSIZE p perm = Ok (0, s3)"
      "grew s s3 pt k (Suc k)" "nth_page s3 pt 0 k = p" "pte s3 pt (pva k) = leaf_pte p perm"
      "agree {p} (k_mem s2) (k_mem s3)"
  | (full) s3 s4 where "mappages s2 pt (pva k) PGSIZE p perm = Ok (-1, s3)" "kfree s3 p = Ok s4"
      "grew s s4 pt k k"
proof -
  note F = took_frame [OF t as_invD(1) [OF inv]]
  have u: "unat (pva k) = 4096 * k" "page_aligned (pva k)" using k by (auto intro!: unat_pva page_aligned_pva)
  have nm: "\<forall>x. unat (pva k) \<le> unat x \<and> unat x < unat (pva k) + unat PGSIZE \<longrightarrow> \<not> pte_valid (pte s2 pt x)"
    using none unfolding u F(3) xlate_None_iff by simp
  have "page_aligned PGSIZE" "PGSIZE \<noteq> 0" "unat (pva k) + unat PGSIZE \<le> 2 ^ 38"
    using k by (simp_all add: u page_aligned_def)
  note M = mappages_spec [OF F(1) u(2) this nm, where pa = p and perm = perm]
  show ?thesis
  proof (cases rule: M)
    case (1 s3)
    then have "vm_step s2 s3 pt (map_upd (pte s2 pt) (pva k) (Suc 0) p perm)" by simp
    from as_map_page [OF inv k t perm this] show ?thesis by (intro mapped [OF 1(1)])
  next
    case (2 s3 k')
    then have st: "vm_step s2 s3 pt (pte s2 pt)" by simp
    obtain s4 where "kfree s3 p = Ok s4" "grew s s4 pt k k" using inv t st by (rule as_unmapped_page)
    then show ?thesis by (rule full [OF 2(1)])
  qed
qed

lemma kalloc_aligned: "kinv s \<Longrightarrow> kalloc s = (p, s1) \<Longrightarrow> p \<noteq> 0 \<Longrightarrow> page_aligned p"
  by (erule kalloc_cases) (auto simp: page_ok_def)

text \<open>One fresh page is allocated, cleared and mapped, or everything is as before.\<close>

lemma alloc_zero_page:
  assumes inv: "as_inv s pt k" and k: "4096 * Suc k \<le> 2 ^ 38"
    and perm: "perm < 1024" "ucast perm OR PTE_V \<noteq> PTE_V"
    and none: "\<forall>va. 4096 * k \<le> unat va \<and> unat va < 4096 * k + 4096 \<longrightarrow> xlate s pt va = None"
    and p: "kalloc s = (p, s1)" "p \<noteq> 0"
  defines "s2 \<equiv> s1\<lparr>k_mem := memset (k_mem s1) p 0 4096\<rparr>"
  obtains (mapped) s3 where "mappages s2 pt (pva k) PGSIZE p perm = Ok (0, s3)"
      "grew s s3 pt k (Suc k)" "zero_page s3 pt perm k"
  | (full) s3 s4 where "mappages s2 pt (pva k) PGSIZE p perm = Ok (-1, s3)" "kfree s3 p = Ok s4"
      "grew s s4 pt k k"
proof -
  note I = as_invD [OF inv]
  have al: "page_aligned p" by (rule kalloc_aligned [OF I(5) p])
  have t: "took s s2 p"
    unfolding s2_def using I(5) p al by (intro took_kalloc agree_memset_page) auto
  show ?thesis
  proof (cases rule: map_fresh_page [OF inv k perm none t])
    case (1 s3)
    have "zero_page s3 pt perm k"
      unfolding zero_page_def
    proof (intro conjI allI impI)
      show "pte s3 pt (pva k) = leaf_pte (nth_page s3 pt 0 k) perm" using 1(3,4) by simp
      fix x assume x: "PGROUNDDOWN x = nth_page s3 pt 0 k"
      then have "k_mem s3 x = k_mem s2 x" using agreeD [OF 1(5), of x] 1(3) by simp
      then show "k_mem s3 x = 0" using x 1(3) al by (simp add: s2_def memset_page_same)
    qed
    then show ?thesis using mapped 1(1,2) by blast
  next
    case (2 s3 s4)
    then show ?thesis by (rule full)
  qed
qed

text \<open>Physical memory bounds the size: an address space never reaches the trap frame.\<close>

lemma as_inv_small:
  assumes "as_inv k pt n"
  shows "n \<le> 0x88000"
proof -
  let ?f = "\<lambda>i. unat (nth_page k pt 0 i) div 4096"
  have ok: "page_ok (k_end k) (nth_page k pt 0 i)" if "i < n" for i by (rule as_invD(9) [OF assms that])
  have al: "unat (nth_page k pt 0 i) = 4096 * ?f i" if "i < n" for i
    using ok [OF that] by (auto simp: page_ok_def page_aligned_unat)
  have "inj_on ?f {..<n}"
  proof (rule inj_onI)
    fix i j assume ij: "i \<in> {..<n}" "j \<in> {..<n}" "?f i = ?f j"
    then have "unat (nth_page k pt 0 i) = unat (nth_page k pt 0 j)" using al [of i] al [of j] by simp
    then have "nth_page k pt 0 i = nth_page k pt 0 j" by (rule unsigned_word_eqI)
    then show "i = j" using as_invD(12) [OF assms] ij by simp
  qed
  moreover have "?f ` {..<n} \<subseteq> {..<0x88000}"
  proof -
    have "unat (nth_page k pt 0 i) < 0x88000000" if "i < n" for i
      using ok [OF that] by (auto simp: page_ok_def word_less_nat_alt)
    then show ?thesis by (auto simp: less_mult_imp_div_less)
  qed
  ultimately have "card {..<n} \<le> card {..<0x88000 :: nat}" by (metis card_inj_on_le finite_lessThan)
  then show ?thesis by simp
qed

lemma uvmalloc_loop_spec:
  assumes g: "grew s0 s pt j k" and inv0: "as_inv s0 pt j" and k: "k \<le> npg newsz"
    and perm: "perm = ucast (PTE_R OR PTE_U) OR xperm" "perm < 1024"
    and none: "\<And>va. 4096 * j \<le> unat va \<Longrightarrow> unat va < 4096 * npg newsz \<Longrightarrow> unat va < 4096 * 0x88001 \<Longrightarrow> xlate s0 pt va = None"
    and z: "\<And>i. j \<le> i \<Longrightarrow> i < k \<Longrightarrow> zero_page s pt perm i"
  shows "\<exists>r s'. uvmalloc_loop s pt (pva k) (pva j) newsz xperm = Ok (r, s') \<and>
    (r = newsz \<and> grew s0 s' pt j (npg newsz) \<and> (\<forall>i. j \<le> i \<and> i < npg newsz \<longrightarrow> zero_page s' pt perm i) \<or>
     r = 0 \<and> grew s0 s' pt j j)"
  using g k z
proof (induction "npg newsz - k" arbitrary: s k)
  case 0
  then have kn: "k = npg newsz" by simp
  have "k \<le> 0x88000" by (rule as_inv_small [OF grewD(1) [OF "0.prems"(1)]])
  then have "unat (pva k) = 4096 * k" by (intro unat_pva) simp
  then have "\<not> pva k < newsz" using less_npg [of k newsz] kn by (simp add: word_less_nat_alt)
  then show ?case using "0.prems" kn by (subst uvmalloc_loop.simps) auto
next
  case (Suc d)
  note A = grewD [OF Suc.prems(1)]
  have kn: "k < npg newsz" using Suc.hyps(2) by simp
  have k8: "k \<le> 0x88000" by (rule as_inv_small [OF A(1)])
  then have k1: "4096 * Suc k \<le> 2 ^ 38" by simp
  have u: "unat (pva k) = 4096 * k" using k1 by (intro unat_pva) simp
  have lt: "pva k < newsz" using less_npg [of k newsz] kn u by (simp add: word_less_nat_alt)
  have fl: "ucast perm OR PTE_V \<noteq> PTE_V"
  proof
    assume "ucast perm OR PTE_V = PTE_V"
    then have "bit (ucast perm OR PTE_V) 1 = bit PTE_V 1" by simp
    then show False by (simp add: perm pte_bits bit_simps bit_unsigned_iff)
  qed
  have nk: "\<forall>va. 4096 * k \<le> unat va \<and> unat va < 4096 * k + 4096 \<longrightarrow> xlate s pt va = None"
  proof (intro allI impI)
    fix va :: u64 assume that: "4096 * k \<le> unat va \<and> unat va < 4096 * k + 4096"
    have "4096 * Suc k \<le> 4096 * npg newsz" using kn by (intro mult_le_mono2) simp
    then show "xlate s pt va = None" using that A(6) [of va] none [of va] A(2) k8 by simp
  qed
  have undo: "\<exists>s'. uvmdealloc t pt (pva k) (pva j) = Ok (pva j, s') \<and> grew s0 s' pt j j"
    if t: "grew s0 t pt j k" for t
  proof -
    have kk: "npg (pva k) = k" "npg (pva j) = j" using k1 A(2) by (auto intro!: npg_pva)
    have le: "pva j \<le> pva k" using A(2) u k1 by (simp add: word_le_nat_alt unat_pva)
    have pj: "PGROUNDUP (pva j) = pva j" using A(2) k1 kk by (subst PGROUNDUP_npg) (simp_all add: unat_pva)
    have "as_inv t pt (npg (pva k))" using grewD(1) [OF t] by (simp add: kk)
    then obtain s' where s': "uvmdealloc t pt (pva k) (pva j) = Ok (pva j, s')" "as_inv s' pt (npg (pva j))"
      "vm_release t s' pt (unmap_upd (pte t pt) (PGROUNDUP (pva j)) (npg (pva k) - npg (pva j)))
        (upages t pt (npg (pva j)) (npg (pva k)))"
      using le by (rule uvmdealloc_spec)
    have "grew s0 s' pt j j"
      by (rule grew_back [OF t inv0]) (use s' none k8 kn in \<open>auto simp: kk pj\<close>)
    then show ?thesis using s'(1) by blast
  qed
  obtain p s1 where p: "kalloc s = (p, s1)" by fastforce
  show ?case
  proof (cases "p = 0")
    case True
    have "s1 = s" using as_invD(5) [OF A(1)] by (cases rule: kalloc_cases) (use p True in auto)
    then show ?thesis using undo [OF Suc.prems(1)] p True lt
      by (subst uvmalloc_loop.simps) auto
  next
    case False
    show ?thesis
    proof (cases rule: alloc_zero_page [OF A(1) k1 perm(2) fl nk p False])
      case (1 s3)
      have g3: "grew s0 s3 pt j (Suc k)" by (rule grew_trans [OF Suc.prems(1) 1(2)])
      have z3: "zero_page s3 pt perm i" if "j \<le> i" "i < Suc k" for i
        using that Suc.prems(3) [of i] zero_page_grew [OF 1(2) A(1)] 1(3) by (cases "i = k") auto
      have "pva k + 4096 = pva (Suc k)" by (simp add: pva_def)
      then have "uvmalloc_loop s pt (pva k) (pva j) newsz xperm = uvmalloc_loop s3 pt (pva (Suc k)) (pva j) newsz xperm"
        using lt p False 1(1) perm(1) by (subst uvmalloc_loop.simps) simp
      then show ?thesis using Suc.hyps(1) [OF _ g3 _ z3] Suc.hyps(2) kn by simp
    next
      case (2 s3 s4)
      have "grew s0 s4 pt j k" by (rule grew_trans [OF Suc.prems(1) 2(3)])
      then show ?thesis using undo 2(1,2) lt p False perm(1)
        by (subst uvmalloc_loop.simps) fastforce
    qed
  qed
qed

lemma uvmalloc_spec:
  assumes inv: "as_inv s pt (npg oldsz)" and le: "oldsz \<le> newsz" and n: "4096 * npg newsz \<le> 2 ^ 38"
    and perm: "perm = ucast (PTE_R OR PTE_U) OR xperm" "perm < 1024"
    and none: "\<And>va. 4096 * npg oldsz \<le> unat va \<Longrightarrow> unat va < 4096 * npg newsz \<Longrightarrow> xlate s pt va = None"
  shows "\<exists>r s'. uvmalloc s pt oldsz newsz xperm = Ok (r, s') \<and>
    (r = newsz \<and> grew s s' pt (npg oldsz) (npg newsz) \<and>
       (\<forall>i. npg oldsz \<le> i \<and> i < npg newsz \<longrightarrow> zero_page s' pt perm i) \<or>
     r = 0 \<and> grew s s' pt (npg oldsz) (npg oldsz))"
proof -
  have "unat oldsz \<le> 2 ^ 38" using npg_bounds(1) [of oldsz] as_invD(2) [OF inv] by linarith
  then have r: "PGROUNDUP oldsz = pva (npg oldsz)" by (simp add: PGROUNDUP_npg)
  have eq: "uvmalloc s pt oldsz newsz xperm = uvmalloc_loop s pt (pva (npg oldsz)) (pva (npg oldsz)) newsz xperm"
    using le by (auto simp: uvmalloc_def r)
  show ?thesis
    unfolding eq
    by (rule uvmalloc_loop_spec [OF grew_refl [OF inv] inv npg_mono [OF le] perm none]) simp_all
qed

end
