(* ===== verification/Xv6_UvmFree.thy ===== *)
theory Xv6_UvmFree
  imports Xv6_Uvm
begin

text \<open>
  \<open>freewalk\<close> and \<open>uvmfree\<close>: taking an address space apart returns every table and every user page
  to the free list.
\<close>

section \<open>freewalk\<close>

primrec no_leaf :: "mem \<Rightarrow> nat \<Rightarrow> u64 \<Rightarrow> bool" where
  "no_leaf m 0 pt \<longleftrightarrow> kids m pt = {}"
| "no_leaf m (Suc l) pt \<longleftrightarrow> (\<forall>i\<in>kids m pt. no_leaf m l (kid m pt i))"

lemma no_leaf_agree:
  assumes "wf_pt e m l pt" and "agree (tables m l pt) m m'" and "no_leaf m l pt"
  shows "no_leaf m' l pt"
  using assms
proof (induction l arbitrary: pt)
  case 0
  then show ?case using agree_kids(1) [OF "0.prems"(2)] by (simp add: page_ok_def)
next
  case (Suc l)
  have al: "page_aligned pt" using Suc.prems(1) by (simp add: page_ok_def)
  note k = agree_kids [OF Suc.prems(2) al root_in_tables]
  have "no_leaf m' l (kid m pt i)" if i: "i \<in> kids m pt" for i
    using Suc.IH [of "kid m pt i"] Suc.prems i agree_mono [OF Suc.prems(2) kid_tables [OF i]] by simp
  then show ?case using k by simp
qed

text \<open>The body of the loop over the entries.\<close>

definition freewalk_entry :: "nat \<Rightarrow> u64 \<Rightarrow> nat \<Rightarrow> kmem \<Rightarrow> kmem res" where
  "freewalk_entry depth pt i s =
     (let e = load64 (k_mem s) (slot pt i) in
      if e AND PTE_V \<noteq> 0 \<and> e AND (PTE_R OR PTE_W OR PTE_X) = 0
      then rbind (freewalk depth (PTE2PA e) s) (\<lambda>s1.
             Ok (s1\<lparr>k_mem := store64 (k_mem s1) (slot pt i) 0\<rparr>))
      else if e AND PTE_V \<noteq> 0 then Fail (Panic ''freewalk: leaf'')
      else Ok s)"

lemma freewalk_Suc:
  "freewalk (Suc depth) pt s = rbind (rfold (freewalk_entry depth pt) [0..<512] s) (\<lambda>s. kfree s pt)"
  by (simp add: freewalk_entry_def [abs_def])

declare freewalk.simps(2) [simp del]

definition freed :: "kmem \<Rightarrow> kmem \<Rightarrow> u64 set \<Rightarrow> bool" where
  "freed s s' R \<longleftrightarrow> kinv s' \<and> k_end s' = k_end s \<and> free_pages s' = free_pages s \<union> R \<and>
     agree (- R) (k_mem s) (k_mem s')"

lemma freedD:
  assumes "freed s s' R"
  shows "kinv s'" "k_end s' = k_end s" "free_pages s' = free_pages s \<union> R" "agree (- R) (k_mem s) (k_mem s')"
  using assms by (auto simp: freed_def)

text \<open>State of the loop before entry \<open>i\<close>: the subtrees below the earlier entries are free.\<close>

definition fw_inv :: "kmem \<Rightarrow> nat \<Rightarrow> u64 \<Rightarrow> nat \<Rightarrow> kmem \<Rightarrow> bool" where
  "fw_inv s l pt i t \<longleftrightarrow> kinv t \<and> k_end t = k_end s \<and>
     free_pages t = free_pages s \<union> (\<Union>j\<in>kids (k_mem s) pt \<inter> {..<i}. tables (k_mem s) l (kid (k_mem s) pt j)) \<and>
     agree (- insert pt (\<Union>j\<in>kids (k_mem s) pt \<inter> {..<i}. tables (k_mem s) l (kid (k_mem s) pt j))) (k_mem s) (k_mem t) \<and>
     (\<forall>j. i \<le> j \<and> j < 512 \<longrightarrow> ent (k_mem t) pt j = ent (k_mem s) pt j)"

lemma fw_step:
  assumes wf: "wf_pt (k_end s) (k_mem s) (Suc l) pt" and fr: "tables (k_mem s) (Suc l) pt \<inter> free_pages s = {}"
    and nl: "no_leaf (k_mem s) (Suc l) pt" and i: "i < 512" and t: "fw_inv s l pt i t"
    and IH: "\<And>c u. kinv u \<Longrightarrow> wf_pt (k_end u) (k_mem u) l c \<Longrightarrow> no_leaf (k_mem u) l c \<Longrightarrow>
      tables (k_mem u) l c \<inter> free_pages u = {} \<Longrightarrow> \<exists>u'. freewalk (Suc l) c u = Ok u' \<and> freed u u' (tables (k_mem u) l c)"
  shows "\<exists>t'. freewalk_entry (Suc l) pt i t = Ok t' \<and> fw_inv s l pt (Suc i) t'"
proof -
  let ?m = "k_mem s"
  let ?U = "\<lambda>i. \<Union>j\<in>kids ?m pt \<inter> {..<i}. tables ?m l (kid ?m pt j)"
  have T: "kinv t" "k_end t = k_end s" "free_pages t = free_pages s \<union> ?U i"
    "agree (- insert pt (?U i)) ?m (k_mem t)" "\<And>j. i \<le> j \<Longrightarrow> j < 512 \<Longrightarrow> ent (k_mem t) pt j = ent ?m pt j"
    using t unfolding fw_inv_def by blast+
  have e: "load64 (k_mem t) (slot pt i) = ent ?m pt i" using T(5) [of i] i by (simp add: ent_def)
  show ?thesis
  proof (cases "i \<in> kids ?m pt")
    case False
    then have "kids ?m pt \<inter> {..<Suc i} = kids ?m pt \<inter> {..<i}" by (auto simp: less_Suc_eq)
    then have "fw_inv s l pt (Suc i) t" using t by (simp add: fw_inv_def)
    moreover have "\<not> pte_valid (ent ?m pt i)" using False i by (simp add: kids_def)
    ultimately show ?thesis using e by (simp add: freewalk_entry_def pte_valid_def)
  next
    case True
    let ?c = "kid ?m pt i"
    have nlf: "\<not> pte_leaf (ent ?m pt i)" and wc: "wf_pt (k_end s) ?m l ?c" and pc: "pt \<notin> tables ?m l ?c"
      and nc: "no_leaf ?m l ?c" using wf nl True by auto
    have dj: "tables ?m l ?c \<inter> tables ?m l (kid ?m pt j) = {}" if "j \<in> kids ?m pt" "j \<noteq> i" for j
      using wf True that by auto
    then have dU: "tables ?m l ?c \<inter> ?U i = {}" by auto
    have ag: "agree (tables ?m l ?c) ?m (k_mem t)" using T(4) by (rule agree_mono) (use dU pc in auto)
    note A = tables_agree [OF wc ag]
    have "tables ?m l ?c \<inter> free_pages t = {}"
      using T(3) dU fr kid_tables [OF True, of l] by blast
    then obtain u where u: "freewalk (Suc l) ?c t = Ok u" "freed t u (tables ?m l ?c)"
      using IH [of t ?c] T(1,2) A no_leaf_agree [OF wc ag nc] by auto
    note F = freedD [OF u(2)]
    let ?v = "u\<lparr>k_mem := store64 (k_mem u) (slot pt i) 0\<rparr>"
    have al: "page_aligned pt" using wf by (simp add: page_ok_def)
    have ptU: "pt \<notin> ?U i" using wf by auto
    have ptf: "pt \<notin> free_pages u" using F(3) T(3) ptU pc fr by auto
    have "agree (free_pages u) (k_mem u) (k_mem ?v)" using al i ptf by (simp add: agree_store_slot)
    from kinv_mem [OF F(1) this] have kv: "kinv ?v" "free_pages ?v = free_pages u" by simp_all
    have U': "?U (Suc i) = ?U i \<union> tables ?m l ?c"
    proof -
      have "kids ?m pt \<inter> {..<Suc i} = insert i (kids ?m pt \<inter> {..<i})" using True by (auto simp: less_Suc_eq)
      then show ?thesis by auto
    qed
    have "agree (- insert pt (?U (Suc i))) ?m (k_mem t)" using T(4) by (rule agree_mono) (use U' in auto)
    moreover have "agree (- insert pt (?U (Suc i))) (k_mem t) (k_mem u)" using F(4) by (rule agree_mono) (use U' in auto)
    moreover have "agree (- insert pt (?U (Suc i))) (k_mem u) (k_mem ?v)" using al i by (simp add: agree_store_slot)
    ultimately have ag': "agree (- insert pt (?U (Suc i))) ?m (k_mem ?v)" by (blast intro: agree_trans)
    have "ent (k_mem ?v) pt j = ent ?m pt j" if "Suc i \<le> j" "j < 512" for j
    proof -
      have "ent (k_mem ?v) pt j = ent (k_mem u) pt j" using that i al by (simp add: ent_store_other)
      also have "\<dots> = ent (k_mem t) pt j" by (rule agree_ent [OF F(4) al]) (use pc that in auto)
      finally show ?thesis using T(5) [of j] that by simp
    qed
    then have "fw_inv s l pt (Suc i) ?v"
      unfolding fw_inv_def using kv F(2,3) T(2,3) U' ag' by auto
    moreover have "freewalk_entry (Suc l) pt i t = Ok ?v"
      using True nlf u(1) unfolding freewalk_entry_def e Let_def
      by (simp add: mem_kids pte_valid_def pte_leaf_def PTE_LEAF_and kid_def)
    ultimately show ?thesis by blast
  qed
qed

lemma freewalk_spec:
  assumes "kinv s" and "wf_pt (k_end s) (k_mem s) l pt" and "no_leaf (k_mem s) l pt"
    and "tables (k_mem s) l pt \<inter> free_pages s = {}"
  shows "\<exists>s'. freewalk (Suc l) pt s = Ok s' \<and> freed s s' (tables (k_mem s) l pt)"
  using assms
proof (induction l arbitrary: s pt)
  case 0
  have "\<exists>t. rfold (freewalk_entry 0 pt) [0..<512] s = Ok t \<and> t = s"
  proof (rule rfold_upt_Ok [where P = "\<lambda>_ t. t = s"])
    fix i t assume i: "i < (512 :: nat)" and t: "t = s"
    then have "\<not> pte_valid (ent (k_mem s) pt i)" using "0.prems"(3) by (auto simp: kids_def)
    then show "\<exists>t'. freewalk_entry 0 pt i t = Ok t' \<and> t' = s"
      using t by (simp add: freewalk_entry_def pte_valid_def ent_def)
  qed simp
  moreover have p: "page_ok (k_end s) pt" "pt \<notin> free_pages s" using "0.prems" by auto
  obtain s' where "kfree s pt = Ok s'" "kinv s'" "free_pages s' = insert pt (free_pages s)"
    "k_end s' = k_end s" "agree (- {pt}) (k_mem s) (k_mem s')"
    using "0.prems"(1) p by (rule kfree_spec)
  ultimately show ?case by (simp only: freewalk_Suc) (auto simp: freed_def)
next
  case (Suc l)
  let ?U = "\<Union>j\<in>kids (k_mem s) pt. tables (k_mem s) l (kid (k_mem s) pt j)"
  have "\<exists>t. rfold (freewalk_entry (Suc l) pt) [0..<512] s = Ok t \<and> fw_inv s l pt 512 t"
  proof (rule rfold_upt_Ok [where P = "fw_inv s l pt"])
    show "fw_inv s l pt 0 s" using Suc.prems(1) by (simp add: fw_inv_def)
  qed (rule fw_step [OF Suc.prems(2,4,3)], assumption, assumption, rule Suc.IH)
  then obtain t where t: "rfold (freewalk_entry (Suc l) pt) [0..<512] s = Ok t" "fw_inv s l pt 512 t" by blast
  have "kids (k_mem s) pt \<inter> {..<512} = kids (k_mem s) pt" by (auto simp: kids_def)
  then have T: "kinv t" "k_end t = k_end s" "free_pages t = free_pages s \<union> ?U"
    "agree (- insert pt ?U) (k_mem s) (k_mem t)"
    using t(2) unfolding fw_inv_def by simp_all
  have p: "page_ok (k_end t) pt" "pt \<notin> free_pages t" using Suc.prems(2,4) T(2,3) by auto
  obtain s' where s': "kfree t pt = Ok s'" "kinv s'" "free_pages s' = insert pt (free_pages t)"
    "k_end s' = k_end t" "agree (- {pt}) (k_mem t) (k_mem s')"
    using T(1) p by (rule kfree_spec)
  have "agree (- insert pt ?U) (k_mem t) (k_mem s')" using s'(5) by (rule agree_mono) auto
  with T(4) have "agree (- insert pt ?U) (k_mem s) (k_mem s')" by (rule agree_trans)
  then have "freed s s' (tables (k_mem s) (Suc l) pt)" using s' T by (auto simp: freed_def)
  moreover have "freewalk (Suc (Suc l)) pt s = Ok s'" using t(1) s'(1) by (simp only: freewalk_Suc) simp
  ultimately show ?case by blast
qed

section \<open>uvmfree\<close>

lemma address_of_indices:
  assumes "i < 256" and "j < 512" and "k < 512"
  obtains va where "unat va < 2 ^ 38" "ix 2 va = i" "ix 1 va = j" "ix 0 va = k"
proof -
  let ?n = "4096 * (k + 512 * (j + 512 * i))"
  let ?va = "of_nat ?n :: u64"
  have lt: "?n < 2 ^ 38" using assms by simp
  then have u: "unat ?va = ?n" by (intro unat_of_nat_small) simp
  have n0: "?n div 4096 = k + 512 * (j + 512 * i)" by simp
  moreover have "(k + 512 * (j + 512 * i)) div 512 = j + 512 * i" using assms by simp
  moreover have "(j + 512 * i) div 512 = i" using assms by simp
  ultimately have d: "?n div 2097152 = j + 512 * i" "?n div 1073741824 = i"
    using div_mult2_eq [of ?n 4096 512] div_mult2_eq [of ?n 2097152 512] by simp_all
  have "ix 0 ?va = ?n div 4096 mod 512" "ix 1 ?va = ?n div 2097152 mod 512" "ix 2 ?va = ?n div 1073741824 mod 512"
    by (simp_all only: ix_nat u) simp_all
  then have "ix 0 ?va = k" "ix 1 ?va = j" "ix 2 ?va = i"
    unfolding n0 d using assms by (simp_all only: mod_mult_self2 mod_less)
  then show ?thesis using that lt u by metis
qed

lemma no_leafI:
  assumes "vm_inv s pt" and none: "\<And>va. unat va < 2 ^ 38 \<Longrightarrow> \<not> pte_valid (pte s pt va)"
  shows "no_leaf (k_mem s) 2 pt"
proof -
  let ?m = "k_mem s"
  have "kids ?m (kid ?m (kid ?m pt i) j) = {}" if i: "i \<in> kids ?m pt" and j: "j \<in> kids ?m (kid ?m pt i)" for i j
  proof (rule equals0I)
    fix k assume k: "k \<in> kids ?m (kid ?m (kid ?m pt i) j)"
    have "i < 256" "j < 512" "k < 512" using vm_inv_parts(6) [OF assms(1)] i j k by (auto simp: kids_def)
    then obtain va where va: "unat va < 2 ^ 38" "ix 2 va = i" "ix 1 va = j" "ix 0 va = k"
      by (rule address_of_indices)
    then have "pte s pt va = ent ?m (kid ?m (kid ?m pt i) j) k"
      using i j by (simp add: pte_def pte_of_def numeral_2_eq_2)
    then show False using none [OF va(1)] k by (simp add: kids_def)
  qed
  then show ?thesis by (simp add: numeral_2_eq_2)
qed

lemma uvmfree_spec:
  assumes inv: "as_inv s pt (npg sz)"
    and none: "\<And>va. 4096 * npg sz \<le> unat va \<Longrightarrow> unat va < 2 ^ 38 \<Longrightarrow> xlate s pt va = None"
  obtains s' where "uvmfree s pt sz = Ok s'" "freed s s' (tabs s pt \<union> upages s pt 0 (npg sz))"
proof -
  have sz38: "unat sz \<le> 2 ^ 38" using npg_bounds(1) [of sz] as_invD(2) [OF inv] by linarith
  have n38: "4096 * npg sz \<le> 2 ^ 38" by (rule as_invD(2) [OF inv])
  have ur: "unat (PGROUNDUP sz div PGSIZE) = npg sz"
    using sz38 n38 by (simp add: PGROUNDUP_npg unat_div unat_pva)
  have p0: "pva 0 = 0" by (simp add: pva_def)
  have "\<exists>s1. (if sz > 0 then uvmunmap s pt 0 (PGROUNDUP sz div PGSIZE) True else Ok s) = Ok s1 \<and>
    vm_release s s1 pt (unmap_upd (pte s pt) 0 (npg sz)) (upages s pt 0 (npg sz))"
  proof (cases "sz > 0")
    case True
    obtain s1 where "uvmunmap s pt (pva 0) (PGROUNDUP sz div PGSIZE) True = Ok s1"
      "vm_release s s1 pt (unmap_upd (pte s pt) (pva 0) (npg sz - 0)) (upages s pt 0 (npg sz))" "as_inv s1 pt 0"
      by (rule as_unmap [OF inv, of 0]) (use ur in simp_all)
    then show ?thesis using True p0 by simp
  next
    case False
    then have "sz = 0" by (simp add: word_neq_0_conv [symmetric])
    then have "npg sz = 0" by (simp add: npg_def)
    then show ?thesis using False as_invD(1) [OF inv] by (simp add: vm_release_def upages_def)
  qed
  then obtain s1 where s1: "(if sz > 0 then uvmunmap s pt 0 (PGROUNDUP sz div PGSIZE) True else Ok s) = Ok s1"
    "vm_release s s1 pt (unmap_upd (pte s pt) 0 (npg sz)) (upages s pt 0 (npg sz))" by blast
  note R = vm_releaseD [OF s1(2)]
  have "\<not> pte_valid (pte s1 pt va)" if "unat va < 2 ^ 38" for va
    using R(5) [OF that] none [of va] that by (cases "unat va < 4096 * npg sz") (simp_all add: unmap_upd_def)
  then have nl: "no_leaf (k_mem s1) 2 pt" by (rule no_leafI [OF R(1)])
  note V = vm_inv_parts [OF R(1)]
  have "tables (k_mem s1) 2 pt \<inter> free_pages s1 = {}" using V(3) by (simp add: tabs_def)
  then obtain s' where s': "freewalk 3 pt s1 = Ok s'" "freed s1 s' (tables (k_mem s1) 2 pt)"
    using freewalk_spec [OF V(1,2) nl] by (auto simp: numeral_3_eq_3 numeral_2_eq_2)
  have T: "tables (k_mem s1) 2 pt = tabs s pt" using R(3) by (simp add: tabs_def)
  note F = freedD [OF s'(2)]
  let ?X = "tabs s pt \<union> upages s pt 0 (npg sz)"
  have "agree (- ?X) (k_mem s) (k_mem s1)" using R(6) .
  moreover have "agree (- ?X) (k_mem s1) (k_mem s')" using F(4) by (rule agree_mono) (use T in auto)
  ultimately have "agree (- ?X) (k_mem s) (k_mem s')" by (rule agree_trans)
  then have "freed s s' ?X" unfolding freed_def using F R(2,4) T by auto
  then show ?thesis using that s1(1) s'(1) by (auto simp: uvmfree_def)
qed

end
