(* ===== verification/Xv6_UvmCopy.thy ===== *)
theory Xv6_UvmCopy
  imports Xv6_UvmFree
begin

text \<open>
  \<open>uvmcopy\<close>, the memory half of \<open>fork\<close>: the child gets pages of its own with the parent's contents
  and permissions, and the parent is left as it was; or nothing of the child remains mapped.
\<close>

section \<open>Two address spaces side by side\<close>

text \<open>A change elsewhere leaves an address space alone.\<close>

lemma as_frame:
  assumes inv: "as_inv s pt n" and k: "kinv s'" "k_end s' = k_end s"
    and ag: "agree (tabs s pt) (k_mem s) (k_mem s')" and fr: "free_pages s' \<subseteq> free_pages s"
  shows "as_inv s' pt n" and "tabs s' pt = tabs s pt" and "pte s' pt va = pte s pt va"
    and "nth_page s' pt a i = nth_page s pt a i"
proof -
  note I = as_invD [OF inv]
  have "free_pages s' \<inter> tabs s pt = {}" using fr I(6) by auto
  note F = vm_inv_frame [OF I(1) k ag this]
  show "tabs s' pt = tabs s pt" "pte s' pt va = pte s pt va" by (rule F)+
  have N: "nth_page s' pt = nth_page s pt" by (simp add: nth_page_def fun_eq_iff F(3))
  then show "nth_page s' pt a i = nth_page s pt a i" by simp
  have "leaves s' pt 0 n" using I(3) by (simp add: leaves_def F(3))
  moreover have "own_pages s' pt 0 n" using I(4) fr by (auto simp: own_pages_def N F(2) k(2))
  ultimately show "as_inv s' pt n" using F(1) I(2) by (simp add: as_inv_def)
qed

text \<open>No page of the first \<open>n\<close> of \<open>old\<close>, nor a table of it, is a table of \<open>new\<close>.\<close>

definition apart_spaces :: "kmem \<Rightarrow> u64 \<Rightarrow> nat \<Rightarrow> u64 \<Rightarrow> bool" where
  "apart_spaces s old n new \<longleftrightarrow> (tabs s old \<union> upages s old 0 n) \<inter> tabs s new = {}"

lemma grew_other:
  assumes inv: "as_inv s old n" and ap: "apart_spaces s old n new" and g: "grew s s' new j k"
  shows "as_inv s' old n" and "tabs s' old = tabs s old" and "pte s' old va = pte s old va"
    and "nth_page s' old a i = nth_page s old a i" and "apart_spaces s' old n new"
    and "i < n \<Longrightarrow> PGROUNDDOWN x = nth_page s old 0 i \<Longrightarrow> k_mem s' x = k_mem s x"
    and "i < n \<Longrightarrow> nth_page s old 0 i \<notin> upages s' new j k"
proof -
  note I = as_invD [OF inv] and G = grewD [OF g]
  have "agree (tabs s old) (k_mem s) (k_mem s')"
    using G(7) by (rule agree_mono) (use ap I(6) in \<open>auto simp: apart_spaces_def\<close>)
  moreover have fs: "free_pages s' \<subseteq> free_pages s" using G(5) by blast
  ultimately have A: "as_inv s' old n" "tabs s' old = tabs s old" "pte s' old va = pte s old va"
    "\<And>a i. nth_page s' old a i = nth_page s old a i" for va
    using as_frame [OF inv as_invD(5) [OF G(1)] G(3)] by auto
  show "as_inv s' old n" "tabs s' old = tabs s old" "pte s' old va = pte s old va"
    "nth_page s' old a i = nth_page s old a i" by (rule A)+
  have up: "upages s' old 0 n = upages s old 0 n" by (simp add: upages_def A(4))
  have uf: "upages s old 0 n \<inter> free_pages s = {}" using I(11) by (auto simp: upages_def)
  have "tabs s' new \<subseteq> tabs s new \<union> free_pages s" using G(5) by blast
  then show "apart_spaces s' old n new"
    unfolding apart_spaces_def up A(2) using ap I(6) uf unfolding apart_spaces_def by blast
  show "k_mem s' x = k_mem s x" if "i < n" "PGROUNDDOWN x = nth_page s old 0 i"
  proof (rule agreeD [OF G(7)])
    have "nth_page s old 0 i \<in> upages s old 0 n" using that(1) by (simp add: upages_def)
    then show "PGROUNDDOWN x \<in> - (tabs s new \<union> free_pages s)"
      using ap I(11) [OF that(1)] that(2) by (auto simp: apart_spaces_def)
  qed
  show "nth_page s old 0 i \<notin> upages s' new j k" if "i < n" using I(11) [OF that] G(5) by blast
qed

section \<open>uvmcopy\<close>

text \<open>Page \<open>i\<close> of \<open>new\<close> has the permissions and the bytes that page \<open>i\<close> of \<open>old\<close> had in \<open>s0\<close>.\<close>

definition copied :: "kmem \<Rightarrow> u64 \<Rightarrow> kmem \<Rightarrow> u64 \<Rightarrow> nat \<Rightarrow> bool" where
  "copied s0 old s new i \<longleftrightarrow>
     PTE_FLAGS (pte s new (pva i)) = PTE_FLAGS (pte s0 old (pva i)) \<and>
     (\<forall>off<4096. k_mem s (nth_page s new 0 i + of_nat off) = k_mem s0 (nth_page s0 old 0 i + of_nat off))"

lemma copied_grew:
  assumes "grew s t new k l" and "as_inv s new k" and "i < k" and "copied s0 old s new i"
  shows "copied s0 old t new i"
proof -
  have "page_aligned (nth_page s new 0 i)" using as_invD(9) [OF assms(2,3)] by (simp add: page_ok_def)
  then have "k_mem t (nth_page s new 0 i + of_nat off) = k_mem s (nth_page s new 0 i + of_nat off)"
    if "off < 4096" for off
    using that by (intro grew_contents [OF assms(1-3)] page_offset)
  then show ?thesis using assms(4) grew_pte [OF assms(1-3)] by (simp add: copied_def)
qed

lemma memmove_page:
  assumes "page_aligned p" and "page_aligned q"
  shows "memmove m p q 4096 x = (if PGROUNDDOWN x = p then m (q + (x - p)) else m x)"
proof -
  have *: "unat a + unat (4096 :: u32) \<le> 2 ^ 64" if al: "page_aligned a" for a :: u64
  proof -
    obtain k where k: "unat a = 4096 * k" using al by (auto simp: page_aligned_unat)
    have "unat a < 2 ^ 64" using unat_less [of a] by simp
    then have "k < 2 ^ 52" using k by simp
    then show ?thesis using k by simp
  qed
  show ?thesis using memmove_apply [OF * *, OF assms, of m x] in_page [OF assms(1), of x] by simp
qed

lemma flags_facts:
  assumes "pte_valid e" and "PTE_FLAGS e \<noteq> PTE_V"
  shows "(ucast (PTE_FLAGS e) :: u32) < 1024" and "ucast (ucast (PTE_FLAGS e) :: u32) OR PTE_V = PTE_FLAGS e"
    and "ucast (ucast (PTE_FLAGS e) :: u32) OR PTE_V \<noteq> PTE_V"
proof -
  have m: "(0x3FF :: u64) = mask 10" by (simp add: mask_eq_exp_minus_1)
  have f: "PTE_FLAGS e = take_bit 10 e" by (simp only: PTE_FLAGS_def m take_bit_eq_mask)
  have u: "unat (PTE_FLAGS e) < 1024"
    unfolding f using take_bit_nat_less_exp [of 10 "unat e"] by (simp add: unsigned_take_bit_eq)
  then have u32: "unat (ucast (PTE_FLAGS e) :: u32) = unat (PTE_FLAGS e)"
    by (simp add: unsigned_ucast_eq take_bit_nat_eq_self)
  then show "(ucast (PTE_FLAGS e) :: u32) < 1024" using u by (simp add: word_less_nat_alt)
  have "ucast (ucast (PTE_FLAGS e) :: u32) = PTE_FLAGS e"
    using u32 by (simp add: word_unat_eq_iff unat_ucast_up)
  moreover have "PTE_FLAGS e OR PTE_V = PTE_FLAGS e"
  proof (rule bit_word_eqI)
    fix n assume "n < LENGTH(64)"
    show "bit (PTE_FLAGS e OR PTE_V) n = bit (PTE_FLAGS e) n"
      using assms(1) by (cases n) (auto simp: f bit_simps pte_valid_bit PTE_V_def)
  qed
  ultimately show "ucast (ucast (PTE_FLAGS e) :: u32) OR PTE_V = PTE_FLAGS e" by simp
  then show "ucast (ucast (PTE_FLAGS e) :: u32) OR PTE_V \<noteq> PTE_V" using assms(2) by simp
qed

text \<open>One round: page \<open>k\<close> is copied, or everything is as before.\<close>

lemma copy_page:
  assumes old: "as_inv s old n" "k < n" and new: "as_inv s new k"
    and none: "\<forall>va. 4096 * k \<le> unat va \<and> unat va < 4096 * k + 4096 \<longrightarrow> xlate s new va = None"
    and p: "kalloc s = (p, s1)" "p \<noteq> 0"
  defines "e \<equiv> pte s old (pva k)"
  defines "s2 \<equiv> s1\<lparr>k_mem := memmove (k_mem s1) p (PTE2PA e) 4096\<rparr>"
  obtains (mapped) s3 where "mappages s2 new (pva k) PGSIZE p (ucast (PTE_FLAGS e)) = Ok (0, s3)"
      "grew s s3 new k (Suc k)" "copied s old s3 new k"
  | (full) s3 s4 where "mappages s2 new (pva k) PGSIZE p (ucast (PTE_FLAGS e)) = Ok (-1, s3)"
      "kfree s3 p = Ok s4" "grew s s4 new k k"
proof -
  note O = as_invD [OF old(1)] and N = as_invD [OF new]
  have k: "4096 * Suc k \<le> 2 ^ 38"
  proof -
    have "4096 * Suc k \<le> 4096 * n" using old(2) by (intro mult_le_mono2) simp
    then show ?thesis using O(2) by linarith
  qed
  have al: "page_aligned p" by (rule kalloc_aligned [OF N(5) p])
  have pa: "PTE2PA e = nth_page s old 0 k" by (simp add: e_def nth_page_0)
  have alq: "page_aligned (PTE2PA e)" using O(9) [OF old(2)] by (simp add: pa page_ok_def)
  have s1: "p \<in> free_pages s" "agree (- {p}) (k_mem s) (k_mem s1)"
    using N(5) by (cases rule: kalloc_cases; use p in auto)+
  have ne: "PTE2PA e \<noteq> p" using O(11) [OF old(2)] s1(1) by (auto simp: pa)
  have t: "took s s2 p"
    unfolding s2_def using N(5) p by (rule took_kalloc) (auto simp: agree_def memmove_page [OF al alq])
  have v: "pte_valid e" "PTE_FLAGS e \<noteq> PTE_V" using O(7,8) [OF old(2)] by (simp_all add: e_def)
  note FL = flags_facts [OF v]
  show ?thesis
  proof (cases rule: map_fresh_page [OF new k FL(1,3) none t])
    case (1 s3)
    have "PTE_FLAGS (pte s3 new (pva k)) = PTE_FLAGS e"
      using 1(4) leaf_pte_facts(3) [OF al FL(1)] FL(2) by simp
    moreover have "k_mem s3 (p + of_nat off) = k_mem s (nth_page s old 0 k + of_nat off)" if off: "off < 4096" for off
    proof -
      have "PGROUNDDOWN (p + of_nat off) = p" using al off by (rule page_offset)
      then have "k_mem s3 (p + of_nat off) = k_mem s2 (p + of_nat off)" using agreeD [OF 1(5)] by simp
      also have "\<dots> = k_mem s1 (PTE2PA e + of_nat off)"
        using \<open>PGROUNDDOWN (p + of_nat off) = p\<close> by (simp add: s2_def memmove_page [OF al alq])
      also have "\<dots> = k_mem s (PTE2PA e + of_nat off)"
        by (rule agreeD [OF s1(2)]) (use page_offset [OF alq off] ne in simp)
      finally show ?thesis by (simp add: pa)
    qed
    ultimately have "copied s old s3 new k" by (simp add: copied_def 1(3) e_def)
    then show ?thesis using mapped 1(1,2) by blast
  next
    case (2 s3 s4)
    then show ?thesis by (rule full)
  qed
qed

lemma uvmcopy_loop_spec:
  assumes old: "as_inv s0 old (npg sz)" and ap: "apart_spaces s0 old (npg sz) new"
    and new: "as_inv s0 new 0"
    and none: "\<And>va. unat va < 4096 * npg sz \<Longrightarrow> xlate s0 new va = None"
    and g: "grew s0 s new 0 k" and k: "k \<le> npg sz"
    and c: "\<And>i. i < k \<Longrightarrow> copied s0 old s new i"
  shows "\<exists>r s'. uvmcopy_loop s old new (pva k) sz = Ok (r, s') \<and>
    (r = 0 \<and> grew s0 s' new 0 (npg sz) \<and> (\<forall>i<npg sz. copied s0 old s' new i) \<or>
     r = -1 \<and> grew s0 s' new 0 0)"
  using g k c
proof (induction "npg sz - k" arbitrary: s k)
  case 0
  have n38: "4096 * npg sz \<le> 2 ^ 38" by (rule as_invD(2) [OF old])
  have kn: "k = npg sz" using 0 by simp
  have "unat (pva k) = 4096 * k" using n38 kn by (intro unat_pva) simp
  then have "\<not> pva k < sz" using less_npg [of k sz] kn by (simp add: word_less_nat_alt)
  then show ?case using "0.prems" kn by (subst uvmcopy_loop.simps) auto
next
  case (Suc d)
  note G = grewD [OF Suc.prems(1)]
  note O = grew_other [OF old ap Suc.prems(1)]
  have n38: "4096 * npg sz \<le> 2 ^ 38" by (rule as_invD(2) [OF old])
  have kn: "k < npg sz" using Suc.hyps(2) by simp
  then have k1: "4096 * k + 4096 \<le> 4096 * npg sz" using mult_le_mono2 [of "Suc k" "npg sz" 4096] by simp
  have u: "unat (pva k) = 4096 * k" using k1 n38 by (intro unat_pva) simp
  have lt: "pva k < sz" using less_npg [of k sz] kn u by (simp add: word_less_nat_alt)
  have u38: "unat (pva k) < 2 ^ 38" using u k1 n38 by simp
  let ?e = "pte s old (pva k)"
  have v: "pte_valid ?e" by (rule as_invD(7) [OF O(1) kn])
  obtain q where q: "walk s old (pva k) False = Ok (slot q (ix 0 (pva k)), s)" "slot q (ix 0 (pva k)) \<noteq> 0"
    "leaf_tab (k_mem s) 2 old (pva k) = Some q" "load64 (k_mem s) (slot q (ix 0 (pva k))) = ?e"
    using as_invD(1) [OF O(1)] u38 v by (rule walk_mapped)
  have undo: "\<exists>s'. uvmunmap t new 0 (pva k div PGSIZE) True = Ok s' \<and> grew s0 s' new 0 0"
    if t: "grew s0 t new 0 k" for t
  proof -
    have p0: "pva 0 = 0" by (simp add: pva_def)
    have "unat (pva k div PGSIZE) = k - 0" using u by (simp add: unat_div)
    then obtain s' where s': "uvmunmap t new (pva 0) (pva k div PGSIZE) True = Ok s'"
      "vm_release t s' new (unmap_upd (pte t new) (pva 0) (k - 0)) (upages t new 0 k)" "as_inv s' new 0"
      by (rule as_unmap [OF grewD(1) [OF t] le0])
    have "grew s0 s' new 0 0"
      by (rule grew_back [OF t new _ s'(2,3)]) (use none k1 in auto)
    then show ?thesis using s'(1) p0 by auto
  qed
  have nk: "\<forall>va. 4096 * k \<le> unat va \<and> unat va < 4096 * k + 4096 \<longrightarrow> xlate s new va = None"
  proof (intro allI impI)
    fix va :: u64 assume a: "4096 * k \<le> unat va \<and> unat va < 4096 * k + 4096"
    then have "unat va < 2 ^ 38" "unat va < 4096 * npg sz" using k1 n38 by linarith+
    then show "xlate s new va = None" using G(6) [of va] none [of va] a by simp
  qed
  obtain p s1 where p: "kalloc s = (p, s1)" by fastforce
  have step: "uvmcopy_loop s old new (pva k) sz =
      (if p = 0 then rbind (uvmunmap s1 new 0 (pva k div PGSIZE) True) (\<lambda>s2. Ok (-1, s2))
       else rbind (mappages (s1\<lparr>k_mem := memmove (k_mem s1) p (PTE2PA ?e) 4096\<rparr>) new (pva k) PGSIZE p
              (ucast (PTE_FLAGS ?e))) (\<lambda>(r, s3).
            if r \<noteq> 0
            then rbind (kfree s3 p) (\<lambda>s4.
                 rbind (uvmunmap s4 new 0 (pva k div PGSIZE) True) (\<lambda>s5. Ok (-1, s5)))
            else uvmcopy_loop s3 old new (pva k + PGSIZE) sz))"
    using lt q v p by (subst uvmcopy_loop.simps) (simp add: Let_def pte_valid_def)
  show ?case
  proof (cases "p = 0")
    case True
    have "s1 = s" using as_invD(5) [OF G(1)] by (cases rule: kalloc_cases) (use p True in auto)
    then show ?thesis using undo [OF Suc.prems(1)] step True by auto
  next
    case False
    show ?thesis
    proof (cases rule: copy_page [OF O(1) kn G(1) nk p False])
      case (1 s3)
      have g3: "grew s0 s3 new 0 (Suc k)" by (rule grew_trans [OF Suc.prems(1) 1(2)])
      have "copied s0 old s3 new k"
      proof -
        have "page_aligned (nth_page s0 old 0 k)" using as_invD(9) [OF old kn] by (simp add: page_ok_def)
        then have "k_mem s (nth_page s0 old 0 k + of_nat off) = k_mem s0 (nth_page s0 old 0 k + of_nat off)"
          if "off < 4096" for off
          using that by (intro O(6) [OF kn] page_offset)
        then show ?thesis using 1(3) O(3,4) by (simp add: copied_def)
      qed
      then have c3: "copied s0 old s3 new i" if "i < Suc k" for i
        using that Suc.prems(3) copied_grew [OF 1(2) G(1)] by (cases "i = k") auto
      have "pva k + PGSIZE = pva (Suc k)" by (simp add: pva_def)
      then have "uvmcopy_loop s old new (pva k) sz = uvmcopy_loop s3 old new (pva (Suc k)) sz"
        using step False 1(1) by simp
      then show ?thesis using Suc.hyps(1) [OF _ g3 _ c3] Suc.hyps(2) kn by simp
    next
      case (2 s3 s4)
      have "grew s0 s4 new 0 k" by (rule grew_trans [OF Suc.prems(1) 2(3)])
      then obtain s' where "uvmunmap s4 new 0 (pva k div PGSIZE) True = Ok s'" "grew s0 s' new 0 0"
        using undo by blast
      then show ?thesis using step False 2(1,2) by simp
    qed
  qed
qed

lemma uvmcopy_spec:
  assumes "as_inv s old (npg sz)" and "apart_spaces s old (npg sz) new" and "as_inv s new 0"
    and "\<And>va. unat va < 4096 * npg sz \<Longrightarrow> xlate s new va = None"
  shows "\<exists>r s'. uvmcopy s old new sz = Ok (r, s') \<and>
    (r = 0 \<and> grew s s' new 0 (npg sz) \<and> (\<forall>i<npg sz. copied s old s' new i) \<or> r = -1 \<and> grew s s' new 0 0)"
proof -
  have "pva 0 = 0" by (simp add: pva_def)
  then show ?thesis
    using uvmcopy_loop_spec [OF assms grew_refl [OF assms(3)]] by (simp add: uvmcopy_def)
qed

end
