(* ===== verification/Xv6_CopyUser.thy ===== *)
theory Xv6_CopyUser
  imports Xv6_UvmCopy
begin

text \<open>
  The life of an address space from \<open>uvmcreate\<close> to \<open>uvmfree\<close>, and the safety of \<open>copyout\<close>,
  \<open>copyin\<close> and \<open>copyinstr\<close>: they take any address a user program may pass, never panic, and touch
  nothing but what the page table lets the user touch.
\<close>

section \<open>From creation to destruction\<close>

lemma uvmcreate_spec:
  assumes "kinv s" and "uvmcreate s = (pt, s1)" and "pt \<noteq> 0"
  shows "as_inv s1 pt 0" "xlate s1 pt va = None" "tabs s1 pt = {pt}" "pt \<in> free_pages s"
    "free_pages s1 = free_pages s - {pt}" "k_end s1 = k_end s"
proof -
  obtain p t where k: "kalloc s = (p, t)" by fastforce
  have p: "p = pt" "p \<noteq> 0" and s1: "s1 = t\<lparr>k_mem := memset (k_mem t) pt 0 4096\<rparr>"
    using assms(2,3) k by (auto simp: uvmcreate_def split: if_splits)
  have al: "page_aligned pt" using kalloc_aligned [OF assms(1) k p(2)] p(1) by simp
  have "took s s1 pt"
    unfolding s1 using assms(1) k p al by (intro took_kalloc agree_memset_page) auto
  then have T: "kinv s1" "k_end s1 = k_end s" "pt \<in> free_pages s" "free_pages s1 = free_pages s - {pt}"
    by (auto simp: took_def)
  show "pt \<in> free_pages s" "free_pages s1 = free_pages s - {pt}" "k_end s1 = k_end s" by (rule T)+
  have ok: "page_ok (k_end s1) pt" using free_pages_ok [OF assms(1) T(3)] T(2) by simp
  have z: "ent (k_mem s1) pt i = 0" if "i < 512" for i
    using that al by (simp add: s1 ent_def load64_memset_zero)
  note Z = zero_table [OF ok z]
  have kd: "kids (k_mem s1) pt = {}" using z by (auto simp: kids_def)
  show "tabs s1 pt = {pt}" using Z(1) by (simp add: tabs_def)
  have "vm_inv s1 pt" using T Z(1,2) kd by (simp add: vm_inv_def)
  then show "as_inv s1 pt 0" by (simp add: as_inv_def leaves_def own_pages_def)
  show "xlate s1 pt va = None" using Z(3) by (simp add: pte_def)
qed

lemma address_space_round_trip:
  assumes inv: "kinv s" and c: "uvmcreate s = (pt, s1)" "pt \<noteq> 0" and sz: "4096 * npg sz \<le> 2 ^ 38"
    and perm: "ucast (PTE_R OR PTE_U) OR xperm < (1024 :: u32)"
  shows "\<exists>r s2 s3. uvmalloc s1 pt 0 sz xperm = Ok (r, s2) \<and> (r = sz \<or> r = 0) \<and>
    uvmfree s2 pt r = Ok s3 \<and> kinv s3 \<and> free_pages s3 = free_pages s"
proof -
  note C = uvmcreate_spec [OF inv c]
  have n0: "npg 0 = 0" by (simp add: npg_def)
  have "\<exists>r s2. uvmalloc s1 pt 0 sz xperm = Ok (r, s2) \<and> (r = sz \<or> r = 0) \<and> grew s1 s2 pt 0 (npg r)"
    using uvmalloc_spec [of s1 pt 0 sz "ucast (PTE_R OR PTE_U) OR xperm" xperm] C(1,2) sz perm
    by (simp only: n0) (fastforce simp: n0)
  then obtain r s2 where r: "uvmalloc s1 pt 0 sz xperm = Ok (r, s2)" "r = sz \<or> r = 0" "grew s1 s2 pt 0 (npg r)"
    by blast
  note G = grewD [OF r(3)]
  have none: "\<And>va. 4096 * npg r \<le> unat va \<Longrightarrow> unat va < 2 ^ 38 \<Longrightarrow> xlate s2 pt va = None"
    using G(6) C(2) by simp
  obtain s3 where s3: "uvmfree s2 pt r = Ok s3" "freed s2 s3 (tabs s2 pt \<union> upages s2 pt 0 (npg r))"
    by (rule uvmfree_spec [OF G(1)]) (use none in auto)
  have "free_pages s3 = free_pages s2 \<union> tabs s2 pt \<union> upages s2 pt 0 (npg r)" using freedD(3) [OF s3(2)] by blast
  also have "\<dots> = insert pt (free_pages s1)" using G(4,5) C(3) by blast
  also have "\<dots> = free_pages s" using C(4,5) by blast
  finally show ?thesis using r s3 freedD(1) [OF s3(2)] by blast
qed

section \<open>What memmove can touch\<close>

lemma fold_upd_other:
  assumes "\<And>i. i \<in> set is \<Longrightarrow> x \<noteq> d + of_nat i"
  shows "fold (\<lambda>i m. m(d + of_nat i := f i m)) is m x = m x"
  using assms by (induction "is" arbitrary: m) auto

lemma memmove_other:
  assumes "\<not> in_region x dst (unat n)"
  shows "memmove m dst src n x = m x"
proof -
  have "x \<noteq> dst + of_nat i" if "i < unat n" for i
  proof
    assume "x = dst + of_nat i"
    moreover have "i < 2 ^ 64" using that unat_u32_le [of n] by simp
    ultimately have "in_region x dst (unat n)" using that by (simp add: in_region_add)
    then show False using assms by simp
  qed
  then have "copy_up m dst src (unat n) x = m x" "copy_down m dst src (unat n) x = m x"
    unfolding copy_up_def copy_down_def by (intro fold_upd_other; simp)+
  then show ?thesis by (simp add: memmove_def)
qed

text \<open>A round of the copy loops stays inside one page.\<close>

lemma chunk_in_page:
  assumes "page_aligned pa" and "0 < len"
    and x: "in_region x (pa + (va - PGROUNDDOWN va)) (unat (ucast (chunk va len) :: u32))"
  shows "PGROUNDDOWN x = pa"
proof -
  have c: "unat (chunk va len) \<le> 4096" using chunk_bounds [OF assms(2)] by simp
  then have u: "unat (ucast (chunk va len) :: u32) = unat (chunk va len)"
    by (simp add: unsigned_ucast_eq take_bit_nat_eq_self)
  let ?o = "unat va mod 4096"
  have o: "va - PGROUNDDOWN va = of_nat ?o" using arg_cong [OF PGROUNDDOWN_offset [of va], of "of_nat :: nat \<Rightarrow> u64"] by simp
  define d where "d = unat (x - (pa + (va - PGROUNDDOWN va)))"
  have "d < unat (chunk va len)" using x u by (simp add: in_region_def d_def)
  then have lt: "?o + d < 4096" unfolding unat_chunk by linarith
  have "x = pa + (va - PGROUNDDOWN va) + of_nat d" by (simp add: d_def)
  also have "\<dots> = pa + of_nat (?o + d)" unfolding o by (simp add: add.assoc)
  finally have "x = pa + of_nat (?o + d)" .
  then show ?thesis using page_offset [OF assms(1) lt] by simp
qed

section \<open>copyout, copyin and copyinstr\<close>

text \<open>The physical pages that \<open>pt\<close> lets user code reach, and those it lets user code write.\<close>

definition user_pages :: "kmem \<Rightarrow> u64 \<Rightarrow> u64 set" where
  "user_pages s pt = {p. \<exists>va e. unat va < 2 ^ 38 \<and> e = pte s pt va \<and> pte_valid e \<and> e AND PTE_U \<noteq> 0 \<and> p = PTE2PA e}"

definition user_writable :: "kmem \<Rightarrow> u64 \<Rightarrow> u64 set" where
  "user_writable s pt = {p. \<exists>va e. unat va < 2 ^ 38 \<and> e = pte s pt va \<and> pte_valid e \<and> e AND PTE_U \<noteq> 0 \<and>
     e AND PTE_W \<noteq> 0 \<and> p = PTE2PA e}"

lemma user_writable_subset: "user_writable s pt \<subseteq> user_pages s pt"
  unfolding user_writable_def user_pages_def by blast

text \<open>A page table that keeps user pages apart from its tables and from the free list.\<close>

definition user_ok :: "kmem \<Rightarrow> u64 \<Rightarrow> bool" where
  "user_ok s pt \<longleftrightarrow> vm_inv s pt \<and> user_pages s pt \<inter> (tabs s pt \<union> free_pages s) = {}"

lemma PTE2PA_aligned: "page_aligned (PTE2PA e)"
  unfolding page_aligned_take_bit PTE2PA_def by (rule bit_word_eqI) (simp add: bit_simps)

lemma walk_page:
  assumes "vm_inv s pt" and "unat va < 2 ^ 38"
  obtains (none) "walk s pt va False = Ok (0, s)"
  | (entry) a where "walk s pt va False = Ok (a, s)" "a \<noteq> 0" "load64 (k_mem s) a = pte s pt va"
proof (cases "leaf_tab (k_mem s) 2 pt va")
  case None
  then show ?thesis using none walk_find [OF assms] by simp
next
  case (Some q)
  have "q \<in> tabs s pt" using leaf_tab_in [OF Some] by (simp add: tabs_def)
  then have "slot q (ix 0 va) \<noteq> 0" using slot_nonzero [OF _ _ ix_less] vm_inv_parts(4,5) [OF assms(1)] by blast
  then show ?thesis using entry walk_find [OF assms] pte_leaf_tab [OF Some] Some by simp
qed

lemma walkaddr_cases:
  assumes "vm_inv s pt"
  obtains (none) "walkaddr s pt va = Ok 0"
  | (page) "walkaddr s pt va = Ok (PTE2PA (pte s pt va))" "unat va < 2 ^ 38" "pte_valid (pte s pt va)"
      "pte s pt va AND PTE_U \<noteq> 0"
proof (cases "va \<ge> MAXVA")
  case True
  then show ?thesis using none by (simp add: walkaddr_def)
next
  case False
  then have lt: "unat va < 2 ^ 38" by (simp add: word_le_nat_alt)
  show ?thesis
    using assms lt
  proof (cases rule: walk_page)
    case none
    then show ?thesis using that(1) False by (simp add: walkaddr_def)
  next
    case (entry a)
    then show ?thesis
      using that False lt by (cases "pte_valid (pte s pt va) \<and> pte s pt va AND PTE_U \<noteq> 0")
        (auto simp: walkaddr_def Let_def pte_valid_def)
  qed
qed

lemma user_page_reached:
  assumes "unat va < 2 ^ 38" and "pte_valid (pte s pt va)" and "pte s pt va AND PTE_U \<noteq> 0"
  shows "PTE2PA (pte s pt va) \<in> user_pages s pt"
  using assms unfolding user_pages_def by blast

text \<open>A change outside the tables and the free pages leaves the address space and the free list alone.\<close>

lemma user_ok_frame:
  assumes "user_ok s pt" and "agree (tabs s pt \<union> free_pages s) (k_mem s) m"
  defines "s' \<equiv> s\<lparr>k_mem := m\<rparr>"
  shows "user_ok s' pt" "pte s' pt = pte s pt" "tabs s' pt = tabs s pt" "free_pages s' = free_pages s"
    "user_pages s' pt = user_pages s pt" "user_writable s' pt = user_writable s pt"
proof -
  have v: "vm_inv s pt" using assms(1) by (simp add: user_ok_def)
  note V = vm_inv_parts [OF v]
  have "agree (free_pages s) (k_mem s) m" using assms(2) by (rule agree_mono) simp
  from kinv_mem [OF V(1) this] have k: "kinv s'" "free_pages s' = free_pages s" by (simp_all add: s'_def)
  have "agree (tabs s pt) (k_mem s) (k_mem s')" using assms(2) by (auto simp: s'_def intro: agree_mono)
  moreover have "free_pages s' \<inter> tabs s pt = {}" using k(2) V(3) by auto
  moreover have "k_end s' = k_end s" by (simp add: s'_def)
  ultimately have F: "vm_inv s' pt" "tabs s' pt = tabs s pt" "\<And>va. pte s' pt va = pte s pt va"
    using vm_inv_frame [OF v k(1)] by auto
  show "pte s' pt = pte s pt" using F(3) by (rule ext)
  then show U: "user_pages s' pt = user_pages s pt" "user_writable s' pt = user_writable s pt"
    by (simp_all add: user_pages_def user_writable_def)
  show "tabs s' pt = tabs s pt" "free_pages s' = free_pages s" by (fact F(2), fact k(2))
  show "user_ok s' pt" using assms(1) F(1,2) k(2) U(1) by (simp add: user_ok_def)
qed

lemma copyout_safe:
  assumes "user_ok s pt"
  shows "\<exists>r s'. copyout s pt dstva src len = Ok (r, s') \<and> (r = 0 \<or> r = -1) \<and>
    agree (- user_writable s pt) (k_mem s) (k_mem s') \<and> user_ok s' pt \<and> pte s' pt = pte s pt \<and>
    free_pages s' = free_pages s"
  using assms
proof (induction s pt dstva src len rule: copyout.induct)
  case (1 s pt dstva src len)
  let ?va0 = "PGROUNDDOWN dstva"
  have v: "vm_inv s pt" using "1.prems" by (simp add: user_ok_def)
  show ?case
  proof (cases "0 < len \<and> ?va0 < MAXVA")
    case False
    then show ?thesis using "1.prems" by (subst copyout.simps) (auto simp: not_less)
  next
    case True
    then have len: "0 < len" and lt: "unat ?va0 < 2 ^ 38" and nge: "\<not> MAXVA \<le> ?va0"
      by (auto simp: word_less_nat_alt word_le_nat_alt)
    show ?thesis
      using v lt
    proof (cases rule: walk_page)
      case none
      then show ?thesis using "1.prems" len nge by (subst copyout.simps) simp
    next
      case (entry a)
      show ?thesis
      proof (cases "pte s pt ?va0 AND PTE_W = 0 \<or> walkaddr s pt ?va0 = Ok 0")
        case True
        then show ?thesis using "1.prems" len nge entry v
          by (subst copyout.simps) (auto simp: Let_def elim: walkaddr_cases [of s pt ?va0])
      next
        case False
        then have W: "pte s pt ?va0 AND PTE_W \<noteq> 0" by simp
        obtain "walkaddr s pt ?va0 = Ok (PTE2PA (pte s pt ?va0))" "pte_valid (pte s pt ?va0)"
          "pte s pt ?va0 AND PTE_U \<noteq> 0"
          using v False by (cases rule: walkaddr_cases [of s pt ?va0]) auto
        note wa = this
        let ?pa = "PTE2PA (pte s pt ?va0)" and ?n = "chunk dstva len"
        let ?m = "memmove (k_mem s) (?pa + (dstva - ?va0)) src (ucast ?n)"
        let ?s = "s\<lparr>k_mem := ?m\<rparr>"
        have pw: "?pa \<in> user_writable s pt" using lt wa W unfolding user_writable_def by blast
        have ag: "agree (- {?pa}) (k_mem s) ?m"
        proof -
          have "?m x = k_mem s x" if "PGROUNDDOWN x \<noteq> ?pa" for x
            using chunk_in_page [OF PTE2PA_aligned len] that by (intro memmove_other) blast
          then show ?thesis by (simp add: agree_def)
        qed
        have dj: "?pa \<notin> tabs s pt \<union> free_pages s"
          using pw user_writable_subset "1.prems" by (auto simp: user_ok_def)
        have "agree (tabs s pt \<union> free_pages s) (k_mem s) ?m" using ag by (rule agree_mono) (use dj in auto)
        note F = user_ok_frame [OF "1.prems" this]
        have "?pa \<noteq> 0" using False wa by auto
        then have eq: "copyout s pt dstva src len = copyout ?s pt (?va0 + PGSIZE) (src + ?n) (len - ?n)"
          using len nge entry W wa by (subst copyout.simps) (simp add: Let_def)
        have IH: "\<exists>r s'. copyout ?s pt (?va0 + PGSIZE) (src + ?n) (len - ?n) = Ok (r, s') \<and> (r = 0 \<or> r = -1) \<and>
            agree (- user_writable ?s pt) (k_mem ?s) (k_mem s') \<and> user_ok s' pt \<and> pte s' pt = pte ?s pt \<and>
            free_pages s' = free_pages ?s"
          by (rule "1.IH" [OF len refl nge entry(1) refl entry(2) _ wa(1) \<open>?pa \<noteq> 0\<close> refl F(1)])
            (use entry(3) W in simp)
        then obtain r s' where s': "copyout ?s pt (?va0 + PGSIZE) (src + ?n) (len - ?n) = Ok (r, s')" "r = 0 \<or> r = -1"
          "agree (- user_writable s pt) ?m (k_mem s')" "user_ok s' pt" "pte s' pt = pte s pt" "free_pages s' = free_pages s"
          using F by auto
        have "agree (- user_writable s pt) (k_mem s) ?m" using ag by (rule agree_mono) (use pw in auto)
        then have "agree (- user_writable s pt) (k_mem s) (k_mem s')" using s'(3) by (rule agree_trans)
        then show ?thesis using s' by (simp add: eq)
      qed
    qed
  qed
qed

text \<open>The kernel buffer of the other two shrinks from the front.\<close>

lemma in_region_shrink:
  assumes "in_region x (d + n) (unat (len - n))" and "n \<le> (len :: u64)"
  shows "in_region x d (unat len)"
proof -
  have l: "unat (x - (d + n)) + unat n < unat len"
    using assms by (simp add: in_region_def unat_diff_le word_le_nat_alt less_diff_conv)
  have "x - d = (x - (d + n)) + n" by simp
  then have "unat (x - d) = unat (x - (d + n)) + unat n"
    using l unat_less [of len] by (simp only:) (rule unat_add_no_wrap, simp)
  then show ?thesis using l by (simp add: in_region_def)
qed

lemma chunk_le: "chunk va len \<le> len"
  by (simp add: word_le_nat_alt unat_chunk)

definition kernel_buf :: "kmem \<Rightarrow> u64 \<Rightarrow> u64 \<Rightarrow> nat \<Rightarrow> bool" where
  "kernel_buf s pt d n \<longleftrightarrow> (\<forall>x. in_region x d n \<longrightarrow> PGROUNDDOWN x \<notin> tabs s pt \<union> free_pages s)"

lemma kernel_buf_frame:
  assumes "user_ok s pt" and "kernel_buf s pt d n" and "\<And>x. \<not> in_region x d n \<Longrightarrow> m x = k_mem s x"
  shows "agree (tabs s pt \<union> free_pages s) (k_mem s) m"
  using assms(2,3) unfolding agree_def kernel_buf_def by blast

lemma copyin_safe:
  assumes "user_ok s pt" and "kernel_buf s pt dst (unat len)"
  shows "\<exists>r s'. copyin s pt dst srcva len = Ok (r, s') \<and> (r = 0 \<or> r = -1) \<and>
    (\<forall>x. \<not> in_region x dst (unat len) \<longrightarrow> k_mem s' x = k_mem s x) \<and> user_ok s' pt \<and> pte s' pt = pte s pt"
  using assms
proof (induction s pt dst srcva len rule: copyin.induct)
  case (1 s pt dst srcva len)
  let ?va0 = "PGROUNDDOWN srcva"
  have v: "vm_inv s pt" using "1.prems"(1) by (simp add: user_ok_def)
  show ?case
  proof (cases "0 < len \<and> walkaddr s pt ?va0 \<noteq> Ok 0")
    case False
    then show ?thesis using "1.prems" by (subst copyin.simps) auto
  next
    case True
    then have len: "0 < len" by simp
    obtain pa where wa: "walkaddr s pt ?va0 = Ok pa" "pa \<noteq> 0"
      using v True by (cases rule: walkaddr_cases [of s pt ?va0]) auto
    let ?n = "chunk srcva len"
    let ?m = "memmove (k_mem s) dst (pa + (srcva - ?va0)) (ucast ?n)"
    let ?s = "s\<lparr>k_mem := ?m\<rparr>"
    have u: "unat (ucast ?n :: u32) = unat ?n"
      using chunk_bounds(3) [OF len, of srcva] by (simp add: unsigned_ucast_eq take_bit_nat_eq_self)
    have mo: "?m x = k_mem s x" if "\<not> in_region x dst (unat len)" for x
    proof (rule memmove_other)
      show "\<not> in_region x dst (unat (ucast ?n :: u32))"
        using that chunk_bounds(2) [OF len, of srcva] unfolding u by (auto simp: in_region_def)
    qed
    note F = user_ok_frame [OF "1.prems"(1) kernel_buf_frame [OF "1.prems" mo]]
    have kb: "kernel_buf ?s pt (dst + ?n) (unat (len - ?n))"
      using "1.prems"(2) F(3,4) in_region_shrink [OF _ chunk_le] unfolding kernel_buf_def by blast
    have eq: "copyin s pt dst srcva len = copyin ?s pt (dst + ?n) (?va0 + PGSIZE) (len - ?n)"
      using len wa by (subst copyin.simps) (simp add: Let_def)
    from "1.IH" [OF len refl wa refl F(1) kb] obtain r s' where
      s': "copyin ?s pt (dst + ?n) (?va0 + PGSIZE) (len - ?n) = Ok (r, s')" "r = 0 \<or> r = -1"
      "\<And>x. \<not> in_region x (dst + ?n) (unat (len - ?n)) \<Longrightarrow> k_mem s' x = ?m x" "user_ok s' pt" "pte s' pt = pte s pt"
      using F(2) by auto
    have "k_mem s' x = k_mem s x" if nx: "\<not> in_region x dst (unat len)" for x
    proof -
      have "\<not> in_region x (dst + ?n) (unat (len - ?n))" using in_region_shrink [OF _ chunk_le] nx by blast
      then show ?thesis using s'(3) [of x] mo [OF nx] by simp
    qed
    then show ?thesis using s' by (simp add: eq)
  qed
qed

lemma copyinstr_page_other:
  assumes "n < 2 ^ 64" and "\<not> in_region x dst n"
  shows "snd (copyinstr_page m dst p n) x = m x"
  using assms
proof (induction n arbitrary: m dst p)
  case (Suc n)
  then have "x \<noteq> dst" "\<not> in_region x (dst + 1) n" using in_region_Suc [of n x dst] by auto
  then show ?case using Suc by simp
qed simp

lemma copyinstr_page_null:
  assumes "n < 2 ^ 64" and "fst (copyinstr_page m dst p n)"
  shows "\<exists>i<n. snd (copyinstr_page m dst p n) (dst + of_nat i) = 0"
  using assms
proof (induction n arbitrary: m dst p)
  case (Suc n)
  show ?case
  proof (cases "m p = 0")
    case True
    then show ?thesis by (intro exI [of _ 0]) simp
  next
    case False
    then obtain i where "i < n" "snd (copyinstr_page (m(dst := m p)) (dst + 1) (p + 1) n) (dst + 1 + of_nat i) = 0"
      using Suc.IH [of "m(dst := m p)" "dst + 1" "p + 1"] Suc.prems by (auto simp: fun_upd_def)
    then show ?thesis using False by (intro exI [of _ "Suc i"]) (simp add: add.assoc)
  qed
qed simp

lemma copyinstr_safe:
  assumes "user_ok s pt" and "kernel_buf s pt dst (unat mx)"
  shows "\<exists>r s'. copyinstr s pt dst srcva mx = Ok (r, s') \<and> (r = 0 \<or> r = -1) \<and>
    (\<forall>x. \<not> in_region x dst (unat mx) \<longrightarrow> k_mem s' x = k_mem s x) \<and> user_ok s' pt \<and> pte s' pt = pte s pt \<and>
    (r = 0 \<longrightarrow> (\<exists>i<unat mx. k_mem s' (dst + of_nat i) = 0))"
  using assms
proof (induction s pt dst srcva mx rule: copyinstr.induct)
  case (1 s pt dst srcva mx)
  let ?va0 = "PGROUNDDOWN srcva"
  have v: "vm_inv s pt" using "1.prems"(1) by (simp add: user_ok_def)
  show ?case
  proof (cases "0 < mx \<and> walkaddr s pt ?va0 \<noteq> Ok 0")
    case False
    then show ?thesis using "1.prems" by (subst copyinstr.simps) auto
  next
    case True
    then have mx: "0 < mx" by simp
    obtain pa where wa: "walkaddr s pt ?va0 = Ok pa" "pa \<noteq> 0"
      using v True by (cases rule: walkaddr_cases [of s pt ?va0]) auto
    let ?n = "chunk srcva mx" and ?p = "pa + (srcva - ?va0)"
    obtain g m where gm: "copyinstr_page (k_mem s) dst ?p (unat ?n) = (g, m)" by fastforce
    let ?s = "s\<lparr>k_mem := m\<rparr>"
    have n64: "unat ?n < 2 ^ 64" using unat_less [of ?n] by simp
    have mo: "m x = k_mem s x" if "\<not> in_region x dst (unat mx)" for x
    proof -
      have "\<not> in_region x dst (unat ?n)" using that chunk_bounds(2) [OF mx, of srcva] by (auto simp: in_region_def)
      then show ?thesis using copyinstr_page_other [OF n64, of x dst "k_mem s" ?p] gm by simp
    qed
    note F = user_ok_frame [OF "1.prems"(1) kernel_buf_frame [OF "1.prems" mo]]
    show ?thesis
    proof (cases g)
      case True
      then obtain i where "i < unat ?n" "m (dst + of_nat i) = 0"
        using copyinstr_page_null [OF n64, of "k_mem s" dst ?p] gm by auto
      then have "\<exists>i<unat mx. m (dst + of_nat i) = 0"
        using chunk_bounds(2) [OF mx, of srcva] by (meson less_le_trans)
      then show ?thesis using mx wa gm True mo F by (subst copyinstr.simps) (simp add: Let_def)
    next
      case False
      have kb: "kernel_buf ?s pt (dst + ?n) (unat (mx - ?n))"
        using "1.prems"(2) F(3,4) in_region_shrink [OF _ chunk_le] unfolding kernel_buf_def by blast
      have eq: "copyinstr s pt dst srcva mx = copyinstr ?s pt (dst + ?n) (?va0 + PGSIZE) (mx - ?n)"
        using mx wa gm False by (subst copyinstr.simps) (simp add: Let_def)
      from "1.IH" [OF mx refl wa refl gm [symmetric] False F(1) kb] obtain r s' where
        s': "copyinstr ?s pt (dst + ?n) (?va0 + PGSIZE) (mx - ?n) = Ok (r, s')" "r = 0 \<or> r = -1"
        "\<And>x. \<not> in_region x (dst + ?n) (unat (mx - ?n)) \<Longrightarrow> k_mem s' x = m x" "user_ok s' pt" "pte s' pt = pte s pt"
        "r = 0 \<Longrightarrow> \<exists>i<unat (mx - ?n). k_mem s' (dst + ?n + of_nat i) = 0"
        using F(2) by auto
      have "k_mem s' x = k_mem s x" if nx: "\<not> in_region x dst (unat mx)" for x
      proof -
        have "\<not> in_region x (dst + ?n) (unat (mx - ?n))" using in_region_shrink [OF _ chunk_le] nx by blast
        then show ?thesis using s'(3) [of x] mo [OF nx] by simp
      qed
      moreover have "\<exists>i<unat mx. k_mem s' (dst + of_nat i) = 0" if r: "r = 0"
      proof -
        obtain i where i: "i < unat (mx - ?n)" "k_mem s' (dst + ?n + of_nat i) = 0" using s'(6) [OF r] by blast
        then have "unat ?n + i < unat mx" using chunk_bounds [OF mx, of srcva] by simp
        moreover have "dst + ?n + of_nat i = dst + of_nat (unat ?n + i)" by (simp add: add.assoc)
        ultimately show ?thesis using i(2) by metis
      qed
      ultimately show ?thesis using s' by (simp add: eq)
    qed
  qed
qed

section \<open>Properties\<close>

text \<open>A memory whose only page in use is an empty page table, and whose only free page is another one.\<close>

definition empty_space :: kmem where
  "empty_space = \<lparr>k_mem = (\<lambda>_. 0), k_freelist = 0x87fff000, k_end = 0x80021d00\<rparr>"

lemma empty_space_kinv: "kinv empty_space" "free_pages empty_space = {0x87fff000}"
proof -
  have "kmem_inv empty_space [0x87fff000]"
    by (simp add: kmem_inv_def empty_space_def page_ok_def page_aligned_def)
  then show "kinv empty_space" "free_pages empty_space = {0x87fff000}" using free_pages_eq by auto
qed

lemma empty_space_table:
  assumes "p = 0x87ffe000 \<or> p = 0x87ffd000"
  shows "as_inv empty_space p 0" "xlate empty_space p va = None" "tabs empty_space p = {p}"
    "user_ok empty_space p"
proof -
  have ok: "page_ok (k_end empty_space) p"
    using assms by (auto simp: page_ok_def page_aligned_def empty_space_def)
  have z: "ent (k_mem empty_space) p i = 0" for i by (simp add: ent_def empty_space_def)
  note Z = zero_table [OF ok z]
  have "kids (k_mem empty_space) p = {}" using z by (auto simp: kids_def)
  then have v: "vm_inv empty_space p"
    using Z(1,2) assms empty_space_kinv by (auto simp: vm_inv_def)
  then show "as_inv empty_space p 0" by (simp add: as_inv_def leaves_def own_pages_def)
  show "xlate empty_space p va = None" "tabs empty_space p = {p}" using Z by (simp_all add: pte_def tabs_def)
  have "user_pages empty_space p = {}" using Z(3) by (auto simp: user_pages_def pte_def)
  then show "user_ok empty_space p" using v by (simp add: user_ok_def)
qed

text \<open>
  A process with one page: the page table at \<^verbatim>\<open>0x87ffe000\<close> maps address 0 to the page \<^verbatim>\<open>0x87ffa000\<close>, which user code may read and write and which starts
  with the bytes 104, 105, 10; the table at \<^verbatim>\<open>0x87ffd000\<close> is empty, and four pages are free.
\<close>

definition one_page_space :: kmem where
  "one_page_space =
     (let m0 = (\<lambda>_. 0)(0x87ffa000 := 104, 0x87ffa001 := 105, 0x87ffa002 := 10);
          m1 = store64 (store64 (store64 m0 0x87ffe000 (PA2PTE 0x87ffc000 OR PTE_V)) 0x87ffc000 (PA2PTE 0x87ffb000 OR PTE_V))
                 0x87ffb000 (PA2PTE 0x87ffa000 OR PTE_V OR PTE_R OR PTE_W OR PTE_U) in
      \<lparr>k_mem = store64 (store64 (store64 m1 0x87fff000 0x87ff9000) 0x87ff9000 0x87ff8000) 0x87ff8000 0x87ff7000,
       k_freelist = 0x87fff000, k_end = 0x80021d00\<rparr>)"

lemma ent_store_0:
  assumes "i < 512" "page_aligned p" "page_aligned q"
  shows "ent (store64 m p v) q i = (if q = p \<and> i = 0 then v else ent m q i)"
  using ent_store_same [of m p 0 v] ent_store_other [of 0 i p q m v] assms by auto

lemma one_page_ent:
  assumes "i < 512" and "page_aligned q" and "q \<noteq> 0x87ffa000"
  shows "ent (k_mem one_page_space) q i =
    (if i \<noteq> 0 then 0
     else if q = 0x87ffe000 then PA2PTE 0x87ffc000 OR PTE_V else if q = 0x87ffc000 then PA2PTE 0x87ffb000 OR PTE_V
     else if q = 0x87ffb000 then PA2PTE 0x87ffa000 OR PTE_V OR PTE_R OR PTE_W OR PTE_U
     else if q = 0x87fff000 then 0x87ff9000 else if q = 0x87ff9000 then 0x87ff8000 else if q = 0x87ff8000 then 0x87ff7000 else 0)"
proof -
  let ?m = "(\<lambda>_. 0 :: u8)(0x87ffa000 := 104, 0x87ffa001 := 105, 0x87ffa002 := 10)"
  have "load64 ?m (slot q i) = load64 (\<lambda>_. 0) (slot q i)"
    by (rule load64_slot_cong) (use assms in \<open>auto simp: PGROUNDDOWN_def\<close>)
  then have "ent ?m q i = 0" by (simp add: ent_def)
  then show ?thesis
    unfolding one_page_space_def Let_def kmem.simps using assms(1,2)
    by (cases "i = 0") (simp_all add: ent_store_0 page_aligned_def)
qed

lemma one_page_fields: "k_freelist one_page_space = 0x87fff000" "k_end one_page_space = 0x80021d00"
  by (simp_all add: one_page_space_def Let_def)

lemma one_page_free: "kinv one_page_space" "free_pages one_page_space = {0x87fff000, 0x87ff9000, 0x87ff8000, 0x87ff7000}"
proof -
  have l: "load64 (k_mem one_page_space) q = ent (k_mem one_page_space) q 0" for q by (simp add: ent_def)
  have "kmem_inv one_page_space [0x87fff000, 0x87ff9000, 0x87ff8000, 0x87ff7000]"
    unfolding kmem_inv_def by (simp add: l one_page_fields one_page_ent page_ok_def page_aligned_def)
  then show "kinv one_page_space" "free_pages one_page_space = {0x87fff000, 0x87ff9000, 0x87ff8000, 0x87ff7000}"
    using free_pages_eq by auto
qed

lemma one_page_kids:
  "kids (k_mem one_page_space) 0x87ffe000 = {0}" "kid (k_mem one_page_space) 0x87ffe000 0 = 0x87ffc000"
  "kids (k_mem one_page_space) 0x87ffc000 = {0}" "kid (k_mem one_page_space) 0x87ffc000 0 = 0x87ffb000"
  "\<not> pte_leaf (ent (k_mem one_page_space) 0x87ffe000 0)" "\<not> pte_leaf (ent (k_mem one_page_space) 0x87ffc000 0)"
  by (auto simp: kids_def kid_def one_page_ent page_aligned_def pte_valid_def pte_leaf_def PA2PTE_def PTE2PA_def PTE_LEAF_def pte_bits split: if_splits)

lemma one_page_tabs: "tabs one_page_space 0x87ffe000 = {0x87ffe000, 0x87ffc000, 0x87ffb000}"
  by (simp add: tabs_def numeral_2_eq_2 one_page_kids)

lemma one_page_pte:
  "pte one_page_space 0x87ffe000 0 = PA2PTE 0x87ffa000 OR PTE_V OR PTE_R OR PTE_W OR PTE_U"
  "pte one_page_space 0x87ffe000 va \<in> {0, PA2PTE 0x87ffa000 OR PTE_V OR PTE_R OR PTE_W OR PTE_U}"
proof -
  have e: "ent (k_mem one_page_space) 0x87ffb000 i = (if i = 0 then PA2PTE 0x87ffa000 OR PTE_V OR PTE_R OR PTE_W OR PTE_U else 0)"
    if "i < 512" for i using one_page_ent [OF that, of "0x87ffb000"] by (simp add: page_aligned_def)
  have i0: "ix l 0 = 0" for l by (simp add: ix_def PX_def)
  show "pte one_page_space 0x87ffe000 0 = PA2PTE 0x87ffa000 OR PTE_V OR PTE_R OR PTE_W OR PTE_U"
    by (simp add: pte_def pte_of_def numeral_2_eq_2 one_page_kids i0 e)
  show "pte one_page_space 0x87ffe000 va \<in> {0, PA2PTE 0x87ffa000 OR PTE_V OR PTE_R OR PTE_W OR PTE_U}"
    by (simp add: pte_def pte_of_def numeral_2_eq_2 one_page_kids e)
qed

lemma one_page_vm: "vm_inv one_page_space 0x87ffe000"
proof -
  have ok: "page_ok (k_end one_page_space) 0x87ffe000" "page_ok (k_end one_page_space) 0x87ffc000" "page_ok (k_end one_page_space) 0x87ffb000"
    by (simp_all add: one_page_fields page_ok_def page_aligned_def)
  have "tables (k_mem one_page_space) 2 0x87ffe000 \<inter> free_pages one_page_space = {}"
    using one_page_tabs one_page_free(2) by (simp add: tabs_def)
  moreover have "wf_pt (k_end one_page_space) (k_mem one_page_space) (Suc (Suc 0)) 0x87ffe000" using ok by (simp add: one_page_kids)
  then have "wf_pt (k_end one_page_space) (k_mem one_page_space) 2 0x87ffe000" by (simp only: numeral_2_eq_2)
  ultimately show ?thesis using one_page_free(1) one_page_kids(1) by (simp add: vm_inv_def del: One_nat_def)
qed

lemma one_page_user: "user_ok one_page_space 0x87ffe000" "user_pages one_page_space 0x87ffe000 = {0x87ffa000}"
proof -
  have p: "PTE2PA (PA2PTE 0x87ffa000 OR PTE_V OR PTE_R OR PTE_W OR PTE_U) = 0x87ffa000" by (simp add: PA2PTE_def PTE2PA_def pte_bits)
  have "p = 0x87ffa000" if up: "p \<in> user_pages one_page_space 0x87ffe000" for p
  proof -
    obtain va where va: "pte_valid (pte one_page_space 0x87ffe000 va)" "p = PTE2PA (pte one_page_space 0x87ffe000 va)"
      using up unfolding user_pages_def by blast
    then have "pte one_page_space 0x87ffe000 va \<noteq> 0" by (auto simp: pte_valid_def)
    then have "pte one_page_space 0x87ffe000 va = PA2PTE 0x87ffa000 OR PTE_V OR PTE_R OR PTE_W OR PTE_U"
      using one_page_pte(2) [of va] by blast
    then show ?thesis unfolding va(2) by (simp only: p)
  qed
  moreover have "0x87ffa000 \<in> user_pages one_page_space 0x87ffe000"
    unfolding user_pages_def using p one_page_pte(1) by (auto simp: pte_valid_def pte_bits PA2PTE_def intro!: exI [of _ 0])
  ultimately show u: "user_pages one_page_space 0x87ffe000 = {0x87ffa000}" by blast
  show "user_ok one_page_space 0x87ffe000" using one_page_vm one_page_tabs one_page_free u by (simp add: user_ok_def)
qed

lemma one_page_child:
  "as_inv one_page_space 0x87ffd000 0" "pte one_page_space 0x87ffd000 va = 0" "tabs one_page_space 0x87ffd000 = {0x87ffd000}"
proof -
  have ok: "page_ok (k_end one_page_space) 0x87ffd000" by (simp add: one_page_fields page_ok_def page_aligned_def)
  have z: "ent (k_mem one_page_space) 0x87ffd000 i = 0" if "i < 512" for i
    using one_page_ent [OF that, of "0x87ffd000"] by (simp add: page_aligned_def)
  note Z = zero_table [OF ok z]
  have "kids (k_mem one_page_space) 0x87ffd000 = {}" using z by (auto simp: kids_def)
  then have "vm_inv one_page_space 0x87ffd000" using Z(1,2) one_page_free by (simp add: vm_inv_def)
  then show "as_inv one_page_space 0x87ffd000 0" by (simp add: as_inv_def leaves_def own_pages_def)
  show "pte one_page_space 0x87ffd000 va = 0" "tabs one_page_space 0x87ffd000 = {0x87ffd000}" using Z by (simp_all add: pte_def tabs_def)
qed

lemma one_page_as: "as_inv one_page_space 0x87ffe000 1" "apart_spaces one_page_space 0x87ffe000 1 0x87ffd000"
  "upages one_page_space 0x87ffe000 0 1 = {0x87ffa000}"
proof -
  have p: "PTE2PA (PA2PTE 0x87ffa000 OR PTE_V OR PTE_R OR PTE_W OR PTE_U) = 0x87ffa000" by (simp add: PA2PTE_def PTE2PA_def pte_bits)
  have n: "nth_page one_page_space 0x87ffe000 0 0 = 0x87ffa000" by (simp add: nth_page_def one_page_pte(1) p)
  have "leaves one_page_space 0x87ffe000 0 1"
    by (simp add: leaves_def one_page_pte(1) Let_def pte_valid_def PTE_FLAGS_def PA2PTE_def pte_bits)
  moreover have "own_pages one_page_space 0x87ffe000 0 1"
    using n by (simp add: own_pages_def lessThan_Suc one_page_tabs one_page_free one_page_fields page_ok_def page_aligned_def)
  ultimately show "as_inv one_page_space 0x87ffe000 1" using one_page_vm by (simp add: as_inv_def)
  show u: "upages one_page_space 0x87ffe000 0 1 = {0x87ffa000}" using n by (auto simp: upages_def)
  show "apart_spaces one_page_space 0x87ffe000 1 0x87ffd000"
    unfolding apart_spaces_def u one_page_tabs one_page_child(3) by (simp add: one_page_free)
qed

lemma one_page_bytes:
  "k_mem one_page_space 0x87ffa000 = 104" "k_mem one_page_space 0x87ffa001 = 105" "k_mem one_page_space 0x87ffa002 = 10"
  by (simp_all add: one_page_space_def Let_def store64_def)

text \<open>
  C11: for an unmapped, page-aligned range below \<open>MAXVA\<close>, \<open>mappages\<close> never panics. On success exactly
  the addresses of the range are translated to consecutive physical pages with the given
  permissions, and on failure (the free list is empty) a proper prefix of them; every other
  translation, and every page of memory other than page tables taken from the free list, is
  unchanged.
\<close>

theorem mappages_correct:
  assumes "vm_inv s pt" and "page_aligned va" and "page_aligned sz" and "sz \<noteq> 0"
    and "unat va + unat sz \<le> unat MAXVA"
    and "\<forall>x. unat va \<le> unat x \<and> unat x < unat va + unat sz \<longrightarrow> xlate s pt x = None"
  shows "(\<exists>s'. mappages s pt va sz pa perm = Ok (0, s') \<and>
      vm_step s s' pt (map_upd (pte s pt) va (unat sz div 4096) pa perm)) \<or>
    (\<exists>s' k. mappages s pt va sz pa perm = Ok (-1, s') \<and> free_pages s' = {} \<and>
      k < unat sz div 4096 \<and> vm_step s s' pt (map_upd (pte s pt) va k pa perm))"
proof -
  have "unat va + unat sz \<le> 2 ^ 38" using assms(5) by simp
  moreover have "\<forall>x. unat va \<le> unat x \<and> unat x < unat va + unat sz \<longrightarrow> \<not> pte_valid (pte s pt x)"
    using assms(6) by simp
  ultimately show ?thesis by (rule mappages_spec [OF assms(1-4)]) blast+
qed

theorem mappages_correct_witness:
  "(\<exists>s'. mappages empty_space 0x87ffe000 0x3000 PGSIZE 0x80000000 2 = Ok (0, s') \<and>
      vm_step empty_space s' 0x87ffe000
        (map_upd (pte empty_space 0x87ffe000) 0x3000 (unat (4096 :: u64) div 4096) 0x80000000 2)) \<or>
    (\<exists>s' k. mappages empty_space 0x87ffe000 0x3000 PGSIZE 0x80000000 2 = Ok (-1, s') \<and> free_pages s' = {} \<and>
      k < unat (4096 :: u64) div 4096 \<and>
      vm_step empty_space s' 0x87ffe000 (map_upd (pte empty_space 0x87ffe000) 0x3000 k 0x80000000 2))"
  using mappages_correct [of empty_space "0x87ffe000" "0x3000" 4096 "0x80000000" 2]
    as_invD(1) [OF empty_space_table(1), of "0x87ffe000"] empty_space_table(2) [of "0x87ffe000"]
  by (simp add: page_aligned_def)

text \<open>
  C10: growing a user address space. \<open>uvmalloc\<close> either maps exactly the pages up to the new size, all
  zero and private to the address space, or returns 0 with the old pages still mapped and the
  new ones not; \<open>grew\<close> accounts for every page that left the free list, and says that the other
  translations and the old contents are unchanged.
\<close>

theorem uvmalloc_correct:
  assumes "as_inv s pt (npg oldsz)" and "oldsz \<le> newsz" and "4096 * npg newsz \<le> unat MAXVA"
    and "perm = ucast (PTE_R OR PTE_U) OR xperm" and "perm < 1024"
    and "\<forall>va. 4096 * npg oldsz \<le> unat va \<and> unat va < 4096 * npg newsz \<longrightarrow> xlate s pt va = None"
  shows "\<exists>r s'. uvmalloc s pt oldsz newsz xperm = Ok (r, s') \<and>
    (r = newsz \<and> grew s s' pt (npg oldsz) (npg newsz) \<and>
       (\<forall>i. npg oldsz \<le> i \<and> i < npg newsz \<longrightarrow> zero_page s' pt perm i) \<or>
     r = 0 \<and> grew s s' pt (npg oldsz) (npg oldsz))"
  by (rule uvmalloc_spec [OF assms(1,2) _ assms(4,5)]) (use assms(3,6) in auto)

theorem uvmalloc_correct_witness:
  "\<exists>r s'. uvmalloc empty_space 0x87ffe000 0 5000 4 = Ok (r, s') \<and>
    (r = 5000 \<and> grew empty_space s' 0x87ffe000 0 2 \<or> r = 0 \<and> grew empty_space s' 0x87ffe000 0 0)"
proof -
  have n: "npg 0 = 0" "npg 5000 = 2" by (simp_all add: npg_def)
  have perm: "ucast (PTE_R OR PTE_U) OR 4 = (22 :: u32)" by (simp add: pte_bits)
  have "as_inv empty_space 0x87ffe000 (npg 0)" using empty_space_table(1) by (simp add: n)
  then have "\<exists>r s'. uvmalloc empty_space 0x87ffe000 0 5000 4 = Ok (r, s') \<and>
    (r = 5000 \<and> grew empty_space s' 0x87ffe000 (npg 0) (npg 5000) \<and>
       (\<forall>i. npg 0 \<le> i \<and> i < npg 5000 \<longrightarrow> zero_page s' 0x87ffe000 22 i) \<or>
     r = 0 \<and> grew empty_space s' 0x87ffe000 (npg 0) (npg 0))"
    by (rule uvmalloc_correct) (use empty_space_table(2) in \<open>simp_all add: n perm\<close>)
  then obtain r s' where rs: "uvmalloc empty_space 0x87ffe000 0 5000 4 = Ok (r, s')"
    "r = 5000 \<and> grew empty_space s' 0x87ffe000 0 2 \<or> r = 0 \<and> grew empty_space s' 0x87ffe000 0 0"
    unfolding n by (elim exE conjE disjE) simp_all
  then show ?thesis by (intro exI [of _ r] exI [of _ s'] conjI)
qed

text \<open>
  C27: no page leaks. Creating an address space, growing it to any size and destroying it again gives
  back exactly the pages that were free, whether or not memory ran out on the way; and none of
  the three calls panics.
\<close>

theorem create_grow_free_no_leak:
  assumes "kinv s" and "uvmcreate s = (pt, s1)" and "pt \<noteq> 0" and "4096 * npg sz \<le> unat MAXVA"
    and "ucast (PTE_R OR PTE_U) OR xperm < (1024 :: u32)"
  shows "\<exists>r s2 s3. uvmalloc s1 pt 0 sz xperm = Ok (r, s2) \<and> (r = sz \<or> r = 0) \<and>
    uvmfree s2 pt r = Ok s3 \<and> kinv s3 \<and> free_pages s3 = free_pages s"
  by (rule address_space_round_trip [OF assms(1-3) _ assms(5)]) (use assms(4) in simp)

theorem create_grow_free_no_leak_witness:
  "\<exists>r s2 s3. uvmalloc (snd (uvmcreate empty_space)) 0x87fff000 0 20000 4 = Ok (r, s2) \<and>
    (r = 20000 \<or> r = 0) \<and> uvmfree s2 0x87fff000 r = Ok s3 \<and> kinv s3 \<and> free_pages s3 = {0x87fff000}"
proof -
  have "fst (uvmcreate empty_space) = 0x87fff000" by (simp add: uvmcreate_def kalloc_def empty_space_def)
  then have c: "uvmcreate empty_space = (0x87fff000, snd (uvmcreate empty_space))" by (metis prod.collapse)
  have n: "4096 * npg 20000 \<le> unat MAXVA" by (simp add: npg_def)
  have p: "ucast (PTE_R OR PTE_U) OR 4 < (1024 :: u32)" by (simp add: pte_bits)
  show ?thesis
    using create_grow_free_no_leak [OF empty_space_kinv(1) c _ n p] unfolding empty_space_kinv(2) by simp
qed

text \<open>
  C9: \<open>uvmcopy\<close> gives the child pages of its own (\<open>grew\<close>: they come from the free list) with the
  permissions and the bytes of the parent's pages, or returns -1 with nothing mapped for the
  child. In both cases the parent's address space and its contents are unchanged.
\<close>

theorem uvmcopy_correct:
  assumes "as_inv s old (npg sz)" and "apart_spaces s old (npg sz) new" and "as_inv s new 0"
    and "\<forall>va. unat va < 4096 * npg sz \<longrightarrow> xlate s new va = None"
  shows "\<exists>r s'. uvmcopy s old new sz = Ok (r, s') \<and>
    (r = 0 \<and> grew s s' new 0 (npg sz) \<and> (\<forall>i<npg sz. copied s old s' new i) \<or> r = -1 \<and> grew s s' new 0 0) \<and>
    as_inv s' old (npg sz) \<and> pte s' old = pte s old \<and>
    (\<forall>x. PGROUNDDOWN x \<in> upages s old 0 (npg sz) \<longrightarrow> k_mem s' x = k_mem s x)"
proof -
  obtain r s' where rs: "uvmcopy s old new sz = Ok (r, s')"
    "r = 0 \<and> grew s s' new 0 (npg sz) \<and> (\<forall>i<npg sz. copied s old s' new i) \<or> r = -1 \<and> grew s s' new 0 0"
    using uvmcopy_spec [OF assms(1-3)] assms(4) by blast
  then obtain k where g: "grew s s' new 0 k" by blast
  note O = grew_other [OF assms(1,2) g]
  have "k_mem s' x = k_mem s x" if "PGROUNDDOWN x \<in> upages s old 0 (npg sz)" for x
    using that O(6) by (auto simp: upages_def)
  moreover have "pte s' old = pte s old" using O(3) by (rule ext)
  ultimately show ?thesis using rs O(1) by (intro exI [of _ r] exI [of _ s'] conjI) simp_all
qed

theorem uvmcopy_correct_witness:
  "\<exists>r s'. uvmcopy one_page_space 0x87ffe000 0x87ffd000 4096 = Ok (r, s') \<and>
    (r = 0 \<and> grew one_page_space s' 0x87ffd000 0 1 \<and> copied one_page_space 0x87ffe000 s' 0x87ffd000 0 \<or>
     r = -1 \<and> grew one_page_space s' 0x87ffd000 0 0) \<and>
    k_mem s' 0x87ffa000 = 104"
proof -
  have n: "npg 4096 = 1" by (simp add: npg_def)
  have "xlate one_page_space 0x87ffd000 va = None" for va using one_page_child(2) by simp
  from uvmcopy_correct [of one_page_space "0x87ffe000" 4096 "0x87ffd000", unfolded n, OF one_page_as(1) one_page_as(2) one_page_child(1)] this
  obtain r s' where R: "uvmcopy one_page_space 0x87ffe000 0x87ffd000 4096 = Ok (r, s')"
    "r = 0 \<and> grew one_page_space s' 0x87ffd000 0 1 \<and> (\<forall>i<1. copied one_page_space 0x87ffe000 s' 0x87ffd000 i) \<or>
     r = -1 \<and> grew one_page_space s' 0x87ffd000 0 0"
    "\<forall>x. PGROUNDDOWN x \<in> upages one_page_space 0x87ffe000 0 1 \<longrightarrow> k_mem s' x = k_mem one_page_space x" by blast
  have "k_mem s' 0x87ffa000 = 104" using R(3) one_page_as(3) one_page_bytes(1) by (simp add: PGROUNDDOWN_def)
  then show ?thesis using R(1,2) by (intro exI [of _ r] exI [of _ s']) auto
qed

text \<open>
  C5: for every user address and length, \<open>copyout\<close> returns 0 or -1 without panicking, and changes no
  byte of memory outside the pages that the page table maps as user-writable; translations and the
  free list stay.
\<close>

theorem copyout_isolated:
  assumes "user_ok s pt"
  shows "\<exists>r s'. copyout s pt dstva src len = Ok (r, s') \<and> (r = 0 \<or> r = -1) \<and>
    agree (- user_writable s pt) (k_mem s) (k_mem s') \<and> user_ok s' pt \<and> pte s' pt = pte s pt \<and>
    free_pages s' = free_pages s"
  by (rule copyout_safe [OF assms])

theorem copyout_isolated_witness:
  "\<exists>r s'. copyout empty_space 0x87ffe000 0xfffffffffffffff0 0x80000000 100 = Ok (r, s') \<and> (r = 0 \<or> r = -1) \<and>
    agree (- user_writable empty_space 0x87ffe000) (k_mem empty_space) (k_mem s')"
  using copyout_isolated [OF empty_space_table(4) [of "0x87ffe000"], of "0xfffffffffffffff0" "0x80000000" 100]
  by auto

text \<open>
  C28: for every user address, \<open>copyinstr\<close> returns 0 or -1 without panicking, writes only the kernel
  buffer it was given, and when it returns 0 the buffer holds a NUL within its \<open>max\<close> bytes.
\<close>

theorem copyinstr_bounded:
  assumes "user_ok s pt" and "kernel_buf s pt dst (unat mx)"
  shows "\<exists>r s'. copyinstr s pt dst srcva mx = Ok (r, s') \<and> (r = 0 \<or> r = -1) \<and>
    (\<forall>x. \<not> in_region x dst (unat mx) \<longrightarrow> k_mem s' x = k_mem s x) \<and>
    (r = 0 \<longrightarrow> (\<exists>i<unat mx. k_mem s' (dst + of_nat i) = 0))"
  using copyinstr_safe [OF assms, of srcva] by blast

theorem copyinstr_bounded_witness:
  "\<exists>r s'. copyinstr empty_space 0x87ffe000 0x80000000 0x1234 16 = Ok (r, s') \<and> (r = 0 \<or> r = -1) \<and>
    k_mem s' 0x80000010 = 0"
proof -
  have "PGROUNDDOWN x \<noteq> 0x87ffe000 \<and> PGROUNDDOWN x \<noteq> 0x87fff000" if "in_region x 0x80000000 16" for x
  proof -
    have "unat x < 0x80000010" using that by (subst (asm) in_region_unat) simp_all
    then have "unat (PGROUNDDOWN x) < 0x80000010" using PGROUNDDOWN_le [of x] by (simp add: word_le_nat_alt)
    then show ?thesis by auto
  qed
  then have "kernel_buf empty_space 0x87ffe000 0x80000000 (unat (16 :: u64))"
    by (simp add: kernel_buf_def empty_space_table(3) empty_space_kinv(2))
  from copyinstr_bounded [OF empty_space_table(4) this, of "0x1234"]
  obtain r s' where "copyinstr empty_space 0x87ffe000 0x80000000 0x1234 16 = Ok (r, s')" "r = 0 \<or> r = -1"
    "\<not> in_region 0x80000010 0x80000000 (unat (16 :: u64)) \<longrightarrow> k_mem s' 0x80000010 = k_mem empty_space 0x80000010"
    by blast
  then show ?thesis by (simp add: in_region_def empty_space_def)
qed

end
