(* ===== verification/Xv6_Queue.thy ===== *)
theory Xv6_Queue
  imports Xv6_Prelude
begin

text \<open>
  The contract of the kernel's bounded byte queues. Pipes, the console input and the serial
  transmit buffer are arrays with two counters that only grow; the slot of a counter is its
  value modulo the size. \<open>contents\<close> is what has been put in and not yet taken out.
\<close>

locale bounded_queue =
  fixes inv :: "'q \<Rightarrow> bool"
    and contents :: "'q \<Rightarrow> 'a list"
    and cap :: nat
    and put :: "'q \<Rightarrow> 'a \<Rightarrow> 'q"
    and get :: "'q \<Rightarrow> 'a \<times> 'q"
  assumes put_law: "inv q \<Longrightarrow> length (contents q) < cap \<Longrightarrow> inv (put q x) \<and> contents (put q x) = contents q @ [x]"
    and get_law: "inv q \<Longrightarrow> contents q = x # xs \<Longrightarrow> fst (get q) = x \<and> inv (snd (get q)) \<and> contents (snd (get q)) = xs"
    and cap_law: "inv q \<Longrightarrow> length (contents q) \<le> cap"
begin

primrec get_n :: "nat \<Rightarrow> 'q \<Rightarrow> 'a list \<times> 'q" where
  "get_n 0 q = ([], q)"
| "get_n (Suc n) q = (let (x, q1) = get q; (xs, q2) = get_n n q1 in (x # xs, q2))"

lemma put_all:
  assumes "inv q" and "length (contents q) + length xs \<le> cap"
  shows "inv (foldl put q xs) \<and> contents (foldl put q xs) = contents q @ xs"
  using assms
proof (induction xs arbitrary: q)
  case (Cons x xs)
  then show ?case using put_law [of q x] by simp
qed simp

lemma get_some:
  assumes "inv q" and "n \<le> length (contents q)"
  shows "fst (get_n n q) = take n (contents q) \<and> inv (snd (get_n n q)) \<and>
    contents (snd (get_n n q)) = drop n (contents q)"
  using assms
proof (induction n arbitrary: q)
  case (Suc n)
  then obtain x xs where x: "contents q = x # xs" by (cases "contents q") auto
  obtain y q1 where g: "get q = (y, q1)" by fastforce
  have "y = x" "inv q1" "contents q1 = xs" using get_law [OF Suc.prems(1) x] g by auto
  then show ?case using Suc.IH [of q1] Suc.prems(2) x g by (simp add: case_prod_beta)
qed simp

text \<open>What goes in comes out, in order, after what was there before.\<close>

lemma first_in_first_out:
  assumes "inv q" and "length (contents q) + length xs \<le> cap"
  shows "fst (get_n (length (contents q) + length xs) (foldl put q xs)) = contents q @ xs"
  using put_all [OF assms] get_some [of "foldl put q xs" "length (contents q) + length xs"] by simp

end

section \<open>Ring arithmetic\<close>

text \<open>
  The elements between counters \<open>r\<close> and \<open>w\<close> of a ring of \<open>n\<close> slots. The counters are 32-bit (or
  wider) and wrap; the sizes divide \<open>2 ^ 32\<close>, so the slot sequence survives the wrap.
\<close>

definition ring :: "'a list \<Rightarrow> nat \<Rightarrow> 'w::len word \<Rightarrow> 'w word \<Rightarrow> 'a list" where
  "ring d n r w = map (\<lambda>i. d ! (unat (r + of_nat i) mod n)) [0..<unat (w - r)]"

lemma length_ring [simp]: "length (ring d n r w) = unat (w - r)"
  by (simp add: ring_def)

lemma unat_add_mod:
  assumes "n dvd 2 ^ LENGTH('w)"
  shows "unat (r + of_nat i :: 'w::len word) mod n = (unat r + i) mod n"
proof -
  have "unat (r + of_nat i) = (unat r + i) mod 2 ^ LENGTH('w)"
    by (simp add: unat_word_ariths unat_of_nat mod_simps take_bit_eq_mod)
  then show ?thesis using assms by (simp add: mod_mod_cancel)
qed

lemma unat_diff_Suc:
  assumes "unat (w - r :: 'w::len word) < 2 ^ LENGTH('w) - 1"
  shows "unat (w + 1 - r) = Suc (unat (w - r))"
proof -
  have "w + 1 - r = (w - r) + of_nat 1" by simp
  moreover have "unat ((w - r) + of_nat 1) = unat (w - r) + 1" using assms by (intro unat_add_of_nat) simp
  ultimately show ?thesis by (simp add: algebra_simps)
qed

lemma ring_put:
  assumes dv: "n dvd 2 ^ LENGTH('w)" and len: "length d = n" and full: "unat (w - r) < n"
    and n: "n < 2 ^ LENGTH('w)"
  shows "ring (d[unat w mod n := x]) n r (w + 1) = ring d n r w @ [x]" (is "?l = ?r")
    and "unat (w + 1 - (r :: 'w::len word)) = Suc (unat (w - r))"
proof -
  show s: "unat (w + 1 - r) = Suc (unat (w - r))" by (rule unat_diff_Suc) (use full n in simp)
  have n0: "0 < n" using full by simp
  have wi: "unat w mod n = (unat r + unat (w - r)) mod n"
    using unat_add_mod [OF dv, of r "unat (w - r)"] by simp
  show "?l = ?r"
  proof (rule nth_equalityI)
    show "length ?l = length ?r" using s by simp
    fix i assume "i < length ?l"
    then have i: "i \<le> unat (w - r)" using s by simp
    have idx: "unat (r + of_nat i) mod n = (unat r + i) mod n" by (rule unat_add_mod [OF dv])
    show "?l ! i = ?r ! i"
    proof (cases "i = unat (w - r)")
      case True
      then show ?thesis using s len n0 idx wi by (simp add: ring_def nth_append)
    next
      case False
      then have lt: "i < unat (w - r)" using i by simp
      have "(unat r + i) mod n \<noteq> (unat r + unat (w - r)) mod n"
      proof
        assume "(unat r + i) mod n = (unat r + unat (w - r)) mod n"
        then have "n dvd (unat r + unat (w - r)) - (unat r + i)"
          using lt mod_eq_dvd_iff_nat [of "unat r + i" "unat r + unat (w - r)" n] by simp
        then have "n dvd unat (w - r) - i" by simp
        then have "n \<le> unat (w - r) - i" using lt by (intro dvd_imp_le) simp_all
        then show False using lt full by simp
      qed
      then show ?thesis using lt s idx wi by (simp add: ring_def nth_append)
    qed
  qed
qed

lemma ring_get:
  assumes "unat (w - r :: 'w::len word) > 0"
  shows "ring d n r w = d ! (unat r mod n) # ring d n (r + 1) w"
    and "unat (w - (r + 1)) = unat (w - r) - 1"
proof -
  have nz: "w - r \<noteq> 0" using assms by (simp add: unat_gt_0)
  have "w - (r + 1) = (w - r) - 1" by simp
  then show u: "unat (w - (r + 1)) = unat (w - r) - 1" using unat_minus_one [OF nz] by (simp add: diff_diff_eq)
  obtain k where k: "unat (w - r) = Suc k" using assms gr0_implies_Suc by blast
  have "[0..<Suc k] = 0 # map Suc [0..<k]" by (simp add: upt_conv_Cons map_Suc_upt del: upt_Suc)
  then have "ring d n r w = d ! (unat r mod n) # map (\<lambda>i. d ! (unat (r + of_nat (Suc i)) mod n)) [0..<k]"
    by (simp add: ring_def k comp_def del: upt_Suc)
  moreover have "ring d n (r + 1) w = map (\<lambda>i. d ! (unat (r + 1 + of_nat i) mod n)) [0..<k]"
    using u k by (simp add: ring_def)
  ultimately show "ring d n r w = d ! (unat r mod n) # ring d n (r + 1) w" by (simp add: add.assoc)
qed

end
