(* ===== verification/Xv6_Pipe.thy ===== *)
theory Xv6_Pipe
  imports Xv6_CopyUser Xv6_Queue
begin

text \<open>
  Pipes: \<^verbatim>\<open>kernel/pipe.c\<close>. A pipe is a ring of \<open>PIPESIZE\<close> bytes between a reader and a writer.
  \<open>pipewrite\<close> and \<open>piperead\<close> move bytes between the ring and user memory through \<open>copyin\<close> and
  \<open>copyout\<close>; the byte passes through the local variable \<open>ch\<close>, whose address on the kernel stack is
  an argument. A call runs until it returns or has to sleep; after a wake-up it goes on with the
  count it had reached. The wake-ups it issues are part of the result. \<open>pipealloc\<close> and
  \<open>pipeclose\<close> are in the theory of the file table.
\<close>

definition PIPESIZE :: nat where [simp]: "PIPESIZE = 512"

record pipe =
  p_data :: "u8 list"
  nread :: u32
  nwrite :: u32
  readopen :: bool
  writeopen :: bool

text \<open>Channels that a pipe's sleepers wait on.\<close>

datatype pchan = ChRead | ChWrite

datatype 'a outcome = Return 'a | Sleep pchan 'a

section \<open>The ring\<close>

text \<open>The two statements \<^verbatim>\<open>pi->data[pi->nwrite++ % PIPESIZE] = ch\<close> and \<^verbatim>\<open>ch = pi->data[pi->nread++ % PIPESIZE]\<close>.\<close>

definition pipe_put :: "pipe \<Rightarrow> u8 \<Rightarrow> pipe" where
  "pipe_put pi ch = pi\<lparr>p_data := (p_data pi)[unat (nwrite pi) mod PIPESIZE := ch], nwrite := nwrite pi + 1\<rparr>"

definition pipe_get :: "pipe \<Rightarrow> u8 \<times> pipe" where
  "pipe_get pi = (p_data pi ! (unat (nread pi) mod PIPESIZE), pi\<lparr>nread := nread pi + 1\<rparr>)"

definition pipe_init :: pipe where
  "pipe_init = \<lparr>p_data = replicate PIPESIZE 0, nread = 0, nwrite = 0, readopen = True, writeopen = True\<rparr>"

definition pipe_inv :: "pipe \<Rightarrow> bool" where
  "pipe_inv pi \<longleftrightarrow> length (p_data pi) = PIPESIZE \<and> unat (nwrite pi - nread pi) \<le> PIPESIZE"

definition pipe_contents :: "pipe \<Rightarrow> u8 list" where
  "pipe_contents pi = ring (p_data pi) PIPESIZE (nread pi) (nwrite pi)"

lemma pipe_put_law:
  assumes "pipe_inv pi" and "length (pipe_contents pi) < PIPESIZE"
  shows "pipe_inv (pipe_put pi x) \<and> pipe_contents (pipe_put pi x) = pipe_contents pi @ [x]"
proof -
  have dv: "(512 :: nat) dvd 2 ^ LENGTH(32)" by simp
  have "length (p_data pi) = 512" "unat (nwrite pi - nread pi) < 512"
    using assms by (simp_all add: pipe_inv_def pipe_contents_def)
  then show ?thesis using ring_put(1) [OF dv, of "p_data pi" "nwrite pi" "nread pi" x]
      ring_put(2) [OF dv, of "p_data pi" "nwrite pi" "nread pi"]
    by (simp add: pipe_inv_def pipe_contents_def pipe_put_def)
qed

lemma pipe_get_law:
  assumes "pipe_inv pi" and "pipe_contents pi = x # xs"
  shows "fst (pipe_get pi) = x \<and> pipe_inv (snd (pipe_get pi)) \<and> pipe_contents (snd (pipe_get pi)) = xs"
proof -
  have "0 < unat (nwrite pi - nread pi)" using arg_cong [OF assms(2), of length] by (simp add: pipe_contents_def)
  then show ?thesis using ring_get(1) [of "nwrite pi" "nread pi" "p_data pi" 512]
      ring_get(2) [of "nwrite pi" "nread pi"] assms by (auto simp: pipe_inv_def pipe_contents_def pipe_get_def)
qed

interpretation pq: bounded_queue pipe_inv pipe_contents PIPESIZE pipe_put pipe_get
proof unfold_locales
  fix q x xs
  show "pipe_inv q \<Longrightarrow> length (pipe_contents q) < PIPESIZE \<Longrightarrow>
      pipe_inv (pipe_put q x) \<and> pipe_contents (pipe_put q x) = pipe_contents q @ [x]" by (rule pipe_put_law)
  show "pipe_inv q \<Longrightarrow> pipe_contents q = x # xs \<Longrightarrow>
      fst (pipe_get q) = x \<and> pipe_inv (snd (pipe_get q)) \<and> pipe_contents (snd (pipe_get q)) = xs"
    by (rule pipe_get_law)
  show "pipe_inv q \<Longrightarrow> length (pipe_contents q) \<le> PIPESIZE" by (simp add: pipe_inv_def pipe_contents_def)
qed

lemma pipe_empty_iff: "nread pi = nwrite pi \<longleftrightarrow> pipe_contents pi = []"
  using length_ring [of "p_data pi" PIPESIZE "nread pi" "nwrite pi"]
  by (auto simp: pipe_contents_def ring_def unat_eq_0)

lemma pipe_full_iff: "nwrite pi = nread pi + of_nat PIPESIZE \<longleftrightarrow> length (pipe_contents pi) = PIPESIZE"
  using eq_add_of_nat_iff [of PIPESIZE "nwrite pi" "nread pi"] by (simp add: pipe_contents_def)

section \<open>pipewrite and piperead\<close>

function pipewrite_loop ::
  "u64 \<Rightarrow> u64 \<Rightarrow> bool \<Rightarrow> u64 \<Rightarrow> int \<Rightarrow> int \<Rightarrow> pipe \<Rightarrow> kmem \<Rightarrow> (int outcome \<times> pchan list \<times> pipe \<times> kmem) res" where
  "pipewrite_loop pagetable ch killed addr n i pi s =
     (if i < n then
        if \<not> readopen pi \<or> killed then Ok (Return (-1), [], pi, s)
        else if nwrite pi = nread pi + of_nat PIPESIZE then Ok (Sleep ChWrite i, [ChRead], pi, s)
        else rbind (copyin s pagetable ch (addr + of_int i) 1) (\<lambda>(r, s1).
          if r = -1 then Ok (Return i, [ChRead], pi, s1)
          else pipewrite_loop pagetable ch killed addr n (i + 1) (pipe_put pi (k_mem s1 ch)) s1)
      else Ok (Return i, [ChRead], pi, s))"
  by pat_completeness auto
termination
  by (relation "measure (\<lambda>(pt, ch, killed, addr, n, i, pi, s). nat (n - i))") auto

declare pipewrite_loop.simps [simp del]

text \<open>\<open>i\<close> is 0 at the call and the count already written after a wake-up.\<close>

definition pipewrite ::
  "u64 \<Rightarrow> u64 \<Rightarrow> bool \<Rightarrow> u64 \<Rightarrow> int \<Rightarrow> int \<Rightarrow> pipe \<Rightarrow> kmem \<Rightarrow> (int outcome \<times> pchan list \<times> pipe \<times> kmem) res" where
  "pipewrite pagetable ch killed addr n i pi s = pipewrite_loop pagetable ch killed addr n i pi s"

function piperead_loop :: "u64 \<Rightarrow> u64 \<Rightarrow> u64 \<Rightarrow> int \<Rightarrow> int \<Rightarrow> pipe \<Rightarrow> kmem \<Rightarrow> (int \<times> pipe \<times> kmem) res" where
  "piperead_loop pagetable cha addr n i pi s =
     (if i < n \<and> nread pi \<noteq> nwrite pi then
        case pipe_get pi of (ch, pi1) \<Rightarrow>
          rbind (copyout (s\<lparr>k_mem := (k_mem s)(cha := ch)\<rparr>) pagetable (addr + of_int i) cha 1) (\<lambda>(r, s1).
            if r = -1 then Ok (i, pi1, s1)
            else piperead_loop pagetable cha addr n (i + 1) pi1 s1)
      else Ok (i, pi, s))"
  by pat_completeness auto
termination
  by (relation "measure (\<lambda>(pt, ch, addr, n, i, pi, s). nat (n - i))") auto

declare piperead_loop.simps [simp del]

definition piperead ::
  "u64 \<Rightarrow> u64 \<Rightarrow> bool \<Rightarrow> u64 \<Rightarrow> int \<Rightarrow> pipe \<Rightarrow> kmem \<Rightarrow> (int outcome \<times> pchan list \<times> pipe \<times> kmem) res" where
  "piperead pagetable cha killed addr n pi s =
     (if nread pi = nwrite pi \<and> writeopen pi then
        if killed then Ok (Return (-1), [], pi, s) else Ok (Sleep ChRead 0, [], pi, s)
      else rbind (piperead_loop pagetable cha addr n 0 pi s) (\<lambda>(i, pi1, s1).
        Ok (Return i, [ChWrite], pi1, s1)))"

section \<open>Correctness\<close>

text \<open>
  The physical address of the user address \<open>va\<close> and the byte there; the page that user code may read at \<open>va\<close>, and the page it may write, 0 for none.
\<close>

definition upa :: "kmem \<Rightarrow> u64 \<Rightarrow> u64 \<Rightarrow> u64" where
  "upa s pt va = PTE2PA (pte s pt (PGROUNDDOWN va)) + (va - PGROUNDDOWN va)"

definition ubyte :: "kmem \<Rightarrow> u64 \<Rightarrow> u64 \<Rightarrow> u8" where
  "ubyte s pt va = k_mem s (upa s pt va)"

definition upage :: "kmem \<Rightarrow> u64 \<Rightarrow> u64 \<Rightarrow> u64" where
  "upage s pt va =
     (let e = pte s pt (PGROUNDDOWN va) in
      if unat (PGROUNDDOWN va) < 2 ^ 38 \<and> pte_valid e \<and> e AND PTE_U \<noteq> 0 then PTE2PA e else 0)"

definition wpage :: "kmem \<Rightarrow> u64 \<Rightarrow> u64 \<Rightarrow> u64" where
  "wpage s pt va = (if pte s pt (PGROUNDDOWN va) AND PTE_W = 0 then 0 else upage s pt va)"

lemma same_pte:
  assumes "pte s pt = pte s' pt"
  shows "upa s pt = upa s' pt" "upage s pt = upage s' pt" "wpage s pt = wpage s' pt"
    "user_pages s pt = user_pages s' pt" "user_writable s pt = user_writable s' pt"
  using assms by (auto simp: upa_def upage_def wpage_def user_pages_def user_writable_def fun_eq_iff)

lemma upageD:
  assumes "upage s pt va \<noteq> 0"
  shows "upage s pt va = PTE2PA (pte s pt (PGROUNDDOWN va))" "upage s pt va \<in> user_pages s pt"
  using assms unfolding user_pages_def by (auto simp: upage_def Let_def split: if_splits)

lemma wpageD:
  assumes "wpage s pt va \<noteq> 0"
  shows "wpage s pt va = upage s pt va" "upage s pt va \<noteq> 0" "wpage s pt va \<in> user_writable s pt"
  using assms unfolding user_writable_def by (auto simp: wpage_def upage_def Let_def split: if_splits)

lemma walkaddr_upage:
  assumes "vm_inv s pt"
  shows "walkaddr s pt (PGROUNDDOWN va) = Ok (upage s pt va)"
proof (cases "PGROUNDDOWN va \<ge> MAXVA")
  case True
  then show ?thesis by (simp add: walkaddr_def upage_def Let_def word_le_nat_alt)
next
  case False
  then have lt: "unat (PGROUNDDOWN va) < 2 ^ 38" by (simp add: word_le_nat_alt)
  show ?thesis
  proof (cases "pte_valid (pte s pt (PGROUNDDOWN va)) \<and> pte s pt (PGROUNDDOWN va) AND PTE_U \<noteq> 0")
    case True
    obtain q where "walk s pt (PGROUNDDOWN va) False = Ok (slot q (ix 0 (PGROUNDDOWN va)), s)"
      "slot q (ix 0 (PGROUNDDOWN va)) \<noteq> 0" "load64 (k_mem s) (slot q (ix 0 (PGROUNDDOWN va))) = pte s pt (PGROUNDDOWN va)"
      using walk_mapped [OF assms lt conjunct1 [OF True]] by metis
    then show ?thesis using True False lt by (simp add: walkaddr_def upage_def Let_def pte_valid_def)
  next
    case no: False
    then have "upage s pt va = 0" by (auto simp: upage_def Let_def)
    moreover have "walkaddr s pt (PGROUNDDOWN va) = Ok 0" by (rule walkaddr_cases [OF assms, of "PGROUNDDOWN va"]) (use no in auto)
    ultimately show ?thesis by simp
  qed
qed

lemma upa_page: "PGROUNDDOWN (upa s pt va) = PTE2PA (pte s pt (PGROUNDDOWN va))" "unat (upa s pt va) mod 4096 = unat va mod 4096"
proof -
  have o: "va - PGROUNDDOWN va = of_nat (unat va mod 4096)"
    using arg_cong [OF PGROUNDDOWN_offset [of va], of "of_nat :: nat \<Rightarrow> u64"] by simp
  show P: "PGROUNDDOWN (upa s pt va) = PTE2PA (pte s pt (PGROUNDDOWN va))"
    unfolding upa_def o by (rule page_offset [OF PTE2PA_aligned]) simp
  have "unat (upa s pt va - PGROUNDDOWN (upa s pt va)) = unat va mod 4096"
    unfolding P by (simp add: upa_def PGROUNDDOWN_offset)
  then show "unat (upa s pt va) mod 4096 = unat va mod 4096" unfolding PGROUNDDOWN_offset .
qed

text \<open>Addresses less than a page apart have different places in memory, even if their pages are the same.\<close>

lemma unat_of_int_small: "0 \<le> d \<Longrightarrow> d < 2 ^ 64 \<Longrightarrow> unat (of_int d :: u64) = nat d"
  using unat_of_nat_small [of "nat d", where 'a = 64] by simp

lemma upa_differ:
  assumes "0 < d" "d < 4096"
  shows "upa s pt (va + of_int d) \<noteq> upa s pt va"
proof
  assume "upa s pt (va + of_int d) = upa s pt va"
  then have eq: "unat (va + of_int d) mod 4096 = unat va mod 4096" using upa_page(2) by metis
  have "unat (of_int d :: u64) = nat d" using assms by (intro unat_of_int_small) simp_all
  then have "unat (va + of_int d) = (unat va + nat d) mod 2 ^ 64" by (simp add: unat_word_ariths)
  then have "unat (va + of_int d) mod 4096 = (unat va + nat d) mod 4096" by (simp add: mod_mod_cancel)
  then have "(unat va + nat d) mod 4096 = unat va mod 4096" using eq by simp
  then show False using assms mod_eq_dvd_iff_nat [of "unat va" "unat va + nat d" 4096] by (auto dest: dvd_imp_le)
qed

lemma chunk_1 [simp]: "chunk va 1 = 1"
proof -
  have "unat (chunk va 1) = 1" using mod_less_divisor [of 4096 "unat va"] unfolding unat_chunk by simp
  then show ?thesis by (simp add: word_unat_eq_iff)
qed

lemma memmove_1: "memmove m d a 1 = m(d := m a)"
  by (auto simp: memmove_def copy_up_def copy_down_def)

lemma copyin_1:
  assumes "walkaddr s pt (PGROUNDDOWN va) = Ok pa"
  shows "copyin s pt ch va 1 =
    (if pa = 0 then Ok (-1, s) else Ok (0, s\<lparr>k_mem := (k_mem s)(ch := k_mem s (pa + (va - PGROUNDDOWN va)))\<rparr>))"
  using assms by (simp add: copyin.simps Let_def memmove_1)

lemma copyout_1:
  assumes v: "vm_inv s pt"
  shows "copyout s pt va src 1 =
    (if wpage s pt va = 0 then Ok (-1, s) else Ok (0, s\<lparr>k_mem := (k_mem s)(upa s pt va := k_mem s src)\<rparr>))"
proof (cases "PGROUNDDOWN va \<ge> MAXVA")
  case True
  then show ?thesis by (subst copyout.simps) (simp add: wpage_def upage_def Let_def word_le_nat_alt)
next
  case False
  then have lt: "unat (PGROUNDDOWN va) < 2 ^ 38" by (simp add: word_le_nat_alt)
  note wa = walkaddr_upage [OF v, of va]
  show ?thesis
    using v lt
  proof (cases rule: walk_page)
    case none
    then have "walkaddr s pt (PGROUNDDOWN va) = Ok 0" by (simp add: walkaddr_def)
    then have "wpage s pt va = 0" using wa by (simp add: wpage_def)
    then show ?thesis using none False by (subst copyout.simps) simp
  next
    case (entry a)
    show ?thesis
    proof (cases "wpage s pt va = 0")
      case True
      then show ?thesis using entry False wa by (subst copyout.simps) (auto simp: wpage_def Let_def)
    next
      case w: False
      then have "pte s pt (PGROUNDDOWN va) AND PTE_W \<noteq> 0" "upage s pt va \<noteq> 0" "upage s pt va = PTE2PA (pte s pt (PGROUNDDOWN va))"
        using wpageD [OF w] upageD(1) by (auto simp: wpage_def)
      then show ?thesis using w entry False wa
        by (subst copyout.simps) (simp add: Let_def memmove_1 upa_def copyout.simps)
    qed
  qed
qed

text \<open>The local \<open>ch\<close> lies outside the tables, the free pages and the user's pages.\<close>

definition local_ok :: "kmem \<Rightarrow> u64 \<Rightarrow> u64 \<Rightarrow> bool" where
  "local_ok s pt ch \<longleftrightarrow> user_ok s pt \<and> PGROUNDDOWN ch \<notin> tabs s pt \<union> free_pages s \<union> user_pages s pt"

lemma local_write:
  fixes b :: u8
  assumes "local_ok s pt ch"
  defines "t \<equiv> s\<lparr>k_mem := (k_mem s)(ch := b)\<rparr>"
  shows "local_ok t pt ch" "pte t pt = pte s pt" "user_pages t pt = user_pages s pt"
    "user_writable t pt = user_writable s pt" "free_pages t = free_pages s" "tabs t pt = tabs s pt"
    "upage s pt va \<noteq> 0 \<Longrightarrow> ubyte t pt va = ubyte s pt va"
proof -
  have u: "user_ok s pt" and c: "PGROUNDDOWN ch \<notin> tabs s pt \<union> free_pages s" "PGROUNDDOWN ch \<notin> user_pages s pt"
    using assms by (auto simp: local_ok_def)
  have "agree (tabs s pt \<union> free_pages s) (k_mem s) ((k_mem s)(ch := b))" using c(1) by (auto simp: agree_def)
  note F = user_ok_frame [OF u this, folded t_def]
  show "pte t pt = pte s pt" "user_pages t pt = user_pages s pt" "user_writable t pt = user_writable s pt"
    "free_pages t = free_pages s" "tabs t pt = tabs s pt" by (rule F)+
  then show "local_ok t pt ch" using assms(1) F(1) by (simp add: local_ok_def)
  assume "upage s pt va \<noteq> 0"
  then have "PGROUNDDOWN (upa s pt va) \<in> user_pages s pt" using upageD [of s pt va] upa_page(1) by metis
  then have "upa s pt va \<noteq> ch" using c(2) by auto
  then show "ubyte t pt va = ubyte s pt va" using F(2) same_pte(1) [of t pt s] by (simp add: ubyte_def t_def)
qed

text \<open>How a round of \<open>pipewrite\<close> from byte \<open>i\<close> may end after writing up to byte \<open>j\<close>: refused, asleep on a full pipe, or done, or stopped by an unreadable byte.\<close>

definition pipewrite_end :: "kmem \<Rightarrow> u64 \<Rightarrow> bool \<Rightarrow> u64 \<Rightarrow> int \<Rightarrow> int \<Rightarrow> pipe \<Rightarrow> int outcome \<Rightarrow> pchan list \<Rightarrow> pipe \<Rightarrow> int \<Rightarrow> bool" where
  "pipewrite_end s pt killed addr n i pi out wk pi' j \<longleftrightarrow>
     (if i < n \<and> (\<not> readopen pi \<or> killed) then out = Return (-1) \<and> wk = [] \<and> j = i \<and> pi' = pi
      else wk = [ChRead] \<and>
        (out = Return j \<and> j = max i n \<or>
         out = Sleep ChWrite j \<and> j < n \<and> length (pipe_contents pi') = PIPESIZE \<or>
         out = Return j \<and> j < n \<and> length (pipe_contents pi') < PIPESIZE \<and> upage s pt (addr + of_int j) = 0))"

lemma pipewrite_loop_spec:
  assumes "local_ok s pt ch" and "pipe_inv pi"
  shows "\<exists>out wk pi' s' j. pipewrite_loop pt ch killed addr n i pi s = Ok (out, wk, pi', s') \<and> i \<le> j \<and> j \<le> max i n \<and>
    pipewrite_end s pt killed addr n i pi out wk pi' j \<and> local_ok s' pt ch \<and> pipe_inv pi' \<and>
    pipe_contents pi' = pipe_contents pi @ map (\<lambda>k. ubyte s pt (addr + of_int k)) [i..j - 1] \<and>
    (\<forall>k. i \<le> k \<and> k < j \<longrightarrow> upage s pt (addr + of_int k) \<noteq> 0) \<and> (\<forall>x. x \<noteq> ch \<longrightarrow> k_mem s' x = k_mem s x)"
  using assms
proof (induction pt ch killed addr n i pi s rule: pipewrite_loop.induct)
  case (1 pt ch killed addr n i pi s)
  have v: "vm_inv s pt" using "1.prems"(1) by (simp add: local_ok_def user_ok_def)
  let ?va = "addr + of_int i"
  have cap: "length (pipe_contents pi) \<le> PIPESIZE" by (rule pq.cap_law [OF "1.prems"(2)])
  note pa = walkaddr_upage [OF v, of ?va]
  show ?case
  proof (cases "i < n \<and> readopen pi \<and> \<not> killed \<and> nwrite pi \<noteq> nread pi + of_nat PIPESIZE \<and> upage s pt ?va \<noteq> 0")
    case False
    then show ?thesis using "1.prems" pa cap pipe_full_iff [of pi]
      by (subst pipewrite_loop.simps) (auto simp: copyin_1 pipewrite_end_def simp del: PIPESIZE_def intro!: exI [of _ i])
  next
    case True
    let ?b = "ubyte s pt ?va"
    let ?s = "s\<lparr>k_mem := (k_mem s)(ch := ?b)\<rparr>"
    have ci: "copyin s pt ch ?va 1 = Ok (0, ?s)" using copyin_1 [OF pa] True upageD(1) [of s pt ?va] by (simp add: ubyte_def upa_def)
    note W = local_write [OF "1.prems"(1), where b = ?b]
    note pt_s = same_pte [OF W(2)]
    have "length (pipe_contents pi) < PIPESIZE" using cap True pipe_full_iff [of pi] by linarith
    then have P: "pipe_inv (pipe_put pi ?b)" "pipe_contents (pipe_put pi ?b) = pipe_contents pi @ [?b]"
      using pq.put_law [OF "1.prems"(2)] by auto
    have ro: "readopen (pipe_put pi ?b) = readopen pi" by (simp add: pipe_put_def)
    have eq: "pipewrite_loop pt ch killed addr n i pi s =
        pipewrite_loop pt ch killed addr n (i + 1) (pipe_put pi ?b) ?s"
      using True ci by (subst pipewrite_loop.simps) simp
    have "\<exists>out wk pi' s' j. pipewrite_loop pt ch killed addr n (i + 1) (pipe_put pi ?b) ?s = Ok (out, wk, pi', s') \<and>
      i + 1 \<le> j \<and> j \<le> max (i + 1) n \<and> pipewrite_end ?s pt killed addr n (i + 1) (pipe_put pi ?b) out wk pi' j \<and> local_ok s' pt ch \<and> pipe_inv pi' \<and>
      pipe_contents pi' = pipe_contents (pipe_put pi ?b) @ map (\<lambda>k. ubyte ?s pt (addr + of_int k)) [i + 1..j - 1] \<and>
      (\<forall>k. i + 1 \<le> k \<and> k < j \<longrightarrow> upage ?s pt (addr + of_int k) \<noteq> 0) \<and> (\<forall>x. x \<noteq> ch \<longrightarrow> k_mem s' x = k_mem ?s x)"
      using "1.IH" [of "(0, ?s)" 0 ?s] True ci W(1) P(1) by simp
    then obtain out wk pi' s' j where
      R: "pipewrite_loop pt ch killed addr n (i + 1) (pipe_put pi ?b) ?s = Ok (out, wk, pi', s')"
        "i + 1 \<le> j" "j \<le> max (i + 1) n" "pipewrite_end ?s pt killed addr n (i + 1) (pipe_put pi ?b) out wk pi' j" "local_ok s' pt ch" "pipe_inv pi'"
        "pipe_contents pi' = pipe_contents (pipe_put pi ?b) @ map (\<lambda>k. ubyte ?s pt (addr + of_int k)) [i + 1..j - 1]"
        "\<forall>k. i + 1 \<le> k \<and> k < j \<longrightarrow> upage s pt (addr + of_int k) \<noteq> 0" "\<forall>x. x \<noteq> ch \<longrightarrow> k_mem s' x = k_mem ?s x"
      unfolding pt_s by (elim exE conjE) (rule that)
    have "map (\<lambda>k. ubyte ?s pt (addr + of_int k)) [i + 1..j - 1] = map (\<lambda>k. ubyte s pt (addr + of_int k)) [i + 1..j - 1]"
      using R(8) W(7) by (intro map_cong) auto
    moreover have "[i..j - 1] = i # [i + 1..j - 1]" using R(2) by (simp add: upto_rec1)
    ultimately have c: "pipe_contents pi' = pipe_contents pi @ map (\<lambda>k. ubyte s pt (addr + of_int k)) [i..j - 1]"
      using R(7) P(2) by simp
    have u: "upage s pt (addr + of_int k) \<noteq> 0" if "i \<le> k" "k < j" for k using R(8) True that by (cases "k = i") auto
    have "pipewrite_end s pt killed addr n i pi out wk pi' j"
      using R(4) True unfolding pipewrite_end_def ro pt_s by (auto simp del: PIPESIZE_def)
    moreover have "j \<le> max i n" using R(3) True by simp
    ultimately show ?thesis
      unfolding eq R(1) using R(2,5,6,9) c u by (intro exI [of _ out] exI [of _ wk] exI [of _ pi'] exI [of _ s'] exI [of _ j]) simp
  qed
qed

text \<open>
  How a round of \<open>piperead\<close> from byte \<open>i\<close> may end after delivering up to byte \<open>j\<close>: as many bytes as were asked for and were there, or the first one that
  cannot be delivered, which has left the pipe by then.
\<close>

definition piperead_end :: "kmem \<Rightarrow> u64 \<Rightarrow> u64 \<Rightarrow> int \<Rightarrow> int \<Rightarrow> u8 list \<Rightarrow> u8 list \<Rightarrow> int \<Rightarrow> bool" where
  "piperead_end s pt addr n i bs bs' j \<longleftrightarrow>
     j = max i (min n (i + int (length bs))) \<and> bs' = drop (nat (j - i)) bs \<or>
     j < n \<and> j < i + int (length bs) \<and> wpage s pt (addr + of_int j) = 0 \<and> bs' = drop (Suc (nat (j - i))) bs"

text \<open>What it has delivered: user memory holds the bytes, and nothing else of memory has changed but the local.\<close>

definition delivered :: "kmem \<Rightarrow> kmem \<Rightarrow> u64 \<Rightarrow> u64 \<Rightarrow> u64 \<Rightarrow> int \<Rightarrow> int \<Rightarrow> u8 list \<Rightarrow> bool" where
  "delivered s s' pt cha addr i j bs \<longleftrightarrow>
     (\<forall>k. i \<le> k \<and> k < j \<longrightarrow> wpage s pt (addr + of_int k) \<noteq> 0 \<and> ubyte s' pt (addr + of_int k) = bs ! nat (k - i)) \<and>
     (\<forall>x. x \<noteq> cha \<and> (\<forall>k. i \<le> k \<and> k < j \<longrightarrow> x \<noteq> upa s pt (addr + of_int k)) \<longrightarrow> k_mem s' x = k_mem s x)"

lemma delivered_none: "(\<forall>x. x \<noteq> cha \<longrightarrow> k_mem s' x = k_mem s x) \<Longrightarrow> delivered s s' pt cha addr i i bs"
  by (auto simp: delivered_def)

lemma delivered_Cons:
  assumes d: "delivered s1 s' pt cha addr (i + 1) j bs" and j: "i + 1 \<le> j" "j \<le> i + 4096" and w: "wpage s pt (addr + of_int i) \<noteq> 0"
    and pt: "pte s1 pt = pte s pt" "pte s' pt = pte s pt"
    and b: "k_mem s1 (upa s pt (addr + of_int i)) = b" "upa s pt (addr + of_int i) \<noteq> cha"
    and f: "\<And>x. x \<noteq> cha \<Longrightarrow> x \<noteq> upa s pt (addr + of_int i) \<Longrightarrow> k_mem s1 x = k_mem s x"
  shows "delivered s s' pt cha addr i j (b # bs)"
proof -
  note P1 = same_pte [OF pt(1)] and P2 = same_pte [OF pt(2)]
  have ne: "upa s pt (addr + of_int i) \<noteq> upa s pt (addr + of_int k)" if "i + 1 \<le> k" "k < j" for k
    using upa_differ [of "k - i" s pt "addr + of_int i"] that j(2) by (simp add: algebra_simps)
  have "k_mem s' (upa s pt (addr + of_int i)) = b" using d b ne unfolding delivered_def P1 by metis
  then have "ubyte s' pt (addr + of_int i) = b" by (simp add: ubyte_def P2)
  moreover have "wpage s pt (addr + of_int k) \<noteq> 0 \<and> ubyte s' pt (addr + of_int k) = bs ! nat (k - (i + 1))" if "i + 1 \<le> k" "k < j" for k
    using d that unfolding delivered_def P1 by blast
  moreover have "nat (k - i) = Suc (nat (k - (i + 1)))" if "i + 1 \<le> k" for k using that by simp
  ultimately have "wpage s pt (addr + of_int k) \<noteq> 0 \<and> ubyte s' pt (addr + of_int k) = (b # bs) ! nat (k - i)" if "i \<le> k" "k < j" for k
    using that w by (cases "k = i") auto
  moreover have "k_mem s' x = k_mem s x" if "x \<noteq> cha" "\<forall>k. i \<le> k \<and> k < j \<longrightarrow> x \<noteq> upa s pt (addr + of_int k)" for x
  proof -
    have "k_mem s' x = k_mem s1 x" using d that unfolding delivered_def P1 by auto
    then show ?thesis using f [of x] that j(1) by simp
  qed
  ultimately show ?thesis unfolding delivered_def by blast
qed

text \<open>One byte for the user: the space is as before but for that byte.\<close>

lemma put_user_byte:
  fixes b :: u8
  assumes l: "local_ok s pt cha" and w: "wpage s pt va \<noteq> 0"
  defines "t \<equiv> s\<lparr>k_mem := (k_mem s)(cha := b)\<rparr>"
  shows "copyout t pt va cha 1 = Ok (0, t\<lparr>k_mem := (k_mem t)(upa s pt va := b)\<rparr>)"
    "local_ok (t\<lparr>k_mem := (k_mem t)(upa s pt va := b)\<rparr>) pt cha" "pte (t\<lparr>k_mem := (k_mem t)(upa s pt va := b)\<rparr>) pt = pte s pt"
    "upa s pt va \<noteq> cha"
proof -
  note W = local_write [OF l, where b = b, folded t_def]
  have u: "user_ok t pt" using W(1) by (simp add: local_ok_def)
  have v: "vm_inv t pt" using u by (simp add: user_ok_def)
  note S = same_pte [OF W(2)]
  show "copyout t pt va cha 1 = Ok (0, t\<lparr>k_mem := (k_mem t)(upa s pt va := b)\<rparr>)"
    using copyout_1 [OF v, of va cha] w unfolding S by (simp add: t_def)
  have pg: "PGROUNDDOWN (upa s pt va) \<in> user_pages s pt"
    using upageD [OF wpageD(2) [OF w]] upa_page(1) by metis
  then show ne: "upa s pt va \<noteq> cha" using l by (auto simp: local_ok_def)
  have "PGROUNDDOWN (upa s pt va) \<notin> tabs t pt \<union> free_pages t" using pg u S(4) unfolding user_ok_def by blast
  then have "agree (tabs t pt \<union> free_pages t) (k_mem t) ((k_mem t)(upa s pt va := b))" by (auto simp: agree_def)
  note F = user_ok_frame [OF u this]
  show "pte (t\<lparr>k_mem := (k_mem t)(upa s pt va := b)\<rparr>) pt = pte s pt" using F(2) W(2) by simp
  show "local_ok (t\<lparr>k_mem := (k_mem t)(upa s pt va := b)\<rparr>) pt cha" using F W(1) by (simp add: local_ok_def)
qed

lemma piperead_loop_spec:
  assumes "local_ok s pt cha" and "pipe_inv pi"
  shows "\<exists>j pi' s'. piperead_loop pt cha addr n i pi s = Ok (j, pi', s') \<and> i \<le> j \<and> nat (j - i) \<le> length (pipe_contents pi) \<and>
    pipe_inv pi' \<and> pte s' pt = pte s pt \<and> piperead_end s pt addr n i (pipe_contents pi) (pipe_contents pi') j \<and>
    delivered s s' pt cha addr i j (pipe_contents pi)"
  using assms
proof (induction pt cha addr n i pi s rule: piperead_loop.induct)
  case (1 pt cha addr n i pi s)
  show ?case
  proof (cases "i < n \<and> nread pi \<noteq> nwrite pi")
    case False
    then have "i = max i (min n (i + int (length (pipe_contents pi))))" using pipe_empty_iff [of pi] by auto
    then show ?thesis using "1.prems" False
      by (subst piperead_loop.simps) (auto simp: piperead_end_def intro!: exI [of _ i] delivered_none)
  next
    case True
    then obtain b bs where bs: "pipe_contents pi = b # bs" using pipe_empty_iff [of pi] by (cases "pipe_contents pi") auto
    obtain pi1 where g: "pipe_get pi = (b, pi1)" using pq.get_law [OF "1.prems"(2) bs] by (metis prod.collapse)
    have P: "pipe_inv pi1" "pipe_contents pi1 = bs" using pq.get_law [OF "1.prems"(2) bs] g by auto
    let ?va = "addr + of_int i" and ?t = "s\<lparr>k_mem := (k_mem s)(cha := b)\<rparr>"
    note W = local_write [OF "1.prems"(1), where b = b]
    show ?thesis
    proof (cases "wpage s pt ?va = 0")
      case w: True
      have "vm_inv ?t pt" using W(1) by (simp add: local_ok_def user_ok_def)
      then have "copyout ?t pt ?va cha 1 = Ok (-1, ?t)" using copyout_1 w same_pte(3) [OF W(2)] by simp
      then have "piperead_loop pt cha addr n i pi s = Ok (i, pi1, ?t)" using True g by (subst piperead_loop.simps) simp
      then show ?thesis using True P bs w W(2)
        by (intro exI [of _ i] exI [of _ pi1] exI [of _ ?t]) (simp add: piperead_end_def delivered_none)
    next
      case w: False
      let ?s1 = "?t\<lparr>k_mem := (k_mem ?t)(upa s pt ?va := b)\<rparr>"
      note B = put_user_byte(1-3) [OF "1.prems"(1) w, where b = b] and B4 = put_user_byte(4) [OF "1.prems"(1) w]
      have eq: "piperead_loop pt cha addr n i pi s = piperead_loop pt cha addr n (i + 1) pi1 ?s1"
        using True g B(1) by (subst piperead_loop.simps) simp
      have "\<exists>j pi' s'. piperead_loop pt cha addr n (i + 1) pi1 ?s1 = Ok (j, pi', s') \<and> i + 1 \<le> j \<and> nat (j - (i + 1)) \<le> length (pipe_contents pi1) \<and>
        pipe_inv pi' \<and> pte s' pt = pte ?s1 pt \<and> piperead_end ?s1 pt addr n (i + 1) (pipe_contents pi1) (pipe_contents pi') j \<and>
        delivered ?s1 s' pt cha addr (i + 1) j (pipe_contents pi1)"
        using "1.IH" [of b pi1 "(0, ?s1)" 0 ?s1] True g B(1,2) P(1) by simp
      then obtain j pi' s' where R: "piperead_loop pt cha addr n (i + 1) pi1 ?s1 = Ok (j, pi', s')" "i + 1 \<le> j" "nat (j - (i + 1)) \<le> length bs"
        "pipe_inv pi'" "pte s' pt = pte s pt" "piperead_end s pt addr n (i + 1) bs (pipe_contents pi') j" "delivered ?s1 s' pt cha addr (i + 1) j bs"
        unfolding B(3) P(2) piperead_end_def same_pte(3) [OF B(3)] by blast
      have n: "nat (j - i) = Suc (nat (j - (i + 1)))" using R(2) by simp
      have "length bs < PIPESIZE" using pq.cap_law [OF "1.prems"(2)] bs by simp
      then have "j \<le> i + 4096" using R(2,3) by simp
      then have "delivered s s' pt cha addr i j (b # bs)"
        using w B(3) B4 R(5) by (intro delivered_Cons [OF R(7,2)]) simp_all
      moreover have "piperead_end s pt addr n i (b # bs) (pipe_contents pi') j" using R(6) True R(2) unfolding piperead_end_def n by auto
      ultimately show ?thesis unfolding eq R(1) bs using R(2-5) n by (intro exI [of _ j] exI [of _ pi'] exI [of _ s']) simp
    qed
  qed
qed

section \<open>Properties\<close>

text \<open>
  C29: first in, first out. Bytes put into a pipe come out in the order they went in, after those that
  were there before, whatever the values of the wrapping counters.
\<close>

theorem pipe_fifo:
  assumes "pipe_inv pi" and "length (pipe_contents pi) + length xs \<le> PIPESIZE"
  shows "fst (pq.get_n (length (pipe_contents pi) + length xs) (foldl pipe_put pi xs)) = pipe_contents pi @ xs"
  by (rule pq.first_in_first_out [OF assms])

theorem pipe_fifo_witness:
  "fst (pq.get_n 2 (foldl pipe_put (pipe_init\<lparr>nread := 0xffffffff, nwrite := 0xffffffff\<rparr>) [7, 9])) = [7, 9]"
proof -
  have "pipe_inv (pipe_init\<lparr>nread := 0xffffffff, nwrite := 0xffffffff\<rparr>)"
    "pipe_contents (pipe_init\<lparr>nread := 0xffffffff, nwrite := 0xffffffff\<rparr>) = []"
    by (simp_all add: pipe_inv_def pipe_init_def pipe_contents_def ring_def)
  then show ?thesis using pipe_fifo [of "pipe_init\<lparr>nread := 0xffffffff, nwrite := 0xffffffff\<rparr>" "[7, 9]"]
    by (simp add: numeral_2_eq_2)
qed

text \<open>
  C30: \<open>pipewrite\<close> never panics, and writes as much as it can. From byte \<open>i\<close> of the user's buffer (0 at the call) it appends exactly the bytes from \<open>i\<close> up to
  some \<open>j\<close> to the pipe, and changes no memory but its local. It returns -1, with the pipe as it was, exactly when there is
  something to write and the read end is closed or the process has been killed. Otherwise it wakes the readers, and either \<open>j\<close> is the end of the buffer and
  it returns \<open>j\<close>; or the pipe is full and it sleeps at \<open>j\<close>; or the user may not read byte \<open>j\<close> and it returns \<open>j\<close>.
\<close>

theorem pipewrite_appends:
  assumes "local_ok s pt ch" and "pipe_inv pi"
  shows "\<exists>out wk pi' s' j. pipewrite pt ch killed addr n i pi s = Ok (out, wk, pi', s') \<and> pipe_inv pi' \<and> i \<le> j \<and> j \<le> max i n \<and>
    pipe_contents pi' = pipe_contents pi @ map (\<lambda>k. ubyte s pt (addr + of_int k)) [i..j - 1] \<and>
    (\<forall>x. x \<noteq> ch \<longrightarrow> k_mem s' x = k_mem s x) \<and>
    (if i < n \<and> (\<not> readopen pi \<or> killed) then out = Return (-1) \<and> wk = [] \<and> pi' = pi
     else wk = [ChRead] \<and>
       (out = Return j \<and> j = max i n \<or>
        out = Sleep ChWrite j \<and> j < n \<and> length (pipe_contents pi') = PIPESIZE \<or>
        out = Return j \<and> j < n \<and> length (pipe_contents pi') < PIPESIZE \<and> walkaddr s pt (PGROUNDDOWN (addr + of_int j)) = Ok 0))"
proof -
  have v: "vm_inv s pt" using assms(1) by (simp add: local_ok_def user_ok_def)
  have "pipewrite_end s pt killed addr n i pi out wk pi' j \<Longrightarrow>
    (if i < n \<and> (\<not> readopen pi \<or> killed) then out = Return (-1) \<and> wk = [] \<and> pi' = pi
     else wk = [ChRead] \<and>
       (out = Return j \<and> j = max i n \<or>
        out = Sleep ChWrite j \<and> j < n \<and> length (pipe_contents pi') = PIPESIZE \<or>
        out = Return j \<and> j < n \<and> length (pipe_contents pi') < PIPESIZE \<and> walkaddr s pt (PGROUNDDOWN (addr + of_int j)) = Ok 0))"
    for out wk pi' j unfolding pipewrite_end_def by (auto simp: walkaddr_upage [OF v])
  then show ?thesis using pipewrite_loop_spec [OF assms, of killed addr n i] unfolding pipewrite_def by blast
qed

lemma empty_space_local: "local_ok empty_space 0x87ffe000 0x80000000"
proof -
  have "user_pages empty_space 0x87ffe000 = {}"
    using empty_space_table(2) [of "0x87ffe000"] by (auto simp: user_pages_def)
  then show ?thesis
    by (simp add: local_ok_def empty_space_table(3,4) empty_space_kinv(2) PGROUNDDOWN_def)
qed

lemma pipe_init_inv: "pipe_inv pipe_init" "pipe_contents pipe_init = []"
  by (simp_all add: pipe_inv_def pipe_init_def pipe_contents_def ring_def)

lemma one_page_local: "local_ok one_page_space 0x87ffe000 0x80000000"
  by (simp add: local_ok_def one_page_user one_page_tabs one_page_free PGROUNDDOWN_def)

lemma one_page_upage: "unat va < 4096 \<Longrightarrow> upage one_page_space 0x87ffe000 va = 0x87ffa000" "unat va < 4096 \<Longrightarrow> wpage one_page_space 0x87ffe000 va = 0x87ffa000"
  "unat va < 4096 \<Longrightarrow> upa one_page_space 0x87ffe000 va = 0x87ffa000 + va"
proof -
  assume "unat va < 4096"
  then have p: "PGROUNDDOWN va = 0" by (simp add: word_unat_eq_iff unat_PGROUNDDOWN)
  show "upage one_page_space 0x87ffe000 va = 0x87ffa000" "wpage one_page_space 0x87ffe000 va = 0x87ffa000"
    "upa one_page_space 0x87ffe000 va = 0x87ffa000 + va"
    by (simp_all add: upage_def wpage_def upa_def p one_page_pte(1) Let_def pte_valid_def PA2PTE_def PTE2PA_def pte_bits)
qed

text \<open>Three bytes of the user's page go into an empty pipe.\<close>

theorem pipewrite_appends_witness:
  "\<exists>pi' s'. pipewrite 0x87ffe000 0x80000000 False 0 3 0 pipe_init one_page_space = Ok (Return 3, [ChRead], pi', s') \<and>
    pipe_contents pi' = [104, 105, 10]"
proof -
  obtain out wk pi' s' j where R: "pipewrite 0x87ffe000 0x80000000 False 0 3 0 pipe_init one_page_space = Ok (out, wk, pi', s')"
    "0 \<le> j" "j \<le> 3" "pipe_contents pi' = map (\<lambda>k. ubyte one_page_space 0x87ffe000 (0 + of_int k)) [0..j - 1]" "wk = [ChRead]"
    "out = Return j \<and> j = 3 \<or> out = Sleep ChWrite j \<and> j < 3 \<and> length (pipe_contents pi') = PIPESIZE \<or>
     out = Return j \<and> j < 3 \<and> walkaddr one_page_space 0x87ffe000 (PGROUNDDOWN (0 + of_int j)) = Ok 0"
    using pipewrite_appends [OF one_page_local pipe_init_inv(1), of False 0 3 0] unfolding pipe_init_inv(2)
    by (elim exE conjE) (rule that, auto simp: pipe_init_def)
  have v: "vm_inv one_page_space 0x87ffe000" using one_page_local by (simp add: local_ok_def user_ok_def)
  have u: "unat (of_int j :: u64) < 4096" using R(2,3) by (simp add: unat_of_int_small)
  have "length (pipe_contents pi') = nat j" using R(2,4) by simp
  then have j: "j = 3" "out = Return 3" using R(3,6) walkaddr_upage [OF v, of "of_int j"] one_page_upage(1) [OF u] by auto
  have up: "[0..3 - 1] = [0, 1, 2 :: int]" by (simp add: upto.simps)
  have "pipe_contents pi' = [104, 105, 10]" unfolding R(4) j(1) up by (simp add: ubyte_def one_page_upage one_page_bytes)
  then show ?thesis using R(1,5) j(2) by blast
qed

text \<open>
  C31: \<open>piperead\<close> never panics. On an empty pipe whose write end is open it sleeps, or returns -1 if the process has been killed, and changes nothing.
  Otherwise it returns the number \<open>j\<close> of bytes it has delivered: the first \<open>j\<close> bytes of the pipe are in user memory at \<open>addr\<close>, every byte in a page the user may
  write, and no other memory has changed but its local. Either \<open>j\<close> is all that was asked for or all there was, and exactly those bytes have left the pipe;
  or the user may not write byte \<open>j\<close>, and that byte has left the pipe as well.
\<close>

theorem piperead_takes_front:
  assumes "local_ok s pt cha" and "pipe_inv pi"
  shows "\<exists>out wk pi' s'. piperead pt cha killed addr n pi s = Ok (out, wk, pi', s') \<and> pipe_inv pi' \<and>
    (if pipe_contents pi = [] \<and> writeopen pi then pi' = pi \<and> s' = s \<and> wk = [] \<and> out = (if killed then Return (-1) else Sleep ChRead 0)
     else wk = [ChWrite] \<and> (\<exists>j. out = Return j \<and> 0 \<le> j \<and>
       (j = max 0 (min n (int (length (pipe_contents pi)))) \<and> pipe_contents pi' = drop (nat j) (pipe_contents pi) \<or>
        j < n \<and> j < int (length (pipe_contents pi)) \<and> wpage s pt (addr + of_int j) = 0 \<and> pipe_contents pi' = drop (Suc (nat j)) (pipe_contents pi)) \<and>
       (\<forall>k. 0 \<le> k \<and> k < j \<longrightarrow> wpage s pt (addr + of_int k) \<noteq> 0 \<and> ubyte s' pt (addr + of_int k) = pipe_contents pi ! nat k) \<and>
       (\<forall>x. x \<noteq> cha \<and> (\<forall>k. 0 \<le> k \<and> k < j \<longrightarrow> x \<noteq> upa s pt (addr + of_int k)) \<longrightarrow> k_mem s' x = k_mem s x)))"
proof (cases "nread pi = nwrite pi \<and> writeopen pi")
  case True
  then show ?thesis using assms by (auto simp: piperead_def pipe_empty_iff)
next
  case False
  obtain j pi' s' where R: "piperead_loop pt cha addr n 0 pi s = Ok (j, pi', s')" "0 \<le> j" "pipe_inv pi'"
    "piperead_end s pt addr n 0 (pipe_contents pi) (pipe_contents pi') j" "delivered s s' pt cha addr 0 j (pipe_contents pi)"
    using piperead_loop_spec [OF assms, of addr n 0] by blast
  have "piperead pt cha killed addr n pi s = Ok (Return j, [ChWrite], pi', s')"
    using False R(1) by (auto simp: piperead_def)
  moreover have "\<not> (pipe_contents pi = [] \<and> writeopen pi)" using False pipe_empty_iff by blast
  ultimately show ?thesis using R unfolding piperead_end_def delivered_def
    by (intro exI [of _ "Return j"] exI [of _ "[ChWrite]"] exI [of _ pi'] exI [of _ s']) simp
qed

text \<open>Two bytes of a pipe with three arrive in the user's page.\<close>

theorem piperead_takes_front_witness:
  "\<exists>wk pi' s'. piperead 0x87ffe000 0x80000000 False 8 2 (foldl pipe_put pipe_init [65, 66, 67]) one_page_space = Ok (Return 2, wk, pi', s') \<and>
    pipe_contents pi' = [67] \<and> ubyte s' 0x87ffe000 8 = 65 \<and> ubyte s' 0x87ffe000 9 = 66"
proof -
  let ?pi = "foldl pipe_put pipe_init [65, 66, 67]"
  have pi: "pipe_inv ?pi" "pipe_contents ?pi = [65, 66, 67]" using pipe_init_inv pipe_put_law by (simp_all del: PIPESIZE_def) (simp_all add: pipe_init_inv pipe_put_law)
  obtain wk pi' s' j where R: "piperead 0x87ffe000 0x80000000 False 8 2 ?pi one_page_space = Ok (Return j, wk, pi', s')" "0 \<le> j"
    "j = 2 \<and> pipe_contents pi' = drop (nat j) [65, 66, 67] \<or> j < 2 \<and> wpage one_page_space 0x87ffe000 (8 + of_int j) = 0"
    "\<forall>k. 0 \<le> k \<and> k < j \<longrightarrow> ubyte s' 0x87ffe000 (8 + of_int k) = [65, 66, 67] ! nat k"
    using piperead_takes_front [OF one_page_local pi(1), of False 8 2] unfolding pi(2) by auto
  have "unat (8 + of_int j :: u64) < 4096" if "j < 2"
  proof -
    have "j = 0 \<or> j = 1" using that R(2) by auto
    then show ?thesis by auto
  qed
  then have j: "j = 2" using R(3) one_page_upage(2) by auto
  have "ubyte s' 0x87ffe000 8 = 65" "ubyte s' 0x87ffe000 9 = 66" using R(4) [rule_format, of 0] R(4) [rule_format, of 1] j by simp_all
  then show ?thesis using R(1,3) j by auto
qed

text \<open>
  The early stop loses data: a byte that cannot be delivered has already left the pipe, and the
  count returned does not include it.
\<close>

lemma piperead_loses_byte:
  "\<exists>pi' s'. piperead 0x87ffe000 0x80000000 False 0 1 (pipe_put pipe_init 65) empty_space =
      Ok (Return 0, [ChWrite], pi', s') \<and> pipe_contents (pipe_put pipe_init 65) = [65] \<and> pipe_contents pi' = []"
proof -
  let ?pi = "pipe_put pipe_init 65"
  have c: "pipe_contents ?pi = [65]" using pq.put_law [OF pipe_init_inv(1), of 65] pipe_init_inv(2) by simp
  have inv: "pipe_inv ?pi" using pq.put_law [OF pipe_init_inv(1), of 65] pipe_init_inv(2) by simp
  obtain b pi1 where g: "pipe_get ?pi = (b, pi1)" by fastforce
  have c1: "pipe_contents pi1 = []" using pq.get_law [OF inv c] g by simp
  let ?t = "empty_space\<lparr>k_mem := (k_mem empty_space)(0x80000000 := b)\<rparr>"
  note W = local_write [OF empty_space_local, where b = b]
  have v: "vm_inv ?t 0x87ffe000" using W(1) by (simp add: local_ok_def user_ok_def)
  have nv: "\<not> pte_valid (pte ?t 0x87ffe000 0)" using W(2) empty_space_table(2) [of "0x87ffe000" 0] by simp
  have "walkaddr ?t 0x87ffe000 0 = Ok 0" by (rule walkaddr_cases [OF v, of 0]) (use nv in auto)
  moreover have "\<exists>a. walk ?t 0x87ffe000 0 False = Ok (a, ?t)" by (rule walk_page [OF v, of 0]) auto
  ultimately have co: "copyout ?t 0x87ffe000 0 0x80000000 1 = Ok (-1, ?t)"
    by (subst copyout.simps) (auto simp: PGROUNDDOWN_def)
  have ne: "nread ?pi \<noteq> nwrite ?pi" using pipe_empty_iff [of ?pi] c by simp
  have "piperead_loop 0x87ffe000 0x80000000 0 1 0 ?pi empty_space = Ok (0, pi1, ?t)"
    using ne g co by (subst piperead_loop.simps) simp
  then have "piperead 0x87ffe000 0x80000000 False 0 1 ?pi empty_space = Ok (Return 0, [ChWrite], pi1, ?t)"
    using ne by (simp add: piperead_def)
  then show ?thesis using c c1 by blast
qed

end
