(* ===== verification/Xv6_Spinlock.thy ===== *)
theory Xv6_Spinlock
  imports Xv6_Prelude
begin

text \<open>
  Spin locks and the nesting of interrupt disabling: \<^verbatim>\<open>kernel/spinlock.c\<close>, with \<open>struct cpu\<close> of
  \<^verbatim>\<open>kernel/proc.h\<close>. \<open>acquire\<close> and \<open>release\<close> are cut where other CPUs can interleave: at the
  atomic swap, and at the stores to \<open>lk->cpu\<close>. The step relation \<open>lstep\<close> runs any number of CPUs
  over these pieces; its invariant gives mutual exclusion.
\<close>

section \<open>State\<close>

record spinlock =
  locked :: u32
  lk_name :: string
  lk_cpu :: "nat option"

text \<open>\<open>sie\<close> is the interrupt-enable bit of the CPU's \<^verbatim>\<open>sstatus\<close> register.\<close>

record cpu =
  noff :: int
  intena :: bool
  sie :: bool

section \<open>Operations\<close>

definition intr_get :: "cpu \<Rightarrow> bool" where
  "intr_get c = sie c"

definition intr_off :: "cpu \<Rightarrow> cpu" where
  "intr_off c = c\<lparr>sie := False\<rparr>"

definition intr_on :: "cpu \<Rightarrow> cpu" where
  "intr_on c = c\<lparr>sie := True\<rparr>"

definition initlock :: "string \<Rightarrow> spinlock" where
  "initlock name = \<lparr>locked = 0, lk_name = name, lk_cpu = None\<rparr>"

definition push_off :: "cpu \<Rightarrow> cpu" where
  "push_off c =
     (let old = intr_get c;
          c1 = intr_off c;
          c2 = (if noff c1 = 0 then c1\<lparr>intena := old\<rparr> else c1)
      in c2\<lparr>noff := noff c2 + 1\<rparr>)"

definition pop_off :: "cpu \<Rightarrow> cpu res" where
  "pop_off c =
     (if intr_get c then Fail (Panic ''pop_off - interruptible'')
      else if noff c < 1 then Fail (Panic ''pop_off'')
      else let c1 = c\<lparr>noff := noff c - 1\<rparr> in
        Ok (if noff c1 = 0 \<and> intena c1 then intr_on c1 else c1))"

definition holding :: "spinlock \<Rightarrow> nat \<Rightarrow> bool" where
  "holding lk me \<longleftrightarrow> locked lk \<noteq> 0 \<and> lk_cpu lk = Some me"

text \<open>\<open>acquire\<close> up to the spin loop.\<close>

definition acquire_enter :: "spinlock \<Rightarrow> nat \<Rightarrow> cpu \<Rightarrow> cpu res" where
  "acquire_enter lk me c =
     (let c1 = push_off c in if holding lk me then Fail (Panic ''acquire'') else Ok c1)"

text \<open>One round of the spin loop: the old value of \<open>lk->locked\<close>, which is set to 1.\<close>

definition test_and_set :: "spinlock \<Rightarrow> u32 \<times> spinlock" where
  "test_and_set lk = (locked lk, lk\<lparr>locked := 1\<rparr>)"

definition acquire_leave :: "spinlock \<Rightarrow> nat \<Rightarrow> spinlock" where
  "acquire_leave lk me = lk\<lparr>lk_cpu := Some me\<rparr>"

definition release_enter :: "spinlock \<Rightarrow> nat \<Rightarrow> spinlock res" where
  "release_enter lk me = (if \<not> holding lk me then Fail (Panic ''release'') else Ok (lk\<lparr>lk_cpu := None\<rparr>))"

definition release_unlock :: "spinlock \<Rightarrow> spinlock" where
  "release_unlock lk = lk\<lparr>locked := 0\<rparr>"

text \<open>The two functions as one CPU executes them when no other one interferes.\<close>

definition acquire :: "spinlock \<Rightarrow> nat \<Rightarrow> cpu \<Rightarrow> (spinlock \<times> cpu) res" where
  "acquire lk me c =
     rbind (acquire_enter lk me c) (\<lambda>c1.
       case test_and_set lk of (old, lk1) \<Rightarrow>
         if old \<noteq> 0 then Fail (Blocked ''spin'') else Ok (acquire_leave lk1 me, c1))"

definition release :: "spinlock \<Rightarrow> nat \<Rightarrow> cpu \<Rightarrow> (spinlock \<times> cpu) res" where
  "release lk me c =
     rbind (release_enter lk me) (\<lambda>lk1.
       let lk2 = release_unlock lk1 in rbind (pop_off c) (\<lambda>c1. Ok (lk2, c1)))"

section \<open>Many CPUs\<close>

text \<open>Where a CPU is inside \<open>acquire\<close> or \<open>release\<close> of a lock; \<open>Dead\<close> after a panic.\<close>

datatype pc = Run | Spin nat | Got nat | Unlock nat | Pop | Dead string

text \<open>
  \<open>crit\<close> and \<open>extra\<close> are history: the locks whose \<open>acquire\<close> has returned and whose \<open>release\<close> has not
  been called, and the \<open>push_off\<close> calls of the CPU that are still open.
\<close>

record sys =
  locks :: "nat \<Rightarrow> spinlock"
  cpus :: "nat \<Rightarrow> cpu"
  pcs :: "nat \<Rightarrow> pc"
  crit :: "nat \<Rightarrow> nat set"
  extra :: "nat \<Rightarrow> nat"

definition sys_init :: "(nat \<Rightarrow> string) \<Rightarrow> sys" where
  "sys_init names =
     \<lparr>locks = (\<lambda>l. initlock (names l)), cpus = (\<lambda>_. \<lparr>noff = 0, intena = False, sie = False\<rparr>),
      pcs = (\<lambda>_. Run), crit = (\<lambda>_. {}), extra = (\<lambda>_. 0)\<rparr>"

inductive lstep :: "sys \<Rightarrow> sys \<Rightarrow> bool" where
  enter: "pcs s c = Run \<Longrightarrow> acquire_enter (locks s l) c (cpus s c) = Ok k \<Longrightarrow>
    lstep s (s\<lparr>cpus := (cpus s)(c := k), pcs := (pcs s)(c := Spin l)\<rparr>)"
| enter_panic: "pcs s c = Run \<Longrightarrow> acquire_enter (locks s l) c (cpus s c) = Fail (Panic e) \<Longrightarrow>
    lstep s (s\<lparr>pcs := (pcs s)(c := Dead e)\<rparr>)"
| spin: "pcs s c = Spin l \<Longrightarrow> test_and_set (locks s l) = (old, lk) \<Longrightarrow>
    lstep s (s\<lparr>locks := (locks s)(l := lk), pcs := (pcs s)(c := (if old \<noteq> 0 then Spin l else Got l))\<rparr>)"
| leave: "pcs s c = Got l \<Longrightarrow>
    lstep s (s\<lparr>locks := (locks s)(l := acquire_leave (locks s l) c), pcs := (pcs s)(c := Run),
      crit := (crit s)(c := insert l (crit s c))\<rparr>)"
| rel: "pcs s c = Run \<Longrightarrow> release_enter (locks s l) c = Ok lk \<Longrightarrow>
    lstep s (s\<lparr>locks := (locks s)(l := lk), pcs := (pcs s)(c := Unlock l),
      crit := (crit s)(c := crit s c - {l})\<rparr>)"
| rel_panic: "pcs s c = Run \<Longrightarrow> release_enter (locks s l) c = Fail (Panic e) \<Longrightarrow>
    lstep s (s\<lparr>pcs := (pcs s)(c := Dead e)\<rparr>)"
| unlock: "pcs s c = Unlock l \<Longrightarrow>
    lstep s (s\<lparr>locks := (locks s)(l := release_unlock (locks s l)), pcs := (pcs s)(c := Pop)\<rparr>)"
| pop: "pcs s c = Pop \<Longrightarrow> pop_off (cpus s c) = Ok k \<Longrightarrow>
    lstep s (s\<lparr>cpus := (cpus s)(c := k), pcs := (pcs s)(c := Run)\<rparr>)"
| pop_panic: "pcs s c = Pop \<Longrightarrow> pop_off (cpus s c) = Fail (Panic e) \<Longrightarrow>
    lstep s (s\<lparr>pcs := (pcs s)(c := Dead e)\<rparr>)"
| push: "pcs s c = Run \<Longrightarrow>
    lstep s (s\<lparr>cpus := (cpus s)(c := push_off (cpus s c)), extra := (extra s)(c := Suc (extra s c))\<rparr>)"
| unpush: "pcs s c = Run \<Longrightarrow> 0 < extra s c \<Longrightarrow> pop_off (cpus s c) = Ok k \<Longrightarrow>
    lstep s (s\<lparr>cpus := (cpus s)(c := k), extra := (extra s)(c := extra s c - 1)\<rparr>)"
| enable: "pcs s c = Run \<Longrightarrow> noff (cpus s c) = 0 \<Longrightarrow> lstep s (s\<lparr>cpus := (cpus s)(c := intr_on (cpus s c))\<rparr>)"
| disable: "pcs s c = Run \<Longrightarrow> lstep s (s\<lparr>cpus := (cpus s)(c := intr_off (cpus s c))\<rparr>)"

inductive lreach :: "(nat \<Rightarrow> string) \<Rightarrow> sys \<Rightarrow> bool" for names where
  init: "lreach names (sys_init names)"
| step: "lreach names s \<Longrightarrow> lstep s t \<Longrightarrow> lreach names t"

section \<open>Invariant\<close>

text \<open>CPU \<open>c\<close> owns lock \<open>l\<close>: it is in its critical section, or about to enter or leave it.\<close>

definition owns :: "sys \<Rightarrow> nat \<Rightarrow> nat \<Rightarrow> bool" where
  "owns s c l \<longleftrightarrow> l \<in> crit s c \<or> pcs s c = Got l \<or> pcs s c = Unlock l"

definition busy :: "pc \<Rightarrow> int" where
  "busy p = (case p of Run \<Rightarrow> 0 | Dead _ \<Rightarrow> 0 | _ \<Rightarrow> 1)"

text \<open>Ownership of the locks.\<close>

definition lock_inv :: "sys \<Rightarrow> bool" where
  "lock_inv s \<longleftrightarrow>
     (\<forall>l c c'. owns s c l \<and> owns s c' l \<longrightarrow> c = c') \<and>
     (\<forall>l c. owns s c l \<longrightarrow> locked (locks s l) \<noteq> 0) \<and>
     (\<forall>l c. l \<in> crit s c \<longleftrightarrow> lk_cpu (locks s l) = Some c) \<and>
     (\<forall>l c. pcs s c = Got l \<or> pcs s c = Unlock l \<longrightarrow> lk_cpu (locks s l) = None)"

text \<open>Each CPU counts its open \<open>push_off\<close> calls, and has interrupts off while there is one.\<close>

definition off_inv :: "sys \<Rightarrow> bool" where
  "off_inv s \<longleftrightarrow> (\<forall>c. finite (crit s c) \<and>
     ((\<forall>e. pcs s c \<noteq> Dead e) \<longrightarrow>
        noff (cpus s c) = int (card (crit s c)) + int (extra s c) + busy (pcs s c) \<and>
        (noff (cpus s c) > 0 \<longrightarrow> \<not> sie (cpus s c))))"

lemmas lock_defs = acquire_enter_def test_and_set_def acquire_leave_def release_enter_def
  release_unlock_def push_off_def pop_off_def intr_get_def intr_on_def intr_off_def holding_def Let_def

lemma push_off_facts [simp]: "noff (push_off c) = noff c + 1" "\<not> sie (push_off c)"
  by (simp_all add: lock_defs)

lemma pop_off_Ok:
  assumes "pop_off c = Ok k"
  shows "noff k = noff c - 1" "noff k > 0 \<Longrightarrow> \<not> sie k" "1 \<le> noff c" "\<not> sie c"
  using assms by (auto simp: lock_defs split: if_splits)

lemma lock_inv_init: "lock_inv (sys_init names)" "off_inv (sys_init names)"
  by (simp_all add: lock_inv_def off_inv_def sys_init_def owns_def busy_def initlock_def)

lemma lock_inv_step: "lstep s t \<Longrightarrow> lock_inv s \<Longrightarrow> lock_inv t"
proof (induction rule: lstep.induct)
  case (spin s c l old lk)
  then have "old = 0 \<Longrightarrow> lk_cpu (locks s l) = None"
    by (cases "lk_cpu (locks s l)") (auto simp: lock_inv_def owns_def lock_defs)
  with spin show ?case
    by (cases "old = 0") (auto simp: lock_inv_def owns_def lock_defs split: if_splits)
next
  case (leave s c l)
  then show ?case by (auto simp: lock_inv_def owns_def lock_defs split: if_splits)
next
  case (rel s c l lk)
  then show ?case by (auto simp: lock_inv_def owns_def lock_defs split: if_splits)
next
  case (unlock s c l)
  then show ?case by (auto simp: lock_inv_def owns_def lock_defs split: if_splits)
qed (auto simp: lock_inv_def owns_def split: if_splits)

lemma off_inv_step:
  assumes "lstep s t" and "lock_inv s" and "off_inv s"
  shows "off_inv t"
  using assms
proof (induction rule: lstep.induct)
  case (enter s c l k)
  then have "noff k = noff (cpus s c) + 1" "\<not> sie k"
    by (auto simp: acquire_enter_def Let_def split: if_splits)
  with enter show ?case by (auto simp: off_inv_def busy_def)
next
  case (spin s c l old lk)
  then have "busy (pcs s c) = 1" by (simp add: busy_def)
  with spin show ?case by (auto simp: off_inv_def busy_def split: if_splits)
next
  case (leave s c l)
  then have "l \<notin> crit s c" by (auto simp: lock_inv_def)
  with leave show ?case by (auto simp: off_inv_def busy_def split: if_splits)
next
  case (rel s c l lk)
  then have "l \<in> crit s c" by (auto simp: lock_inv_def lock_defs split: if_splits)
  moreover have "finite (crit s c)" using rel by (simp add: off_inv_def)
  ultimately have "0 < card (crit s c)" by (auto simp: card_gt_0_iff)
  then have "int (card (crit s c - {l})) = int (card (crit s c)) - 1"
    using \<open>l \<in> crit s c\<close> by (simp add: of_nat_diff)
  with rel show ?case by (auto simp: off_inv_def busy_def)
next
  case (unlock s c l)
  then show ?case by (auto simp: off_inv_def busy_def)
next
  case (pop s c k)
  then show ?case using pop_off_Ok [OF pop(2)] by (auto simp: off_inv_def busy_def)
next
  case (push s c)
  then show ?case by (auto simp: off_inv_def busy_def)
next
  case (unpush s c k)
  then show ?case using pop_off_Ok [OF unpush(3)] by (auto simp: off_inv_def busy_def of_nat_diff)
next
  case (enable s c)
  then show ?case by (auto simp: off_inv_def busy_def intr_on_def)
next
  case (disable s c)
  then show ?case by (auto simp: off_inv_def busy_def intr_off_def)
qed (auto simp: off_inv_def busy_def)

lemma lreach_inv: "lreach names s \<Longrightarrow> lock_inv s \<and> off_inv s"
  by (induction rule: lreach.induct) (auto intro: lock_inv_init lock_inv_step off_inv_step)

text \<open>No \<open>pop_off\<close> panics: \<open>release\<close> only ever pops what \<open>acquire\<close> pushed.\<close>

lemma pop_never_panics:
  assumes "lock_inv s" and "off_inv s" and "pcs s c = Pop"
  shows "\<exists>k. pop_off (cpus s c) = Ok k"
proof -
  have "noff (cpus s c) > 0" "\<not> sie (cpus s c)"
    using assms(2,3) by (auto simp: off_inv_def busy_def dest: spec [of _ c])
  then show ?thesis by (simp add: lock_defs)
qed

section \<open>Properties\<close>

text \<open>
  C12: mutual exclusion. In every reachable state of any number of CPUs, at most one CPU is in the
  critical section of a lock, and it has its interrupts off.
\<close>

theorem spinlock_mutual_exclusion:
  assumes "lreach names s" and "l \<in> crit s c"
  shows "(l \<in> crit s c' \<longleftrightarrow> c' = c) \<and> holding (locks s l) c \<and> (sie (cpus s c) \<longrightarrow> (\<exists>e. pcs s c = Dead e))"
proof -
  have L: "lock_inv s" and O: "off_inv s" using lreach_inv [OF assms(1)] by auto
  have h: "holding (locks s l) c" using L assms(2) by (auto simp: lock_inv_def holding_def owns_def)
  have "l \<in> crit s c' \<longleftrightarrow> c' = c" using L assms(2) by (auto simp: lock_inv_def)
  moreover have "\<not> sie (cpus s c)" if nd: "\<forall>e. pcs s c \<noteq> Dead e"
  proof -
    have f: "finite (crit s c)" "noff (cpus s c) = int (card (crit s c)) + int (extra s c) + busy (pcs s c)"
      "noff (cpus s c) > 0 \<longrightarrow> \<not> sie (cpus s c)" using O nd by (auto simp: off_inv_def)
    have "0 < card (crit s c)" using f(1) assms(2) by (auto simp: card_gt_0_iff)
    moreover have "0 \<le> busy (pcs s c)" by (simp add: busy_def split: pc.splits)
    ultimately show ?thesis using f(2,3) by simp
  qed
  ultimately show ?thesis using h by blast
qed

text \<open>A run of one CPU that takes lock 7.\<close>

lemma lreach_taken:
  "\<exists>s. lreach (\<lambda>_. ''kmem'') s \<and> 7 \<in> crit s 0"
proof -
  let ?s0 = "sys_init (\<lambda>_. ''kmem'')"
  let ?k = "push_off (cpus ?s0 0)"
  let ?s1 = "?s0\<lparr>cpus := (cpus ?s0)(0 := ?k), pcs := (pcs ?s0)(0 := Spin 7)\<rparr>"
  let ?lk = "(locks ?s0 7)\<lparr>locked := 1\<rparr>"
  let ?s2 = "?s1\<lparr>locks := (locks ?s1)(7 := ?lk), pcs := (pcs ?s1)(0 := Got 7)\<rparr>"
  let ?s3 = "?s2\<lparr>locks := (locks ?s2)(7 := acquire_leave (locks ?s2 7) 0), pcs := (pcs ?s2)(0 := Run),
      crit := (crit ?s2)(0 := insert 7 (crit ?s2 0))\<rparr>"
  have "lstep ?s0 ?s1" by (rule lstep.enter) (simp_all add: sys_init_def acquire_enter_def holding_def initlock_def)
  moreover have "lstep ?s1 ?s2"
    using lstep.spin [of ?s1 0 7 0 ?lk] by (simp add: sys_init_def test_and_set_def initlock_def)
  moreover have "lstep ?s2 ?s3" by (rule lstep.leave) simp
  ultimately have "lreach (\<lambda>_. ''kmem'') ?s3" by (meson lreach.intros)
  moreover have "7 \<in> crit ?s3 0" by simp
  ultimately show ?thesis by blast
qed

theorem spinlock_mutual_exclusion_witness:
  "\<exists>s. lreach (\<lambda>_. ''kmem'') s \<and> 7 \<in> crit s 0 \<and> 7 \<notin> crit s 1 \<and> holding (locks s 7) 0"
proof -
  obtain s where s: "lreach (\<lambda>_. ''kmem'') s" "7 \<in> crit s 0" using lreach_taken by blast
  from spinlock_mutual_exclusion [OF s, of 1] s show ?thesis by auto
qed

fun pop_n :: "nat \<Rightarrow> cpu \<Rightarrow> cpu res" where
  "pop_n 0 c = Ok c"
| "pop_n (Suc n) c = rbind (pop_off c) (pop_n n)"

lemma push_n_facts:
  assumes "noff c = 0"
  shows "noff ((push_off ^^ n) c) = int n \<and>
    (0 < n \<longrightarrow> \<not> sie ((push_off ^^ n) c) \<and> intena ((push_off ^^ n) c) = sie c)"
  by (induction n) (use assms in \<open>auto simp: push_off_def intr_get_def intr_off_def Let_def\<close>)

lemma pop_n_facts:
  assumes "noff c = int (Suc n)" and "\<not> sie c"
  shows "\<exists>k. pop_n (Suc n) c = Ok k \<and> noff k = 0 \<and> sie k = intena c"
  using assms
proof (induction n arbitrary: c)
  case 0
  then show ?case by (simp add: lock_defs)
next
  case (Suc n)
  let ?k = "c\<lparr>noff := noff c - 1\<rparr>"
  have "pop_off c = Ok ?k" using Suc.prems by (simp add: lock_defs)
  then show ?case using Suc.IH [of ?k] Suc.prems by simp
qed

text \<open>
  Interrupt nesting. \<open>n\<close> calls of \<open>push_off\<close> followed by \<open>n\<close> calls of \<open>pop_off\<close> never panic and restore
  the interrupt flag and the count, for a CPU that starts with none open.
\<close>

lemma push_pop_balanced:
  assumes "noff c = 0"
  shows "\<exists>k. pop_n n ((push_off ^^ n) c) = Ok k \<and> noff k = 0 \<and> sie k = sie c"
proof (cases n)
  case 0
  then show ?thesis using assms by simp
next
  case (Suc m)
  note F = push_n_facts [OF assms, of n]
  then show ?thesis using pop_n_facts [of "(push_off ^^ n) c" m] Suc by (auto simp del: pop_n.simps funpow.simps)
qed

end
