(* ===== verification/Xv6_Grep.thy ===== *)
theory Xv6_Grep
  imports Xv6_Prelude
begin

text \<open>
  The text filters of user space: \<^verbatim>\<open>user/grep.c\<close> with its regular-expression matcher,
  \<^verbatim>\<open>user/wc.c\<close> and \<^verbatim>\<open>user/cat.c\<close>. A C string is the list of its characters without the
  terminating NUL. What the \<open>read\<close> system call delivers is the argument \<open>chunks\<close>: the data of the
  successive reads, an empty chunk or the end of the list standing for a result of 0. A read of a
  chunk longer than the space offered takes what fits and leaves the rest for the next read.
\<close>

definition NUL :: char where "NUL = CHR 0x00"

text \<open>\<^verbatim>\<open>s[i]\<close> of a C string, the terminator included.\<close>

definition at :: "string \<Rightarrow> nat \<Rightarrow> char" where
  "at s i = (if i < length s then s ! i else NUL)"

lemma at_simps [simp]: "at [] i = NUL" "at (c # s) 0 = c" "at (c # s) (Suc i) = at s i"
  by (simp_all add: at_def)

lemma at_1 [simp]: "at (c # s) 1 = at s 0"
  by (simp add: at_def)

section \<open>The matcher\<close>

function (sequential) matchhere :: "string \<Rightarrow> string \<Rightarrow> bool"
  and matchstar :: "char \<Rightarrow> string \<Rightarrow> string \<Rightarrow> bool" where
  "matchhere re tx =
     (if re = [] then True
      else if at re 1 = CHR ''*'' then matchstar (at re 0) (drop 2 re) tx
      else if at re 0 = CHR ''$'' \<and> at re 1 = NUL then tx = []
      else if tx \<noteq> [] \<and> (at re 0 = CHR ''.'' \<or> at re 0 = at tx 0) then matchhere (drop 1 re) (drop 1 tx)
      else False)"
| "matchstar c re tx =
     (if matchhere re tx then True
      else if tx \<noteq> [] \<and> (at tx 0 = c \<or> c = CHR ''.'') then matchstar c re (drop 1 tx)
      else False)"
  by pat_completeness auto
termination
proof (relation "measures [case_sum (\<lambda>(re, tx). length re) (\<lambda>(c, re, tx). length re),
    case_sum (\<lambda>(re, tx). length tx) (\<lambda>(c, re, tx). length tx), case_sum (\<lambda>_. 0) (\<lambda>_. 1)]", goal_cases)
  case (2 re tx)
  then show ?case by (cases re) auto
qed auto

declare matchhere.simps [simp del] matchstar.simps [simp del]

fun match_scan :: "string \<Rightarrow> string \<Rightarrow> bool" where
  "match_scan re tx = (if matchhere re tx then True else if tx = [] then False else match_scan re (drop 1 tx))"

declare match_scan.simps [simp del]

definition match :: "string \<Rightarrow> string \<Rightarrow> bool" where
  "match re tx = (if at re 0 = CHR ''^'' then matchhere (drop 1 re) tx else match_scan re tx)"

text \<open>
  What the patterns mean: a pattern is a sequence of items, and \<open>hits\<close> says that the items match
  the text \<open>w\<close> when \<open>r\<close> is what follows it on the line.
\<close>

datatype item = One char | Star char | Eol

fun items :: "string \<Rightarrow> item list" where
  "items [] = []"
| "items (c # s) =
     (if at s 0 = CHR ''*'' then Star c # items (drop 1 s)
      else if c = CHR ''$'' \<and> s = [] then [Eol] else One c # items s)"

definition cls :: "char \<Rightarrow> char \<Rightarrow> bool" where
  "cls c x \<longleftrightarrow> c = CHR ''.'' \<or> x = c"

inductive hits :: "item list \<Rightarrow> string \<Rightarrow> string \<Rightarrow> bool" where
  hits_nil: "hits [] [] r"
| hits_eol: "hits [Eol] [] []"
| hits_one: "cls c x \<Longrightarrow> hits is w r \<Longrightarrow> hits (One c # is) (x # w) r"
| hits_star: "list_all (cls c) u \<Longrightarrow> hits is w r \<Longrightarrow> hits (Star c # is) (u @ w) r"

inductive_simps hits_simps: "hits [] w r" "hits (Eol # is) w r" "hits (One c # is) w r" "hits (Star c # is) w r"

definition hits_prefix :: "item list \<Rightarrow> string \<Rightarrow> bool" where
  "hits_prefix is tx \<longleftrightarrow> (\<exists>w r. tx = w @ r \<and> hits is w r)"

lemma hits_prefix_nil [simp]: "hits_prefix [] tx"
  by (auto simp: hits_prefix_def hits_simps)

lemma hits_prefix_eol [simp]: "hits_prefix [Eol] tx \<longleftrightarrow> tx = []"
  by (auto simp: hits_prefix_def hits_simps)

lemma hits_prefix_one [simp]:
  "hits_prefix (One c # is) tx \<longleftrightarrow> (\<exists>x t. tx = x # t \<and> cls c x \<and> hits_prefix is t)"
  unfolding hits_prefix_def hits_simps by (metis append_Cons)

lemma hits_prefix_star:
  "hits_prefix (Star c # is) tx \<longleftrightarrow>
     hits_prefix is tx \<or> (\<exists>x t. tx = x # t \<and> cls c x \<and> hits_prefix (Star c # is) t)" (is "?l \<longleftrightarrow> ?r")
proof
  assume ?l
  then obtain u w r where u: "tx = (u @ w) @ r" "list_all (cls c) u" "hits is w r"
    by (auto simp: hits_prefix_def hits_simps)
  show ?r
  proof (cases u)
    case Nil
    then show ?thesis using u by (auto simp: hits_prefix_def)
  next
    case (Cons x v)
    then have "hits (Star c # is) (v @ w) r" using u by (auto intro: hits_star)
    then show ?thesis using u Cons by (auto simp: hits_prefix_def)
  qed
next
  assume ?r
  then show ?l
  proof
    assume "hits_prefix is tx"
    then obtain w r where "tx = w @ r" "hits is w r" by (auto simp: hits_prefix_def)
    then show ?l using hits_star [of c "[]" "is" w r] by (auto simp: hits_prefix_def)
  next
    assume "\<exists>x t. tx = x # t \<and> cls c x \<and> hits_prefix (Star c # is) t"
    then obtain x u w r where "tx = x # (u @ w) @ r" "cls c x" "list_all (cls c) u" "hits is w r"
      by (auto simp: hits_prefix_def hits_simps)
    then have "hits (Star c # is) (x # u @ w) r" "tx = (x # u @ w) @ r"
      using hits_star [of c "x # u" "is" w r] by simp_all
    then show ?l unfolding hits_prefix_def by blast
  qed
qed

text \<open>A pattern or a line holds no NUL.\<close>

definition nulfree :: "string \<Rightarrow> bool" where
  "nulfree s \<longleftrightarrow> NUL \<notin> set s"

lemma nulfree_simps [simp]: "nulfree []" "nulfree (c # s) \<longleftrightarrow> c \<noteq> NUL \<and> nulfree s"
  "nulfree (s @ t) \<longleftrightarrow> nulfree s \<and> nulfree t"
  by (auto simp: nulfree_def)

lemma nulfree_drop: "nulfree s \<Longrightarrow> nulfree (drop n s)"
  using set_drop_subset [of n s] by (auto simp: nulfree_def)

lemma at_0_NUL: "nulfree s \<Longrightarrow> at s 0 = NUL \<longleftrightarrow> s = []"
  by (cases s) auto

lemma star_not_NUL [simp]: "CHR ''*'' \<noteq> NUL" "NUL \<noteq> CHR ''*''" "CHR 0x0A \<noteq> NUL" "NUL \<noteq> CHR 0x0A"
  by (simp_all add: NUL_def)

lemma matchhere_hits:
  "nulfree re \<Longrightarrow> matchhere re tx \<longleftrightarrow> hits_prefix (items re) tx"
  "nulfree re' \<Longrightarrow> matchstar c re' tx' \<longleftrightarrow> hits_prefix (Star c # items re') tx'"
proof (induction re tx and c re' tx' rule: matchhere_matchstar.induct)
  case (1 re tx)
  show ?case
  proof (cases re)
    case Nil
    then show ?thesis by (simp add: matchhere.simps)
  next
    case (Cons c s)
    have s: "nulfree s" using "1.prems" Cons by simp
    consider (st) t where "s = CHR ''*'' # t" | (eol) "s = []" "c = CHR ''$''" "at s 0 \<noteq> CHR ''*''"
      | (one) "at s 0 \<noteq> CHR ''*''" "\<not> (s = [] \<and> c = CHR ''$'')"
      by (cases s) auto
    then show ?thesis
    proof cases
      case st
      then have "matchhere re tx = matchstar c t tx" using Cons by (simp add: matchhere.simps)
      then show ?thesis using "1.IH"(1) Cons st s by simp
    next
      case eol
      then show ?thesis using Cons by (simp add: matchhere.simps)
    next
      case one
      then have "matchhere re tx = (tx \<noteq> [] \<and> (c = CHR ''.'' \<or> c = at tx 0) \<and> matchhere s (drop 1 tx))"
        unfolding Cons using at_0_NUL [OF s] by (subst matchhere.simps) auto
      also have "\<dots> = (\<exists>x t. tx = x # t \<and> cls c x \<and> hits_prefix (items s) t)"
        using "1.IH"(2) Cons one at_0_NUL [OF s] s by (cases tx) (auto simp: cls_def)
      also have "\<dots> = hits_prefix (items re) tx" using one Cons by auto
      finally show ?thesis .
    qed
  qed
next
  case (2 c re tx)
  show ?case
  proof (cases "matchhere re tx")
    case True
    then show ?thesis using "2.IH"(1) "2.prems" by (simp add: matchstar.simps [of c re tx] hits_prefix_star [of c _ tx])
  next
    case False
    then have "matchstar c re tx = (\<exists>x t. tx = x # t \<and> cls c x \<and> hits_prefix (Star c # items re) t)"
      using "2.IH"(2) "2.prems" by (cases tx) (auto simp: matchstar.simps [of c re] cls_def)
    then show ?thesis using False "2.IH"(1) "2.prems" by (simp add: hits_prefix_star [of c _ tx])
  qed
qed

lemma match_scan_iff: "match_scan re tx \<longleftrightarrow> (\<exists>a t. tx = a @ t \<and> matchhere re t)"
proof (induction re tx rule: match_scan.induct)
  case (1 re tx)
  show ?case
  proof (cases "matchhere re tx \<or> tx = []")
    case True
    then show ?thesis by (subst match_scan.simps) (auto intro: exI [of _ "[]"])
  next
    case False
    then obtain x t where x: "tx = x # t" by (cases tx) auto
    have "match_scan re tx = (\<exists>a u. t = a @ u \<and> matchhere re u)"
      using False x "1.IH" by (subst match_scan.simps) simp
    also have "\<dots> = (\<exists>a u. tx = a @ u \<and> matchhere re u)"
      using False x by (metis append_Cons append_eq_Cons_conv self_append_conv2)
    finally show ?thesis .
  qed
qed

text \<open>
  C17: the matcher is correct and complete. \<open>match\<close> says yes exactly when some part of the line, the
  beginning of it for a pattern with \<^verbatim>\<open>^\<close>, is one of the texts the pattern stands for. That it is
  a total function is part of the statement: every call of the recursion comes back.
\<close>

theorem match_iff_hits:
  assumes "nulfree re"
  shows "match re tx \<longleftrightarrow>
    (\<exists>a w r. tx = a @ w @ r \<and>
       (if at re 0 = CHR ''^'' then a = [] \<and> hits (items (drop 1 re)) w r else hits (items re) w r))"
  using assms nulfree_drop [OF assms, of 1]
  by (auto simp: match_def match_scan_iff matchhere_hits(1) hits_prefix_def)

theorem match_iff_hits_witness:
  "match ''a.*z$'' ''xxabcz'' \<and>
   (\<exists>a w r. ''xxabcz'' = a @ w @ r \<and> hits (items ''a.*z$'') w r)"
proof -
  have n: "nulfree ''a.*z$''" by (simp add: NUL_def)
  have m: "match ''a.*z$'' ''xxabcz''"
    by (simp add: match_def match_scan.simps matchhere.simps matchstar.simps)
  then show ?thesis using match_iff_hits [OF n, of "''xxabcz''"] by simp
qed

section \<open>Reading a file\<close>

text \<open>
  The results of the \<open>read\<close> calls on a descriptor: \<open>None\<close> is an error, a string is data. A call that
  offers room for \<open>n\<close> bytes gets at most \<open>n\<close> of them.
\<close>

fun read_chunk :: "nat \<Rightarrow> string option list \<Rightarrow> string option \<times> string option list" where
  "read_chunk n [] = (Some [], [])"
| "read_chunk n (None # cs) = (None, cs)"
| "read_chunk n (Some ch # cs) = (Some (take n ch), if length ch \<le> n then cs else Some (drop n ch) # cs)"

definition csize :: "string option list \<Rightarrow> nat" where
  "csize cs = sum_list (map (case_option 0 length) cs)"

lemma read_chunk_size: "read_chunk n cs = (Some s, cs') \<Longrightarrow> csize cs = length s + csize cs'"
  by (induction n cs rule: read_chunk.induct) (auto simp: csize_def split: if_splits)

lemma read_chunk_less [termination_simp]: "(Some (c # s), cs') = read_chunk n cs \<Longrightarrow> csize cs' < csize cs"
  using read_chunk_size [of n cs "c # s" cs'] by simp

section \<open>grep\<close>

fun strchr :: "string \<Rightarrow> char \<Rightarrow> nat option" where
  "strchr [] c = None"
| "strchr (x # s) c = (if x = NUL then None else if x = c then Some 0 else map_option Suc (strchr s c))"

lemma strchr_less: "strchr s c = Some q \<Longrightarrow> q < length s"
  by (induction s c arbitrary: q rule: strchr.induct) (auto split: if_splits)

text \<open>The loop over the complete lines of the buffer: what is written, and what is left from \<open>p\<close> on.\<close>

function grep_lines :: "string \<Rightarrow> string \<Rightarrow> string \<times> string" where
  "grep_lines pattern p =
     (case strchr p (CHR 0x0A) of
        None \<Rightarrow> ([], p)
      | Some q \<Rightarrow>
          (case grep_lines pattern (drop (q + 1) p) of (out, rest) \<Rightarrow>
             ((if match pattern (take q p) then take (q + 1) p else []) @ out, rest)))"
  by pat_completeness auto
termination by (relation "measure (\<lambda>(pat, p). length p)") (auto dest: strchr_less)

declare grep_lines.simps [simp del]

definition GREPBUF :: nat where [simp]: "GREPBUF = 1024"

text \<open>\<open>b\<close> holds the \<open>m\<close> bytes that are in the buffer before the read.\<close>

function grep_loop :: "string \<Rightarrow> string \<Rightarrow> string option list \<Rightarrow> string" where
  "grep_loop pattern b chunks =
     (case read_chunk (GREPBUF - length b - 1) chunks of
        (Some (c # s), chunks') \<Rightarrow>
          (case grep_lines pattern (b @ c # s) of (out, rest) \<Rightarrow> out @ grep_loop pattern rest chunks')
      | _ \<Rightarrow> [])"
  by pat_completeness auto
termination by (relation "measure (\<lambda>(pat, b, cs). csize cs)") (auto intro: read_chunk_less)

declare grep_loop.simps [simp del]

definition grep :: "string \<Rightarrow> string option list \<Rightarrow> string" where
  "grep pattern chunks = grep_loop pattern [] chunks"

text \<open>The lines of a text: those that end in a newline, and what follows the last newline.\<close>

fun split_lines :: "string \<Rightarrow> string list \<times> string" where
  "split_lines [] = ([], [])"
| "split_lines (c # s) =
     (case split_lines s of (ls, t) \<Rightarrow>
        if c = CHR 0x0A then ([] # ls, t)
        else (case ls of [] \<Rightarrow> ([], c # t) | l # ls' \<Rightarrow> ((c # l) # ls', t)))"

definition selected :: "string \<Rightarrow> string list \<Rightarrow> string" where
  "selected pattern ls = concat (map (\<lambda>l. l @ [CHR 0x0A]) (filter (match pattern) ls))"

lemma selected_append [simp]: "selected p (a @ b) = selected p a @ selected p b"
  by (simp add: selected_def)

lemma split_lines_part:
  assumes "CHR 0x0A \<notin> set b"
  shows "split_lines (b @ s) =
    (case split_lines s of (ls, t) \<Rightarrow> (case ls of [] \<Rightarrow> ([], b @ t) | l # ls' \<Rightarrow> ((b @ l) # ls', t)))"
  using assms by (induction b) (auto split: prod.splits list.splits)

lemma split_lines_append:
  "split_lines (a @ s) =
    (case split_lines a of (ls, t) \<Rightarrow> (case split_lines (t @ s) of (ls', t') \<Rightarrow> (ls @ ls', t')))"
  by (induction a) (auto split: prod.splits list.splits)

lemma split_lines_tail: "CHR 0x0A \<notin> set (snd (split_lines s))"
  by (induction s) (auto split: prod.splits list.splits)

lemma split_lines_subset: "set (snd (split_lines s)) \<subseteq> set s"
  by (induction s) (auto split: prod.splits list.splits)

lemma split_lines_no_newline: "CHR 0x0A \<notin> set s \<Longrightarrow> split_lines s = ([], s)"
  using split_lines_part [of s "[]"] by simp

lemma strchr_newline:
  assumes "nulfree p"
  shows "strchr p c = None \<Longrightarrow> c \<notin> set p"
    and "strchr p c = Some q \<Longrightarrow> c \<notin> set (take q p) \<and> p = take q p @ c # drop (q + 1) p"
  using assms by (induction p arbitrary: q) (auto split: if_splits)

lemma grep_lines_selected:
  "nulfree p \<Longrightarrow> grep_lines pattern p = (selected pattern (fst (split_lines p)), snd (split_lines p))"
proof (induction pattern p rule: grep_lines.induct)
  case (1 pattern p)
  show ?case
  proof (cases "strchr p (CHR 0x0A)")
    case None
    then show ?thesis using strchr_newline(1) [OF "1.prems"] split_lines_no_newline [of p]
      by (simp add: grep_lines.simps selected_def)
  next
    case (Some q)
    let ?d = "drop (q + 1) p"
    have p: "CHR 0x0A \<notin> set (take q p)" "p = take q p @ CHR 0x0A # ?d"
      using strchr_newline(2) [OF "1.prems" Some] by auto
    have tk: "take (q + 1) p = take q p @ [CHR 0x0A]"
      using strchr_less [OF Some] p(2) by (metis Suc_eq_plus1 append_same_eq id_take_nth_drop take_Suc_conv_app_nth
        append_eq_append_conv list.inject)
    have IH: "grep_lines pattern ?d = (selected pattern (fst (split_lines ?d)), snd (split_lines ?d))"
      using "1.IH" [OF Some] nulfree_drop [OF "1.prems"] by simp
    have "split_lines p = (take q p # fst (split_lines ?d), snd (split_lines ?d))"
      using split_lines_part [OF p(1), of "CHR 0x0A # ?d"] p(2) by (simp split: prod.splits)
    then show ?thesis using Some IH tk by (subst grep_lines.simps) (simp add: selected_def)
  qed
qed

text \<open>The bytes of a run of reads without an error.\<close>

definition good_chunks :: "string option list \<Rightarrow> bool" where
  "good_chunks cs \<longleftrightarrow> list_all (\<lambda>c. case c of None \<Rightarrow> False | Some s \<Rightarrow> s \<noteq> [] \<and> nulfree s) cs"

definition contents_of :: "string option list \<Rightarrow> string" where
  "contents_of cs = concat (map (case_option [] id) cs)"

lemma read_chunk_good:
  assumes "good_chunks cs" and "cs \<noteq> []" and "0 < n"
  obtains c s cs' where "read_chunk n cs = (Some (c # s), cs')" "good_chunks cs'"
    "contents_of cs = c # s @ contents_of cs'" "nulfree (c # s)"
proof -
  obtain ch r where cs: "cs = Some ch # r" using assms(1,2) by (cases cs) (auto simp: good_chunks_def split: option.splits)
  then obtain c u where ch: "ch = c # u" using assms(1) by (cases ch) (auto simp: good_chunks_def)
  obtain m where m: "n = Suc m" using assms(3) by (cases n) auto
  let ?r = "if length ch \<le> n then r else Some (drop n ch) # r"
  have nf: "nulfree ch" using assms(1) cs by (simp add: good_chunks_def)
  show ?thesis
  proof (rule that [of c "take m u" ?r])
    show "read_chunk n cs = (Some (c # take m u), ?r)" using cs ch m by simp
    show "good_chunks ?r" using assms(1) cs nulfree_drop [OF nf, of n] by (auto simp: good_chunks_def)
    show "contents_of cs = c # take m u @ contents_of ?r" using cs ch m by (auto simp: contents_of_def)
    show "nulfree (c # take m u)" using nf ch set_take_subset [of m u] by (auto simp: nulfree_def)
  qed
qed

text \<open>The lines before the first one that does not fit the buffer.\<close>

definition fitting :: "string list \<Rightarrow> string list" where
  "fitting ls = takeWhile (\<lambda>l. length l < GREPBUF - 1) ls"

lemma fitting_append: "(\<And>l. l \<in> set as \<Longrightarrow> length l < GREPBUF - 1) \<Longrightarrow> fitting (as @ bs) = as @ fitting bs"
  by (simp add: fitting_def)

lemma split_lines_shorter: "l \<in> set (fst (split_lines s)) \<Longrightarrow> length l < length s"
  by (induction s arbitrary: l) (fastforce split: prod.splits list.splits if_splits)+

lemma read_chunk_length: "read_chunk n cs = (Some s, cs') \<Longrightarrow> length s \<le> n"
  by (induction n cs rule: read_chunk.induct) auto

lemma grep_loop_selected:
  assumes "good_chunks cs" and "nulfree b" and "CHR 0x0A \<notin> set b"
  shows "grep_loop pattern b cs = selected pattern (fitting (fst (split_lines (b @ contents_of cs))))"
  using assms
proof (induction pattern b cs rule: grep_loop.induct)
  case (1 pattern b cs)
  show ?case
  proof (cases "cs = []")
    case True
    then show ?thesis using split_lines_no_newline [OF "1.prems"(3)]
      by (subst grep_loop.simps) (simp add: contents_of_def selected_def fitting_def)
  next
    case ne: False
    show ?thesis
    proof (cases "length b < GREPBUF - 1")
      case False
      then have "read_chunk (GREPBUF - length b - 1) cs = (Some [], cs)"
        using "1.prems"(1) ne by (cases cs) (auto simp: good_chunks_def split: option.splits)
      moreover have "fitting (fst (split_lines (b @ contents_of cs))) = []"
        using False split_lines_part [OF "1.prems"(3), of "contents_of cs"] by (auto simp: fitting_def split: prod.splits list.splits)
      ultimately show ?thesis by (subst grep_loop.simps) (simp add: selected_def)
    next
      case True
      then have n: "0 < GREPBUF - length b - 1" by simp
      obtain c s cs' where R: "read_chunk (GREPBUF - length b - 1) cs = (Some (c # s), cs')" "good_chunks cs'"
        "contents_of cs = c # s @ contents_of cs'" "nulfree (c # s)"
        by (rule read_chunk_good [OF "1.prems"(1) ne n])
      let ?p = "b @ c # s"
      have np: "nulfree ?p" using "1.prems"(2) R(4) by simp
      let ?t = "snd (split_lines ?p)"
      have eq: "grep_loop pattern b cs = selected pattern (fst (split_lines ?p)) @ grep_loop pattern ?t cs'"
        using R(1) grep_lines_selected [OF np] by (subst grep_loop.simps) simp
      have "fst (split_lines (b @ contents_of cs)) = fst (split_lines ?p) @ fst (split_lines (?t @ contents_of cs'))"
        using split_lines_append [of ?p "contents_of cs'"] R(3) by (simp split: prod.splits)
      moreover have "length ?p \<le> GREPBUF - 1" using read_chunk_length [OF R(1)] True by simp
      then have "length l < GREPBUF - 1" if "l \<in> set (fst (split_lines ?p))" for l using split_lines_shorter [OF that] by linarith
      ultimately have sp: "fitting (fst (split_lines (b @ contents_of cs))) =
          fst (split_lines ?p) @ fitting (fst (split_lines (?t @ contents_of cs')))" by (simp add: fitting_append)
      have "set ?t \<subseteq> set ?p" by (rule split_lines_subset)
      then have "nulfree ?t" using np by (auto simp: nulfree_def)
      then have "grep_loop pattern ?t cs' = selected pattern (fitting (fst (split_lines (?t @ contents_of cs'))))"
        using "1.IH" [OF R(1) [symmetric] refl refl grep_lines_selected [OF np, symmetric]] R(2) split_lines_tail by blast
      then show ?thesis using eq sp by simp
    qed
  qed
qed

text \<open>
  C18: what \<open>grep\<close> prints. When every read delivers text without NUL bytes and none fails, the output is the complete lines that \<open>match\<close> accepts, in order and each
  with its newline, up to the first line of 1023 bytes or more: that line does not fit the buffer, and \<open>grep\<close> stops there as if the file had ended. How
  \<open>read\<close> cut the text into pieces makes no difference. Text after the last newline is never printed.
\<close>

theorem grep_prints_matching_lines:
  assumes "good_chunks cs"
  shows "grep pattern cs = selected pattern (fitting (fst (split_lines (contents_of cs))))"
  using grep_loop_selected [OF assms, of "[]" pattern] by (simp add: grep_def)

theorem grep_prints_matching_lines_witness:
  "grep ''b'' [Some ''a'', Some [CHR ''b'', CHR 0x0A, CHR ''c''], Some [CHR 0x0A, CHR ''b'']] =
    [CHR ''a'', CHR ''b'', CHR 0x0A]"
proof -
  let ?cs = "[Some ''a'', Some [CHR ''b'', CHR 0x0A, CHR ''c''], Some [CHR 0x0A, CHR ''b'']]"
  have "grep ''b'' ?cs = selected ''b'' (fitting (fst (split_lines (contents_of ?cs))))"
    by (rule grep_prints_matching_lines) (simp_all add: good_chunks_def contents_of_def NUL_def)
  then show ?thesis
    by (simp add: contents_of_def selected_def fitting_def match_def match_scan.simps matchhere.simps)
qed

end
