(* ===== verification/Xv6_Printf.thy ===== *)
theory Xv6_Printf
  imports Xv6_Spinlock
begin

text \<open>
  Formatted output: the kernel's \<^verbatim>\<open>kernel/printf.c\<close> and user space's \<^verbatim>\<open>user/printf.c\<close>. Both
  format into a sequence of single-character outputs (\<open>consputc\<close>, \<open>putc\<close>); the model returns that
  sequence. The variable arguments are a list of 64-bit slots, as the RISC-V calling convention
  passes them; a slot used as a string is a null pointer or the string it points to. Writing past
  the end of \<^verbatim>\<open>char buf[16]\<close> and reading a missing argument are faults.
\<close>

datatype varg = VNum u64 | VStr "string option"

definition va_arg :: "varg list \<Rightarrow> (u64 \<times> varg list) res" where
  "va_arg ap = (case ap of VNum x # r \<Rightarrow> Ok (x, r) | _ \<Rightarrow> Fail (Fault ''va_arg''))"

text \<open>\<^verbatim>\<open>va_arg(ap, int)\<close>: the low half of the slot, sign-extended where it becomes a \<^verbatim>\<open>long long\<close>.\<close>

definition va_int :: "varg list \<Rightarrow> (u64 \<times> varg list) res" where
  "va_int ap = rbind (va_arg ap) (\<lambda>(x, r). Ok (scast (ucast x :: u32), r))"

definition va_str :: "varg list \<Rightarrow> (string \<times> varg list) res" where
  "va_str ap = (case ap of VStr s # r \<Rightarrow> Ok (case s of None \<Rightarrow> ''(null)'' | Some t \<Rightarrow> t, r) | _ \<Rightarrow> Fail (Fault ''va_arg''))"

section \<open>Integers\<close>

definition kdigits :: string where [simp]: "kdigits = ''0123456789abcdef''"
definition udigits :: string where [simp]: "udigits = ''0123456789ABCDEF''"

text \<open>The do-while loop that fills \<open>buf\<close>; \<open>buf\<close> holds the characters stored so far, \<open>i\<close> is their number.\<close>

function printint_loop :: "string \<Rightarrow> 'a::len word \<Rightarrow> 'a word \<Rightarrow> string \<Rightarrow> string res" where
  "printint_loop digits x base buf =
     (if 16 \<le> length buf then Fail (Fault ''printint: buf'')
      else if x div base \<noteq> 0 then printint_loop digits (x div base) base (buf @ [digits ! unat (x mod base)])
      else Ok (buf @ [digits ! unat (x mod base)]))"
  by pat_completeness auto
termination by (relation "measure (\<lambda>(d, x, b, buf). 16 - length buf)") auto

declare printint_loop.simps [simp del]

definition put_sign :: "bool \<Rightarrow> string \<Rightarrow> string res" where
  "put_sign neg buf =
     (if neg then if 16 \<le> length buf then Fail (Fault ''printint: buf'') else Ok (buf @ ''-'') else Ok buf)"

definition printint :: "u64 \<Rightarrow> u64 \<Rightarrow> bool \<Rightarrow> string res" where
  "printint xx base sign =
     (let neg = sign \<and> xx <s 0; x = if neg then - xx else xx in
      rbind (printint_loop kdigits x base []) (\<lambda>buf. rbind (put_sign neg buf) (\<lambda>buf. Ok (rev buf))))"

text \<open>User space's \<open>printint\<close> takes an \<^verbatim>\<open>int\<close>.\<close>

definition uprintint :: "u32 \<Rightarrow> u32 \<Rightarrow> bool \<Rightarrow> string res" where
  "uprintint xx base sg =
     (let neg = sg \<and> xx <s 0; x = if neg then - xx else xx in
      rbind (printint_loop udigits x base []) (\<lambda>buf. rbind (put_sign neg buf) (\<lambda>buf. Ok (rev buf))))"

primrec printptr_loop :: "string \<Rightarrow> nat \<Rightarrow> u64 \<Rightarrow> string" where
  "printptr_loop digits 0 x = []"
| "printptr_loop digits (Suc n) x = digits ! unat (drop_bit 60 x) # printptr_loop digits n (push_bit 4 x)"

definition printptr :: "u64 \<Rightarrow> string" where
  "printptr x = ''0x'' @ printptr_loop kdigits 16 x"

definition uprintptr :: "u64 \<Rightarrow> string" where
  "uprintptr x = ''0x'' @ printptr_loop udigits 16 x"

section \<open>The kernel's printf\<close>

text \<open>\<^verbatim>\<open>fmt[k]\<close> of what is left of the format, the terminating NUL included.\<close>

definition fmt_at :: "string \<Rightarrow> nat \<Rightarrow> char" where
  "fmt_at fmt k = (if k < length fmt then fmt ! k else CHR 0x00)"

lemma fmt_at_simps [simp]: "fmt_at [] k = CHR 0x00" "fmt_at (c # s) 0 = c" "fmt_at (c # s) (Suc k) = fmt_at s k"
  by (simp_all add: fmt_at_def)

lemma fmt_at_numerals [simp]: "fmt_at (c # s) 1 = fmt_at s 0" "fmt_at (c # s) 2 = fmt_at s 1"
  by (simp_all add: fmt_at_def)

definition emit :: "string res \<Rightarrow> (unit \<Rightarrow> string res) \<Rightarrow> string res" where
  "emit out k = rbind out (\<lambda>s. rbind (k ()) (\<lambda>t. Ok (s @ t)))"

lemma emit_simps [simp]: "emit (Ok s) k = rbind (k ()) (\<lambda>t. Ok (s @ t))" "emit (Fail e) k = Fail e"
  by (simp_all add: emit_def)

lemma emit_cong [fundef_cong]: "a = a' \<Longrightarrow> k () = k' () \<Longrightarrow> emit a k = emit a' k'"
  by (simp add: emit_def)

function (sequential) printf_loop :: "string \<Rightarrow> varg list \<Rightarrow> string res" where
  "printf_loop [] ap = Ok []"
| "printf_loop (cx # fmt) ap =
     (if cx = CHR 0x00 then Ok []
      else if cx \<noteq> CHR ''%'' then emit (Ok [cx]) (\<lambda>_. printf_loop fmt ap)
      else
        let c0 = fmt_at fmt 0;
            c1 = if c0 \<noteq> CHR 0x00 then fmt_at fmt 1 else CHR 0x00;
            c2 = if c1 \<noteq> CHR 0x00 then fmt_at fmt 2 else CHR 0x00
        in if c0 = CHR ''d'' then
             rbind (va_int ap) (\<lambda>(x, ap). emit (printint x 10 True) (\<lambda>_. printf_loop (drop 1 fmt) ap))
           else if c0 = CHR ''l'' \<and> c1 = CHR ''d'' then
             rbind (va_arg ap) (\<lambda>(x, ap). emit (printint x 10 True) (\<lambda>_. printf_loop (drop 2 fmt) ap))
           else if c0 = CHR ''l'' \<and> c1 = CHR ''l'' \<and> c2 = CHR ''d'' then
             rbind (va_arg ap) (\<lambda>(x, ap). emit (printint x 10 True) (\<lambda>_. printf_loop (drop 3 fmt) ap))
           else if c0 = CHR ''u'' then
             rbind (va_int ap) (\<lambda>(x, ap). emit (printint x 10 False) (\<lambda>_. printf_loop (drop 1 fmt) ap))
           else if c0 = CHR ''l'' \<and> c1 = CHR ''u'' then
             rbind (va_arg ap) (\<lambda>(x, ap). emit (printint x 10 False) (\<lambda>_. printf_loop (drop 2 fmt) ap))
           else if c0 = CHR ''l'' \<and> c1 = CHR ''l'' \<and> c2 = CHR ''u'' then
             rbind (va_arg ap) (\<lambda>(x, ap). emit (printint x 10 False) (\<lambda>_. printf_loop (drop 3 fmt) ap))
           else if c0 = CHR ''x'' then
             rbind (va_int ap) (\<lambda>(x, ap). emit (printint x 16 False) (\<lambda>_. printf_loop (drop 1 fmt) ap))
           else if c0 = CHR ''l'' \<and> c1 = CHR ''x'' then
             rbind (va_arg ap) (\<lambda>(x, ap). emit (printint x 16 False) (\<lambda>_. printf_loop (drop 2 fmt) ap))
           else if c0 = CHR ''l'' \<and> c1 = CHR ''l'' \<and> c2 = CHR ''x'' then
             rbind (va_arg ap) (\<lambda>(x, ap). emit (printint x 16 False) (\<lambda>_. printf_loop (drop 3 fmt) ap))
           else if c0 = CHR ''p'' then
             rbind (va_arg ap) (\<lambda>(x, ap). emit (Ok (printptr x)) (\<lambda>_. printf_loop (drop 1 fmt) ap))
           else if c0 = CHR ''s'' then
             rbind (va_str ap) (\<lambda>(s, ap). emit (Ok s) (\<lambda>_. printf_loop (drop 1 fmt) ap))
           else if c0 = CHR ''%'' then emit (Ok ''%'') (\<lambda>_. printf_loop (drop 1 fmt) ap)
           else if c0 = CHR 0x00 then Ok []
           else emit (Ok [CHR ''%'', c0]) (\<lambda>_. printf_loop (drop 1 fmt) ap))"
  by pat_completeness auto
termination by (relation "measure (\<lambda>(fmt, ap). length fmt)") auto

declare printf_loop.simps(2) [simp del]

record pr_state =
  pr_lock :: spinlock
  locking :: bool
  panicked :: bool

definition printfinit :: "pr_state \<Rightarrow> pr_state" where
  "printfinit pr = pr\<lparr>pr_lock := initlock ''pr'', locking := True\<rparr>"

text \<open>With \<open>locking\<close> set the call runs between \<open>acquire\<close> and \<open>release\<close> of \<^verbatim>\<open>pr.lock\<close>.\<close>

definition printf :: "pr_state \<Rightarrow> nat \<Rightarrow> cpu \<Rightarrow> string \<Rightarrow> varg list \<Rightarrow> (int \<times> string \<times> pr_state \<times> cpu) res" where
  "printf pr c k fmt ap =
     (if locking pr then
        rbind (acquire (pr_lock pr) c k) (\<lambda>(l1, k1).
        rbind (printf_loop fmt ap) (\<lambda>out.
        rbind (release l1 c k1) (\<lambda>(l2, k2). Ok (0, out, pr\<lparr>pr_lock := l2\<rparr>, k2))))
      else rbind (printf_loop fmt ap) (\<lambda>out. Ok (0, out, pr, k)))"

text \<open>\<open>panic\<close> never returns: the state and the output in which it stays.\<close>

definition panic :: "pr_state \<Rightarrow> nat \<Rightarrow> cpu \<Rightarrow> string \<Rightarrow> (string \<times> pr_state \<times> cpu) res" where
  "panic pr c k s =
     (let pr0 = pr\<lparr>locking := False\<rparr> in
      rbind (printf pr0 c k ''panic: '' []) (\<lambda>(_, o1, pr1, k1).
      rbind (printf pr1 c k1 (''%s'' @ [CHR 0x0A]) [VStr (Some s)]) (\<lambda>(_, o2, pr2, k2).
        Ok (o1 @ o2, pr2\<lparr>panicked := True\<rparr>, k2))))"

section \<open>User space's vprintf\<close>

text \<open>\<open>st\<close> is the variable \<^verbatim>\<open>state == '%'\<close>.\<close>

function (sequential) vprintf_loop :: "bool \<Rightarrow> string \<Rightarrow> varg list \<Rightarrow> string res" where
  "vprintf_loop st [] ap = Ok []"
| "vprintf_loop st (c0 # fmt) ap =
     (if c0 = CHR 0x00 then Ok []
      else if \<not> st then
        if c0 = CHR ''%'' then vprintf_loop True fmt ap
        else emit (Ok [c0]) (\<lambda>_. vprintf_loop False fmt ap)
      else
        let c1 = fmt_at fmt 0;
            c2 = if c1 \<noteq> CHR 0x00 then fmt_at fmt 1 else CHR 0x00
        in if c0 = CHR ''d'' then
             rbind (va_int ap) (\<lambda>(x, ap). emit (uprintint (ucast x) 10 True) (\<lambda>_. vprintf_loop False fmt ap))
           else if c0 = CHR ''l'' \<and> c1 = CHR ''d'' then
             rbind (va_arg ap) (\<lambda>(x, ap). emit (uprintint (ucast x) 10 True) (\<lambda>_. vprintf_loop False (drop 1 fmt) ap))
           else if c0 = CHR ''l'' \<and> c1 = CHR ''l'' \<and> c2 = CHR ''d'' then
             rbind (va_arg ap) (\<lambda>(x, ap). emit (uprintint (ucast x) 10 True) (\<lambda>_. vprintf_loop False (drop 2 fmt) ap))
           else if c0 = CHR ''u'' then
             rbind (va_int ap) (\<lambda>(x, ap). emit (uprintint (ucast x) 10 False) (\<lambda>_. vprintf_loop False fmt ap))
           else if c0 = CHR ''l'' \<and> c1 = CHR ''u'' then
             rbind (va_arg ap) (\<lambda>(x, ap). emit (uprintint (ucast x) 10 False) (\<lambda>_. vprintf_loop False (drop 1 fmt) ap))
           else if c0 = CHR ''l'' \<and> c1 = CHR ''l'' \<and> c2 = CHR ''u'' then
             rbind (va_arg ap) (\<lambda>(x, ap). emit (uprintint (ucast x) 10 False) (\<lambda>_. vprintf_loop False (drop 2 fmt) ap))
           else if c0 = CHR ''x'' then
             rbind (va_int ap) (\<lambda>(x, ap). emit (uprintint (ucast x) 16 False) (\<lambda>_. vprintf_loop False fmt ap))
           else if c0 = CHR ''l'' \<and> c1 = CHR ''x'' then
             rbind (va_arg ap) (\<lambda>(x, ap). emit (uprintint (ucast x) 16 False) (\<lambda>_. vprintf_loop False (drop 1 fmt) ap))
           else if c0 = CHR ''l'' \<and> c1 = CHR ''l'' \<and> c2 = CHR ''x'' then
             rbind (va_arg ap) (\<lambda>(x, ap). emit (uprintint (ucast x) 16 False) (\<lambda>_. vprintf_loop False (drop 2 fmt) ap))
           else if c0 = CHR ''p'' then
             rbind (va_arg ap) (\<lambda>(x, ap). emit (Ok (uprintptr x)) (\<lambda>_. vprintf_loop False fmt ap))
           else if c0 = CHR ''s'' then
             rbind (va_str ap) (\<lambda>(s, ap). emit (Ok s) (\<lambda>_. vprintf_loop False fmt ap))
           else if c0 = CHR ''%'' then emit (Ok ''%'') (\<lambda>_. vprintf_loop False fmt ap)
           else emit (Ok [CHR ''%'', c0]) (\<lambda>_. vprintf_loop False fmt ap))"
  by pat_completeness auto
termination by (relation "measure (\<lambda>(st, fmt, ap). length fmt)") auto

declare vprintf_loop.simps(2) [simp del]

definition vprintf :: "string \<Rightarrow> varg list \<Rightarrow> string res" where
  "vprintf fmt ap = vprintf_loop False fmt ap"

text \<open>\<open>fprintf\<close> sends the output to descriptor \<open>fd\<close>, \<open>printf\<close> to descriptor 1.\<close>

definition fprintf :: "int \<Rightarrow> string \<Rightarrow> varg list \<Rightarrow> (int \<times> string) res" where
  "fprintf fd fmt ap = rbind (vprintf fmt ap) (\<lambda>out. Ok (fd, out))"

definition uprintf :: "string \<Rightarrow> varg list \<Rightarrow> (int \<times> string) res" where
  "uprintf fmt ap = rbind (vprintf fmt ap) (\<lambda>out. Ok (1, out))"

section \<open>Digits\<close>

text \<open>The number a string of digits denotes, most significant digit first.\<close>

definition dval :: "char \<Rightarrow> nat" where
  "dval c = (let n = of_char c in if n \<le> 57 then n - 48 else if n \<le> 70 then n - 55 else n - 87)"

definition numval :: "nat \<Rightarrow> string \<Rightarrow> nat" where
  "numval b s = foldl (\<lambda>a c. a * b + dval c) 0 s"

definition is_digit :: "nat \<Rightarrow> char \<Rightarrow> bool" where
  "is_digit b c \<longleftrightarrow> dval c < b \<and> (c \<in> set kdigits \<or> c \<in> set udigits)"

definition canonical :: "nat \<Rightarrow> string \<Rightarrow> bool" where
  "canonical b t \<longleftrightarrow> t \<noteq> [] \<and> list_all (is_digit b) t \<and> (hd t = CHR ''0'' \<longrightarrow> t = ''0'')"

primrec rval :: "nat \<Rightarrow> string \<Rightarrow> nat" where
  "rval b [] = 0"
| "rval b (c # s) = dval c + b * rval b s"

lemma numval_snoc: "numval b (s @ [c]) = numval b s * b + dval c"
  by (simp add: numval_def)

lemma numval_rev: "numval b (rev s) = rval b s"
  by (induction s) (simp add: numval_def, simp add: numval_snoc)

definition digit_table :: "string \<Rightarrow> bool" where
  "digit_table d \<longleftrightarrow> d = kdigits \<or> d = udigits"

lemma digit_tables [simp]: "digit_table kdigits" "digit_table udigits"
  by (simp_all add: digit_table_def del: kdigits_def udigits_def)

lemma table_digit:
  assumes "digit_table d" and "n < 16"
  shows "dval (d ! n) = n" and "d ! n = CHR ''0'' \<longleftrightarrow> n = 0" and "is_digit b (d ! n) \<longleftrightarrow> n < b"
proof -
  have "list_all (\<lambda>n. dval (kdigits ! n) = n \<and> (kdigits ! n = CHR ''0'' \<longleftrightarrow> n = 0)) [0..<16]"
    "list_all (\<lambda>n. dval (udigits ! n) = n \<and> (udigits ! n = CHR ''0'' \<longleftrightarrow> n = 0)) [0..<16]"
    by (simp_all add: dval_def upt_rec)
  moreover have "n \<in> set [0..<16]" using assms(2) by simp
  ultimately show dv: "dval (d ! n) = n" and "d ! n = CHR ''0'' \<longleftrightarrow> n = 0"
    using assms(1) unfolding digit_table_def list_all_iff by metis+
  have "length d = 16" using assms(1) by (auto simp: digit_table_def)
  then have "d ! n \<in> set d" using assms(2) by simp
  then show "is_digit b (d ! n) \<longleftrightarrow> n < b"
    using assms(1) dv unfolding is_digit_def digit_table_def by (auto simp del: kdigits_def udigits_def)
qed

lemma printint_loop_ok:
  fixes x base :: "'a::len word"
  assumes "digit_table d" and "2 \<le> unat base" and "unat base \<le> 16"
    and "length buf + Suc k \<le> 16" and "unat x < unat base ^ Suc k"
  shows "\<exists>t. printint_loop d x base buf = Ok (buf @ t) \<and> rval (unat base) t = unat x \<and> length t \<le> Suc k \<and>
    canonical (unat base) (rev t) \<and> (unat x \<noteq> 0 \<longrightarrow> last t \<noteq> CHR ''0'')"
  using assms(4,5)
proof (induction k arbitrary: x buf)
  case 0
  let ?c = "d ! unat (x mod base)"
  have x: "unat x < unat base" using 0 by simp
  then have "x < base" by (simp add: word_less_nat_alt)
  then have m: "x mod base = x" "x div base = 0" by (simp_all add: word_arith_nat_mod word_arith_nat_div unat_mod x)
  have "unat x < 16" using x assms(3) by linarith
  note D = table_digit(1,2) [OF assms(1) this] table_digit(3) [OF assms(1) this, of "unat base"]
  have "printint_loop d x base buf = Ok (buf @ [?c])" using m 0 by (subst printint_loop.simps) simp
  then show ?case using D x m assms(3) by (intro exI [of _ "[?c]"]) (auto simp: canonical_def)
next
  case (Suc k)
  let ?B = "unat base"
  let ?c = "d ! unat (x mod base)"
  let ?y = "x div base"
  have m: "unat (x mod base) = unat x mod ?B" "unat ?y = unat x div ?B" by (simp_all add: unat_mod unat_div)
  have lt: "unat x mod ?B < ?B" using assms(2) by simp
  then have "unat x mod ?B < 16" using assms(3) by linarith
  note D = table_digit(1,2) [OF assms(1) this] table_digit(3) [OF assms(1) this, of ?B]
  show ?case
  proof (cases "?y = 0")
    case True
    then have "unat x div ?B = 0" using m(2) by simp
    then have "unat x < ?B" using assms(2) by (simp add: div_eq_0_iff)
    then have "rval ?B [?c] = unat x" using D m by simp
    moreover have "printint_loop d x base buf = Ok (buf @ [?c])" using True Suc.prems by (subst printint_loop.simps) simp
    ultimately show ?thesis using D m lt by (intro exI [of _ "[?c]"]) (auto simp: canonical_def)
  next
    case False
    then have y0: "unat ?y \<noteq> 0" by (simp add: unat_eq_0)
    have step: "printint_loop d x base buf = printint_loop d ?y base (buf @ [?c])"
      using False Suc.prems by (subst printint_loop.simps) simp
    have "unat x < ?B * ?B ^ Suc k" using Suc.prems(2) by simp
    then have "unat ?y < ?B ^ Suc k" using m(2) by (simp add: less_mult_imp_div_less mult.commute)
    then obtain t where t: "printint_loop d ?y base (buf @ [?c]) = Ok (buf @ [?c] @ t)" "rval ?B t = unat ?y"
      "length t \<le> Suc k" "canonical ?B (rev t)" "last t \<noteq> CHR ''0''"
      using Suc.IH [of "buf @ [?c]" ?y] Suc.prems(1) y0 by auto
    have "rval ?B (?c # t) = unat x" using t(2) D(1) m by simp
    moreover have "canonical ?B (rev (?c # t))" using t(4,5) D lt m by (auto simp: canonical_def hd_append hd_rev)
    ultimately show ?thesis using t step by (intro exI [of _ "?c # t"]) (auto simp: canonical_def)
  qed
qed

lemma printint_loop_overflow:
  fixes x base :: "'a::len word"
  assumes "2 \<le> unat base" and "length buf \<le> 16" and "unat base ^ (16 - length buf) \<le> unat x"
  shows "printint_loop d x base buf = Fail (Fault ''printint: buf'')"
  using assms(2,3)
proof (induction "16 - length buf" arbitrary: x buf)
  case 0
  then show ?case by (subst printint_loop.simps) simp
next
  case (Suc k)
  have e: "16 - length buf = Suc k" using Suc.hyps(2) by simp
  have "unat base ^ k \<le> unat x div unat base"
    using Suc.prems(2) assms(1) unfolding e by (simp add: less_eq_div_iff_mult_less_eq mult.commute)
  then have y: "unat base ^ k \<le> unat (x div base)" by (simp add: unat_div)
  moreover have "0 < unat base ^ k" using assms(1) by simp
  ultimately have "x div base \<noteq> 0" by (metis less_le_trans less_not_refl unat_0)
  then have "printint_loop d x base buf = printint_loop d (x div base) base (buf @ [d ! unat (x mod base)])"
    using e by (subst printint_loop.simps) auto
  also have "\<dots> = Fail (Fault ''printint: buf'')"
    by (rule Suc.hyps(1)) (use e y in \<open>auto simp: diff_Suc split: nat.splits\<close>)
  finally show ?case .
qed

lemma unat_abs_sint:
  fixes x :: "'a::len word"
  shows "unat (if x <s 0 then - x else x) = nat \<bar>sint x\<bar>"
proof (cases "sint x < 0")
  case True
  have "- x = word_of_int (- sint x)" by simp
  moreover have "0 \<le> - sint x" "- sint x \<le> 2 ^ (LENGTH('a) - 1)" using True sint_ge [of x] by simp_all
  moreover have "(2 :: int) ^ (LENGTH('a) - 1) < 2 ^ LENGTH('a)" by simp
  ultimately have "uint (- x) = - sint x" by (metis uint_word_of_int mod_pos_pos_trivial order_le_less_trans)
  then show ?thesis using True by (simp add: word_sless_alt unat_eq_nat_uint)
next
  case False
  have "0 \<le> sint x" "sint x < 2 ^ (LENGTH('a) - 1)" using False sint_lt [of x] by simp_all
  moreover have "(2 :: int) ^ (LENGTH('a) - 1) < 2 ^ LENGTH('a)" by simp
  moreover have "x = word_of_int (sint x)" by simp
  ultimately have "uint x = sint x" by (metis uint_word_of_int mod_pos_pos_trivial less_trans)
  then show ?thesis using False by (simp add: word_sless_alt unat_eq_nat_uint)
qed

lemma put_sign_ok: "length buf < 16 \<or> \<not> neg \<Longrightarrow> put_sign neg buf = Ok (if neg then buf @ ''-'' else buf)"
  by (auto simp: put_sign_def)

text \<open>The printed form of a number that fits.\<close>

lemma print_digits:
  fixes xx base :: "'a::len word"
  assumes "digit_table d" and "2 \<le> unat base" and "unat base \<le> 16"
    and "neg \<longleftrightarrow> sign \<and> xx <s 0" and "x = (if neg then - xx else xx)"
    and "unat x < unat base ^ (if neg then 15 else 16)"
  shows "\<exists>t. rbind (printint_loop d x base []) (\<lambda>buf. rbind (put_sign neg buf) (\<lambda>buf. Ok (rev buf))) =
      Ok (if neg then CHR ''-'' # t else t) \<and> numval (unat base) t = unat x \<and> canonical (unat base) t"
proof -
  define k where "k = (if neg then 14 else 15 :: nat)"
  have "unat x < unat base ^ Suc k" using assms(6) by (simp add: k_def numeral_eq_Suc split: if_splits)
  then obtain t where t: "printint_loop d x base [] = Ok t" "rval (unat base) t = unat x" "length t \<le> Suc k"
    "canonical (unat base) (rev t)"
    using printint_loop_ok [OF assms(1-3), of "[]" k x] by (auto simp: k_def split: if_splits)
  have "put_sign neg t = Ok (if neg then t @ ''-'' else t)" using t(3) by (intro put_sign_ok) (auto simp: k_def)
  then show ?thesis using t by (intro exI [of _ "rev t"]) (auto simp: numval_rev)
qed

text \<open>
  C32: signed decimal output is right. For every value whose digits and sign fit the 16-byte buffer,
  \<open>printint\<close> prints the minus sign exactly for negative numbers, then digits without leading zeros
  that denote the absolute value.
\<close>

theorem printint_decimal:
  assumes "- (10 ^ 15) < sint xx" and "sint xx < 10 ^ 16"
  shows "\<exists>t. printint xx 10 True = Ok (if sint xx < 0 then CHR ''-'' # t else t) \<and>
    numval 10 t = nat \<bar>sint xx\<bar> \<and> canonical 10 t"
proof -
  have n: "xx <s 0 \<longleftrightarrow> sint xx < 0" by (simp add: word_sless_alt)
  have "unat (if xx <s 0 then - xx else xx) < unat (10 :: u64) ^ (if xx <s 0 then 15 else 16)"
    unfolding unat_abs_sint using assms n by auto
  then show ?thesis
    using print_digits [OF digit_tables(1), of "10 :: u64" "xx <s 0" True xx] unat_abs_sint [of xx] n
    by (simp add: printint_def Let_def)
qed

theorem printint_decimal_witness: "printint (- 42) 10 True = Ok ''-42'' \<and> (\<exists>t. printint (- 42) 10 True = Ok (CHR ''-'' # t) \<and> numval 10 t = 42)"
proof -
  have s: "sint (- 42 :: u64) = - 42" by simp
  then show ?thesis using printint_decimal [of "- 42"]
    by (simp add: printint_def Let_def printint_loop.simps put_sign_def word_sless_alt)
qed

lemma printint_overflow: "10 ^ 16 \<le> unat xx \<Longrightarrow> printint xx 10 False = Fail (Fault ''printint: buf'')"
  using printint_loop_overflow [of "10 :: u64" "[]" xx kdigits] by (simp add: printint_def Let_def)

text \<open>
  C33: unsigned decimal output overruns its buffer. \<open>printint\<close> writes past the end of \<^verbatim>\<open>buf[16]\<close> exactly for
  the values of 17 or more digits; up to there it prints the digits of the value. In particular
  \<^verbatim>\<open>%u\<close> of an \<^verbatim>\<open>int\<close> with the top bit set does, since the argument is sign-extended to 64 bits.
\<close>

theorem printint_unsigned:
  "if unat xx < 10 ^ 16 then \<exists>t. printint xx 10 False = Ok t \<and> numval 10 t = unat xx \<and> canonical 10 t
   else printint xx 10 False = Fail (Fault ''printint: buf'')"
proof (cases "unat xx < 10 ^ 16")
  case True
  then show ?thesis using print_digits [OF digit_tables(1), of "10 :: u64" False False xx xx]
    by (simp add: printint_def Let_def)
next
  case False
  then show ?thesis by (simp add: printint_overflow)
qed

lemma percent_u_faults: "printf_loop ''%u'' [VNum 0xffffffff] = Fail (Fault ''printint: buf'')"
proof -
  have "printint (scast (ucast (0xffffffff :: u64) :: u32)) 10 False = Fail (Fault ''printint: buf'')"
    by (rule printint_overflow) (simp add: unsigned_minus_1_eq_mask mask_eq_exp_minus_1)
  then show ?thesis by (simp add: printf_loop.simps va_int_def va_arg_def Let_def)
qed

section \<open>Directives\<close>

text \<open>The directives of a format, their spelling, and what each one prints.\<close>

datatype conv = Cd | Cu | Cx
datatype dir = Lit char | Num conv nat | Ptr | Str | Percent

fun conv_char :: "conv \<Rightarrow> char" where
  "conv_char Cd = CHR ''d''" | "conv_char Cu = CHR ''u''" | "conv_char Cx = CHR ''x''"

fun spell :: "dir \<Rightarrow> string" where
  "spell (Lit c) = [c]"
| "spell (Num k n) = CHR ''%'' # replicate n (CHR ''l'') @ [conv_char k]"
| "spell Ptr = ''%p''"
| "spell Str = ''%s''"
| "spell Percent = ''%%''"

fun dir_ok :: "dir \<Rightarrow> bool" where
  "dir_ok (Lit c) \<longleftrightarrow> c \<noteq> CHR ''%'' \<and> c \<noteq> CHR 0x00"
| "dir_ok (Num k n) \<longleftrightarrow> n \<le> 2"
| "dir_ok _ \<longleftrightarrow> True"

definition conv_base :: "conv \<Rightarrow> 'a::len word" where
  "conv_base k = (if k = Cx then 16 else 10)"

fun render :: "(u64 \<Rightarrow> conv \<Rightarrow> string res) \<Rightarrow> (u64 \<Rightarrow> string) \<Rightarrow> dir list \<Rightarrow> varg list \<Rightarrow> string res" where
  "render pint pptr [] ap = Ok []"
| "render pint pptr (Lit c # ds) ap = emit (Ok [c]) (\<lambda>_. render pint pptr ds ap)"
| "render pint pptr (Num k n # ds) ap =
     rbind (if n = 0 then va_int ap else va_arg ap) (\<lambda>(x, ap). emit (pint x k) (\<lambda>_. render pint pptr ds ap))"
| "render pint pptr (Ptr # ds) ap = rbind (va_arg ap) (\<lambda>(x, ap). emit (Ok (pptr x)) (\<lambda>_. render pint pptr ds ap))"
| "render pint pptr (Str # ds) ap = rbind (va_str ap) (\<lambda>(s, ap). emit (Ok s) (\<lambda>_. render pint pptr ds ap))"
| "render pint pptr (Percent # ds) ap = emit (Ok ''%'') (\<lambda>_. render pint pptr ds ap)"

definition spell_all :: "dir list \<Rightarrow> string" where
  "spell_all ds = concat (map spell ds)"

lemma spell_all_simps [simp]: "spell_all [] = []" "spell_all (d # ds) = spell d @ spell_all ds"
  by (simp_all add: spell_all_def)

lemma le_2_cases: "(n :: nat) \<le> 2 \<longleftrightarrow> n = 0 \<or> n = 1 \<or> n = 2"
  by auto

lemma printf_dirs:
  "printf_loop (CHR ''%'' # CHR ''d'' # s) ap = rbind (va_int ap) (\<lambda>(x, ap). emit (printint x 10 True) (\<lambda>_. printf_loop s ap))"
  "printf_loop (CHR ''%'' # CHR ''l'' # CHR ''d'' # s) ap = rbind (va_arg ap) (\<lambda>(x, ap). emit (printint x 10 True) (\<lambda>_. printf_loop s ap))"
  "printf_loop (CHR ''%'' # CHR ''l'' # CHR ''l'' # CHR ''d'' # s) ap = rbind (va_arg ap) (\<lambda>(x, ap). emit (printint x 10 True) (\<lambda>_. printf_loop s ap))"
  "printf_loop (CHR ''%'' # CHR ''u'' # s) ap = rbind (va_int ap) (\<lambda>(x, ap). emit (printint x 10 False) (\<lambda>_. printf_loop s ap))"
  "printf_loop (CHR ''%'' # CHR ''l'' # CHR ''u'' # s) ap = rbind (va_arg ap) (\<lambda>(x, ap). emit (printint x 10 False) (\<lambda>_. printf_loop s ap))"
  "printf_loop (CHR ''%'' # CHR ''l'' # CHR ''l'' # CHR ''u'' # s) ap = rbind (va_arg ap) (\<lambda>(x, ap). emit (printint x 10 False) (\<lambda>_. printf_loop s ap))"
  "printf_loop (CHR ''%'' # CHR ''x'' # s) ap = rbind (va_int ap) (\<lambda>(x, ap). emit (printint x 16 False) (\<lambda>_. printf_loop s ap))"
  "printf_loop (CHR ''%'' # CHR ''l'' # CHR ''x'' # s) ap = rbind (va_arg ap) (\<lambda>(x, ap). emit (printint x 16 False) (\<lambda>_. printf_loop s ap))"
  "printf_loop (CHR ''%'' # CHR ''l'' # CHR ''l'' # CHR ''x'' # s) ap = rbind (va_arg ap) (\<lambda>(x, ap). emit (printint x 16 False) (\<lambda>_. printf_loop s ap))"
  "printf_loop (CHR ''%'' # CHR ''p'' # s) ap = rbind (va_arg ap) (\<lambda>(x, ap). emit (Ok (printptr x)) (\<lambda>_. printf_loop s ap))"
  "printf_loop (CHR ''%'' # CHR ''s'' # s) ap = rbind (va_str ap) (\<lambda>(t, ap). emit (Ok t) (\<lambda>_. printf_loop s ap))"
  "printf_loop (CHR ''%'' # CHR ''%'' # s) ap = emit (Ok ''%'') (\<lambda>_. printf_loop s ap)"
  "c \<noteq> CHR ''%'' \<Longrightarrow> c \<noteq> CHR 0x00 \<Longrightarrow> printf_loop (c # s) ap = emit (Ok [c]) (\<lambda>_. printf_loop s ap)"
  by (subst printf_loop.simps, simp add: Let_def)+

lemma printf_loop_spell:
  "list_all dir_ok ds \<Longrightarrow>
   printf_loop (spell_all ds) ap = render (\<lambda>x k. printint x (conv_base k) (k = Cd)) printptr ds ap"
proof (induction ds arbitrary: ap)
  case (Cons d ds)
  then have IH: "printf_loop (spell_all ds) = render (\<lambda>x k. printint x (conv_base k) (k = Cd)) printptr ds" by auto
  show ?case
  proof (cases d)
    case (Num k n)
    then have "n = 0 \<or> n = 1 \<or> n = 2" using Cons.prems le_2_cases by simp
    then show ?thesis using Num by (cases k) (auto simp: printf_dirs IH conv_base_def numeral_2_eq_2)
  qed (use Cons.prems in \<open>auto simp: printf_dirs IH\<close>)
qed simp

lemma vprintf_dirs:
  "vprintf_loop False (CHR ''%'' # CHR ''d'' # s) ap = rbind (va_int ap) (\<lambda>(x, ap). emit (uprintint (ucast x) 10 True) (\<lambda>_. vprintf_loop False s ap))"
  "vprintf_loop False (CHR ''%'' # CHR ''l'' # CHR ''d'' # s) ap = rbind (va_arg ap) (\<lambda>(x, ap). emit (uprintint (ucast x) 10 True) (\<lambda>_. vprintf_loop False s ap))"
  "vprintf_loop False (CHR ''%'' # CHR ''l'' # CHR ''l'' # CHR ''d'' # s) ap = rbind (va_arg ap) (\<lambda>(x, ap). emit (uprintint (ucast x) 10 True) (\<lambda>_. vprintf_loop False s ap))"
  "vprintf_loop False (CHR ''%'' # CHR ''u'' # s) ap = rbind (va_int ap) (\<lambda>(x, ap). emit (uprintint (ucast x) 10 False) (\<lambda>_. vprintf_loop False s ap))"
  "vprintf_loop False (CHR ''%'' # CHR ''l'' # CHR ''u'' # s) ap = rbind (va_arg ap) (\<lambda>(x, ap). emit (uprintint (ucast x) 10 False) (\<lambda>_. vprintf_loop False s ap))"
  "vprintf_loop False (CHR ''%'' # CHR ''l'' # CHR ''l'' # CHR ''u'' # s) ap = rbind (va_arg ap) (\<lambda>(x, ap). emit (uprintint (ucast x) 10 False) (\<lambda>_. vprintf_loop False s ap))"
  "vprintf_loop False (CHR ''%'' # CHR ''x'' # s) ap = rbind (va_int ap) (\<lambda>(x, ap). emit (uprintint (ucast x) 16 False) (\<lambda>_. vprintf_loop False s ap))"
  "vprintf_loop False (CHR ''%'' # CHR ''l'' # CHR ''x'' # s) ap = rbind (va_arg ap) (\<lambda>(x, ap). emit (uprintint (ucast x) 16 False) (\<lambda>_. vprintf_loop False s ap))"
  "vprintf_loop False (CHR ''%'' # CHR ''l'' # CHR ''l'' # CHR ''x'' # s) ap = rbind (va_arg ap) (\<lambda>(x, ap). emit (uprintint (ucast x) 16 False) (\<lambda>_. vprintf_loop False s ap))"
  "vprintf_loop False (CHR ''%'' # CHR ''p'' # s) ap = rbind (va_arg ap) (\<lambda>(x, ap). emit (Ok (uprintptr x)) (\<lambda>_. vprintf_loop False s ap))"
  "vprintf_loop False (CHR ''%'' # CHR ''s'' # s) ap = rbind (va_str ap) (\<lambda>(t, ap). emit (Ok t) (\<lambda>_. vprintf_loop False s ap))"
  "vprintf_loop False (CHR ''%'' # CHR ''%'' # s) ap = emit (Ok ''%'') (\<lambda>_. vprintf_loop False s ap)"
  "c \<noteq> CHR ''%'' \<Longrightarrow> c \<noteq> CHR 0x00 \<Longrightarrow> vprintf_loop False (c # s) ap = emit (Ok [c]) (\<lambda>_. vprintf_loop False s ap)"
  by (subst vprintf_loop.simps, (subst vprintf_loop.simps)?, simp add: Let_def)+

lemma vprintf_loop_spell:
  "list_all dir_ok ds \<Longrightarrow>
   vprintf_loop False (spell_all ds) ap = render (\<lambda>x k. uprintint (ucast x) (conv_base k) (k = Cd)) uprintptr ds ap"
proof (induction ds arbitrary: ap)
  case (Cons d ds)
  then have IH: "vprintf_loop False (spell_all ds) = render (\<lambda>x k. uprintint (ucast x) (conv_base k) (k = Cd)) uprintptr ds"
    by auto
  show ?case
  proof (cases d)
    case (Num k n)
    then have "n = 0 \<or> n = 1 \<or> n = 2" using Cons.prems le_2_cases by simp
    then show ?thesis using Num by (cases k) (auto simp: vprintf_dirs IH conv_base_def numeral_2_eq_2)
  qed (use Cons.prems in \<open>auto simp: vprintf_dirs IH\<close>)
qed simp

text \<open>
  C34: the two formatters read the same language. On every format made of literals and the directives
  \<^verbatim>\<open>%d %u %x\<close>, with up to two \<^verbatim>\<open>l\<close>, \<^verbatim>\<open>%p %s %%\<close>, the kernel's \<open>printf\<close> and user space's \<open>vprintf\<close>,
  which parses with a state variable, print the same sequence of pieces for the same arguments. They
  differ only in the routine for one integer or pointer: lower or upper case digits, 64 or 32 bits.
\<close>

theorem formatters_agree:
  assumes "list_all dir_ok ds"
  shows "printf_loop (spell_all ds) ap = render (\<lambda>x k. printint x (conv_base k) (k = Cd)) printptr ds ap \<and>
    vprintf (spell_all ds) ap = render (\<lambda>x k. uprintint (ucast x) (conv_base k) (k = Cd)) uprintptr ds ap"
  using printf_loop_spell [OF assms] vprintf_loop_spell [OF assms] by (simp add: vprintf_def)

theorem formatters_agree_witness:
  "printf_loop ''a%d%s'' [VNum 7, VStr None] = Ok ''a7(null)'' \<and> vprintf ''a%d%s'' [VNum 7, VStr None] = Ok ''a7(null)''"
proof -
  have "''a%d%s'' = spell_all [Lit (CHR ''a''), Num Cd 0, Str]" by simp
  then show ?thesis using formatters_agree [of "[Lit (CHR ''a''), Num Cd 0, Str]" "[VNum 7, VStr None]"]
    by (simp add: va_int_def va_arg_def va_str_def printint_def uprintint_def printint_loop.simps put_sign_def conv_base_def
      Let_def word_sless_alt)
qed

end
