(* ===== verification/Xv6_Ulib.thy ===== *)
theory Xv6_Ulib
  imports Xv6_Printf Xv6_String
begin

text \<open>
  The user library \<^verbatim>\<open>user/ulib.c\<close>: its own copies of the string routines, \<open>atoi\<close>, \<open>gets\<close> and
  \<open>stat\<close>. Names that the kernel's \<^verbatim>\<open>string.c\<close> also has carry a \<open>u\<close>. Routines that run until a NUL
  have the value \<open>None\<close> where they never find one. System calls are arguments.
\<close>

partial_function (option) strcpy :: "mem \<Rightarrow> u64 \<Rightarrow> u64 \<Rightarrow> mem option" where
  "strcpy m s t = (if m t \<noteq> 0 then strcpy (m(s := m t)) (s + 1) (t + 1) else Some (m(s := 0)))"

partial_function (option) strcmp :: "mem \<Rightarrow> u64 \<Rightarrow> u64 \<Rightarrow> int option" where
  "strcmp m p q = (if m p \<noteq> 0 \<and> m p = m q then strcmp m (p + 1) (q + 1) else Some (uint (m p) - uint (m q)))"

definition ustrlen :: "mem \<Rightarrow> u64 \<Rightarrow> nat option" where
  "ustrlen m s = strlen_from m s 0"

definition umemset :: "mem \<Rightarrow> u64 \<Rightarrow> u32 \<Rightarrow> u32 \<Rightarrow> mem" where
  "umemset m dst c n = fold (\<lambda>i m. m(dst + of_nat i := ucast c)) [0..<unat n] m"

text \<open>\<^verbatim>\<open>n\<close> is an \<^verbatim>\<open>int\<close>: nothing is copied when it is not positive.\<close>

definition umemmove :: "mem \<Rightarrow> u64 \<Rightarrow> u64 \<Rightarrow> int \<Rightarrow> mem" where
  "umemmove m vdst vsrc n =
     (if vsrc > vdst then copy_up m vdst vsrc (nat n) else copy_down m vdst vsrc (nat n))"

definition umemcpy :: "mem \<Rightarrow> u64 \<Rightarrow> u64 \<Rightarrow> u32 \<Rightarrow> mem" where
  "umemcpy m dst src n = umemmove m dst src (sint n)"

definition umemcmp :: "mem \<Rightarrow> u64 \<Rightarrow> u64 \<Rightarrow> u32 \<Rightarrow> int" where
  "umemcmp m s1 s2 n = memcmp_loop m s1 s2 (unat n)"

text \<open>
  \<open>n\<close> is a signed \<^verbatim>\<open>int\<close>. The operands are never negative, so \<^verbatim>\<open>n*10 + *s++ - '0'\<close> overflows exactly when the sum does; what the program
  does then is not defined.
\<close>

primrec atoi_loop :: "int \<Rightarrow> string \<Rightarrow> int res" where
  "atoi_loop n [] = Ok n"
| "atoi_loop n (c # s) =
     (if 48 \<le> (of_char c :: int) \<and> (of_char c :: int) \<le> 57
      then if n * 10 + of_char c \<ge> 2 ^ 31 then Fail (Fault ''signed overflow'') else atoi_loop (n * 10 + of_char c - 48) s
      else Ok n)"

definition atoi :: "string \<Rightarrow> int res" where
  "atoi s = atoi_loop 0 s"

text \<open>\<open>input\<close>: the results of the one-byte reads on descriptor 0, \<open>None\<close> for a result below 1.\<close>

fun gets_loop :: "nat \<Rightarrow> string \<Rightarrow> char option list \<Rightarrow> string \<times> char option list" where
  "gets_loop mx buf input =
     (if length buf + 1 < mx then
        case input of
          [] \<Rightarrow> (buf, [])
        | None # rest \<Rightarrow> (buf, rest)
        | Some c # rest \<Rightarrow>
            if c = CHR 0x0A \<or> c = CHR 0x0D then (buf @ [c], rest) else gets_loop mx (buf @ [c]) rest
      else (buf, input))"

declare gets_loop.simps [simp del]

definition gets :: "nat \<Rightarrow> char option list \<Rightarrow> string \<times> char option list" where
  "gets mx input = gets_loop mx [] input"

definition stat_call ::
  "(string \<Rightarrow> int \<Rightarrow> 's \<Rightarrow> int \<times> 's) \<Rightarrow> (int \<Rightarrow> 's \<Rightarrow> (int \<times> 'st) \<times> 's) \<Rightarrow> (int \<Rightarrow> 's \<Rightarrow> int \<times> 's) \<Rightarrow>
   string \<Rightarrow> 's \<Rightarrow> (int \<times> 'st option) \<times> 's" where
  "stat_call op fstat close n w =
     (case op n 0 w of (fd, w1) \<Rightarrow>
        if fd < 0 then ((- 1, None), w1)
        else case fstat fd w1 of ((r, st), w2) \<Rightarrow> case close fd w2 of (_, w3) \<Rightarrow> ((r, Some st), w3))"

section \<open>Properties\<close>

lemma strcmp_cstr:
  "cstr m p a \<Longrightarrow> cstr m q b \<Longrightarrow> \<exists>r. strcmp m p q = Some r \<and> (r = 0 \<longleftrightarrow> a = b)"
proof (induction a arbitrary: p q b)
  case Nil
  then show ?case by (cases b) (auto simp: strcmp.simps [of m p q] unsigned_eq_0_iff)
next
  case (Cons x a)
  show ?case
  proof (cases b)
    case Nil
    then show ?thesis using Cons.prems by (auto simp: strcmp.simps [of m p q] unsigned_eq_0_iff)
  next
    case (Cons y c)
    then show ?thesis using Cons.prems Cons.IH [of "p + 1" "q + 1" c] \<open>cstr m p (x # a)\<close>
      by (auto simp: strcmp.simps [of m p q] dest: unsigned_word_eqI)
  qed
qed

lemma dec_digit:
  assumes "is_digit 10 c"
  shows "48 \<le> (of_char c :: int) \<and> (of_char c :: int) \<le> 57 \<and> of_char c = 48 + int (dval c)"
proof -
  have "list_all (\<lambda>c. 10 \<le> dval c \<or> 48 \<le> (of_char c :: nat) \<and> (of_char c :: nat) \<le> 57) (kdigits @ udigits)"
    by (simp add: dval_def)
  then have a: "48 \<le> (of_char c :: nat)" "(of_char c :: nat) \<le> 57"
    using assms unfolding is_digit_def list_all_iff by fastforce+
  then have "dval c = of_char c - 48" by (simp add: dval_def Let_def)
  moreover have "int (of_char c) = of_char c" by (simp add: of_nat_of_char)
  ultimately show ?thesis using a by linarith
qed

lemma digits_grow: "a \<le> foldl (\<lambda>a c. a * 10 + dval c) a s"
proof (induction s arbitrary: a)
  case (Cons c s)
  have "a \<le> a * 10 + dval c" by simp
  then show ?case using Cons.IH [of "a * 10 + dval c"] by simp
qed simp

lemma atoi_loop_digits:
  assumes "list_all (is_digit 10) s" and "a < 2 ^ 31 - 48"
  shows "atoi_loop (int a) s =
    (let v = foldl (\<lambda>a c. a * 10 + dval c) a s in if v < 2 ^ 31 - 48 then Ok (int v) else Fail (Fault ''signed overflow''))"
  using assms
proof (induction s arbitrary: a)
  case (Cons c s)
  have D: "48 \<le> (of_char c :: int)" "(of_char c :: int) \<le> 57" "of_char c = 48 + int (dval c)" using dec_digit [of c] Cons.prems(1) by simp_all
  let ?a = "a * 10 + dval c"
  have n: "int a * 10 + of_char c - 48 = int ?a" using D(3) by simp
  show ?case
  proof (cases "?a < 2 ^ 31 - 48")
    case True
    then have "int a * 10 + of_char c < 2 ^ 31" using D(3) by simp
    then have "atoi_loop (int a) (c # s) = atoi_loop (int a * 10 + of_char c - 48) s" using D by simp
    then have "atoi_loop (int a) (c # s) = atoi_loop (int ?a) s" unfolding n .
    then show ?thesis using Cons.IH [OF _ True] Cons.prems(1) by simp
  next
    case False
    then have "int a * 10 + of_char c \<ge> 2 ^ 31" using D(3) by simp
    then have "atoi_loop (int a) (c # s) = Fail (Fault ''signed overflow'')" using D by simp
    moreover have "\<not> foldl (\<lambda>a c. a * 10 + dval c) ?a s < 2 ^ 31 - 48" using False digits_grow [of ?a s] by linarith
    ultimately show ?thesis by (simp add: Let_def)
  qed
qed simp

text \<open>
  C35: printing and reading back. User space's \<open>printint\<close> never overruns its buffer, and \<open>atoi\<close> gives back every number it prints as long as the sum in
  \<open>atoi\<close> stays in a signed \<^verbatim>\<open>int\<close>, that is below \<^verbatim>\<open>2^31 - 48\<close>; for the text of a larger number that sum overflows. It does not read a sign: the text of a negative number gives 0.
\<close>

theorem atoi_printint:
  "\<exists>t. uprintint x 10 sg = Ok t \<and>
     atoi t = (if sg \<and> x <s 0 then Ok 0 else if unat x < 2 ^ 31 - 48 then Ok (uint x) else Fail (Fault ''signed overflow''))"
proof -
  define neg where "neg = (sg \<and> x <s 0)"
  define y where "y = (if neg then - x else x)"
  have "unat y < 2 ^ 32" using unat_less [of y] by simp
  then have "unat y < unat (10 :: u32) ^ (if neg then 15 else 16)" by simp
  then obtain t where t: "uprintint x 10 sg = Ok (if neg then CHR ''-'' # t else t)" "numval 10 t = unat y" "canonical 10 t"
    using print_digits [OF digit_tables(2), of "10 :: u32" neg sg x y] by (auto simp: uprintint_def Let_def neg_def y_def)
  have "atoi t = (if unat y < 2 ^ 31 - 48 then Ok (uint y) else Fail (Fault ''signed overflow''))"
    using atoi_loop_digits [of t 0] t(2,3) by (simp add: atoi_def numval_def canonical_def Let_def)
  moreover have "atoi (CHR ''-'' # t) = Ok 0" by (simp add: atoi_def)
  ultimately show ?thesis using t(1) unfolding neg_def y_def by auto
qed

lemma umemmove_apply:
  assumes "unat dst + nat n \<le> 2 ^ 64" and "unat src + nat n \<le> 2 ^ 64"
  shows "umemmove m dst src n x = (if in_region x dst (nat n) then m (src + (x - dst)) else m x)"
proof -
  have idx: "unat (a + of_nat i) = unat a + i" if "unat a + nat n \<le> 2 ^ 64" "i < nat n" for a :: u64 and i
    using that by (intro unat_add_of_nat) simp
  show ?thesis
  proof (cases "src > dst")
    case True
    have "dst + of_nat i \<noteq> src + of_nat j" if "i < j" "j < nat n" for i j
    proof -
      have "unat (dst + of_nat i) < unat (src + of_nat j)" using True that assms by (simp add: idx word_less_nat_alt)
      then show ?thesis by auto
    qed
    then show ?thesis using True assms by (simp add: umemmove_def copy_up_apply)
  next
    case False
    have "src + of_nat i \<noteq> dst + of_nat j" if "i < j" "j < nat n" for i j
    proof -
      have "unat (src + of_nat i) < unat (dst + of_nat j)" using False that assms by (simp add: idx word_le_nat_alt not_less)
      then show ?thesis by auto
    qed
    then show ?thesis using False assms by (simp add: umemmove_def copy_down_apply)
  qed
qed

text \<open>
  The two \<open>memmove\<close> routines agree. The kernel's copies downwards only on overlap, the library's whenever the source
  is not above the destination; for areas inside the address space both give the same memory.
\<close>

lemma memmove_equivalent:
  assumes "0 \<le> sint n" and "unat dst + unat n \<le> 2 ^ 64" and "unat src + unat n \<le> 2 ^ 64"
  shows "umemmove m dst src (sint n) = memmove m dst src n"
proof -
  have n: "nat (sint n) = unat n" using assms(1) unat_abs_sint [of n] by (auto simp: word_sless_alt)
  show ?thesis using assms by (intro ext) (simp add: umemmove_apply memmove_apply n)
qed

end
