(* ===== verification/Xv6_Bio.thy ===== *)
theory Xv6_Bio
  imports Xv6_Machine "HOL-Library.Sublist"
begin

text \<open>
  Sleep locks (\<^verbatim>\<open>kernel/sleeplock.c\<close>) and the buffer cache (\<^verbatim>\<open>kernel/bio.c\<close>). The buffers are the nodes
  0 to \<open>NBUF - 1\<close> of a circular doubly linked list whose head is the node \<open>NBUF\<close>; \<open>prev\<close> and \<open>next\<close> are
  node numbers. The disk is a map from block numbers to blocks; a request to the disk driver
  is its effect \<open>disk_rw\<close> on disk and buffer, and the sequence of disk writes is recorded. Taking a
  sleep lock that is held is the outcome \<open>Blocked\<close>. The spin locks inside are elided.
\<close>

section \<open>Sleep locks\<close>

record sleeplock =
  sl_locked :: bool
  sl_name :: string
  sl_pid :: int

definition initsleeplock :: "string \<Rightarrow> sleeplock" where
  "initsleeplock name = \<lparr>sl_locked = False, sl_name = name, sl_pid = 0\<rparr>"

definition acquiresleep :: "int \<Rightarrow> sleeplock \<Rightarrow> sleeplock res" where
  "acquiresleep pid lk =
     (if sl_locked lk then Fail (Blocked (sl_name lk)) else Ok (lk\<lparr>sl_locked := True, sl_pid := pid\<rparr>))"

definition releasesleep :: "sleeplock \<Rightarrow> sleeplock" where
  "releasesleep lk = lk\<lparr>sl_locked := False, sl_pid := 0\<rparr>"

definition holdingsleep :: "int \<Rightarrow> sleeplock \<Rightarrow> bool" where
  "holdingsleep pid lk \<longleftrightarrow> sl_locked lk \<and> sl_pid lk = pid"

section \<open>Buffers\<close>

definition BSIZE :: nat where [simp]: "BSIZE = 1024"

type_synonym block = "u8 list"

record buf =
  valid :: bool
  dev :: u32
  blockno :: u32
  b_lock :: sleeplock
  refcnt :: u32
  b_prev :: nat
  b_next :: nat
  b_data :: block

record bcache =
  bufs :: "nat \<Rightarrow> buf"
  disk :: "u32 \<Rightarrow> block"
  dwrites :: "(u32 \<times> block) list"

definition bhead :: nat where [simp]: "bhead = NBUF"

definition bupd :: "nat \<Rightarrow> (buf \<Rightarrow> buf) \<Rightarrow> bcache \<Rightarrow> bcache" where
  "bupd i f c = c\<lparr>bufs := (bufs c)(i := f (bufs c i))\<rparr>"

text \<open>Insert \<open>b\<close> at the front: the last four statements of \<open>brelse\<close>, and the loop body of \<open>binit\<close>.\<close>

definition binsert :: "nat \<Rightarrow> bcache \<Rightarrow> bcache" where
  "binsert b c =
     (let c = bupd b (b_next_update (\<lambda>_. b_next (bufs c bhead))) c;
          c = bupd b (b_prev_update (\<lambda>_. bhead)) c;
          c = bupd (b_next (bufs c bhead)) (b_prev_update (\<lambda>_. b)) c
      in bupd bhead (b_next_update (\<lambda>_. b)) c)"

definition bunlink :: "nat \<Rightarrow> bcache \<Rightarrow> bcache" where
  "bunlink b c =
     (let c = bupd (b_next (bufs c b)) (b_prev_update (\<lambda>_. b_prev (bufs c b))) c
      in bupd (b_prev (bufs c b)) (b_next_update (\<lambda>_. b_next (bufs c b))) c)"

definition binit :: "bcache \<Rightarrow> bcache" where
  "binit c =
     (let c = bupd bhead (b_prev_update (\<lambda>_. bhead)) c;
          c = bupd bhead (b_next_update (\<lambda>_. bhead)) c
      in fold (\<lambda>b c. binsert b (bupd b (b_lock_update (\<lambda>_. initsleeplock ''buffer'')) c)) [0..<NBUF] c)"

text \<open>
  The two loops of \<open>bget\<close>: follow \<open>step\<close> from node \<open>b\<close> to the first buffer with property \<open>P\<close>, or back to
  the head. \<open>NBUF + 1\<close> steps are enough on a well-formed list; running out of them is a fault.
\<close>

primrec bfind :: "nat \<Rightarrow> (nat \<Rightarrow> nat) \<Rightarrow> (nat \<Rightarrow> bool) \<Rightarrow> nat \<Rightarrow> nat option res" where
  "bfind 0 step P b = Fail (Fault ''bget: list'')"
| "bfind (Suc n) step P b = (if b = bhead then Ok None else if P b then Ok (Some b) else bfind n step P (step b))"

definition bget :: "int \<Rightarrow> u32 \<Rightarrow> u32 \<Rightarrow> bcache \<Rightarrow> (nat \<times> bcache) res" where
  "bget pid d bn c =
     rbind (bfind (NBUF + 1) (\<lambda>b. b_next (bufs c b)) (\<lambda>b. dev (bufs c b) = d \<and> blockno (bufs c b) = bn) (b_next (bufs c bhead)))
     (\<lambda>r. case r of
        Some b \<Rightarrow>
          let c = bupd b (refcnt_update (\<lambda>r. r + 1)) c in
          rbind (acquiresleep pid (b_lock (bufs c b))) (\<lambda>lk. Ok (b, bupd b (b_lock_update (\<lambda>_. lk)) c))
      | None \<Rightarrow>
          rbind (bfind (NBUF + 1) (\<lambda>b. b_prev (bufs c b)) (\<lambda>b. refcnt (bufs c b) = 0) (b_prev (bufs c bhead)))
          (\<lambda>r. case r of
             Some b \<Rightarrow>
               let c = bupd b (\<lambda>x. x\<lparr>dev := d, blockno := bn, valid := False, refcnt := 1\<rparr>) c in
               rbind (acquiresleep pid (b_lock (bufs c b))) (\<lambda>lk. Ok (b, bupd b (b_lock_update (\<lambda>_. lk)) c))
           | None \<Rightarrow> Fail (Panic ''bget: no buffers'')))"

text \<open>
  What a completed disk request does: \<open>write\<close> puts the buffer's data on the disk, a read fetches it.
  The driver that gets the device to do so is not part of this theory.
\<close>

definition disk_rw :: "nat \<Rightarrow> bool \<Rightarrow> bcache \<Rightarrow> bcache" where
  "disk_rw b write c =
     (let x = bufs c b in
      if write then c\<lparr>disk := (disk c)(blockno x := b_data x), dwrites := dwrites c @ [(blockno x, b_data x)]\<rparr>
      else bupd b (b_data_update (\<lambda>_. disk c (blockno x))) c)"

definition bread :: "int \<Rightarrow> u32 \<Rightarrow> u32 \<Rightarrow> bcache \<Rightarrow> (nat \<times> bcache) res" where
  "bread pid d bn c =
     rbind (bget pid d bn c) (\<lambda>(b, c).
       if valid (bufs c b) then Ok (b, c)
       else Ok (b, bupd b (valid_update (\<lambda>_. True)) (disk_rw b False c)))"

definition bwrite :: "int \<Rightarrow> nat \<Rightarrow> bcache \<Rightarrow> bcache res" where
  "bwrite pid b c =
     (if holdingsleep pid (b_lock (bufs c b)) then Ok (disk_rw b True c) else Fail (Panic ''bwrite''))"

definition brelse :: "int \<Rightarrow> nat \<Rightarrow> bcache \<Rightarrow> bcache res" where
  "brelse pid b c =
     (if \<not> holdingsleep pid (b_lock (bufs c b)) then Fail (Panic ''brelse'')
      else
        let c = bupd b (b_lock_update releasesleep) c;
            c = bupd b (refcnt_update (\<lambda>r. r - 1)) c
        in Ok (if refcnt (bufs c b) = 0 then binsert b (bunlink b c) else c))"

definition bpin :: "nat \<Rightarrow> bcache \<Rightarrow> bcache" where
  "bpin b c = bupd b (refcnt_update (\<lambda>r. r + 1)) c"

definition bunpin :: "nat \<Rightarrow> bcache \<Rightarrow> bcache" where
  "bunpin b c = bupd b (refcnt_update (\<lambda>r. r - 1)) c"

section \<open>The linked list\<close>

text \<open>\<open>chain f a xs b\<close>: following \<open>f\<close> from \<open>a\<close> visits \<open>xs\<close> and then arrives at \<open>b\<close>.\<close>

primrec chain :: "(nat \<Rightarrow> nat) \<Rightarrow> nat \<Rightarrow> nat list \<Rightarrow> nat \<Rightarrow> bool" where
  "chain f a [] b \<longleftrightarrow> f a = b"
| "chain f a (x # xs) b \<longleftrightarrow> f a = x \<and> chain f x xs b"

lemma chain_append [simp]: "chain f a (us @ x # vs) b \<longleftrightarrow> chain f a us x \<and> chain f x vs b"
  by (induction us arbitrary: a) auto

lemma chain_cong: "(\<And>z. z \<in> insert a (set xs) \<Longrightarrow> f z = g z) \<Longrightarrow> chain f a xs b \<longleftrightarrow> chain g a xs b"
  by (induction xs arbitrary: a) auto

lemma chain_redirect:
  "chain f a xs b \<Longrightarrow> distinct (a # xs) \<Longrightarrow> chain (f(last (a # xs) := c)) a xs c"
proof (induction xs arbitrary: a)
  case (Cons x xs)
  have "chain (f(last (x # xs) := c)) x xs c" using Cons.prems by (intro Cons.IH) simp_all
  moreover have "last (x # xs) \<noteq> a" using Cons.prems(2) by (metis distinct.simps(2) last_in_set list.distinct(1))
  ultimately show ?case using Cons.prems by (auto simp: fun_upd_def)
qed simp

lemma chain_remove:
  assumes "chain f a (us @ x # vs) b" and "distinct (a # us @ x # vs)"
  shows "chain (f(last (a # us) := f x)) a (us @ vs) b"
proof -
  let ?p = "last (a # us)" and ?g = "f(last (a # us) := f x)"
  have p: "?p \<in> insert a (set us)" using last_in_set [of "a # us"] by simp
  have c: "chain f a us x" "chain f x vs b" using assms(1) by simp_all
  have g: "chain ?g a us (f x)" using chain_redirect [OF c(1)] assms(2) by simp
  show ?thesis
  proof (cases vs)
    case Nil
    then show ?thesis using g c(2) by simp
  next
    case (Cons v vs')
    have "chain ?g v vs' b = chain f v vs' b" by (rule chain_cong) (use p assms(2) Cons in auto)
    then show ?thesis using g c(2) Cons by simp
  qed
qed

lemma chain_first: "chain f a (us @ [x]) b \<Longrightarrow> f x = b"
  by simp

lemma chain_hd: "chain f a xs b \<Longrightarrow> f a = hd (xs @ [b])"
  by (cases xs) auto

definition nx :: "bcache \<Rightarrow> nat \<Rightarrow> nat" where "nx c = (\<lambda>i. b_next (bufs c i))"
definition pv :: "bcache \<Rightarrow> nat \<Rightarrow> nat" where "pv c = (\<lambda>i. b_prev (bufs c i))"

text \<open>The cache's list is \<open>xs\<close>, most recently used first.\<close>

definition lru :: "bcache \<Rightarrow> nat list \<Rightarrow> bool" where
  "lru c xs \<longleftrightarrow> distinct xs \<and> set xs \<subseteq> {..<NBUF} \<and> chain (nx c) bhead xs bhead \<and> chain (pv c) bhead (rev xs) bhead"

lemma nx_pv_simps [simp]:
  "nx (bupd i (b_next_update (\<lambda>_. j)) c) = (nx c)(i := j)" "pv (bupd i (b_next_update (\<lambda>_. j)) c) = pv c"
  "pv (bupd i (b_prev_update (\<lambda>_. j)) c) = (pv c)(i := j)" "nx (bupd i (b_prev_update (\<lambda>_. j)) c) = nx c"
  by (auto simp: nx_def pv_def bupd_def)

lemma lru_distinct: "lru c xs \<Longrightarrow> distinct (bhead # xs) \<and> distinct (bhead # rev xs)"
  by (auto simp: lru_def)

lemma nx_pv_fields: "b_next (bufs c i) = nx c i" "b_prev (bufs c i) = pv c i"
  by (simp_all add: nx_def pv_def)

lemma binsert_ptrs:
  "nx (binsert b c) = (nx c)(b := nx c bhead, bhead := b)"
  "b \<noteq> bhead \<Longrightarrow> pv (binsert b c) = (pv c)(b := bhead, nx c bhead := b)"
  by (auto simp: binsert_def Let_def nx_pv_fields)

lemma binsert_lru:
  assumes "lru c xs" and "b < NBUF" and "b \<notin> set xs"
  shows "lru (binsert b c) (b # xs)"
proof -
  have b: "b \<noteq> bhead" using assms(2) by simp
  have D: "distinct (bhead # xs)" "distinct (bhead # rev xs)" using lru_distinct [OF assms(1)] by auto
  have c: "chain (nx c) bhead xs bhead" "chain (pv c) bhead (rev xs) bhead" using assms(1) by (auto simp: lru_def)
  have n: "nx c bhead = hd (xs @ [bhead])" using chain_hd [OF c(1)] .
  have "chain (nx (binsert b c)) bhead (b # xs) bhead"
  proof (cases xs)
    case Nil
    then show ?thesis using n b by (auto simp: binsert_ptrs)
  next
    case (Cons x ys)
    have "chain (nx (binsert b c)) x ys bhead = chain (nx c) x ys bhead"
      by (rule chain_cong) (use assms(3) D(1) Cons in \<open>auto simp: binsert_ptrs\<close>)
    then show ?thesis using n c(1) Cons b D by (auto simp: binsert_ptrs)
  qed
  moreover have "chain (pv (binsert b c)) bhead (rev xs @ [b]) bhead"
  proof -
    let ?g = "(pv c)(b := bhead)"
    have "chain ?g bhead (rev xs) bhead = chain (pv c) bhead (rev xs) bhead"
      by (rule chain_cong) (use assms(3) b in auto)
    then have g: "chain ?g bhead (rev xs) bhead" using c(2) by simp
    have l: "last (bhead # rev xs) = nx c bhead" using n by (cases xs) auto
    have "chain (pv (binsert b c)) bhead (rev xs) b"
      using chain_redirect [OF g D(2), of b] unfolding l binsert_ptrs(2) [OF b] .
    moreover have "nx c bhead \<noteq> b" using n assms(3) b by (cases xs) auto
    ultimately show ?thesis using b by (simp add: binsert_ptrs(2) [OF b])
  qed
  ultimately show ?thesis using assms by (simp add: lru_def)
qed

lemma bunlink_ptrs:
  "nx c b \<noteq> b \<Longrightarrow> nx (bunlink b c) = (nx c)(pv c b := nx c b)"
  "pv (bunlink b c) = (pv c)(nx c b := pv c b)"
  by (auto simp: bunlink_def Let_def nx_pv_fields)

lemma bunlink_lru:
  assumes "lru c (us @ b # vs)"
  shows "lru (bunlink b c) (us @ vs)"
proof -
  have D: "distinct (bhead # us @ b # vs)" "distinct (bhead # rev vs @ b # rev us)"
    using lru_distinct [OF assms] by auto
  have c: "chain (nx c) bhead (us @ b # vs) bhead" "chain (pv c) bhead (rev vs @ b # rev us) bhead"
    using assms by (simp_all add: lru_def)
  have q: "nx c b = hd (vs @ [bhead])" using c(1) chain_hd by (metis chain_append)
  have p: "pv c b = hd (rev us @ [bhead])" using c(2) chain_hd by (metis chain_append)
  have pl: "pv c b = last (bhead # us)" unfolding p by (cases us rule: rev_cases) auto
  have ql: "nx c b = last (bhead # rev vs)" unfolding q by (cases vs) auto
  have nb: "nx c b \<noteq> b" using q D(1) by (cases vs) auto
  have "chain (nx (bunlink b c)) bhead (us @ vs) bhead"
    using chain_remove [OF c(1) D(1)] unfolding pl [symmetric] by (simp add: bunlink_ptrs nb)
  moreover have "chain (pv (bunlink b c)) bhead (rev vs @ rev us) bhead"
    using chain_remove [OF c(2) D(2)] unfolding ql [symmetric] by (simp add: bunlink_ptrs)
  ultimately show ?thesis using assms by (auto simp: lru_def)
qed

text \<open>The search loops find the first fitting buffer of the list, in either direction.\<close>

lemma bfind_chain:
  assumes "chain f a xs bhead" and "bhead \<notin> set xs" and "length xs < n"
  shows "bfind n f P (f a) = Ok (List.find P xs)"
  using assms
proof (induction xs arbitrary: a n)
  case Nil
  then show ?case by (cases n) auto
next
  case (Cons x xs)
  then obtain m where m: "n = Suc m" by (cases n) auto
  then show ?case using Cons.prems Cons.IH [of x m] by auto
qed

lemma lru_find:
  assumes "lru c xs"
  shows "bfind (NBUF + 1) (nx c) P (nx c bhead) = Ok (List.find P xs)"
    and "bfind (NBUF + 1) (pv c) P (pv c bhead) = Ok (List.find P (rev xs))"
proof -
  have "length xs = card (set xs)" using assms by (simp add: lru_def distinct_card)
  also have "\<dots> \<le> card {..<NBUF}" using assms by (intro card_mono) (auto simp: lru_def)
  finally have l: "length xs < NBUF + 1" by simp
  have h: "bhead \<notin> set xs" using assms by (auto simp: lru_def)
  show "bfind (NBUF + 1) (nx c) P (nx c bhead) = Ok (List.find P xs)"
    by (rule bfind_chain) (use assms l h in \<open>auto simp: lru_def\<close>)
  show "bfind (NBUF + 1) (pv c) P (pv c bhead) = Ok (List.find P (rev xs))"
    by (rule bfind_chain) (use assms l h in \<open>auto simp: lru_def\<close>)
qed

section \<open>The cache invariant\<close>

text \<open>
  Every buffer is on the list; no block of a real device is cached twice; a buffer without references
  is not locked and, if valid, agrees with the disk. \<open>view\<close> is the contents of a block as the users
  of the cache see it.
\<close>

definition cached :: "bcache \<Rightarrow> u32 \<Rightarrow> u32 \<Rightarrow> nat \<Rightarrow> bool" where
  "cached c d bn b \<longleftrightarrow> b < NBUF \<and> dev (bufs c b) = d \<and> blockno (bufs c b) = bn"

definition binv :: "bcache \<Rightarrow> bool" where
  "binv c \<longleftrightarrow> (\<exists>xs. lru c xs \<and> set xs = {..<NBUF}) \<and>
     (\<forall>i<NBUF. \<forall>j<NBUF. dev (bufs c i) = dev (bufs c j) \<longrightarrow> blockno (bufs c i) = blockno (bufs c j) \<longrightarrow>
        dev (bufs c i) \<noteq> 0 \<longrightarrow> i = j) \<and>
     (\<forall>i<NBUF. sl_locked (b_lock (bufs c i)) \<longrightarrow> refcnt (bufs c i) \<noteq> 0) \<and>
     (\<forall>i<NBUF. refcnt (bufs c i) = 0 \<and> valid (bufs c i) \<and> dev (bufs c i) \<noteq> 0 \<longrightarrow>
        b_data (bufs c i) = disk c (blockno (bufs c i)))"

definition bnodes :: "nat list" where
  "bnodes = [0..<NBUF]"

lemma set_bnodes [simp]: "set bnodes = {..<NBUF}"
  by (auto simp: bnodes_def simp del: upt_rec_numeral)

definition view :: "bcache \<Rightarrow> u32 \<Rightarrow> u32 \<Rightarrow> block" where
  "view c d bn =
     (case List.find (\<lambda>b. dev (bufs c b) = d \<and> blockno (bufs c b) = bn \<and> valid (bufs c b)) bnodes of
        Some b \<Rightarrow> b_data (bufs c b) | None \<Rightarrow> disk c bn)"

lemma find_unique:
  assumes "P b" and "b \<in> set xs" and "\<And>i. i \<in> set xs \<Longrightarrow> P i \<Longrightarrow> i = b"
  shows "List.find P xs = Some b"
  using assms(2,3)
proof (induction xs)
  case (Cons x xs)
  show ?case
  proof (cases "P x")
    case True
    then show ?thesis using Cons.prems(2) [of x] by simp
  next
    case False
    then have "b \<in> set xs" using Cons.prems(1) assms(1) by auto
    moreover have "i = b" if "i \<in> set xs" "P i" for i using Cons.prems(2) that by simp
    ultimately have "List.find P xs = Some b" by (rule Cons.IH)
    then show ?thesis using False by simp
  qed
qed simp

lemma binv_unique:
  assumes "binv c" and "i < NBUF" and "j < NBUF" and "dev (bufs c i) = dev (bufs c j)"
    and "blockno (bufs c i) = blockno (bufs c j)" and "dev (bufs c i) \<noteq> 0"
  shows "i = j"
proof -
  have "\<forall>i<NBUF. \<forall>j<NBUF. dev (bufs c i) = dev (bufs c j) \<longrightarrow> blockno (bufs c i) = blockno (bufs c j) \<longrightarrow>
      dev (bufs c i) \<noteq> 0 \<longrightarrow> i = j"
    using assms(1) unfolding binv_def by (elim conjE)
  then show ?thesis using assms(2-) by simp
qed

lemma binv_lru: "binv c \<Longrightarrow> \<exists>xs. lru c xs \<and> set xs = {..<NBUF}"
  unfolding binv_def by (elim conjE)

lemma binv_locked: "binv c \<Longrightarrow> i < NBUF \<Longrightarrow> sl_locked (b_lock (bufs c i)) \<Longrightarrow> refcnt (bufs c i) \<noteq> 0"
  unfolding binv_def by (elim conjE) simp

lemma binv_clean:
  "binv c \<Longrightarrow> i < NBUF \<Longrightarrow> refcnt (bufs c i) = 0 \<Longrightarrow> valid (bufs c i) \<Longrightarrow> dev (bufs c i) \<noteq> 0 \<Longrightarrow>
   b_data (bufs c i) = disk c (blockno (bufs c i))"
  unfolding binv_def by (elim conjE) simp

lemma view_cached:
  assumes "binv c" and "d \<noteq> 0" and "cached c d bn b"
  shows "view c d bn = (if valid (bufs c b) then b_data (bufs c b) else disk c bn)"
proof -
  have u: "i = b" if "i < NBUF" "dev (bufs c i) = d" "blockno (bufs c i) = bn" for i
    by (rule binv_unique [OF assms(1)]) (use assms(2,3) that in \<open>simp_all add: cached_def\<close>)
  show ?thesis
  proof (cases "valid (bufs c b)")
    case True
    then have "List.find (\<lambda>b. dev (bufs c b) = d \<and> blockno (bufs c b) = bn \<and> valid (bufs c b)) bnodes = Some b"
      using assms(3) u by (intro find_unique) (auto simp: cached_def)
    then show ?thesis using True by (simp add: view_def)
  next
    case False
    then have "List.find (\<lambda>b. dev (bufs c b) = d \<and> blockno (bufs c b) = bn \<and> valid (bufs c b)) bnodes = None"
      using u by (auto simp: find_None_iff)
    then show ?thesis using False by (simp add: view_def)
  qed
qed

lemma view_uncached: "(\<And>b. \<not> cached c d bn b) \<Longrightarrow> view c d bn = disk c bn"
proof -
  assume "\<And>b. \<not> cached c d bn b"
  then have "List.find (\<lambda>b. dev (bufs c b) = d \<and> blockno (bufs c b) = bn \<and> valid (bufs c b)) bnodes = None"
    by (auto simp: find_None_iff cached_def)
  then show ?thesis by (simp add: view_def)
qed

lemma bupd_simps [simp]:
  "bufs (bupd i f c) j = (if j = i then f (bufs c i) else bufs c j)" "disk (bupd i f c) = disk c"
  "dwrites (bupd i f c) = dwrites c"
  by (simp_all add: bupd_def)

lemma nx_pv_frame:
  assumes "\<And>x. b_next (f x) = b_next x" and "\<And>x. b_prev (f x) = b_prev x"
  shows "nx (bupd i f c) = nx c" "pv (bupd i f c) = pv c"
  using assms by (auto simp: nx_def pv_def)

lemma lru_frame:
  assumes "\<And>x. b_next (f x) = b_next x" and "\<And>x. b_prev (f x) = b_prev x"
  shows "lru (bupd i f c) = lru c"
  by (intro ext) (simp add: lru_def nx_pv_frame [OF assms])

text \<open>List surgery changes nothing but the pointers.\<close>

definition core :: "buf \<Rightarrow> bool \<times> u32 \<times> u32 \<times> sleeplock \<times> u32 \<times> block" where
  "core x = (valid x, dev x, blockno x, b_lock x, refcnt x, b_data x)"

definition same_but_ptrs :: "bcache \<Rightarrow> bcache \<Rightarrow> bool" where
  "same_but_ptrs c c' \<longleftrightarrow> disk c' = disk c \<and> dwrites c' = dwrites c \<and> (\<forall>i. core (bufs c' i) = core (bufs c i))"

lemma same_but_ptrs_fields:
  assumes "same_but_ptrs c c'"
  shows "disk c' = disk c" "dwrites c' = dwrites c" "dev (bufs c' i) = dev (bufs c i)"
    "blockno (bufs c' i) = blockno (bufs c i)" "valid (bufs c' i) = valid (bufs c i)"
    "refcnt (bufs c' i) = refcnt (bufs c i)" "b_lock (bufs c' i) = b_lock (bufs c i)" "b_data (bufs c' i) = b_data (bufs c i)"
  using assms by (auto simp: same_but_ptrs_def core_def)

lemma same_but_ptrs_trans: "same_but_ptrs a b \<Longrightarrow> same_but_ptrs b c \<Longrightarrow> same_but_ptrs a c"
  by (simp add: same_but_ptrs_def)

lemma same_but_ptrs_upd:
  "same_but_ptrs c (bupd i (b_next_update f) c)" "same_but_ptrs c (bupd i (b_prev_update f) c)"
  by (simp_all add: same_but_ptrs_def core_def)

lemma same_but_ptrs_ops: "same_but_ptrs c (binsert b c)" "same_but_ptrs c (bunlink b c)"
  unfolding binsert_def bunlink_def Let_def by (meson same_but_ptrs_upd same_but_ptrs_trans)+

lemma same_but_ptrs_surgery: "same_but_ptrs c (binsert b (bunlink b c))"
  using same_but_ptrs_ops same_but_ptrs_trans by blast

lemma view_same_but_ptrs: "same_but_ptrs c c' \<Longrightarrow> view c' d bn = view c d bn"
  by (simp add: view_def same_but_ptrs_fields split: option.split)

text \<open>What a buffer operation that keeps the pointers must respect to keep the invariant.\<close>

lemma binv_bupd:
  assumes "binv c" and "b < NBUF"
    and "\<And>x. b_next (f x) = b_next x" and "\<And>x. b_prev (f x) = b_prev x"
    and "dev (f (bufs c b)) = dev (bufs c b) \<and> blockno (f (bufs c b)) = blockno (bufs c b) \<or>
      (\<forall>i. \<not> cached c (dev (f (bufs c b))) (blockno (f (bufs c b))) i)"
    and "sl_locked (b_lock (f (bufs c b))) \<Longrightarrow> refcnt (f (bufs c b)) \<noteq> 0"
    and "refcnt (f (bufs c b)) = 0 \<Longrightarrow> valid (f (bufs c b)) \<Longrightarrow> dev (f (bufs c b)) \<noteq> 0 \<Longrightarrow>
      b_data (f (bufs c b)) = disk c (blockno (f (bufs c b)))"
  shows "binv (bupd b f c)"
  unfolding binv_def
proof (intro conjI allI impI)
  show "\<exists>xs. lru (bupd b f c) xs \<and> set xs = {..<NBUF}"
    using binv_lru [OF assms(1)] unfolding lru_frame [where f = f, OF assms(3,4)] .
next
  fix i j assume h: "i < NBUF" "j < NBUF" "dev (bufs (bupd b f c) i) = dev (bufs (bupd b f c) j)"
    "blockno (bufs (bupd b f c) i) = blockno (bufs (bupd b f c) j)" "dev (bufs (bupd b f c) i) \<noteq> 0"
  have u: "i = j" if "i < NBUF" "j < NBUF" "dev (bufs c i) = dev (bufs c j)" "blockno (bufs c i) = blockno (bufs c j)"
    "dev (bufs c i) \<noteq> 0" for i j by (rule binv_unique [OF assms(1) that])
  show "i = j" using h u [of i j] u [of i b] u [of b j] assms(2,5) unfolding cached_def by (auto split: if_splits)
next
  fix i assume "i < NBUF" "sl_locked (b_lock (bufs (bupd b f c) i))"
  then show "refcnt (bufs (bupd b f c) i) \<noteq> 0" using assms(6) binv_locked [OF assms(1), of i] by (auto split: if_splits)
next
  fix i assume "i < NBUF" "refcnt (bufs (bupd b f c) i) = 0 \<and> valid (bufs (bupd b f c) i) \<and> dev (bufs (bupd b f c) i) \<noteq> 0"
  then show "b_data (bufs (bupd b f c) i) = disk (bupd b f c) (blockno (bufs (bupd b f c) i))"
    using assms(7) binv_clean [OF assms(1), of i] by (auto split: if_splits)
qed

lemma binv_same_but_ptrs:
  assumes "binv c" and "same_but_ptrs c c'" and "lru c' ys" and "set ys = {..<NBUF}"
  shows "binv c'"
  unfolding binv_def
proof (intro conjI allI impI)
  show "\<exists>xs. lru c' xs \<and> set xs = {..<NBUF}" using assms(3,4) by blast
qed (use assms(1) in \<open>auto simp: same_but_ptrs_fields [OF assms(2)] intro: binv_unique dest: binv_locked binv_clean\<close>)

section \<open>bget, bread, brelse\<close>

text \<open>A request that need not wait: the block is cached and not locked, or some buffer is free.\<close>

definition can_get :: "bcache \<Rightarrow> u32 \<Rightarrow> u32 \<Rightarrow> bool" where
  "can_get c d bn \<longleftrightarrow>
     (\<exists>b. cached c d bn b \<and> \<not> sl_locked (b_lock (bufs c b)) \<and> refcnt (bufs c b) + 1 \<noteq> 0) \<or>
     (\<forall>b. \<not> cached c d bn b) \<and> (\<exists>b<NBUF. refcnt (bufs c b) = 0)"

text \<open>
  The buffer \<open>bget\<close> takes, as the list order decides: the one that caches the block, or the least
  recently used one without references.
\<close>

definition lru_choice :: "bcache \<Rightarrow> nat list \<Rightarrow> u32 \<Rightarrow> u32 \<Rightarrow> nat option" where
  "lru_choice c xs d bn =
     (case List.find (\<lambda>b. dev (bufs c b) = d \<and> blockno (bufs c b) = bn) xs of
        Some b \<Rightarrow> Some b | None \<Rightarrow> List.find (\<lambda>b. refcnt (bufs c b) = 0) (rev xs))"

text \<open>The state of the chosen buffer when \<open>bget\<close> returns.\<close>

definition taken :: "int \<Rightarrow> u32 \<Rightarrow> u32 \<Rightarrow> buf \<Rightarrow> buf" where
  "taken pid d bn x =
     (if dev x = d \<and> blockno x = bn then x\<lparr>refcnt := refcnt x + 1, b_lock := (b_lock x)\<lparr>sl_locked := True, sl_pid := pid\<rparr>\<rparr>
      else x\<lparr>dev := d, blockno := bn, valid := False, refcnt := 1, b_lock := (b_lock x)\<lparr>sl_locked := True, sl_pid := pid\<rparr>\<rparr>)"

lemma refcnt_plus: "refcnt_update (\<lambda>r. r + 1) x = x\<lparr>refcnt := refcnt x + 1\<rparr>"
  by (cases x) simp

lemma bupd_twice: "bupd b f (bupd b g c) = bupd b (\<lambda>x. f (g x)) c"
  by (simp add: bupd_def)

lemma find_SomeD: "List.find P xs = Some b \<Longrightarrow> P b \<and> b \<in> set xs"
  by (induction xs) (auto split: if_splits)

lemma bget_choice:
  assumes i: "binv c" and l: "lru c xs" and s: "set xs = {..<NBUF}" and g: "can_get c d bn" and d: "d \<noteq> 0"
  shows "\<exists>b. lru_choice c xs d bn = Some b \<and> b < NBUF \<and> bget pid d bn c = Ok (b, bupd b (taken pid d bn) c) \<and>
    \<not> sl_locked (b_lock (bufs c b)) \<and> (cached c d bn b \<and> refcnt (bufs c b) + 1 \<noteq> 0 \<or> (\<forall>j. \<not> cached c d bn j) \<and> refcnt (bufs c b) = 0)"
proof (cases "\<exists>b. cached c d bn b")
  case True
  then obtain b where b: "cached c d bn b" "\<not> sl_locked (b_lock (bufs c b))" "refcnt (bufs c b) + 1 \<noteq> 0"
    using g unfolding can_get_def by blast
  have u: "j = b" if "cached c d bn j" for j
    by (rule binv_unique [OF i]) (use b(1) that d in \<open>simp_all add: cached_def\<close>)
  have f: "List.find (\<lambda>b. dev (bufs c b) = d \<and> blockno (bufs c b) = bn) xs = Some b"
  proof (rule find_unique)
    show "dev (bufs c b) = d \<and> blockno (bufs c b) = bn" "b \<in> set xs" using b(1) s by (auto simp: cached_def)
    fix j assume "j \<in> set xs" "dev (bufs c j) = d \<and> blockno (bufs c j) = bn"
    then show "j = b" using u [of j] s by (auto simp: cached_def)
  qed
  have "bget pid d bn c = Ok (b, bupd b (taken pid d bn) c)"
    using lru_find(1) [OF l, of "\<lambda>b. dev (bufs c b) = d \<and> blockno (bufs c b) = bn"] f b
    unfolding nx_def bget_def
    by (simp add: acquiresleep_def bupd_twice del: NBUF_def) (simp add: bupd_def taken_def cached_def refcnt_plus)
  then show ?thesis using f b by (intro exI [of _ b]) (auto simp: lru_choice_def cached_def)
next
  case False
  then obtain j where j: "j < NBUF" "refcnt (bufs c j) = 0" using g unfolding can_get_def by blast
  have f: "List.find (\<lambda>b. dev (bufs c b) = d \<and> blockno (bufs c b) = bn) xs = None"
    using False s by (auto simp: find_None_iff cached_def)
  obtain b where b: "List.find (\<lambda>b. refcnt (bufs c b) = 0) (rev xs) = Some b"
    using j s by (cases "List.find (\<lambda>b. refcnt (bufs c b) = 0) (rev xs)") (auto simp: find_None_iff)
  have b2: "refcnt (bufs c b) = 0" "b < NBUF" using find_SomeD [OF b] s by auto
  have ul: "\<not> sl_locked (b_lock (bufs c b))" using binv_locked [OF i b2(2)] b2(1) by blast
  have ne: "\<not> (dev (bufs c b) = d \<and> blockno (bufs c b) = bn)" using False b2 by (auto simp: cached_def)
  have "bget pid d bn c = Ok (b, bupd b (taken pid d bn) c)"
    using lru_find(1) [OF l, of "\<lambda>b. dev (bufs c b) = d \<and> blockno (bufs c b) = bn"] f
      lru_find(2) [OF l, of "\<lambda>b. refcnt (bufs c b) = 0"] b ul ne
    unfolding nx_def pv_def bget_def
    by (simp add: acquiresleep_def bupd_twice del: NBUF_def) (auto simp: bupd_def taken_def)
  then show ?thesis using f b b2 ul False by (intro exI [of _ b]) (auto simp: lru_choice_def)
qed

lemma taken_fields [simp]:
  "dev (taken pid d bn x) = d" "blockno (taken pid d bn x) = bn" "b_next (taken pid d bn x) = b_next x"
  "b_prev (taken pid d bn x) = b_prev x" "b_data (taken pid d bn x) = b_data x"
  "valid (taken pid d bn x) \<longleftrightarrow> valid x \<and> dev x = d \<and> blockno x = bn"
  "sl_locked (b_lock (taken pid d bn x))" "sl_pid (b_lock (taken pid d bn x)) = pid"
  "refcnt (taken pid d bn x) = (if dev x = d \<and> blockno x = bn then refcnt x + 1 else 1)"
  by (auto simp: taken_def)

lemma view_other:
  assumes "\<And>i. i < NBUF \<Longrightarrow> (dev (bufs c i) = d \<and> blockno (bufs c i) = bn \<and> valid (bufs c i)) =
      (dev (bufs c' i) = d \<and> blockno (bufs c' i) = bn \<and> valid (bufs c' i))"
    and "\<And>i. i < NBUF \<Longrightarrow> dev (bufs c i) = d \<Longrightarrow> blockno (bufs c i) = bn \<Longrightarrow> valid (bufs c i) \<Longrightarrow>
      b_data (bufs c' i) = b_data (bufs c i)"
    and "disk c' bn = disk c bn"
  shows "view c' d bn = view c d bn"
proof -
  let ?P = "\<lambda>c b. dev (bufs c b) = d \<and> blockno (bufs c b) = bn \<and> valid (bufs c b)"
  have f: "List.find (?P c') bnodes = List.find (?P c) bnodes"
    by (rule find_cong) (use assms(1) in auto)
  show ?thesis
  proof (cases "List.find (?P c) bnodes")
    case None
    then show ?thesis using f assms(3) by (simp add: view_def)
  next
    case (Some b)
    then have "b < NBUF \<and> ?P c b" using find_SomeD [OF Some] by simp
    then show ?thesis using f Some assms(2) [of b] by (simp add: view_def)
  qed
qed

text \<open>The buffer after \<open>bread\<close>: taken, and filled from the disk if it was not valid.\<close>

lemma bread_spec:
  assumes i: "binv c" and g: "can_get c d bn" and d: "d \<noteq> 0"
  shows "\<exists>b c'. bread pid d bn c = Ok (b, c') \<and> b < NBUF \<and> binv c' \<and> cached c' d bn b \<and> valid (bufs c' b) \<and>
    b_data (bufs c' b) = view c d bn \<and> holdingsleep pid (b_lock (bufs c' b)) \<and>
    refcnt (bufs c' b) = (if cached c d bn b then refcnt (bufs c b) + 1 else 1) \<and>
    (\<forall>j. j \<noteq> b \<longrightarrow> bufs c' j = bufs c j) \<and> disk c' = disk c \<and> dwrites c' = dwrites c \<and>
    (\<forall>d' bn'. d' \<noteq> 0 \<longrightarrow> view c' d' bn' = view c d' bn')"
proof -
  obtain xs where l: "lru c xs" and s: "set xs = {..<NBUF}" using binv_lru [OF i] by blast
  obtain b where b: "b < NBUF" "bget pid d bn c = Ok (b, bupd b (taken pid d bn) c)"
    "cached c d bn b \<and> refcnt (bufs c b) + 1 \<noteq> 0 \<or> (\<forall>j. \<not> cached c d bn j) \<and> refcnt (bufs c b) = 0"
    using bget_choice [OF i l s g d, of pid] by blast
  let ?x = "bufs c b"
  define y where "y = (if valid ?x \<and> dev ?x = d \<and> blockno ?x = bn then taken pid d bn ?x
    else (taken pid d bn ?x)\<lparr>b_data := disk c bn, valid := True\<rparr>)"
  define c' where "c' = bupd b (\<lambda>_. y) c"
  have eq: "bread pid d bn c = Ok (b, c')"
    using b(2) by (simp add: bread_def disk_rw_def c'_def y_def) (auto simp: bupd_def)
  have yf: "dev y = d" "blockno y = bn" "valid y" "b_next y = b_next ?x" "b_prev y = b_prev ?x"
    "sl_locked (b_lock y)" "sl_pid (b_lock y) = pid" "refcnt y = (if cached c d bn b then refcnt ?x + 1 else 1)"
    using b(1) by (auto simp: y_def cached_def)
  have rn: "refcnt y \<noteq> 0" using yf(8) b(3) by auto
  have data: "b_data y = view c d bn"
  proof (cases "cached c d bn b")
    case True
    then show ?thesis using view_cached [OF i d True] by (auto simp: y_def cached_def)
  next
    case False
    then have nc: "\<And>j. \<not> cached c d bn j" using b(3) by blast
    then show ?thesis using view_uncached [OF nc] b(1) by (auto simp: y_def cached_def)
  qed
  have c'eq: "c' = bupd b (\<lambda>x. x\<lparr>dev := d, blockno := bn, valid := True, b_lock := b_lock y, refcnt := refcnt y, b_data := b_data y\<rparr>) c"
  proof -
    have "y = ?x\<lparr>dev := d, blockno := bn, valid := True, b_lock := b_lock y, refcnt := refcnt y, b_data := b_data y\<rparr>"
      using yf by (cases ?x, cases y) simp
    then show ?thesis by (simp add: c'_def bupd_def)
  qed
  have inv: "binv c'" unfolding c'eq
    by (rule binv_bupd [OF i b(1)]) (use b(1,3) rn in \<open>auto simp: cached_def\<close>)
  have v: "view c' d' bn' = view c d' bn'" if d': "d' \<noteq> 0" for d' bn'
  proof (cases "d' = d \<and> bn' = bn")
    case True
    have "cached c' d bn b" using b(1) yf by (simp add: cached_def c'_def)
    then show ?thesis using True view_cached [OF inv d] yf data by (simp add: c'_def)
  next
    case ne: False
    show ?thesis
    proof (cases "cached c d' bn' b \<and> valid ?x")
      case True
      then have clean: "b_data ?x = disk c bn'" "refcnt ?x = 0"
        using b(3) ne binv_clean [OF i b(1)] d' by (auto simp: cached_def)
      have "\<not> cached c' d' bn' j" for j
      proof
        assume j: "cached c' d' bn' j"
        then have "j \<noteq> b" using ne yf by (auto simp: cached_def c'_def)
        then have "cached c d' bn' j" using j by (simp add: cached_def c'_def)
        then have "j = b" using True d' by (intro binv_unique [OF i]) (auto simp: cached_def)
        then show False using \<open>j \<noteq> b\<close> by simp
      qed
      then have "view c' d' bn' = disk c' bn'" by (rule view_uncached)
      moreover have "view c d' bn' = b_data ?x" using view_cached [OF i d', of bn' b] True by simp
      ultimately show ?thesis using clean by (simp add: c'_def)
    next
      case False
      then show ?thesis
        by (intro view_other) (use ne yf b(1) in \<open>auto simp: c'_def cached_def\<close>)
    qed
  qed
  show ?thesis using eq b(1) inv yf data v
    by (intro exI [of _ b] exI [of _ c']) (auto simp: c'_def cached_def holdingsleep_def)
qed

lemma view_bupd_ctl:
  assumes "\<And>x. dev (f x) = dev x" "\<And>x. blockno (f x) = blockno x" "\<And>x. valid (f x) = valid x" "\<And>x. b_data (f x) = b_data x"
  shows "view (bupd b f c) d bn = view c d bn"
  by (rule view_other) (use assms in auto)

text \<open>The control part of \<open>brelse\<close>, before the list is changed.\<close>

definition dropped :: "buf \<Rightarrow> buf" where
  "dropped x = x\<lparr>b_lock := releasesleep (b_lock x), refcnt := refcnt x - 1\<rparr>"

lemma dropped_fields [simp]:
  "dev (dropped x) = dev x" "blockno (dropped x) = blockno x" "valid (dropped x) = valid x" "b_data (dropped x) = b_data x"
  "b_next (dropped x) = b_next x" "b_prev (dropped x) = b_prev x" "refcnt (dropped x) = refcnt x - 1"
  "\<not> sl_locked (b_lock (dropped x))"
  by (simp_all add: dropped_def releasesleep_def)

lemma brelse_eq:
  assumes "holdingsleep pid (b_lock (bufs c b))"
  shows "brelse pid b c =
    Ok (let c1 = bupd b dropped c in if refcnt (bufs c b) = 1 then binsert b (bunlink b c1) else c1)"
proof -
  have "refcnt_update (\<lambda>r. r - 1) (b_lock_update releasesleep x) = dropped x" for x by (cases x) (simp add: dropped_def)
  then show ?thesis using assms by (simp add: brelse_def bupd_twice Let_def)
qed

lemma brelse_spec:
  assumes i: "binv c" and b: "b < NBUF" and h: "holdingsleep pid (b_lock (bufs c b))"
    and clean: "refcnt (bufs c b) = 1 \<Longrightarrow> valid (bufs c b) \<Longrightarrow> b_data (bufs c b) = disk c (blockno (bufs c b))"
    and l: "lru c xs" "set xs = {..<NBUF}"
  shows "\<exists>c'. brelse pid b c = Ok c' \<and> binv c' \<and> disk c' = disk c \<and> dwrites c' = dwrites c \<and>
    core (bufs c' b) = core (dropped (bufs c b)) \<and> (\<forall>j. j \<noteq> b \<longrightarrow> core (bufs c' j) = core (bufs c j)) \<and>
    (\<forall>d bn. view c' d bn = view c d bn) \<and>
    lru c' (if refcnt (bufs c b) = 1 then b # remove1 b xs else xs)"
proof -
  let ?c1 = "bupd b dropped c"
  have i1: "binv ?c1"
    by (rule binv_bupd [OF i b]) (use clean in auto)
  have l1: "lru ?c1 xs" using l(1) lru_frame [of dropped b c] by simp
  have v1: "view ?c1 d bn = view c d bn" for d bn by (rule view_bupd_ctl) simp_all
  show ?thesis
  proof (cases "refcnt (bufs c b) = 1")
    case False
    then have "brelse pid b c = Ok ?c1" using brelse_eq [OF h] by simp
    then show ?thesis using False i1 l1 v1 by (intro exI [of _ ?c1]) simp
  next
    case True
    let ?c2 = "binsert b (bunlink b ?c1)"
    obtain us vs where x: "xs = us @ b # vs" using l(2) b split_list [of b xs] by auto
    have d: "distinct xs" using l(1) by (simp add: lru_def)
    have r: "remove1 b xs = us @ vs" using x d by (simp add: remove1_append)
    have "lru (bunlink b ?c1) (us @ vs)" by (rule bunlink_lru) (use l1 x in simp)
    then have l2: "lru ?c2 (b # us @ vs)" by (rule binsert_lru) (use b x d in auto)
    have sp: "same_but_ptrs ?c1 ?c2" by (rule same_but_ptrs_surgery)
    have "set (b # us @ vs) = {..<NBUF}" using l(2) x by auto
    then have "binv ?c2" by (rule binv_same_but_ptrs [OF i1 sp l2])
    moreover have "core (bufs ?c2 j) = core (bufs ?c1 j)" for j using sp unfolding same_but_ptrs_def by blast
    moreover have "brelse pid b c = Ok ?c2" using True brelse_eq [OF h] by simp
    ultimately show ?thesis
      using True l2 r v1 view_same_but_ptrs [OF sp] same_but_ptrs_fields(1,2) [OF sp] by (intro exI [of _ ?c2]) simp
  qed
qed

section \<open>Boot\<close>

lemma binit_step:
  assumes "lru c xs" and "b < NBUF" and "b \<notin> set xs"
  shows "lru (binsert b (bupd b (b_lock_update (\<lambda>_. k)) c)) (b # xs)"
proof (rule binsert_lru)
  show "lru (bupd b (b_lock_update (\<lambda>_. k)) c) xs" using assms(1) lru_frame [of "b_lock_update (\<lambda>_. k)" b c] by simp
qed (use assms in auto)

lemma binit_lru: "lru (binit c) (rev bnodes)"
proof -
  let ?f = "\<lambda>b c. binsert b (bupd b (b_lock_update (\<lambda>_. initsleeplock ''buffer'')) c)"
  let ?c0 = "bupd bhead (b_next_update (\<lambda>_. bhead)) (bupd bhead (b_prev_update (\<lambda>_. bhead)) c)"
  have "lru (fold ?f [0..<k] ?c0) (rev [0..<k])" if "k \<le> NBUF" for k
    using that
  proof (induction k)
    case 0
    show ?case by (simp add: lru_def)
  next
    case (Suc k)
    then show ?case using binit_step [of "fold ?f [0..<k] ?c0" "rev [0..<k]" k] by simp
  qed
  from this [of NBUF] show ?thesis by (simp only: binit_def Let_def bnodes_def order_refl)
qed

definition boot_cache :: bcache where
  "boot_cache = binit \<lparr>bufs = (\<lambda>_. \<lparr>valid = False, dev = 0, blockno = 0, b_lock = initsleeplock [], refcnt = 0,
     b_prev = 0, b_next = 0, b_data = []\<rparr>), disk = (\<lambda>_. []), dwrites = []\<rparr>"

lemma boot_core: "valid (bufs boot_cache i) = False \<and> dev (bufs boot_cache i) = 0 \<and> refcnt (bufs boot_cache i) = 0 \<and>
  \<not> sl_locked (b_lock (bufs boot_cache i))"
proof -
  let ?ok = "\<lambda>c. \<forall>i. valid (bufs c i) = False \<and> dev (bufs c i) = 0 \<and> refcnt (bufs c i) = 0 \<and> \<not> sl_locked (b_lock (bufs c i))"
  let ?f = "\<lambda>b c. binsert b (bupd b (b_lock_update (\<lambda>_. initsleeplock ''buffer'')) c)"
  have st: "?ok (?f b c)" if "?ok c" for b c
    using that same_but_ptrs_fields [OF same_but_ptrs_ops(1), of b "bupd b (b_lock_update (\<lambda>_. initsleeplock ''buffer'')) c"]
    by (simp add: initsleeplock_def)
  have "?ok (fold ?f ys c)" if "?ok c" for ys c
    using that
  proof (induction ys arbitrary: c)
    case (Cons y ys)
    then show ?case using st [of c y] by simp
  qed simp
  then show ?thesis unfolding boot_cache_def binit_def Let_def by (simp add: initsleeplock_def)
qed

lemma boot_lru: "lru boot_cache (rev bnodes)"
  unfolding boot_cache_def by (rule binit_lru)

lemma boot_binv: "binv boot_cache"
  unfolding binv_def using boot_core boot_lru by (intro conjI exI [of _ "rev bnodes"]) auto

lemma boot_can_get: "d \<noteq> 0 \<Longrightarrow> can_get boot_cache d bn"
proof -
  assume "d \<noteq> 0"
  then have "\<not> cached boot_cache d bn b" for b using boot_core [of b] by (auto simp: cached_def)
  moreover have "(0 :: nat) < NBUF" "refcnt (bufs boot_cache 0) = 0" using boot_core [of 0] by simp_all
  ultimately show ?thesis unfolding can_get_def by blast
qed

section \<open>Properties\<close>

text \<open>
  C13: reading through the cache is reading the disk as last written. A \<open>bread\<close> of a block that is cached and not locked,
  or for which a buffer is free, returns a locked valid buffer holding the current contents of the
  block; no other buffer changes, nothing is written to disk, the contents of every block stay
  what they were, and the cache invariant (one buffer per block, every buffer on the list) is kept.
\<close>

theorem bread_current:
  assumes "binv c" and "can_get c d bn" and "d \<noteq> 0"
  shows "\<exists>b c'. bread pid d bn c = Ok (b, c') \<and> binv c' \<and> cached c' d bn b \<and> b_data (bufs c' b) = view c d bn \<and>
    holdingsleep pid (b_lock (bufs c' b)) \<and> dwrites c' = dwrites c \<and>
    (\<forall>j. j \<noteq> b \<longrightarrow> bufs c' j = bufs c j) \<and> (\<forall>d' bn'. d' \<noteq> 0 \<longrightarrow> view c' d' bn' = view c d' bn')"
  using bread_spec [OF assms, of pid] by blast

theorem bread_current_witness:
  "\<exists>b c'. bread 1 1 5 boot_cache = Ok (b, c') \<and> binv c' \<and> b_data (bufs c' b) = view boot_cache 1 5"
  using bread_current [OF boot_binv boot_can_get, of 1 1 5] by auto

text \<open>
  C14: the doubly linked list implements the LRU order. On the abstract list \<open>xs\<close> of buffers, most recently used first, \<open>bget\<close>
  returns the buffer that caches the block or else the last one in the list without references, and
  leaves the order alone; \<open>brelse\<close> of the last reference moves the buffer to the front. The
  surgery on \<open>prev\<close> and \<open>next\<close> never breaks the list, and the search loops come back to the head.
\<close>

theorem list_refines_lru:
  assumes "binv c" and "lru c xs" and "set xs = {..<NBUF}"
  shows "(can_get c d bn \<and> d \<noteq> 0 \<longrightarrow>
      (\<exists>b c'. bget pid d bn c = Ok (b, c') \<and> lru_choice c xs d bn = Some b \<and> lru c' xs)) \<and>
    (b < NBUF \<and> holdingsleep pid (b_lock (bufs c b)) \<and>
       (refcnt (bufs c b) = 1 \<longrightarrow> b_data (bufs c b) = disk c (blockno (bufs c b))) \<longrightarrow>
      (\<exists>c'. brelse pid b c = Ok c' \<and> lru c' (if refcnt (bufs c b) = 1 then b # remove1 b xs else xs)))"
proof (intro conjI impI)
  assume "can_get c d bn \<and> d \<noteq> 0"
  then obtain b where "lru_choice c xs d bn = Some b" "bget pid d bn c = Ok (b, bupd b (taken pid d bn) c)"
    using bget_choice [OF assms, of d bn pid] by blast
  then show "\<exists>b c'. bget pid d bn c = Ok (b, c') \<and> lru_choice c xs d bn = Some b \<and> lru c' xs"
    using assms(2) lru_frame [of "taken pid d bn" b c] by simp
next
  assume "b < NBUF \<and> holdingsleep pid (b_lock (bufs c b)) \<and>
    (refcnt (bufs c b) = 1 \<longrightarrow> b_data (bufs c b) = disk c (blockno (bufs c b)))"
  then show "\<exists>c'. brelse pid b c = Ok c' \<and> lru c' (if refcnt (bufs c b) = 1 then b # remove1 b xs else xs)"
    using brelse_spec [OF assms(1) _ _ _ assms(2,3), of b pid] by blast
qed

theorem list_refines_lru_witness:
  "\<exists>b c'. bget 1 1 5 boot_cache = Ok (b, c') \<and> lru_choice boot_cache (rev bnodes) 1 5 = Some b \<and> lru c' (rev bnodes)"
proof -
  have "set (rev bnodes) = {..<NBUF}" by simp
  from list_refines_lru [OF boot_binv boot_lru this, of 1 5 1] boot_can_get [of 1 5] show ?thesis by simp
qed

end
