(* ===== verification/Xv6_Log.thy ===== *)
theory Xv6_Log
  imports Xv6_Bio
begin

text \<open>
  The redo log: \<^verbatim>\<open>kernel/log.c\<close>. The state has the buffer cache and the log's own variables. The header
  \<^verbatim>\<open>log.lh\<close> is the list of its first \<open>n\<close> block numbers; on disk it is a count followed by the
  numbers, 32-bit little endian. \<open>pid\<close> is the process that makes the call.
\<close>

definition get32 :: "block \<Rightarrow> nat \<Rightarrow> u32" where
  "get32 d off = le_word (\<lambda>i. d ! (off + i)) 4"

definition put32 :: "block \<Rightarrow> nat \<Rightarrow> u32 \<Rightarrow> block" where
  "put32 d off v = foldl (\<lambda>d i. d[off + i := le_byte v i]) d [0..<4]"

record superblock =
  sb_magic :: u32
  sb_size :: u32
  sb_nblocks :: u32
  sb_ninodes :: u32
  sb_nlog :: u32
  sb_logstart :: u32
  sb_inodestart :: u32
  sb_bmapstart :: u32

record log =
  l_start :: u32
  l_size :: u32
  outstanding :: int
  committing :: bool
  l_dev :: u32
  lh :: "u32 list"

record fsys =
  bc :: bcache
  lg :: log

text \<open>Operations of the cache on the larger state.\<close>

definition bread' :: "int \<Rightarrow> u32 \<Rightarrow> u32 \<Rightarrow> 'a fsys_scheme \<Rightarrow> (nat \<times> 'a fsys_scheme) res" where
  "bread' pid d bn s = rbind (bread pid d bn (bc s)) (\<lambda>(b, c). Ok (b, s\<lparr>bc := c\<rparr>))"

definition bwrite' :: "int \<Rightarrow> nat \<Rightarrow> 'a fsys_scheme \<Rightarrow> 'a fsys_scheme res" where
  "bwrite' pid b s = rbind (bwrite pid b (bc s)) (\<lambda>c. Ok (s\<lparr>bc := c\<rparr>))"

definition brelse' :: "int \<Rightarrow> nat \<Rightarrow> 'a fsys_scheme \<Rightarrow> 'a fsys_scheme res" where
  "brelse' pid b s = rbind (brelse pid b (bc s)) (\<lambda>c. Ok (s\<lparr>bc := c\<rparr>))"

definition bdata :: "nat \<Rightarrow> 'a fsys_scheme \<Rightarrow> block" where
  "bdata b s = b_data (bufs (bc s) b)"

definition set_bdata :: "nat \<Rightarrow> block \<Rightarrow> 'a fsys_scheme \<Rightarrow> 'a fsys_scheme" where
  "set_bdata b d s = s\<lparr>bc := bupd b (b_data_update (\<lambda>_. d)) (bc s)\<rparr>"

section \<open>Installing, the header, recovery\<close>

definition install_one :: "int \<Rightarrow> bool \<Rightarrow> nat \<Rightarrow> 'a fsys_scheme \<Rightarrow> 'a fsys_scheme res" where
  "install_one pid recovering tail s =
     rbind (bread' pid (l_dev (lg s)) (l_start (lg s) + of_nat tail + 1) s) (\<lambda>(lbuf, s).
     rbind (bread' pid (l_dev (lg s)) (lh (lg s) ! tail) s) (\<lambda>(dbuf, s).
     rbind (bwrite' pid dbuf (set_bdata dbuf (bdata lbuf s) s)) (\<lambda>s.
     let s = (if recovering then s else s\<lparr>bc := bunpin dbuf (bc s)\<rparr>) in
     rbind (brelse' pid lbuf s) (\<lambda>s. brelse' pid dbuf s))))"

definition install_trans :: "int \<Rightarrow> bool \<Rightarrow> 'a fsys_scheme \<Rightarrow> 'a fsys_scheme res" where
  "install_trans pid recovering s = rfold (install_one pid recovering) [0..<length (lh (lg s))] s"

definition read_head :: "int \<Rightarrow> 'a fsys_scheme \<Rightarrow> 'a fsys_scheme res" where
  "read_head pid s =
     rbind (bread' pid (l_dev (lg s)) (l_start (lg s)) s) (\<lambda>(b, s).
       let d = bdata b s; n = nat (sint (get32 d 0)) in
       if LOGSIZE < n then Fail (Fault ''read_head: log.lh.block'')
       else brelse' pid b (s\<lparr>lg := (lg s)\<lparr>lh := map (\<lambda>i. get32 d (4 + 4 * i)) [0..<n]\<rparr>\<rparr>))"

definition head_data :: "u32 list \<Rightarrow> block \<Rightarrow> block" where
  "head_data h d =
     fold (\<lambda>i d. put32 d (4 + 4 * i) (h ! i)) [0..<length h] (put32 d 0 (of_nat (length h)))"

definition write_head :: "int \<Rightarrow> 'a fsys_scheme \<Rightarrow> 'a fsys_scheme res" where
  "write_head pid s =
     rbind (bread' pid (l_dev (lg s)) (l_start (lg s)) s) (\<lambda>(b, s).
     rbind (bwrite' pid b (set_bdata b (head_data (lh (lg s)) (bdata b s)) s)) (\<lambda>s. brelse' pid b s))"

definition recover_from_log :: "int \<Rightarrow> 'a fsys_scheme \<Rightarrow> 'a fsys_scheme res" where
  "recover_from_log pid s =
     rbind (read_head pid s) (\<lambda>s.
     rbind (install_trans pid True s) (\<lambda>s.
     write_head pid (s\<lparr>lg := (lg s)\<lparr>lh := []\<rparr>\<rparr>)))"

text \<open>\<^verbatim>\<open>sizeof(struct logheader)\<close> is 4 + 4 * LOGSIZE.\<close>

definition initlog :: "int \<Rightarrow> u32 \<Rightarrow> superblock \<Rightarrow> 'a fsys_scheme \<Rightarrow> 'a fsys_scheme res" where
  "initlog pid d sb s =
     (if BSIZE \<le> 4 + 4 * LOGSIZE then Fail (Panic ''initlog: too big logheader'')
      else recover_from_log pid (s\<lparr>lg := (lg s)\<lparr>l_start := sb_logstart sb, l_size := sb_nlog sb, l_dev := d\<rparr>\<rparr>))"

section \<open>Transactions\<close>

text \<open>\<open>begin_op\<close> goes to sleep on \<^verbatim>\<open>&log\<close> or reserves its space.\<close>

definition begin_op :: "'a fsys_scheme \<Rightarrow> 'a fsys_scheme res" where
  "begin_op s =
     (if committing (lg s) then Fail (Blocked ''log'')
      else if int (length (lh (lg s))) + (outstanding (lg s) + 1) * int MAXOPBLOCKS > int LOGSIZE then Fail (Blocked ''log'')
      else Ok (s\<lparr>lg := (lg s)\<lparr>outstanding := outstanding (lg s) + 1\<rparr>\<rparr>))"

definition write_one :: "int \<Rightarrow> nat \<Rightarrow> 'a fsys_scheme \<Rightarrow> 'a fsys_scheme res" where
  "write_one pid tail s =
     rbind (bread' pid (l_dev (lg s)) (l_start (lg s) + of_nat tail + 1) s) (\<lambda>(to, s).
     rbind (bread' pid (l_dev (lg s)) (lh (lg s) ! tail) s) (\<lambda>(from, s).
     rbind (bwrite' pid to (set_bdata to (bdata from s) s)) (\<lambda>s.
     rbind (brelse' pid from s) (\<lambda>s. brelse' pid to s))))"

definition write_log :: "int \<Rightarrow> 'a fsys_scheme \<Rightarrow> 'a fsys_scheme res" where
  "write_log pid s = rfold (write_one pid) [0..<length (lh (lg s))] s"

definition commit :: "int \<Rightarrow> 'a fsys_scheme \<Rightarrow> 'a fsys_scheme res" where
  "commit pid s =
     (if 0 < length (lh (lg s)) then
        rbind (write_log pid s) (\<lambda>s.
        rbind (write_head pid s) (\<lambda>s.
        rbind (install_trans pid False s) (\<lambda>s.
        write_head pid (s\<lparr>lg := (lg s)\<lparr>lh := []\<rparr>\<rparr>))))
      else Ok s)"

text \<open>The flag says whether the call wakes the sleepers on \<^verbatim>\<open>&log\<close>; it always does.\<close>

definition end_op :: "int \<Rightarrow> 'a fsys_scheme \<Rightarrow> 'a fsys_scheme res" where
  "end_op pid s =
     (let s = s\<lparr>lg := (lg s)\<lparr>outstanding := outstanding (lg s) - 1\<rparr>\<rparr> in
      if committing (lg s) then Fail (Panic ''log.committing'')
      else if outstanding (lg s) = 0 then
        rbind (commit pid (s\<lparr>lg := (lg s)\<lparr>committing := True\<rparr>\<rparr>)) (\<lambda>s.
          Ok (s\<lparr>lg := (lg s)\<lparr>committing := False\<rparr>\<rparr>))
      else Ok s)"

text \<open>\<open>b\<close> is the number of the buffer.\<close>

definition log_write :: "nat \<Rightarrow> 'a fsys_scheme \<Rightarrow> 'a fsys_scheme res" where
  "log_write b s =
     (let n = length (lh (lg s)); bn = blockno (bufs (bc s) b) in
      if LOGSIZE \<le> n \<or> int n \<ge> sint (l_size (lg s)) - 1 then Fail (Panic ''too big a transaction'')
      else if outstanding (lg s) < 1 then Fail (Panic ''log_write outside of trans'')
      else if bn \<in> set (lh (lg s)) then Ok s
      else Ok (s\<lparr>lg := (lg s)\<lparr>lh := lh (lg s) @ [bn]\<rparr>, bc := bpin b (bc s)\<rparr>))"

section \<open>The header on disk\<close>

lemma length_put32 [simp]: "length (put32 d off v) = length d"
  by (simp add: put32_def numeral_eq_Suc)

lemma nth_put32:
  assumes "off + 4 \<le> length d" and "k < length d"
  shows "put32 d off v ! k = (if off \<le> k \<and> k < off + 4 then le_byte v (k - off) else d ! k)"
proof -
  have "[0..<4] = [0, 1, 2, 3 :: nat]" by (simp add: upt_rec)
  then have e: "put32 d off v = d[off := le_byte v 0, off + 1 := le_byte v 1, off + 2 := le_byte v 2, off + 3 := le_byte v 3]"
    by (simp add: put32_def)
  consider "k = off" | "k = off + 1" | "k = off + 2" | "k = off + 3" | "k < off \<or> off + 4 \<le> k" by linarith
  then show ?thesis using assms unfolding e by cases auto
qed

lemma get_put32_same: "off + 4 \<le> length d \<Longrightarrow> get32 (put32 d off v) off = v"
proof -
  assume o: "off + 4 \<le> length d"
  have "get32 (put32 d off v) off = (le_word (le_byte v) 4 :: u32)"
    unfolding get32_def by (rule le_word_cong) (use o in \<open>simp add: nth_put32\<close>)
  then show ?thesis by simp
qed

lemma get_put32_other:
  assumes "off + 4 \<le> length d" and "off' + 4 \<le> length d" and "off + 4 \<le> off' \<or> off' + 4 \<le> off"
  shows "get32 (put32 d off v) off' = get32 d off'"
  unfolding get32_def by (rule le_word_cong) (use assms in \<open>auto simp: nth_put32\<close>)

lemma head_data_fold:
  assumes "4 + 4 * k \<le> length d"
  shows "length (fold (\<lambda>i d. put32 d (4 + 4 * i) (h ! i)) [0..<k] d) = length d"
    and "4 + 4 * k \<le> length d \<Longrightarrow> get32 (fold (\<lambda>i d. put32 d (4 + 4 * i) (h ! i)) [0..<k] d) 0 = get32 d 0"
    and "j < k \<Longrightarrow> get32 (fold (\<lambda>i d. put32 d (4 + 4 * i) (h ! i)) [0..<k] d) (4 + 4 * j) = h ! j"
proof -
  show l: "length (fold (\<lambda>i d. put32 d (4 + 4 * i) (h ! i)) [0..<k] d) = length d" for k
    by (induction k) auto
  show "4 + 4 * k \<le> length d \<Longrightarrow> get32 (fold (\<lambda>i d. put32 d (4 + 4 * i) (h ! i)) [0..<k] d) 0 = get32 d 0"
  proof (induction k)
    case (Suc k)
    then show ?case using l [of k] by (simp add: get_put32_other)
  qed simp
  show "j < k \<Longrightarrow> get32 (fold (\<lambda>i d. put32 d (4 + 4 * i) (h ! i)) [0..<k] d) (4 + 4 * j) = h ! j"
    using assms
  proof (induction k)
    case (Suc k)
    then show ?case using l [of k] by (cases "j = k") (simp_all add: get_put32_same get_put32_other)
  qed simp
qed

text \<open>
  The log header survives the disk. What \<open>write_head\<close> puts into the header block is what \<open>read_head\<close> finds
  there: the count and every block number, for every header that fits.
\<close>

lemma header_round_trip:
  assumes "length h \<le> LOGSIZE" and "length d = BSIZE"
  shows "(let d' = head_data h d; n = nat (sint (get32 d' 0)) in
    n = length h \<and> length d' = BSIZE \<and> map (\<lambda>i. get32 d' (4 + 4 * i)) [0..<n] = h)"
proof -
  let ?d0 = "put32 d 0 (of_nat (length h))"
  have k: "4 + 4 * length h \<le> length ?d0" using assms by simp
  note H = head_data_fold(1) [OF k, where h = h] head_data_fold(2) [OF k, where h = h] head_data_fold(3) [OF k, where h = h]
  have "get32 ?d0 0 = of_nat (length h)" using assms by (simp add: get_put32_same)
  then have "get32 (head_data h d) 0 = of_nat (length h)" using H(2) k by (simp add: head_data_def)
  moreover have "sint (of_nat (length h) :: u32) = int (length h)"
    using assms(1) by (simp add: signed_of_nat signed_take_bit_int_eq_self)
  ultimately have n: "nat (sint (get32 (head_data h d) 0)) = length h" by simp
  have "map (\<lambda>i. get32 (head_data h d) (4 + 4 * i)) [0..<length h] = h"
    using H(3) by (intro nth_equalityI) (simp_all add: head_data_def)
  then show ?thesis using n H(1) assms(2) by (simp add: Let_def head_data_def)
qed

section \<open>Reservation\<close>

text \<open>
  Runs of file system operations, with what each has logged so far: \<open>u k\<close> is the number of blocks that operation \<open>k\<close>
  has added to the log. An operation that is not running has no entry.
\<close>

inductive txn :: "'a fsys_scheme \<Rightarrow> (nat \<rightharpoonup> nat) \<Rightarrow> bool" where
  txn_init: "lh (lg s) = [] \<Longrightarrow> outstanding (lg s) = 0 \<Longrightarrow> \<not> committing (lg s) \<Longrightarrow> txn s Map.empty"
| txn_begin: "txn s u \<Longrightarrow> u k = None \<Longrightarrow> begin_op s = Ok s' \<Longrightarrow> txn s' (u(k \<mapsto> 0))"
| txn_write: "txn s u \<Longrightarrow> u k = Some m \<Longrightarrow> m < MAXOPBLOCKS \<Longrightarrow> log_write b s = Ok s' \<Longrightarrow>
    txn s' (u(k \<mapsto> m + (length (lh (lg s')) - length (lh (lg s)))))"
| txn_end: "txn s u \<Longrightarrow> u k = Some m \<Longrightarrow> end_op pid s = Ok s' \<Longrightarrow> txn s' (u(k := None))"

definition promised :: "(nat \<rightharpoonup> nat) \<Rightarrow> nat" where
  "promised u = (\<Sum>k\<in>dom u. MAXOPBLOCKS - the (u k))"

definition res_inv :: "'a fsys_scheme \<Rightarrow> (nat \<rightharpoonup> nat) \<Rightarrow> bool" where
  "res_inv s u \<longleftrightarrow> finite (dom u) \<and> outstanding (lg s) = int (card (dom u)) \<and> \<not> committing (lg s) \<and>
     length (lh (lg s)) + promised u \<le> LOGSIZE"

lemma promised_le: "finite (dom u) \<Longrightarrow> promised u \<le> card (dom u) * MAXOPBLOCKS"
  unfolding promised_def using sum_bounded_above [of "dom u" "\<lambda>k. MAXOPBLOCKS - the (u k)" MAXOPBLOCKS] by simp

lemma promised_new: "finite (dom u) \<Longrightarrow> u k = None \<Longrightarrow> promised (u(k \<mapsto> m)) = promised u + (MAXOPBLOCKS - m)"
proof -
  assume f: "finite (dom u)" and n: "u k = None"
  then have "dom (u(k \<mapsto> m)) = insert k (dom u)" "k \<notin> dom u" by auto
  moreover have "(\<Sum>j\<in>dom u. MAXOPBLOCKS - the ((u(k \<mapsto> m)) j)) = promised u"
    unfolding promised_def by (rule sum.cong) (use n in auto)
  ultimately show ?thesis using f by (simp add: promised_def)
qed

lemma promised_drop: "finite (dom u) \<Longrightarrow> u k = Some m \<Longrightarrow> promised u = promised (u(k := None)) + (MAXOPBLOCKS - m)"
  using promised_new [of "u(k := None)" k m] by (simp add: fun_upd_idem)

text \<open>Operations on the cache leave the log's variables alone.\<close>

lemma lg_cache_ops:
  "bread' pid d bn s = Ok (b, s') \<Longrightarrow> lg s' = lg s" "bwrite' pid b s = Ok s' \<Longrightarrow> lg s' = lg s"
  "brelse' pid b s = Ok s' \<Longrightarrow> lg s' = lg s" "lg (set_bdata b dt s) = lg s"
  by (auto simp: bread'_def bwrite'_def brelse'_def set_bdata_def rbind_Ok_iff)

lemma lg_rfold:
  assumes "\<And>x s s'. f x s = Ok s' \<Longrightarrow> lg s' = lg s"
  shows "rfold f xs s = Ok s' \<Longrightarrow> lg s' = lg s"
proof (induction xs arbitrary: s)
  case (Cons x xs)
  then obtain t where "f x s = Ok t" "rfold f xs t = Ok s'" by (auto simp: rbind_Ok_iff)
  then show ?case using Cons.IH assms by metis
qed simp

lemma lg_write_head: "write_head pid s = Ok s' \<Longrightarrow> lg s' = lg s"
  unfolding write_head_def by (auto simp: rbind_Ok_iff dest!: lg_cache_ops(1-3) simp: lg_cache_ops(4))

lemma lg_install_one: "install_one pid r t s = Ok s' \<Longrightarrow> lg s' = lg s"
  unfolding install_one_def Let_def
  by (auto simp: rbind_Ok_iff split: if_splits dest!: lg_cache_ops(1-3) simp: lg_cache_ops(4))

lemma lg_write_one: "write_one pid t s = Ok s' \<Longrightarrow> lg s' = lg s"
  unfolding write_one_def by (auto simp: rbind_Ok_iff dest!: lg_cache_ops(1-3) simp: lg_cache_ops(4))

lemma lg_commit: "commit pid s = Ok s' \<Longrightarrow> lg s' = (lg s)\<lparr>lh := []\<rparr>"
proof -
  assume c: "commit pid s = Ok s'"
  show ?thesis
  proof (cases "lh (lg s) = []")
    case True
    then show ?thesis using c by (simp add: commit_def)
  next
    case False
    then obtain s1 s2 s3 where C: "write_log pid s = Ok s1" "write_head pid s1 = Ok s2" "install_trans pid False s2 = Ok s3"
      "write_head pid (s3\<lparr>lg := (lg s3)\<lparr>lh := []\<rparr>\<rparr>) = Ok s'" using c by (auto simp: commit_def rbind_Ok_iff)
    have "lg s1 = lg s" by (rule lg_rfold [OF _ C(1) [unfolded write_log_def]]) (rule lg_write_one)
    moreover have "lg s2 = lg s1" by (rule lg_write_head [OF C(2)])
    moreover have "lg s3 = lg s2"
      by (rule lg_rfold [OF _ C(3) [unfolded install_trans_def]]) (rule lg_install_one)
    moreover have "lg s' = (lg s3)\<lparr>lh := []\<rparr>" using lg_write_head [OF C(4)] by simp
    ultimately show ?thesis by simp
  qed
qed

lemma res_inv_write:
  assumes "res_inv s u" and "u k = Some m" and "m < MAXOPBLOCKS" and "log_write b s = Ok s'"
  shows "res_inv s' (u(k \<mapsto> m + (length (lh (lg s')) - length (lh (lg s)))))"
proof -
  have f: "finite (dom u)" using assms(1) by (simp add: res_inv_def)
  let ?v = "u(k := None)"
  have n: "length (lh (lg s')) - length (lh (lg s)) \<le> 1" "length (lh (lg s)) \<le> length (lh (lg s'))"
    "outstanding (lg s') = outstanding (lg s)" "committing (lg s') = committing (lg s)"
    using assms(4) by (auto simp: log_write_def Let_def split: if_splits)
  let ?m = "m + (length (lh (lg s')) - length (lh (lg s)))"
  have "promised u = promised ?v + (MAXOPBLOCKS - m)" by (rule promised_drop [OF f assms(2)])
  moreover have "promised (u(k \<mapsto> ?m)) = promised ?v + (MAXOPBLOCKS - ?m)"
    using promised_new [of ?v k ?m] f by simp
  moreover have "dom (u(k \<mapsto> ?m)) = dom u" using assms(2) by auto
  ultimately have "length (lh (lg s')) + promised (u(k \<mapsto> ?m)) \<le> length (lh (lg s)) + promised u" "dom (u(k \<mapsto> ?m)) = dom u"
    using assms(3) n(1,2) by linarith+
  then show ?thesis using assms(1) n(3,4) unfolding res_inv_def by simp
qed

lemma res_inv_end:
  assumes "res_inv s u" and "u k = Some m" and "end_op pid s = Ok s'"
  shows "res_inv s' (u(k := None))"
proof -
  have f: "finite (dom u)" and k: "k \<in> dom u" using assms(1,2) by (auto simp: res_inv_def)
  have c: "card (dom u) = Suc (card (dom u - {k}))" using card.remove [OF f k] by simp
  have p: "promised (u(k := None)) \<le> promised u" using promised_drop [OF f assms(2)] by simp
  show ?thesis
  proof (cases "outstanding (lg s) = 1")
    case True
    then have "dom u - {k} = {}" using assms(1) c f by (simp add: res_inv_def)
    then have e: "u(k := None) = Map.empty" by (metis dom_eq_empty_conv dom_fun_upd)
    obtain t where t: "commit pid (s\<lparr>lg := (lg s)\<lparr>outstanding := outstanding (lg s) - 1, committing := True\<rparr>\<rparr>) = Ok t"
      "s' = t\<lparr>lg := (lg t)\<lparr>committing := False\<rparr>\<rparr>"
      using assms(1,3) True by (auto simp: end_op_def Let_def rbind_Ok_iff res_inv_def)
    show ?thesis using lg_commit [OF t(1)] t(2) True unfolding e by (simp add: res_inv_def promised_def)
  next
    case False
    then have "s' = s\<lparr>lg := (lg s)\<lparr>outstanding := outstanding (lg s) - 1\<rparr>\<rparr>"
      using assms(1,3) by (auto simp: end_op_def Let_def res_inv_def)
    then show ?thesis using assms(1) c p f by (simp add: res_inv_def)
  qed
qed

lemma txn_inv: "txn s u \<Longrightarrow> res_inv s u"
proof (induction rule: txn.induct)
  case (txn_init s)
  then show ?case by (simp add: res_inv_def promised_def)
next
  case (txn_begin s u k s')
  then have f: "finite (dom u)" "k \<notin> dom u" by (auto simp: res_inv_def)
  have "int (length (lh (lg s))) + (outstanding (lg s) + 1) * int MAXOPBLOCKS \<le> int LOGSIZE"
    "s' = s\<lparr>lg := (lg s)\<lparr>outstanding := outstanding (lg s) + 1\<rparr>\<rparr>"
    using txn_begin.hyps(3) by (auto simp: begin_op_def split: if_splits)
  note B = this
  have d: "dom (u(k \<mapsto> 0)) = insert k (dom u)" by auto
  have "length (lh (lg s)) + promised (u(k \<mapsto> 0)) \<le> LOGSIZE"
    using B(1) txn_begin.IH promised_le [OF f(1)] promised_new [OF f(1) txn_begin.hyps(2), of 0]
    unfolding res_inv_def by simp
  then show ?case using txn_begin.IH f B(2) unfolding res_inv_def d by simp
next
  case (txn_write s u k m b s')
  then show ?case by (intro res_inv_write) auto
next
  case (txn_end s u k m pid s')
  then show ?case by (intro res_inv_end) auto
qed

text \<open>
  C15: reservations are enough, for a log region of more than \<open>LOGSIZE\<close> blocks plus header. In every run in which each operation logs
  at most \<open>MAXOPBLOCKS\<close> different blocks, an operation that has not used up its share can log another
  block without the panic; the space \<open>begin_op\<close> promised is really there. For a region of exactly \<open>LOGSIZE\<close> blocks, header included,
  which is what \<^verbatim>\<open>mkfs\<close> makes, the hypothesis on the size fails.
\<close>

theorem reservation_sufficient:
  assumes "txn s u" and "u k = Some m" and "m < MAXOPBLOCKS" and "int LOGSIZE < sint (l_size (lg s))"
  shows "\<exists>s'. log_write b s = Ok s'"
proof -
  have i: "res_inv s u" using assms(1) by (rule txn_inv)
  then have f: "finite (dom u)" by (simp add: res_inv_def)
  have "0 < promised u" using promised_drop [OF f assms(2)] assms(3) by simp
  moreover have "0 < card (dom u)" using f assms(2) by (auto simp: card_gt_0_iff)
  ultimately have "length (lh (lg s)) < LOGSIZE" "1 \<le> outstanding (lg s)" using i unfolding res_inv_def by linarith+
  then show ?thesis using assms(4) unfolding log_write_def Let_def by simp
qed

definition log0 :: "u32 \<Rightarrow> fsys" where
  "log0 sz = \<lparr>bc = boot_cache, lg = \<lparr>l_start = 2, l_size = sz, outstanding = 0, committing = False, l_dev = 1, lh = []\<rparr>\<rparr>"

theorem reservation_sufficient_witness: "\<exists>s s'. begin_op (log0 31) = Ok s \<and> log_write 3 s = Ok s'"
proof -
  let ?s = "(log0 31)\<lparr>lg := (lg (log0 31))\<lparr>outstanding := 1\<rparr>\<rparr>"
  have b: "begin_op (log0 31) = Ok ?s" by (simp add: begin_op_def log0_def)
  have "txn (log0 31) Map.empty" by (rule txn_init) (simp_all add: log0_def)
  then have t: "txn ?s (Map.empty(0 \<mapsto> 0))" by (rule txn_begin) (use b in simp_all)
  have "\<exists>s'. log_write 3 ?s = Ok s'" by (rule reservation_sufficient [OF t, of 0 0]) (simp_all add: log0_def)
  then show ?thesis using b by blast
qed

text \<open>
  With the region of \<open>LOGSIZE\<close> blocks, an admitted operation can meet the panic within its share: the
  log already holds 29 blocks, and the operation has logged only 9 of its 10.
\<close>

lemma reservation_gap:
  "log_write b s = Fail (Panic ''too big a transaction'')"
  if "l_size (lg s) = of_nat LOGSIZE" and "length (lh (lg s)) = 29"
  using that by (simp add: log_write_def Let_def)

end
