(* ===== verification/Xv6_Uart.thy ===== *)
theory Xv6_Uart
  imports Xv6_Queue Xv6_Machine
begin

text \<open>
  The serial port driver: \<^verbatim>\<open>kernel/uart.c\<close>. The 16550 chip is the environment: what a read of its
  line status register and of its receive register gives at each point of time is the argument
  \<open>chip\<close> (any function), and what the driver writes to the registers is recorded in order. A clock
  counts the register accesses. A loop that waits for the chip and never sees it ready does not
  return; such a call has no value (\<open>None\<close>), as has one that finds the kernel panicked.
\<close>

definition RHR :: nat where [simp]: "RHR = 0"
definition THR :: nat where [simp]: "THR = 0"
definition IER :: nat where [simp]: "IER = 1"
definition IER_RX_ENABLE :: u8 where [simp]: "IER_RX_ENABLE = 1"
definition IER_TX_ENABLE :: u8 where [simp]: "IER_TX_ENABLE = 2"
definition FCR :: nat where [simp]: "FCR = 2"
definition FCR_FIFO_ENABLE :: u8 where [simp]: "FCR_FIFO_ENABLE = 1"
definition FCR_FIFO_CLEAR :: u8 where [simp]: "FCR_FIFO_CLEAR = 6"
definition ISR :: nat where [simp]: "ISR = 2"
definition LCR :: nat where [simp]: "LCR = 3"
definition LCR_EIGHT_BITS :: u8 where [simp]: "LCR_EIGHT_BITS = 3"
definition LCR_BAUD_LATCH :: u8 where [simp]: "LCR_BAUD_LATCH = 128"
definition LSR :: nat where [simp]: "LSR = 5"
definition LSR_RX_READY :: u8 where [simp]: "LSR_RX_READY = 1"
definition LSR_TX_IDLE :: u8 where [simp]: "LSR_TX_IDLE = 32"
definition UART_TX_BUF_SIZE :: nat where [simp]: "UART_TX_BUF_SIZE = 32"

text \<open>What the chip answers to a read of a register at a time.\<close>

type_synonym chip = "nat \<Rightarrow> nat \<Rightarrow> u8"

record uart =
  uart_tx_buf :: "u8 list"
  uart_tx_w :: u64
  uart_tx_r :: u64
  clock :: nat
  writes :: "(nat \<times> u8) list"

definition ReadReg :: "chip \<Rightarrow> nat \<Rightarrow> uart \<Rightarrow> u8 \<times> uart" where
  "ReadReg chip reg u = (chip (clock u) reg, u\<lparr>clock := clock u + 1\<rparr>)"

definition WriteReg :: "nat \<Rightarrow> u8 \<Rightarrow> uart \<Rightarrow> uart" where
  "WriteReg reg v u = u\<lparr>clock := clock u + 1, writes := writes u @ [(reg, v)]\<rparr>"

definition uartinit :: "uart \<Rightarrow> uart" where
  "uartinit u =
     WriteReg IER (IER_TX_ENABLE OR IER_RX_ENABLE)
     (WriteReg FCR (FCR_FIFO_ENABLE OR FCR_FIFO_CLEAR)
     (WriteReg LCR LCR_EIGHT_BITS
     (WriteReg 1 0x00
     (WriteReg 0 0x03
     (WriteReg LCR LCR_BAUD_LATCH
     (WriteReg IER 0x00 u))))))"

section \<open>The transmit ring\<close>

definition tx_put :: "uart \<Rightarrow> u8 \<Rightarrow> uart" where
  "tx_put u c = u\<lparr>uart_tx_buf := (uart_tx_buf u)[unat (uart_tx_w u) mod UART_TX_BUF_SIZE := c], uart_tx_w := uart_tx_w u + 1\<rparr>"

definition tx_get :: "uart \<Rightarrow> u8 \<times> uart" where
  "tx_get u = (uart_tx_buf u ! (unat (uart_tx_r u) mod UART_TX_BUF_SIZE), u\<lparr>uart_tx_r := uart_tx_r u + 1\<rparr>)"

text \<open>
  \<open>uartstart\<close> sends while the ring holds something and the chip is idle. The second component counts
  the wake-ups of \<^verbatim>\<open>&uart_tx_r\<close>.
\<close>

function uartstart :: "chip \<Rightarrow> uart \<Rightarrow> nat \<times> uart" where
  "uartstart chip u =
     (if uart_tx_w u = uart_tx_r u then (0, snd (ReadReg chip ISR u))
      else case ReadReg chip LSR u of (lsr, u1) \<Rightarrow>
        if lsr AND LSR_TX_IDLE = 0 then (0, u1)
        else case tx_get u1 of (c, u2) \<Rightarrow>
          case uartstart chip (WriteReg THR c u2) of (n, u3) \<Rightarrow> (Suc n, u3))"
  by pat_completeness auto
termination
proof (relation "measure (\<lambda>(chip, u). unat (uart_tx_w u - uart_tx_r u))", goal_cases)
  case (2 chip u l u1 c u2)
  then have "unat (uart_tx_w u - uart_tx_r u) \<noteq> 0" by (simp add: unat_eq_0)
  then have "unat (uart_tx_w u - (uart_tx_r u + 1)) < unat (uart_tx_w u - uart_tx_r u)"
    using ring_get(2) [of "uart_tx_w u" "uart_tx_r u"] by simp
  then show ?case using 2 by (auto simp: ReadReg_def tx_get_def WriteReg_def)
qed simp

declare uartstart.simps [simp del]

text \<open>
  \<open>uartputc\<close>: \<open>Inl\<close> is the state in which it sleeps on \<^verbatim>\<open>&uart_tx_r\<close>, from which it starts again when woken.
\<close>

definition uartputc :: "chip \<Rightarrow> bool \<Rightarrow> u8 \<Rightarrow> uart \<Rightarrow> (uart + uart) option" where
  "uartputc chip panicked c u =
     (if panicked then None
      else if uart_tx_w u = uart_tx_r u + of_nat UART_TX_BUF_SIZE then Some (Inl u)
      else Some (Inr (snd (uartstart chip (tx_put u c)))))"

partial_function (option) wait_idle :: "chip \<Rightarrow> uart \<Rightarrow> uart option" where
  "wait_idle chip u =
     (let (lsr, u1) = ReadReg chip LSR u in if lsr AND LSR_TX_IDLE = 0 then wait_idle chip u1 else Some u1)"

definition uartputc_sync :: "chip \<Rightarrow> bool \<Rightarrow> u8 \<Rightarrow> uart \<Rightarrow> uart option" where
  "uartputc_sync chip panicked c u =
     (if panicked then None else map_option (WriteReg THR c) (wait_idle chip u))"

definition uartgetc :: "chip \<Rightarrow> uart \<Rightarrow> u8 option \<times> uart" where
  "uartgetc chip u =
     (case ReadReg chip LSR u of (lsr, u1) \<Rightarrow>
        if lsr AND LSR_RX_READY \<noteq> 0 then case ReadReg chip RHR u1 of (c, u2) \<Rightarrow> (Some c, u2) else (None, u1))"

section \<open>Correctness\<close>

definition tx_inv :: "uart \<Rightarrow> bool" where
  "tx_inv u \<longleftrightarrow> length (uart_tx_buf u) = UART_TX_BUF_SIZE \<and> unat (uart_tx_w u - uart_tx_r u) \<le> UART_TX_BUF_SIZE"

definition tx_contents :: "uart \<Rightarrow> u8 list" where
  "tx_contents u = ring (uart_tx_buf u) UART_TX_BUF_SIZE (uart_tx_r u) (uart_tx_w u)"

lemma tx_put_law:
  assumes "tx_inv u" and "length (tx_contents u) < UART_TX_BUF_SIZE"
  shows "tx_inv (tx_put u x) \<and> tx_contents (tx_put u x) = tx_contents u @ [x]"
proof -
  have dv: "(32 :: nat) dvd 2 ^ LENGTH(64)" by simp
  have "length (uart_tx_buf u) = 32" "unat (uart_tx_w u - uart_tx_r u) < 32"
    using assms by (simp_all add: tx_inv_def tx_contents_def)
  then show ?thesis using ring_put(1) [OF dv, of "uart_tx_buf u" "uart_tx_w u" "uart_tx_r u" x]
      ring_put(2) [OF dv, of "uart_tx_buf u" "uart_tx_w u" "uart_tx_r u"]
    by (simp add: tx_inv_def tx_contents_def tx_put_def)
qed

lemma tx_get_law:
  assumes "tx_inv u" and "tx_contents u = x # xs"
  shows "fst (tx_get u) = x \<and> tx_inv (snd (tx_get u)) \<and> tx_contents (snd (tx_get u)) = xs"
proof -
  have "0 < unat (uart_tx_w u - uart_tx_r u)" using arg_cong [OF assms(2), of length] by (simp add: tx_contents_def)
  then show ?thesis using ring_get(1) [of "uart_tx_w u" "uart_tx_r u" "uart_tx_buf u" 32]
      ring_get(2) [of "uart_tx_w u" "uart_tx_r u"] assms by (auto simp: tx_inv_def tx_contents_def tx_get_def)
qed

interpretation txq: bounded_queue tx_inv tx_contents UART_TX_BUF_SIZE tx_put tx_get
proof unfold_locales
  fix q x xs
  show "tx_inv q \<Longrightarrow> length (tx_contents q) < UART_TX_BUF_SIZE \<Longrightarrow>
      tx_inv (tx_put q x) \<and> tx_contents (tx_put q x) = tx_contents q @ [x]" by (rule tx_put_law)
  show "tx_inv q \<Longrightarrow> tx_contents q = x # xs \<Longrightarrow>
      fst (tx_get q) = x \<and> tx_inv (snd (tx_get q)) \<and> tx_contents (snd (tx_get q)) = xs" by (rule tx_get_law)
  show "tx_inv q \<Longrightarrow> length (tx_contents q) \<le> UART_TX_BUF_SIZE" by (simp add: tx_inv_def tx_contents_def)
qed

text \<open>The bytes sent: the writes to the transmit register.\<close>

definition sent :: "uart \<Rightarrow> u8 list" where
  "sent u = map snd (filter (\<lambda>(r, v). r = THR) (writes u))"

lemma ReadReg_facts:
  "ReadReg chip r u = (v, u1) \<Longrightarrow> sent u1 = sent u \<and> tx_contents u1 = tx_contents u \<and> tx_inv u1 = tx_inv u \<and>
     uart_tx_w u1 = uart_tx_w u \<and> uart_tx_r u1 = uart_tx_r u"
  by (auto simp: ReadReg_def sent_def tx_contents_def tx_inv_def)

lemma ReadReg_snd [simp]:
  "sent (snd (ReadReg chip r u)) = sent u" "tx_contents (snd (ReadReg chip r u)) = tx_contents u"
  "tx_inv (snd (ReadReg chip r u)) = tx_inv u"
  by (simp_all add: ReadReg_def sent_def tx_contents_def tx_inv_def)

lemma WriteReg_THR [simp]:
  "sent (WriteReg 0 c u) = sent u @ [c]" "tx_contents (WriteReg 0 c u) = tx_contents u"
  "tx_inv (WriteReg 0 c u) = tx_inv u"
  by (simp_all add: WriteReg_def sent_def tx_contents_def tx_inv_def)

lemma tx_empty_iff: "uart_tx_w u = uart_tx_r u \<longleftrightarrow> tx_contents u = []"
  using length_ring [of "uart_tx_buf u" UART_TX_BUF_SIZE "uart_tx_r u" "uart_tx_w u"]
  by (auto simp: tx_contents_def ring_def unat_eq_0)

lemma tx_full_iff: "uart_tx_w u = uart_tx_r u + of_nat UART_TX_BUF_SIZE \<longleftrightarrow> length (tx_contents u) = UART_TX_BUF_SIZE"
  using eq_add_of_nat_iff [of UART_TX_BUF_SIZE "uart_tx_w u" "uart_tx_r u"] by (simp add: tx_contents_def)

lemma tx_get_facts: "tx_get u = (c, u1) \<Longrightarrow> sent u1 = sent u"
  by (auto simp: tx_get_def sent_def)

lemma uartstart_spec:
  assumes "tx_inv u"
  shows "\<exists>n v. uartstart chip u = (n, v) \<and> tx_inv v \<and> n \<le> length (tx_contents u) \<and>
    sent v = sent u @ take n (tx_contents u) \<and> tx_contents v = drop n (tx_contents u)"
  using assms
proof (induction chip u rule: uartstart.induct)
  case (1 chip u)
  obtain l u1 where l: "ReadReg chip LSR u = (l, u1)" by fastforce
  note R = ReadReg_facts [OF l]
  show ?case
  proof (cases "uart_tx_w u = uart_tx_r u \<or> l AND LSR_TX_IDLE = 0")
    case True
    then show ?thesis using "1.prems" R l by (subst uartstart.simps) (auto simp: tx_empty_iff)
  next
    case False
    then obtain b bs where b: "tx_contents u1 = b # bs" using R tx_empty_iff [of u] by (cases "tx_contents u") auto
    obtain c u2 where g: "tx_get u1 = (c, u2)" by fastforce
    have G: "c = b" "tx_inv u2" "tx_contents u2 = bs" using txq.get_law [of u1 b bs] b g R "1.prems" by auto
    let ?w = "WriteReg THR c u2"
    obtain n v where n: "uartstart chip ?w = (n, v)" "tx_inv v" "n \<le> length (tx_contents ?w)"
      "sent v = sent ?w @ take n (tx_contents ?w)" "tx_contents v = drop n (tx_contents ?w)"
      using "1.IH" [OF _ l [symmetric] _ g [symmetric]] False G(2) by auto
    have "uartstart chip u = (Suc n, v)" using False l g n(1) by (subst uartstart.simps) simp
    then show ?thesis using n G b R tx_get_facts [OF g] by auto
  qed
qed

text \<open>
  C36: output through the transmit ring is in order and complete. Whatever the chip answers, a call of \<open>uartputc\<close> either
  finds the ring full and sleeps with nothing changed, or the byte is appended: what has been sent
  together with what waits in the ring is the earlier sequence with the byte at its end. \<open>uartstart\<close>
  always comes back.
\<close>

theorem uartputc_in_order:
  assumes "tx_inv u"
  shows "(length (tx_contents u) = UART_TX_BUF_SIZE \<longrightarrow> uartputc chip False c u = Some (Inl u)) \<and>
    (length (tx_contents u) < UART_TX_BUF_SIZE \<longrightarrow>
      (\<exists>v. uartputc chip False c u = Some (Inr v) \<and> tx_inv v \<and>
        sent v @ tx_contents v = sent u @ tx_contents u @ [c]))"
proof (intro conjI impI)
  assume "length (tx_contents u) = UART_TX_BUF_SIZE"
  then show "uartputc chip False c u = Some (Inl u)" using tx_full_iff [of u] by (simp add: uartputc_def)
next
  assume lt: "length (tx_contents u) < UART_TX_BUF_SIZE"
  have P: "tx_inv (tx_put u c)" "tx_contents (tx_put u c) = tx_contents u @ [c]" using txq.put_law [OF assms lt] by auto
  have "sent (tx_put u c) = sent u" by (simp add: tx_put_def sent_def)
  then have "\<exists>n v. uartstart chip (tx_put u c) = (n, v) \<and> tx_inv v \<and>
      sent v @ tx_contents v = sent u @ tx_contents u @ [c]"
    using uartstart_spec [OF P(1), of chip] P(2) by (metis append.assoc append_take_drop_id)
  moreover have "uart_tx_w u \<noteq> uart_tx_r u + of_nat UART_TX_BUF_SIZE" using lt tx_full_iff [of u] by linarith
  ultimately show "\<exists>v. uartputc chip False c u = Some (Inr v) \<and> tx_inv v \<and> sent v @ tx_contents v = sent u @ tx_contents u @ [c]"
    unfolding uartputc_def by auto
qed

definition uart0 :: uart where
  "uart0 = \<lparr>uart_tx_buf = replicate 32 0, uart_tx_w = 0, uart_tx_r = 0, clock = 0, writes = []\<rparr>"

lemma uart0_inv: "tx_inv uart0" "tx_contents uart0 = []"
  by (simp_all add: tx_inv_def uart0_def tx_contents_def ring_def)

theorem uartputc_in_order_witness:
  "\<exists>v. uartputc (\<lambda>t r. 0) False 65 uart0 = Some (Inr v) \<and> tx_inv v \<and> sent v @ tx_contents v = sent uart0 @ [65]"
  using uartputc_in_order [OF uart0_inv(1), of "\<lambda>t r. 0" 65] uart0_inv(2) by simp

text \<open>If the chip becomes idle at some later time, \<open>uartputc_sync\<close> returns and has sent its byte.\<close>

lemma wait_idle_returns:
  "chip (clock u + k) LSR AND LSR_TX_IDLE \<noteq> 0 \<Longrightarrow> \<exists>v. wait_idle chip u = Some v \<and> sent v = sent u \<and> tx_contents v = tx_contents u"
proof (induction k arbitrary: u)
  case 0
  then show ?case by (subst wait_idle.simps) (simp add: ReadReg_def sent_def tx_contents_def)
next
  case (Suc k)
  show ?case
  proof (cases "chip (clock u) LSR AND LSR_TX_IDLE = 0")
    case True
    let ?u = "u\<lparr>clock := clock u + 1\<rparr>"
    have "\<exists>v. wait_idle chip ?u = Some v \<and> sent v = sent ?u \<and> tx_contents v = tx_contents ?u"
      using Suc.IH [of ?u] Suc.prems by simp
    then show ?thesis using True by (subst wait_idle.simps) (simp add: ReadReg_def sent_def tx_contents_def)
  next
    case False
    then show ?thesis by (subst wait_idle.simps) (simp add: ReadReg_def sent_def tx_contents_def)
  qed
qed

lemma uartputc_sync_returns:
  assumes "chip (clock u + k) LSR AND LSR_TX_IDLE \<noteq> 0"
  shows "\<exists>v. uartputc_sync chip False c u = Some v \<and> sent v = sent u @ [c] \<and> tx_contents v = tx_contents u"
  using wait_idle_returns [of chip u k, OF assms] by (auto simp: uartputc_sync_def)

end
