(* ===== verification/Xv6_Console.thy ===== *)
theory Xv6_Console
  imports Xv6_CopyUser Xv6_Uart
begin

text \<open>
  The console: \<^verbatim>\<open>kernel/console.c\<close>, with \<open>either_copyin\<close> and \<open>either_copyout\<close> of \<^verbatim>\<open>kernel/proc.c\<close>. Input
  characters go into a ring with three counters: \<open>c_r\<close> (read up to here), \<open>c_w\<close> (complete lines up to
  here) and \<open>c_e\<close> (edited up to here). Echo goes through the serial port, whose chip is an argument;
  a call that waits for the chip forever has no value. Readers and writers that have to wait return
  \<open>CSleep\<close> with what they need to go on. \<open>procdump\<close>, which only prints, is an argument.
\<close>

definition BACKSPACE :: nat where [simp]: "BACKSPACE = 0x100"

text \<open>\<^verbatim>\<open>C(x)\<close>: control-x.\<close>

definition Ctl :: "char \<Rightarrow> u8" where
  "Ctl x = of_nat (of_char x) - 64"

lemma Ctl_values [simp]:
  "Ctl (CHR ''P'') = 16" "Ctl (CHR ''U'') = 21" "Ctl (CHR ''H'') = 8" "Ctl (CHR ''D'') = 4"
  by (simp_all add: Ctl_def)

definition either_copyout :: "kmem \<Rightarrow> u64 \<Rightarrow> bool \<Rightarrow> u64 \<Rightarrow> u64 \<Rightarrow> u64 \<Rightarrow> (int \<times> kmem) res" where
  "either_copyout s pagetable user_dst dst src len =
     (if user_dst then copyout s pagetable dst src len
      else Ok (0, s\<lparr>k_mem := memmove (k_mem s) dst src (ucast len)\<rparr>))"

definition either_copyin :: "kmem \<Rightarrow> u64 \<Rightarrow> u64 \<Rightarrow> bool \<Rightarrow> u64 \<Rightarrow> u64 \<Rightarrow> (int \<times> kmem) res" where
  "either_copyin s pagetable dst user_src src len =
     (if user_src then copyin s pagetable dst src len
      else Ok (0, s\<lparr>k_mem := memmove (k_mem s) dst src (ucast len)\<rparr>))"

definition INPUT_BUF_SIZE :: nat where [simp]: "INPUT_BUF_SIZE = 128"

record cons =
  c_buf :: "u8 list"
  c_r :: u32
  c_w :: u32
  c_e :: u32

definition bind_uart :: "uart option \<Rightarrow> (uart \<Rightarrow> 'b option) \<Rightarrow> 'b option" where
  "bind_uart m f = (case m of None \<Rightarrow> None | Some u \<Rightarrow> f u)"

lemma bind_uart_simps [simp]: "bind_uart None f = None" "bind_uart (Some u) f = f u"
  by (simp_all add: bind_uart_def)

lemma bind_uart_cong [fundef_cong]: "m = m' \<Longrightarrow> (\<And>u. m' = Some u \<Longrightarrow> f u = g u) \<Longrightarrow> bind_uart m f = bind_uart m' g"
  by (auto simp: bind_uart_def split: option.splits)

definition consputc :: "chip \<Rightarrow> bool \<Rightarrow> nat \<Rightarrow> uart \<Rightarrow> uart option" where
  "consputc chip panicked c u =
     (if c = BACKSPACE then
        bind_uart (uartputc_sync chip panicked 8 u) (\<lambda>u.
        bind_uart (uartputc_sync chip panicked 32 u) (\<lambda>u.
        uartputc_sync chip panicked 8 u))
      else uartputc_sync chip panicked (of_nat c) u)"

datatype cout = CReturn int | CSleep int u64

text \<open>A call that sleeps has byte \<open>i\<close> in its local; \<open>consolewrite_resume\<close> is how it goes on when woken.\<close>

function consolewrite_loop ::
  "chip \<Rightarrow> u64 \<Rightarrow> u64 \<Rightarrow> bool \<Rightarrow> u64 \<Rightarrow> int \<Rightarrow> int \<Rightarrow> uart \<Rightarrow> kmem \<Rightarrow> (cout \<times> uart \<times> kmem) res" where
  "consolewrite_loop chip pagetable ca user_src src n i u s =
     (if i < n then
        rbind (either_copyin s pagetable ca user_src (src + of_int i) 1) (\<lambda>(r, s1).
          if r = -1 then Ok (CReturn i, u, s1)
          else case uartputc chip False (k_mem s1 ca) u of
              None \<Rightarrow> Fail (Blocked ''panicked'')
            | Some (Inl u1) \<Rightarrow> Ok (CSleep i (src + of_int i), u1, s1)
            | Some (Inr u1) \<Rightarrow> consolewrite_loop chip pagetable ca user_src src n (i + 1) u1 s1)
      else Ok (CReturn i, u, s))"
  by pat_completeness auto
termination
  by (relation "measure (\<lambda>(chip, pt, ca, us, src, n, i, u, s). nat (n - i))") auto

declare consolewrite_loop.simps [simp del]

definition consolewrite ::
  "chip \<Rightarrow> u64 \<Rightarrow> u64 \<Rightarrow> bool \<Rightarrow> u64 \<Rightarrow> int \<Rightarrow> uart \<Rightarrow> kmem \<Rightarrow> (cout \<times> uart \<times> kmem) res" where
  "consolewrite chip pagetable ca user_src src n u s = consolewrite_loop chip pagetable ca user_src src n 0 u s"

definition consolewrite_resume ::
  "chip \<Rightarrow> u64 \<Rightarrow> u64 \<Rightarrow> bool \<Rightarrow> u64 \<Rightarrow> int \<Rightarrow> int \<Rightarrow> uart \<Rightarrow> kmem \<Rightarrow> (cout \<times> uart \<times> kmem) res" where
  "consolewrite_resume chip pagetable ca user_src src n i u s =
     (case uartputc chip False (k_mem s ca) u of
        None \<Rightarrow> Fail (Blocked ''panicked'')
      | Some (Inl u1) \<Rightarrow> Ok (CSleep i (src + of_int i), u1, s)
      | Some (Inr u1) \<Rightarrow> consolewrite_loop chip pagetable ca user_src src n (i + 1) u1 s)"

function consoleread_loop ::
  "u64 \<Rightarrow> u64 \<Rightarrow> bool \<Rightarrow> bool \<Rightarrow> int \<Rightarrow> int \<Rightarrow> u64 \<Rightarrow> cons \<Rightarrow> kmem \<Rightarrow> (cout \<times> cons \<times> kmem) res" where
  "consoleread_loop pagetable cbuf user_dst killed target n dst k s =
     (if n > 0 then
        if c_r k = c_w k then
          if killed then Ok (CReturn (-1), k, s) else Ok (CSleep n dst, k, s)
        else
          let c = c_buf k ! (unat (c_r k) mod INPUT_BUF_SIZE); k1 = k\<lparr>c_r := c_r k + 1\<rparr> in
          if c = Ctl (CHR ''D'') then
            Ok (CReturn (target - n), if n < target then k1\<lparr>c_r := c_r k1 - 1\<rparr> else k1, s)
          else rbind (either_copyout (s\<lparr>k_mem := (k_mem s)(cbuf := c)\<rparr>) pagetable user_dst dst cbuf 1) (\<lambda>(r, s1).
            if r = -1 then Ok (CReturn (target - n), k1, s1)
            else if c = 10 then Ok (CReturn (target - (n - 1)), k1, s1)
            else consoleread_loop pagetable cbuf user_dst killed target (n - 1) (dst + 1) k1 s1)
      else Ok (CReturn (target - n), k, s))"
  by pat_completeness auto
termination
  by (relation "measure (\<lambda>(pt, cb, ud, kl, target, n, dst, k, s). nat n)") auto

declare consoleread_loop.simps [simp del]

definition consoleread ::
  "u64 \<Rightarrow> u64 \<Rightarrow> bool \<Rightarrow> bool \<Rightarrow> u64 \<Rightarrow> int \<Rightarrow> cons \<Rightarrow> kmem \<Rightarrow> (cout \<times> cons \<times> kmem) res" where
  "consoleread pagetable cbuf user_dst killed dst n k s = consoleread_loop pagetable cbuf user_dst killed n n dst k s"

function kill_line :: "chip \<Rightarrow> bool \<Rightarrow> cons \<Rightarrow> uart \<Rightarrow> (cons \<times> uart) option" where
  "kill_line chip panicked k u =
     (if c_e k \<noteq> c_w k \<and> c_buf k ! (unat (c_e k - 1) mod INPUT_BUF_SIZE) \<noteq> 10 then
        bind_uart (consputc chip panicked BACKSPACE u) (\<lambda>u1. kill_line chip panicked (k\<lparr>c_e := c_e k - 1\<rparr>) u1)
      else Some (k, u))"
  by pat_completeness auto
termination
proof (relation "measure (\<lambda>(chip, p, k, u). unat (c_e k - c_w k))", goal_cases)
  case (2 chip p k u u1)
  then have nz: "c_e k - c_w k \<noteq> 0" by simp
  have e: "c_e k - 1 - c_w k = (c_e k - c_w k) - 1" by simp
  have "unat (c_e k - 1 - c_w k) = unat (c_e k - c_w k) - 1" unfolding e by (rule unat_minus_one [OF nz])
  moreover have "0 < unat (c_e k - c_w k)" using nz by (simp add: unat_gt_0)
  ultimately show ?case by simp
qed simp

declare kill_line.simps [simp del]

text \<open>The third component counts the wake-ups of \<^verbatim>\<open>&cons.r\<close>.\<close>

definition consoleintr ::
  "chip \<Rightarrow> bool \<Rightarrow> (uart \<Rightarrow> uart option) \<Rightarrow> u8 \<Rightarrow> cons \<Rightarrow> uart \<Rightarrow> (cons \<times> uart \<times> nat) option" where
  "consoleintr chip panicked procdump c k u =
     (if c = Ctl (CHR ''P'') then bind_uart (procdump u) (\<lambda>u1. Some (k, u1, 0))
      else if c = Ctl (CHR ''U'') then map_option (\<lambda>(k1, u1). (k1, u1, 0)) (kill_line chip panicked k u)
      else if c = Ctl (CHR ''H'') \<or> c = 0x7f then
        if c_e k \<noteq> c_w k then
          bind_uart (consputc chip panicked BACKSPACE u) (\<lambda>u1. Some (k\<lparr>c_e := c_e k - 1\<rparr>, u1, 0))
        else Some (k, u, 0)
      else if c \<noteq> 0 \<and> c_e k - c_r k < of_nat INPUT_BUF_SIZE then
        let c = (if c = 13 then 10 else c) in
        bind_uart (consputc chip panicked (unat c) u) (\<lambda>u1.
          let k1 = k\<lparr>c_buf := (c_buf k)[unat (c_e k) mod INPUT_BUF_SIZE := c], c_e := c_e k + 1\<rparr> in
          if c = 10 \<or> c = Ctl (CHR ''D'') \<or> c_e k1 - c_r k1 = of_nat INPUT_BUF_SIZE
          then Some (k1\<lparr>c_w := c_e k1\<rparr>, u1, 1) else Some (k1, u1, 0))
      else Some (k, u, 0))"

text \<open>The input loop of \<open>uartintr\<close>, and \<open>uartintr\<close> itself.\<close>

partial_function (option) uartintr_input ::
  "chip \<Rightarrow> bool \<Rightarrow> (uart \<Rightarrow> uart option) \<Rightarrow> cons \<Rightarrow> uart \<Rightarrow> nat \<Rightarrow> (cons \<times> uart \<times> nat) option" where
  "uartintr_input chip panicked procdump k u w =
     (case uartgetc chip u of
        (None, u1) \<Rightarrow> Some (k, u1, w)
      | (Some c, u1) \<Rightarrow>
          Option.bind (consoleintr chip panicked procdump c k u1)
            (\<lambda>r. uartintr_input chip panicked procdump (fst r) (fst (snd r)) (w + snd (snd r))))"

definition uartintr ::
  "chip \<Rightarrow> bool \<Rightarrow> (uart \<Rightarrow> uart option) \<Rightarrow> cons \<Rightarrow> uart \<Rightarrow> (cons \<times> uart \<times> nat) option" where
  "uartintr chip panicked procdump k u =
     map_option (\<lambda>(k1, u1, w). case uartstart chip u1 of (_, u2) \<Rightarrow> (k1, u2, w))
       (uartintr_input chip panicked procdump k u 0)"

section \<open>The line discipline\<close>

text \<open>
  The abstract state: the complete input, and the line being edited. \<open>key\<close> is what a key does to it.
\<close>

definition key :: "u8 \<Rightarrow> u8 list \<times> u8 list \<Rightarrow> u8 list \<times> u8 list" where
  "key c = (\<lambda>(avail, line).
     if c = 16 then (avail, line)
     else if c = 21 then (avail, [])
     else if c = 8 \<or> c = 127 then (avail, butlast line)
     else if c \<noteq> 0 \<and> length avail + length line < INPUT_BUF_SIZE then
       let c = (if c = 13 then 10 else c); line = line @ [c] in
       if c = 10 \<or> c = 4 \<or> length avail + length line = INPUT_BUF_SIZE then (avail @ line, []) else (avail, line)
     else (avail, line))"

definition input :: "cons \<Rightarrow> u8 list" where
  "input k = ring (c_buf k) INPUT_BUF_SIZE (c_r k) (c_e k)"

definition cons_abs :: "cons \<Rightarrow> u8 list \<times> u8 list" where
  "cons_abs k = (take (unat (c_w k - c_r k)) (input k), drop (unat (c_w k - c_r k)) (input k))"

definition cons_inv :: "cons \<Rightarrow> bool" where
  "cons_inv k \<longleftrightarrow> length (c_buf k) = INPUT_BUF_SIZE \<and> unat (c_w k - c_r k) \<le> unat (c_e k - c_r k) \<and>
     unat (c_e k - c_r k) \<le> INPUT_BUF_SIZE \<and> 10 \<notin> set (snd (cons_abs k))"

lemma length_input [simp]: "length (input k) = unat (c_e k - c_r k)"
  by (simp add: input_def)

lemma edit_empty_iff:
  assumes "cons_inv k"
  shows "c_e k = c_w k \<longleftrightarrow> snd (cons_abs k) = []"
proof -
  have "c_e k = c_w k \<longleftrightarrow> unat (c_e k - c_r k) = unat (c_w k - c_r k)" by (simp add: word_unat_eq_iff [symmetric])
  then show ?thesis using assms by (auto simp: cons_abs_def cons_inv_def)
qed

lemma input_pop:
  assumes "0 < unat (c_e k - c_r k)"
  shows "input (k\<lparr>c_e := c_e k - 1\<rparr>) = butlast (input k)"
    and "unat (c_e k - 1 - c_r k) = unat (c_e k - c_r k) - 1"
    and "last (input k) = c_buf k ! (unat (c_e k - 1) mod INPUT_BUF_SIZE)"
proof -
  have nz: "c_e k - c_r k \<noteq> 0" using assms by (simp add: unat_gt_0)
  have e: "c_e k - 1 - c_r k = (c_e k - c_r k) - 1" by simp
  show u: "unat (c_e k - 1 - c_r k) = unat (c_e k - c_r k) - 1" unfolding e by (rule unat_minus_one [OF nz])
  obtain n where n: "unat (c_e k - c_r k) = Suc n" using assms by (cases "unat (c_e k - c_r k)") auto
  show "input (k\<lparr>c_e := c_e k - 1\<rparr>) = butlast (input k)" using u n by (simp add: input_def ring_def map_butlast)
  have "c_r k + of_nat n = c_e k - 1"
  proof -
    have "c_e k - 1 = c_r k + of_nat (unat (c_e k - 1 - c_r k))" by simp
    then show ?thesis using u n by simp
  qed
  then show "last (input k) = c_buf k ! (unat (c_e k - 1) mod INPUT_BUF_SIZE)"
    using n by (simp add: input_def ring_def)
qed

lemma edit_pop:
  assumes i: "cons_inv k" and ne: "c_e k \<noteq> c_w k"
  shows "cons_inv (k\<lparr>c_e := c_e k - 1\<rparr>)"
    and "cons_abs (k\<lparr>c_e := c_e k - 1\<rparr>) = (fst (cons_abs k), butlast (snd (cons_abs k)))"
    and "c_buf k ! (unat (c_e k - 1) mod INPUT_BUF_SIZE) \<noteq> 10"
proof -
  have "snd (cons_abs k) \<noteq> []" using ne edit_empty_iff [OF i] by simp
  then have lt: "unat (c_w k - c_r k) < unat (c_e k - c_r k)" by (simp add: cons_abs_def)
  then have pos: "0 < unat (c_e k - c_r k)" by simp
  note P = input_pop [OF pos]
  show abs: "cons_abs (k\<lparr>c_e := c_e k - 1\<rparr>) = (fst (cons_abs k), butlast (snd (cons_abs k)))"
    using lt P(1) by (simp add: cons_abs_def take_butlast drop_butlast)
  show "cons_inv (k\<lparr>c_e := c_e k - 1\<rparr>)"
    using i lt P(2) abs by (auto simp: cons_inv_def dest: in_set_butlastD)
  have "last (input k) \<in> set (snd (cons_abs k))"
    using lt by (simp add: cons_abs_def) (metis last_drop last_in_set drop_eq_Nil length_input not_less)
  then show "c_buf k ! (unat (c_e k - 1) mod INPUT_BUF_SIZE) \<noteq> 10" using i P(3) by (auto simp: cons_inv_def)
qed

lemma kill_line_w: "kill_line chip p k u = Some (k', u') \<Longrightarrow> c_w k' = c_w k"
proof (induction chip p k u rule: kill_line.induct)
  case (1 chip p k u)
  from "1.prems" show ?case
    by (subst (asm) kill_line.simps)
       (auto simp: bind_uart_def split: if_splits option.splits dest!: "1.IH" [rotated 2])
qed

text \<open>A chip that is ready to send again and again.\<close>

definition live_chip :: "chip \<Rightarrow> bool" where
  "live_chip chip \<longleftrightarrow> (\<forall>t. \<exists>k. chip (t + k) LSR AND LSR_TX_IDLE \<noteq> 0)"

lemma uartputc_sync_live: "live_chip chip \<Longrightarrow> \<exists>v. uartputc_sync chip False c u = Some v"
  using uartputc_sync_returns [of chip u] unfolding live_chip_def by blast

lemma consputc_live:
  assumes "live_chip chip"
  shows "\<exists>v. consputc chip False c u = Some v"
proof -
  obtain u1 where 1: "uartputc_sync chip False 8 u = Some u1" using uartputc_sync_live [OF assms] by blast
  obtain u2 where 2: "uartputc_sync chip False 32 u1 = Some u2" using uartputc_sync_live [OF assms] by blast
  show ?thesis using 1 2 uartputc_sync_live [OF assms] by (simp add: consputc_def)
qed

lemma kill_line_spec:
  assumes "live_chip chip" and "cons_inv k"
  shows "\<exists>k' u'. kill_line chip False k u = Some (k', u') \<and> cons_inv k' \<and> cons_abs k' = (fst (cons_abs k), []) \<and>
    c_r k' = c_r k"
  using assms(2)
proof (induction "length (snd (cons_abs k))" arbitrary: k u)
  case 0
  then have "c_e k = c_w k" using edit_empty_iff by simp
  then show ?case using 0 by (subst kill_line.simps) (auto simp: prod_eq_iff)
next
  case (Suc n)
  have ne: "c_e k \<noteq> c_w k" using Suc.hyps(2) edit_empty_iff [OF Suc.prems] by auto
  note P = edit_pop [OF Suc.prems ne]
  obtain u1 where u1: "consputc chip False BACKSPACE u = Some u1" using consputc_live [OF assms(1)] by blast
  let ?k = "k\<lparr>c_e := c_e k - 1\<rparr>"
  have "\<exists>k' u'. kill_line chip False ?k u1 = Some (k', u') \<and> cons_inv k' \<and> cons_abs k' = (fst (cons_abs ?k), []) \<and> c_r k' = c_r ?k"
    by (rule Suc.hyps(1)) (use Suc.hyps(2) P in auto)
  moreover have "kill_line chip False k u = kill_line chip False ?k u1"
    using ne P(3) u1 by (subst kill_line.simps) simp
  ultimately show ?case using P(2) by simp
qed

lemma input_put:
  fixes c :: u8
  assumes i: "cons_inv k" and room: "unat (c_e k - c_r k) < INPUT_BUF_SIZE"
  defines "k1 \<equiv> k\<lparr>c_buf := (c_buf k)[unat (c_e k) mod INPUT_BUF_SIZE := c], c_e := c_e k + 1\<rparr>"
  shows "input k1 = input k @ [c]" and "unat (c_e k1 - c_r k1) = Suc (unat (c_e k - c_r k))"
    and "cons_abs k1 = (fst (cons_abs k), snd (cons_abs k) @ [c])"
proof -
  have dv: "(128 :: nat) dvd 2 ^ LENGTH(32)" by simp
  have l: "length (c_buf k) = 128" "unat (c_e k - c_r k) < 128" using i room by (simp_all add: cons_inv_def)
  show a: "input k1 = input k @ [c]" and "unat (c_e k1 - c_r k1) = Suc (unat (c_e k - c_r k))"
    using ring_put(1) [OF dv l, of c] ring_put(2) [OF dv l] by (simp_all add: input_def k1_def)
  have "unat (c_w k - c_r k) \<le> length (input k)" using i by (simp add: cons_inv_def)
  then show "cons_abs k1 = (fst (cons_abs k), snd (cons_abs k) @ [c])"
    using a by (simp add: cons_abs_def k1_def)
qed

lemma room_iff: "c_e k - c_r k < of_nat INPUT_BUF_SIZE \<longleftrightarrow> unat (c_e k - c_r k) < INPUT_BUF_SIZE"
  by (simp add: word_less_nat_alt)

lemma full_iff: "(x :: u32) = of_nat INPUT_BUF_SIZE \<longleftrightarrow> unat x = INPUT_BUF_SIZE"
  by (simp add: word_unat_eq_iff)

lemma total_length:
  "cons_inv k \<Longrightarrow> length (fst (cons_abs k)) + length (snd (cons_abs k)) = unat (c_e k - c_r k)"
  by (simp add: cons_abs_def cons_inv_def)

lemma consoleintr_char:
  assumes l: "live_chip chip" and i: "cons_inv k" and c: "c \<noteq> 16" "c \<noteq> 21" "c \<noteq> 8" "c \<noteq> 127"
  shows "\<exists>k' u' w. consoleintr chip False pd c k u = Some (k', u', w) \<and> cons_inv k' \<and>
    cons_abs k' = key c (cons_abs k) \<and> c_r k' = c_r k \<and> (w = 0 \<longleftrightarrow> c_w k' = c_w k)"
proof (cases "c \<noteq> 0 \<and> unat (c_e k - c_r k) < INPUT_BUF_SIZE")
  case False
  then show ?thesis using c i room_iff [of k] total_length [OF i]
    by (auto simp: consoleintr_def key_def case_prod_beta)
next
  case True
  define c' where "c' = (if c = 13 then 10 else c)"
  obtain u1 where u1: "consputc chip False (unat c') u = Some u1" using consputc_live [OF l] by blast
  define k1 where "k1 = k\<lparr>c_buf := (c_buf k)[unat (c_e k) mod INPUT_BUF_SIZE := c'], c_e := c_e k + 1\<rparr>"
  have room: "unat (c_e k - c_r k) < INPUT_BUF_SIZE" using True by simp
  note P = input_put [OF i room, of c', folded k1_def]
  define full where "full \<longleftrightarrow> c' = 10 \<or> c' = 4 \<or> c_e k1 - c_r k1 = of_nat INPUT_BUF_SIZE"
  have r: "c_r k1 = c_r k" "c_w k1 = c_w k" "length (c_buf k1) = length (c_buf k)" by (simp_all add: k1_def)
  have eq: "consoleintr chip False pd c k u = (if full then Some (k1\<lparr>c_w := c_e k1\<rparr>, u1, 1) else Some (k1, u1, 0))"
    using True c u1 room_iff [of k] by (simp add: consoleintr_def Let_def c'_def k1_def full_def)
  have fe: "full \<longleftrightarrow> c' = 10 \<or> c' = 4 \<or> Suc (unat (c_e k - c_r k)) = INPUT_BUF_SIZE"
    using P(2) full_iff [of "c_e k1 - c_r k1"] by (simp add: full_def)
  have ka: "key c (cons_abs k) = (if full then (fst (cons_abs k) @ snd (cons_abs k) @ [c'], []) else (fst (cons_abs k), snd (cons_abs k) @ [c']))"
    using True c fe total_length [OF i] by (auto simp: key_def case_prod_beta Let_def c'_def)
  have wr: "unat (c_w k1 - c_r k1) \<le> unat (c_e k - c_r k)" using i r by (simp add: cons_inv_def)
  show ?thesis
  proof (cases full)
    case True
    have "cons_abs (k1\<lparr>c_w := c_e k1\<rparr>) = (fst (cons_abs k1) @ snd (cons_abs k1), [])"
      by (simp add: cons_abs_def input_def)
    moreover from this have "cons_inv (k1\<lparr>c_w := c_e k1\<rparr>)" using i r P(2) room by (simp add: cons_inv_def)
    moreover have "c_e k1 \<noteq> c_w k" using wr P(2) r by auto
    ultimately show ?thesis using True eq ka P(3) r by simp
  next
    case False
    then have "c' \<noteq> 10" by (simp add: full_def)
    then have "cons_inv k1" using i r P(2,3) room wr by (auto simp: cons_inv_def)
    then show ?thesis using False eq ka P(3) r by simp
  qed
qed

text \<open>
  C16: the input side of the console implements a line editor. For every key, the interrupt handler on the ring of
  three wrapping counters does to the pair of complete input and edited line what \<open>key\<close> says:
  erase and kill touch only the line being edited, a newline or control-d (or a full buffer) hands
  it over, and input beyond the buffer's size is dropped. The handler returns as long as the chip keeps becoming
  ready, keeps the invariant and never touches what a reader has not read yet; it wakes the readers exactly when complete input arrives.
\<close>

theorem consoleintr_refines:
  assumes "live_chip chip" and "cons_inv k" and "\<And>u. pd u \<noteq> None"
  shows "\<exists>k' u' w. consoleintr chip False pd c k u = Some (k', u', w) \<and> cons_inv k' \<and>
    cons_abs k' = key c (cons_abs k) \<and> c_r k' = c_r k \<and> (w = 0 \<longleftrightarrow> c_w k' = c_w k)"
proof -
  consider "c = 16" | "c = 21" | "c = 8 \<or> c = 127" | "c \<noteq> 16" "c \<noteq> 21" "c \<noteq> 8" "c \<noteq> 127" by blast
  then show ?thesis
  proof cases
    case 1
    then show ?thesis using assms(2) assms(3) [of u]
      by (auto simp: consoleintr_def key_def case_prod_beta)
  next
    case 2
    have "c_w k' = c_w k" if "kill_line chip False k u = Some (k', u')" for k' u'
      using that by (rule kill_line_w)
    then show ?thesis using 2 kill_line_spec [OF assms(1,2), of u]
      by (auto simp: consoleintr_def key_def case_prod_beta)
  next
    case 3
    show ?thesis
    proof (cases "c_e k = c_w k")
      case True
      then show ?thesis using 3 assms(2) edit_empty_iff [OF assms(2)]
        by (auto simp: consoleintr_def key_def case_prod_beta prod_eq_iff)
    next
      case False
      obtain u1 where "consputc chip False BACKSPACE u = Some u1" using consputc_live [OF assms(1)] by blast
      then show ?thesis using 3 False edit_pop [OF assms(2) False]
        by (auto simp: consoleintr_def key_def case_prod_beta)
    qed
  next
    case 4
    then show ?thesis by (rule consoleintr_char [OF assms(1,2)])
  qed
qed

definition cons0 :: cons where
  "cons0 = \<lparr>c_buf = replicate 128 0, c_r = 0xfffffffe, c_w = 0xfffffffe, c_e = 0xfffffffe\<rparr>"

theorem consoleintr_refines_witness:
  "\<exists>k' u' w. consoleintr (\<lambda>t r. 32) False Some 65 cons0 uart0 = Some (k', u', w) \<and> cons_abs k' = ([], [65])"
proof -
  have l: "live_chip (\<lambda>t r. 32)" by (simp add: live_chip_def)
  have a: "cons_abs cons0 = ([], [])" by (simp add: cons_abs_def cons0_def input_def ring_def)
  have i: "cons_inv cons0" unfolding cons_inv_def a by (simp add: cons0_def)
  show ?thesis using consoleintr_refines [OF l i, of Some 65 uart0] a by (auto simp: key_def)
qed

end
