(* ===== verification/Xv6_Fs.thy ===== *)
theory Xv6_Fs
  imports Xv6_Log Xv6_Console
begin

text \<open>
  The file system: \<^verbatim>\<open>kernel/fs.c\<close> and the structures of \<^verbatim>\<open>kernel/fs.h\<close>, \<^verbatim>\<open>kernel/file.h\<close> and \<^verbatim>\<open>kernel/stat.h\<close>. The
  state extends the log's with the super block, the inode table, and the machine's memory. Inodes
  are named by their index in the table; a null result is \<open>None\<close>. \<open>baddr b\<close> is the address of the
  data of buffer \<open>b\<close> in kernel memory, through which the copies between blocks and user memory
  go; \<open>deaddr\<close> is the address of the local \<^verbatim>\<open>struct dirent\<close>. Path and file names are byte lists without
  NUL. Messages printed on the console are left out.
\<close>

section \<open>On-disk formats\<close>

definition FSMAGIC :: u32 where [simp]: "FSMAGIC = 0x10203040"
definition ROOTINO :: u32 where [simp]: "ROOTINO = 1"
definition NDIRECT :: nat where [simp]: "NDIRECT = 12"
definition NINDIRECT :: nat where [simp]: "NINDIRECT = 256"
definition MAXFILE :: nat where [simp]: "MAXFILE = NDIRECT + NINDIRECT"
definition IPB :: nat where [simp]: "IPB = 16"
definition BPB :: nat where [simp]: "BPB = 8192"
definition DIRSIZ :: nat where [simp]: "DIRSIZ = 14"
definition T_DIR :: u16 where [simp]: "T_DIR = 1"
definition T_FILE :: u16 where [simp]: "T_FILE = 2"
definition T_DEVICE :: u16 where [simp]: "T_DEVICE = 3"

definition IBLOCK :: "u32 \<Rightarrow> superblock \<Rightarrow> u32" where
  "IBLOCK i sb = i div of_nat IPB + sb_inodestart sb"

definition BBLOCK :: "u32 \<Rightarrow> superblock \<Rightarrow> u32" where
  "BBLOCK b sb = b div of_nat BPB + sb_bmapstart sb"

definition get16 :: "block \<Rightarrow> nat \<Rightarrow> u16" where
  "get16 d off = le_word (\<lambda>i. d ! (off + i)) 2"

definition put16 :: "block \<Rightarrow> nat \<Rightarrow> u16 \<Rightarrow> block" where
  "put16 d off v = d[off := le_byte v 0, off + 1 := le_byte v 1]"

record inode =
  i_dev :: u32
  i_num :: u32
  i_ref :: int
  i_lock :: sleeplock
  i_valid :: bool
  i_type :: u16
  i_major :: u16
  i_minor :: u16
  i_nlink :: u16
  i_size :: u32
  i_addrs :: "u32 list"

record fstat =
  st_dev :: u32
  st_ino :: u32
  st_type :: u16
  st_nlink :: u16
  st_size :: u64

record fstate = fsys +
  sb :: superblock
  inodes :: "nat \<Rightarrow> inode"
  km :: kmem
  baddr :: "nat \<Rightarrow> u64"
  deaddr :: u64

definition iupd :: "nat \<Rightarrow> (inode \<Rightarrow> inode) \<Rightarrow> 'a fstate_scheme \<Rightarrow> 'a fstate_scheme" where
  "iupd i f s = s\<lparr>inodes := (inodes s)(i := f (inodes s i))\<rparr>"

section \<open>Super block and free blocks\<close>

definition readsb :: "int \<Rightarrow> u32 \<Rightarrow> 'a fstate_scheme \<Rightarrow> 'a fstate_scheme res" where
  "readsb pid d s =
     rbind (bread' pid d 1 s) (\<lambda>(bp, s).
       let x = bdata bp s in
       brelse' pid bp (s\<lparr>sb := \<lparr>sb_magic = get32 x 0, sb_size = get32 x 4, sb_nblocks = get32 x 8, sb_ninodes = get32 x 12,
         sb_nlog = get32 x 16, sb_logstart = get32 x 20, sb_inodestart = get32 x 24, sb_bmapstart = get32 x 28\<rparr>\<rparr>))"

definition fsinit :: "int \<Rightarrow> u32 \<Rightarrow> 'a fstate_scheme \<Rightarrow> 'a fstate_scheme res" where
  "fsinit pid d s =
     rbind (readsb pid d s) (\<lambda>s.
       if sb_magic (sb s) \<noteq> FSMAGIC then Fail (Panic ''invalid file system'') else initlog pid d (sb s) s)"

definition bzero :: "int \<Rightarrow> u32 \<Rightarrow> u32 \<Rightarrow> 'a fstate_scheme \<Rightarrow> 'a fstate_scheme res" where
  "bzero pid d bno s =
     rbind (bread' pid d bno s) (\<lambda>(bp, s).
     rbind (log_write bp (set_bdata bp (replicate BSIZE 0) s)) (\<lambda>s. brelse' pid bp s))"

definition bmask :: "nat \<Rightarrow> u8" where
  "bmask bi = push_bit (bi mod 8) 1"

text \<open>The inner loop of \<open>balloc\<close>: the first clear bit of a bitmap block that belongs to the disk.\<close>

definition free_bit :: "block \<Rightarrow> nat \<Rightarrow> nat \<Rightarrow> nat option" where
  "free_bit x b sz = List.find (\<lambda>bi. b + bi < sz \<and> x ! (bi div 8) AND bmask bi = 0) [0..<BPB]"

text \<open>\<open>sz\<close> is \<^verbatim>\<open>sb.size\<close>, which no operation changes after boot.\<close>

function balloc_loop :: "int \<Rightarrow> u32 \<Rightarrow> nat \<Rightarrow> nat \<Rightarrow> 'a fstate_scheme \<Rightarrow> (u32 \<times> 'a fstate_scheme) res" where
  "balloc_loop pid d sz b s =
     (if b < sz then
        rbind (bread' pid d (BBLOCK (of_nat b) (sb s)) s) (\<lambda>(bp, s1).
          case free_bit (bdata bp s1) b sz of
            Some bi \<Rightarrow>
              let x = bdata bp s1 in
              rbind (log_write bp (set_bdata bp (x[bi div 8 := x ! (bi div 8) OR bmask bi]) s1)) (\<lambda>s2.
              rbind (brelse' pid bp s2) (\<lambda>s3.
              rbind (bzero pid d (of_nat (b + bi)) s3) (\<lambda>s4. Ok (of_nat (b + bi), s4))))
          | None \<Rightarrow>
              rbind (brelse' pid bp s1) (\<lambda>s2. balloc_loop pid d sz (b + BPB) s2))
      else Ok (0, s))"
  by pat_completeness auto
termination
  by (relation "measure (\<lambda>(pid, d, sz, b, s). sz - b)") auto

declare balloc_loop.simps [simp del]

definition balloc :: "int \<Rightarrow> u32 \<Rightarrow> 'a fstate_scheme \<Rightarrow> (u32 \<times> 'a fstate_scheme) res" where
  "balloc pid d s = balloc_loop pid d (unat (sb_size (sb s))) 0 s"

definition bfree :: "int \<Rightarrow> u32 \<Rightarrow> u32 \<Rightarrow> 'a fstate_scheme \<Rightarrow> 'a fstate_scheme res" where
  "bfree pid d b s =
     rbind (bread' pid d (BBLOCK b (sb s)) s) (\<lambda>(bp, s).
       let bi = unat b mod BPB; x = bdata bp s in
       if x ! (bi div 8) AND bmask bi = 0 then Fail (Panic ''freeing free block'')
       else rbind (log_write bp (set_bdata bp (x[bi div 8 := x ! (bi div 8) AND NOT (bmask bi)]) s)) (\<lambda>s.
         brelse' pid bp s))"

section \<open>Inodes\<close>

definition iinit :: "'a fstate_scheme \<Rightarrow> 'a fstate_scheme" where
  "iinit s = fold (\<lambda>i. iupd i (i_lock_update (\<lambda>_. initsleeplock ''inode''))) [0..<NINODE] s"

text \<open>\<^verbatim>\<open>(struct dinode*)bp->data + inum%IPB\<close>: an inode takes 64 bytes.\<close>

definition dip :: "u32 \<Rightarrow> nat" where
  "dip inum = 64 * (unat inum mod IPB)"

definition iget :: "u32 \<Rightarrow> u32 \<Rightarrow> 'a fstate_scheme \<Rightarrow> (nat \<times> 'a fstate_scheme) res" where
  "iget d inum s =
     (case List.find (\<lambda>i. i_ref (inodes s i) > 0 \<and> i_dev (inodes s i) = d \<and> i_num (inodes s i) = inum) [0..<NINODE] of
        Some i \<Rightarrow> Ok (i, iupd i (i_ref_update (\<lambda>r. r + 1)) s)
      | None \<Rightarrow>
          (case List.find (\<lambda>i. i_ref (inodes s i) = 0) [0..<NINODE] of
             None \<Rightarrow> Fail (Panic ''iget: no inodes'')
           | Some i \<Rightarrow> Ok (i, iupd i (\<lambda>x. x\<lparr>i_dev := d, i_num := inum, i_ref := 1, i_valid := False\<rparr>) s)))"

definition idup :: "nat \<Rightarrow> 'a fstate_scheme \<Rightarrow> 'a fstate_scheme" where
  "idup i s = iupd i (i_ref_update (\<lambda>r. r + 1)) s"

function ialloc_loop :: "int \<Rightarrow> u32 \<Rightarrow> u16 \<Rightarrow> nat \<Rightarrow> nat \<Rightarrow> 'a fstate_scheme \<Rightarrow> (nat option \<times> 'a fstate_scheme) res" where
  "ialloc_loop pid d ty ninodes inum s =
     (if inum < ninodes then
        rbind (bread' pid d (IBLOCK (of_nat inum) (sb s)) s) (\<lambda>(bp, s1).
          let x = bdata bp s1; o0 = dip (of_nat inum) in
          if get16 x o0 = 0 then
            rbind (log_write bp (set_bdata bp (put16 (take o0 x @ replicate 64 0 @ drop (o0 + 64) x) o0 ty) s1)) (\<lambda>s2.
            rbind (brelse' pid bp s2) (\<lambda>s3.
            rbind (iget d (of_nat inum) s3) (\<lambda>(i, s4). Ok (Some i, s4))))
          else rbind (brelse' pid bp s1) (\<lambda>s2. ialloc_loop pid d ty ninodes (inum + 1) s2))
      else Ok (None, s))"
  by pat_completeness auto
termination
  by (relation "measure (\<lambda>(pid, d, ty, ninodes, inum, s). ninodes - inum)") auto

declare ialloc_loop.simps [simp del]

definition ialloc :: "int \<Rightarrow> u32 \<Rightarrow> u16 \<Rightarrow> 'a fstate_scheme \<Rightarrow> (nat option \<times> 'a fstate_scheme) res" where
  "ialloc pid d ty s = ialloc_loop pid d ty (unat (sb_ninodes (sb s))) 1 s"

definition put_dinode :: "inode \<Rightarrow> nat \<Rightarrow> block \<Rightarrow> block" where
  "put_dinode ip o0 x =
     (let x = put16 x o0 (i_type ip); x = put16 x (o0 + 2) (i_major ip); x = put16 x (o0 + 4) (i_minor ip);
          x = put16 x (o0 + 6) (i_nlink ip); x = put32 x (o0 + 8) (i_size ip)
      in fold (\<lambda>k x. put32 x (o0 + 12 + 4 * k) (i_addrs ip ! k)) [0..<NDIRECT + 1] x)"

definition get_dinode :: "block \<Rightarrow> nat \<Rightarrow> inode \<Rightarrow> inode" where
  "get_dinode x o0 ip =
     ip\<lparr>i_type := get16 x o0, i_major := get16 x (o0 + 2), i_minor := get16 x (o0 + 4), i_nlink := get16 x (o0 + 6),
        i_size := get32 x (o0 + 8), i_addrs := map (\<lambda>k. get32 x (o0 + 12 + 4 * k)) [0..<NDIRECT + 1]\<rparr>"

definition iupdate :: "int \<Rightarrow> nat \<Rightarrow> 'a fstate_scheme \<Rightarrow> 'a fstate_scheme res" where
  "iupdate pid i s =
     (let ip = inodes s i in
      rbind (bread' pid (i_dev ip) (IBLOCK (i_num ip) (sb s)) s) (\<lambda>(bp, s).
      rbind (log_write bp (set_bdata bp (put_dinode ip (dip (i_num ip)) (bdata bp s)) s)) (\<lambda>s. brelse' pid bp s)))"

definition ilock :: "int \<Rightarrow> nat \<Rightarrow> 'a fstate_scheme \<Rightarrow> 'a fstate_scheme res" where
  "ilock pid i s =
     (if i_ref (inodes s i) < 1 then Fail (Panic ''ilock'')
      else rbind (acquiresleep pid (i_lock (inodes s i))) (\<lambda>lk.
        let s = iupd i (i_lock_update (\<lambda>_. lk)) s; ip = inodes s i in
        if i_valid ip then Ok s
        else rbind (bread' pid (i_dev ip) (IBLOCK (i_num ip) (sb s)) s) (\<lambda>(bp, s).
          let s = iupd i (get_dinode (bdata bp s) (dip (i_num ip))) s in
          rbind (brelse' pid bp s) (\<lambda>s.
            let s = iupd i (i_valid_update (\<lambda>_. True)) s in
            if i_type (inodes s i) = 0 then Fail (Panic ''ilock: no type'') else Ok s))))"

definition iunlock :: "int \<Rightarrow> nat \<Rightarrow> 'a fstate_scheme \<Rightarrow> 'a fstate_scheme res" where
  "iunlock pid i s =
     (if \<not> holdingsleep pid (i_lock (inodes s i)) \<or> i_ref (inodes s i) < 1 then Fail (Panic ''iunlock'')
      else Ok (iupd i (i_lock_update releasesleep) s))"

definition trunc_direct :: "int \<Rightarrow> nat \<Rightarrow> nat \<Rightarrow> 'a fstate_scheme \<Rightarrow> 'a fstate_scheme res" where
  "trunc_direct pid i k s =
     (if i_addrs (inodes s i) ! k \<noteq> 0 then
        rbind (bfree pid (i_dev (inodes s i)) (i_addrs (inodes s i) ! k) s) (\<lambda>s.
          Ok (iupd i (i_addrs_update (\<lambda>a. a[k := 0])) s))
      else Ok s)"

definition trunc_indirect :: "int \<Rightarrow> nat \<Rightarrow> nat \<Rightarrow> nat \<Rightarrow> 'a fstate_scheme \<Rightarrow> 'a fstate_scheme res" where
  "trunc_indirect pid i bp j s =
     (let a = get32 (bdata bp s) (4 * j) in if a \<noteq> 0 then bfree pid (i_dev (inodes s i)) a s else Ok s)"

definition itrunc :: "int \<Rightarrow> nat \<Rightarrow> 'a fstate_scheme \<Rightarrow> 'a fstate_scheme res" where
  "itrunc pid i s =
     rbind (rfold (trunc_direct pid i) [0..<NDIRECT] s) (\<lambda>s.
     rbind (let a = i_addrs (inodes s i) ! NDIRECT; d = i_dev (inodes s i) in
            if a \<noteq> 0 then
              rbind (bread' pid d a s) (\<lambda>(bp, s).
              rbind (rfold (trunc_indirect pid i bp) [0..<NINDIRECT] s) (\<lambda>s.
              rbind (brelse' pid bp s) (\<lambda>s.
              rbind (bfree pid d a s) (\<lambda>s. Ok (iupd i (i_addrs_update (\<lambda>l. l[NDIRECT := 0])) s)))))
            else Ok s) (\<lambda>s.
     iupdate pid i (iupd i (i_size_update (\<lambda>_. 0)) s)))"

definition iput :: "int \<Rightarrow> nat \<Rightarrow> 'a fstate_scheme \<Rightarrow> 'a fstate_scheme res" where
  "iput pid i s =
     rbind (if i_ref (inodes s i) = 1 \<and> i_valid (inodes s i) \<and> i_nlink (inodes s i) = 0 then
              rbind (acquiresleep pid (i_lock (inodes s i))) (\<lambda>lk.
              rbind (itrunc pid i (iupd i (i_lock_update (\<lambda>_. lk)) s)) (\<lambda>s.
              rbind (iupdate pid i (iupd i (i_type_update (\<lambda>_. 0)) s)) (\<lambda>s.
                Ok (iupd i (\<lambda>x. x\<lparr>i_valid := False, i_lock := releasesleep (i_lock x)\<rparr>) s))))
            else Ok s) (\<lambda>s.
     Ok (iupd i (i_ref_update (\<lambda>r. r - 1)) s))"

definition iunlockput :: "int \<Rightarrow> nat \<Rightarrow> 'a fstate_scheme \<Rightarrow> 'a fstate_scheme res" where
  "iunlockput pid i s = rbind (iunlock pid i s) (iput pid i)"

section \<open>Contents\<close>

definition bmap :: "int \<Rightarrow> nat \<Rightarrow> nat \<Rightarrow> 'a fstate_scheme \<Rightarrow> (u32 \<times> 'a fstate_scheme) res" where
  "bmap pid i bn s =
     (if bn < NDIRECT then
        if i_addrs (inodes s i) ! bn = 0 then
          rbind (balloc pid (i_dev (inodes s i)) s) (\<lambda>(addr, s).
            if addr = 0 then Ok (0, s) else Ok (addr, iupd i (i_addrs_update (\<lambda>a. a[bn := addr])) s))
        else Ok (i_addrs (inodes s i) ! bn, s)
      else let bn = bn - NDIRECT in
      if bn < NINDIRECT then
        rbind (if i_addrs (inodes s i) ! NDIRECT = 0 then
                 rbind (balloc pid (i_dev (inodes s i)) s) (\<lambda>(addr, s).
                   if addr = 0 then Ok (0, s) else Ok (addr, iupd i (i_addrs_update (\<lambda>a. a[NDIRECT := addr])) s))
               else Ok (i_addrs (inodes s i) ! NDIRECT, s)) (\<lambda>(addr, s).
        if addr = 0 then Ok (0, s)
        else rbind (bread' pid (i_dev (inodes s i)) addr s) (\<lambda>(bp, s).
        rbind (if get32 (bdata bp s) (4 * bn) = 0 then
                 rbind (balloc pid (i_dev (inodes s i)) s) (\<lambda>(addr, s).
                   if addr \<noteq> 0 then
                     rbind (log_write bp (set_bdata bp (put32 (bdata bp s) (4 * bn) addr) s)) (\<lambda>s. Ok (addr, s))
                   else Ok (addr, s))
               else Ok (get32 (bdata bp s) (4 * bn), s)) (\<lambda>(addr, s).
        rbind (brelse' pid bp s) (\<lambda>s. Ok (addr, s)))))
      else Fail (Panic ''bmap: out of range''))"

definition stati :: "nat \<Rightarrow> 'a fstate_scheme \<Rightarrow> fstat" where
  "stati i s = \<lparr>st_dev = i_dev (inodes s i), st_ino = i_num (inodes s i), st_type = i_type (inodes s i),
     st_nlink = i_nlink (inodes s i), st_size = ucast (i_size (inodes s i))\<rparr>"

text \<open>Bytes of memory, and the copies between a buffer's data and an address; the data is an array of \<open>BSIZE\<close> bytes.\<close>

definition peek :: "mem \<Rightarrow> u64 \<Rightarrow> nat \<Rightarrow> u8 list" where
  "peek m a n = map (\<lambda>k. m (a + of_nat k)) [0..<n]"

definition poke :: "mem \<Rightarrow> u64 \<Rightarrow> u8 list \<Rightarrow> mem" where
  "poke m a xs = fold (\<lambda>k m. m(a + of_nat k := xs ! k)) [0..<length xs] m"

definition copy_from_buf ::
  "u64 \<Rightarrow> bool \<Rightarrow> u64 \<Rightarrow> nat \<Rightarrow> nat \<Rightarrow> nat \<Rightarrow> 'a fstate_scheme \<Rightarrow> (int \<times> 'a fstate_scheme) res" where
  "copy_from_buf pt user_dst dst bp off m s =
     (let k = (km s)\<lparr>k_mem := poke (k_mem (km s)) (baddr s bp) (take BSIZE (bdata bp s))\<rparr> in
      rbind (either_copyout k pt user_dst dst (baddr s bp + of_nat off) (of_nat m)) (\<lambda>(r, k). Ok (r, s\<lparr>km := k\<rparr>)))"

definition copy_to_buf ::
  "u64 \<Rightarrow> bool \<Rightarrow> u64 \<Rightarrow> nat \<Rightarrow> nat \<Rightarrow> nat \<Rightarrow> 'a fstate_scheme \<Rightarrow> (int \<times> 'a fstate_scheme) res" where
  "copy_to_buf pt user_src src bp off m s =
     (let k = (km s)\<lparr>k_mem := poke (k_mem (km s)) (baddr s bp) (take BSIZE (bdata bp s))\<rparr> in
      rbind (either_copyin k pt (baddr s bp + of_nat off) user_src src (of_nat m)) (\<lambda>(r, k).
        Ok (r, set_bdata bp (peek (k_mem k) (baddr s bp) BSIZE) (s\<lparr>km := k\<rparr>))))"

function readi_loop ::
  "int \<Rightarrow> u64 \<Rightarrow> nat \<Rightarrow> bool \<Rightarrow> u64 \<Rightarrow> nat \<Rightarrow> nat \<Rightarrow> nat \<Rightarrow> 'a fstate_scheme \<Rightarrow> (int \<times> 'a fstate_scheme) res" where
  "readi_loop pid pt i user_dst dst off n tot s =
     (if tot < n then
        rbind (bmap pid i (off div BSIZE) s) (\<lambda>(addr, s).
          if addr = 0 then Ok (int tot, s)
          else rbind (bread' pid (i_dev (inodes s i)) addr s) (\<lambda>(bp, s).
            let m = min (n - tot) (BSIZE - off mod BSIZE) in
            rbind (copy_from_buf pt user_dst dst bp (off mod BSIZE) m s) (\<lambda>(r, s).
            rbind (brelse' pid bp s) (\<lambda>s.
              if r = -1 then Ok (-1, s)
              else readi_loop pid pt i user_dst (dst + of_nat m) (off + m) n (tot + m) s))))
      else Ok (int tot, s))"
  by pat_completeness auto
termination
  by (relation "measure (\<lambda>(pid, pt, i, ud, dst, off, n, tot, s). n - tot)") auto

declare readi_loop.simps [simp del]

definition readi ::
  "int \<Rightarrow> u64 \<Rightarrow> nat \<Rightarrow> bool \<Rightarrow> u64 \<Rightarrow> u32 \<Rightarrow> u32 \<Rightarrow> 'a fstate_scheme \<Rightarrow> (int \<times> 'a fstate_scheme) res" where
  "readi pid pt i user_dst dst off n s =
     (let sz = i_size (inodes s i) in
      if off > sz \<or> off + n < off then Ok (0, s)
      else let n = (if off + n > sz then sz - off else n) in
        readi_loop pid pt i user_dst dst (unat off) (unat n) 0 s)"

text \<open>The loop of \<open>writei\<close> gives the final \<open>tot\<close> and \<open>off\<close>.\<close>

function writei_loop ::
  "int \<Rightarrow> u64 \<Rightarrow> nat \<Rightarrow> bool \<Rightarrow> u64 \<Rightarrow> nat \<Rightarrow> nat \<Rightarrow> nat \<Rightarrow> 'a fstate_scheme \<Rightarrow> ((nat \<times> nat) \<times> 'a fstate_scheme) res" where
  "writei_loop pid pt i user_src src off n tot s =
     (if tot < n then
        rbind (bmap pid i (off div BSIZE) s) (\<lambda>(addr, s).
          if addr = 0 then Ok ((tot, off), s)
          else rbind (bread' pid (i_dev (inodes s i)) addr s) (\<lambda>(bp, s).
            let m = min (n - tot) (BSIZE - off mod BSIZE) in
            rbind (copy_to_buf pt user_src src bp (off mod BSIZE) m s) (\<lambda>(r, s).
              if r = -1 then rbind (brelse' pid bp s) (\<lambda>s. Ok ((tot, off), s))
              else rbind (log_write bp s) (\<lambda>s.
                rbind (brelse' pid bp s) (\<lambda>s.
                  writei_loop pid pt i user_src (src + of_nat m) (off + m) n (tot + m) s)))))
      else Ok ((tot, off), s))"
  by pat_completeness auto
termination
  by (relation "measure (\<lambda>(pid, pt, i, us, src, off, n, tot, s). n - tot)") auto

declare writei_loop.simps [simp del]

definition writei ::
  "int \<Rightarrow> u64 \<Rightarrow> nat \<Rightarrow> bool \<Rightarrow> u64 \<Rightarrow> u32 \<Rightarrow> u32 \<Rightarrow> 'a fstate_scheme \<Rightarrow> (int \<times> 'a fstate_scheme) res" where
  "writei pid pt i user_src src off n s =
     (if off > i_size (inodes s i) \<or> off + n < off then Ok (-1, s)
      else if unat (off + n) > MAXFILE * BSIZE then Ok (-1, s)
      else rbind (writei_loop pid pt i user_src src (unat off) (unat n) 0 s) (\<lambda>((tot, o1), s).
        let s = (if of_nat o1 > i_size (inodes s i) then iupd i (i_size_update (\<lambda>_. of_nat o1)) s else s) in
        rbind (iupdate pid i s) (\<lambda>s. Ok (int tot, s))))"

end
