(* ===== verification/Xv6_Dir.thy ===== *)
theory Xv6_Dir
  imports Xv6_Fs
begin

text \<open>
  Directories and path names: the last part of \<^verbatim>\<open>kernel/fs.c\<close>. A directory entry is 16 bytes, a 16-bit
  inode number and a name of up to 14 bytes, NUL-padded. \<open>pt\<close> is the page table of the process, \<open>cwd\<close>
  its current directory.
\<close>

text \<open>\<open>strncmp\<close> on byte lists; past the end of a list there is a NUL.\<close>

primrec strncmp_l :: "nat \<Rightarrow> u8 list \<Rightarrow> u8 list \<Rightarrow> int" where
  "strncmp_l 0 p q = 0"
| "strncmp_l (Suc n) p q =
     (let a = (case p of [] \<Rightarrow> 0 | x # _ \<Rightarrow> x); b = (case q of [] \<Rightarrow> 0 | x # _ \<Rightarrow> x) in
      if a \<noteq> 0 \<and> a = b then strncmp_l n (drop 1 p) (drop 1 q) else uint a - uint b)"

definition namecmp :: "u8 list \<Rightarrow> u8 list \<Rightarrow> int" where
  "namecmp s t = strncmp_l DIRSIZ s t"

function dirlookup_loop ::
  "int \<Rightarrow> u64 \<Rightarrow> nat \<Rightarrow> u8 list \<Rightarrow> nat \<Rightarrow> nat \<Rightarrow> 'a fstate_scheme \<Rightarrow> ((nat \<times> nat) option \<times> 'a fstate_scheme) res" where
  "dirlookup_loop pid pt dp name sz off s =
     (if off < sz then
        rbind (readi pid pt dp False (deaddr s) (of_nat off) 16 s) (\<lambda>(r, s).
          if r \<noteq> 16 then Fail (Panic ''dirlookup read'')
          else let de = peek (k_mem (km s)) (deaddr s) 16 in
            if get16 de 0 = 0 then dirlookup_loop pid pt dp name sz (off + 16) s
            else if namecmp name (drop 2 de) = 0 then
              rbind (iget (i_dev (inodes s dp)) (ucast (get16 de 0)) s) (\<lambda>(ip, s). Ok (Some (ip, off), s))
            else dirlookup_loop pid pt dp name sz (off + 16) s)
      else Ok (None, s))"
  by pat_completeness auto
termination
  by (relation "measure (\<lambda>(pid, pt, dp, name, sz, off, s). sz - off)") auto

declare dirlookup_loop.simps [simp del]

definition dirlookup ::
  "int \<Rightarrow> u64 \<Rightarrow> nat \<Rightarrow> u8 list \<Rightarrow> 'a fstate_scheme \<Rightarrow> ((nat \<times> nat) option \<times> 'a fstate_scheme) res" where
  "dirlookup pid pt dp name s =
     (if i_type (inodes s dp) \<noteq> T_DIR then Fail (Panic ''dirlookup not DIR'')
      else dirlookup_loop pid pt dp name (unat (i_size (inodes s dp))) 0 s)"

function dirlink_scan :: "int \<Rightarrow> u64 \<Rightarrow> nat \<Rightarrow> nat \<Rightarrow> nat \<Rightarrow> 'a fstate_scheme \<Rightarrow> (nat \<times> 'a fstate_scheme) res" where
  "dirlink_scan pid pt dp sz off s =
     (if off < sz then
        rbind (readi pid pt dp False (deaddr s) (of_nat off) 16 s) (\<lambda>(r, s).
          if r \<noteq> 16 then Fail (Panic ''dirlink read'')
          else if get16 (peek (k_mem (km s)) (deaddr s) 16) 0 = 0 then Ok (off, s)
          else dirlink_scan pid pt dp sz (off + 16) s)
      else Ok (off, s))"
  by pat_completeness auto
termination
  by (relation "measure (\<lambda>(pid, pt, dp, sz, off, s). sz - off)") auto

declare dirlink_scan.simps [simp del]

text \<open>The entry that \<open>strncpy\<close> and the assignment to \<^verbatim>\<open>de.inum\<close> build.\<close>

definition mk_dirent :: "u8 list \<Rightarrow> u32 \<Rightarrow> u8 list" where
  "mk_dirent name inum =
     (let v = ucast inum :: u16; nm = take DIRSIZ name in
      [le_byte v 0, le_byte v 1] @ nm @ replicate (DIRSIZ - length nm) 0)"

definition dirlink ::
  "int \<Rightarrow> u64 \<Rightarrow> nat \<Rightarrow> u8 list \<Rightarrow> u32 \<Rightarrow> 'a fstate_scheme \<Rightarrow> (int \<times> 'a fstate_scheme) res" where
  "dirlink pid pt dp name inum s =
     rbind (dirlookup pid pt dp name s) (\<lambda>(r, s). case r of
       Some (ip, _) \<Rightarrow> rbind (iput pid ip s) (\<lambda>s. Ok (-1, s))
     | None \<Rightarrow>
         rbind (dirlink_scan pid pt dp (unat (i_size (inodes s dp))) 0 s) (\<lambda>(off, s).
           let s = s\<lparr>km := (km s)\<lparr>k_mem := poke (k_mem (km s)) (deaddr s) (mk_dirent name inum)\<rparr>\<rparr> in
           rbind (writei pid pt dp False (deaddr s) (of_nat off) 16 s) (\<lambda>(r, s).
             Ok (if r \<noteq> 16 then -1 else 0, s))))"

section \<open>Paths\<close>

definition SLASH :: u8 where "SLASH = 47"

text \<open>The element, cut to \<open>DIRSIZ\<close> bytes, and what follows it.\<close>

definition skipelem :: "u8 list \<Rightarrow> (u8 list \<times> u8 list) option" where
  "skipelem path =
     (let s = dropWhile (\<lambda>c. c = SLASH) path in
      if s = [] then None
      else let name = takeWhile (\<lambda>c. c \<noteq> SLASH) s; path = dropWhile (\<lambda>c. c \<noteq> SLASH) s in
        Some (take DIRSIZ name, dropWhile (\<lambda>c. c = SLASH) path))"

lemma skipelem_shorter:
  assumes "skipelem path = Some (name, rest)"
  shows "length rest < length path"
proof -
  let ?s = "dropWhile (\<lambda>c. c = SLASH) path"
  have s: "?s \<noteq> []" and r: "rest = dropWhile (\<lambda>c. c = SLASH) (dropWhile (\<lambda>c. c \<noteq> SLASH) ?s)"
    using assms by (auto simp: skipelem_def Let_def split: if_splits)
  obtain x t where x: "?s = x # t" using s by (cases ?s) auto
  have "hd ?s \<noteq> SLASH" using hd_dropWhile [OF s] .
  then have "x \<noteq> SLASH" unfolding x by simp
  then have "length (dropWhile (\<lambda>c. c \<noteq> SLASH) ?s) \<le> length t" unfolding x by (simp add: length_dropWhile_le)
  moreover have "length rest \<le> length (dropWhile (\<lambda>c. c \<noteq> SLASH) ?s)" unfolding r by (rule length_dropWhile_le)
  moreover have "length ?s \<le> length path" by (rule length_dropWhile_le)
  moreover have "length ?s = Suc (length t)" unfolding x by simp
  ultimately show ?thesis by linarith
qed

function namex_loop ::
  "int \<Rightarrow> u64 \<Rightarrow> u8 list \<Rightarrow> bool \<Rightarrow> nat \<Rightarrow> u8 list \<Rightarrow> 'a fstate_scheme \<Rightarrow> ((nat option \<times> u8 list) \<times> 'a fstate_scheme) res" where
  "namex_loop pid pt path parent ip name s =
     (case skipelem path of
        None \<Rightarrow> if parent then rbind (iput pid ip s) (\<lambda>s. Ok ((None, name), s)) else Ok ((Some ip, name), s)
      | Some (name, rest) \<Rightarrow>
          rbind (ilock pid ip s) (\<lambda>s.
            if i_type (inodes s ip) \<noteq> T_DIR then rbind (iunlockput pid ip s) (\<lambda>s. Ok ((None, name), s))
            else if parent \<and> rest = [] then rbind (iunlock pid ip s) (\<lambda>s. Ok ((Some ip, name), s))
            else rbind (dirlookup pid pt ip name s) (\<lambda>(r, s). case r of
              None \<Rightarrow> rbind (iunlockput pid ip s) (\<lambda>s. Ok ((None, name), s))
            | Some (nip, _) \<Rightarrow>
                rbind (iunlockput pid ip s) (\<lambda>s. namex_loop pid pt rest parent nip name s))))"
  by pat_completeness auto
termination
  by (relation "measure (\<lambda>(pid, pt, path, parent, ip, name, s). length path)") (auto dest: skipelem_shorter)

declare namex_loop.simps [simp del]

definition namex ::
  "int \<Rightarrow> u64 \<Rightarrow> nat \<Rightarrow> u8 list \<Rightarrow> bool \<Rightarrow> 'a fstate_scheme \<Rightarrow> ((nat option \<times> u8 list) \<times> 'a fstate_scheme) res" where
  "namex pid pt cwd path parent s =
     rbind (if path \<noteq> [] \<and> hd path = SLASH then iget ROOTDEV ROOTINO s else Ok (cwd, idup cwd s)) (\<lambda>(ip, s).
       namex_loop pid pt path parent ip [] s)"

definition namei :: "int \<Rightarrow> u64 \<Rightarrow> nat \<Rightarrow> u8 list \<Rightarrow> 'a fstate_scheme \<Rightarrow> (nat option \<times> 'a fstate_scheme) res" where
  "namei pid pt cwd path s = rbind (namex pid pt cwd path False s) (\<lambda>((ip, _), s). Ok (ip, s))"

definition nameiparent ::
  "int \<Rightarrow> u64 \<Rightarrow> nat \<Rightarrow> u8 list \<Rightarrow> 'a fstate_scheme \<Rightarrow> ((nat option \<times> u8 list) \<times> 'a fstate_scheme) res" where
  "nameiparent pid pt cwd path s = namex pid pt cwd path True s"

section \<open>Path elements\<close>

text \<open>The elements of a path: the maximal runs of bytes other than the slash.\<close>

fun elems :: "u8 list \<Rightarrow> u8 list list" where
  "elems [] = []"
| "elems (c # p) =
     (if c = SLASH then elems p
      else (case p of [] \<Rightarrow> [[c]] | d # _ \<Rightarrow> if d = SLASH then [c] # elems p
            else (case elems p of [] \<Rightarrow> [[c]] | e # es \<Rightarrow> (c # e) # es)))"

lemma elems_skip: "elems (dropWhile (\<lambda>c. c = SLASH) p) = elems p"
  by (induction p) auto

lemma elems_cons:
  assumes "c \<noteq> SLASH"
  shows "elems (c # p) = (c # takeWhile (\<lambda>c. c \<noteq> SLASH) p) # elems (dropWhile (\<lambda>c. c \<noteq> SLASH) p)"
  using assms
proof (induction p arbitrary: c)
  case (Cons d p)
  show ?case
  proof (cases "d = SLASH")
    case False
    then show ?thesis using Cons.prems Cons.IH [of d] by simp
  qed (use Cons.prems in simp)
qed simp

text \<open>
  C37: path parsing. \<open>skipelem\<close> gives nothing exactly for a path without elements; otherwise it gives the first
  element, cut to \<open>DIRSIZ\<close> bytes, and a rest that has exactly the other elements, does not begin with a slash
  (so that an empty rest means the last element), and is shorter than the path, so the walk of \<open>namex\<close> ends.
\<close>

theorem skipelem_elements:
  "case skipelem path of
     None \<Rightarrow> elems path = []
   | Some (name, rest) \<Rightarrow>
       (\<exists>e es. elems path = e # es \<and> name = take DIRSIZ e \<and> elems rest = es) \<and>
       (rest = [] \<or> hd rest \<noteq> SLASH) \<and> (rest = [] \<longleftrightarrow> elems rest = []) \<and> length rest < length path"
proof -
  let ?s = "dropWhile (\<lambda>c. c = SLASH) path"
  show ?thesis
  proof (cases ?s)
    case Nil
    have "elems path = elems ?s" by (simp add: elems_skip)
    then have "elems path = []" unfolding Nil by simp
    moreover have "skipelem path = None" unfolding skipelem_def Let_def Nil by simp
    ultimately show ?thesis by simp
  next
    case (Cons x t)
    then have ne: "?s \<noteq> []" by simp
    have "hd ?s \<noteq> SLASH" using hd_dropWhile [OF ne] .
    then have x: "x \<noteq> SLASH" unfolding Cons by simp
    define q where "q = dropWhile (\<lambda>c. c \<noteq> SLASH) (x # t)"
    define r where "r = dropWhile (\<lambda>c. c = SLASH) q"
    have sk: "skipelem path = Some (take DIRSIZ (takeWhile (\<lambda>c. c \<noteq> SLASH) (x # t)), r)"
      unfolding skipelem_def Let_def Cons r_def q_def by simp
    have "elems path = elems (x # t)" using elems_skip [of path] unfolding Cons by simp
    also have "\<dots> = takeWhile (\<lambda>c. c \<noteq> SLASH) (x # t) # elems q"
      using elems_cons [OF x, of t] x by (simp add: q_def)
    also have "elems q = elems r" unfolding r_def by (rule elems_skip [symmetric])
    finally have el: "elems path = takeWhile (\<lambda>c. c \<noteq> SLASH) (x # t) # elems r" .
    have hd: "r = [] \<or> hd r \<noteq> SLASH" unfolding r_def using hd_dropWhile [of "\<lambda>c. c = SLASH" q] by blast
    have re: "r = [] \<longleftrightarrow> elems r = []"
    proof (cases r)
      case (Cons y ys)
      then show ?thesis using hd elems_cons [of y ys] by simp
    qed simp
    show ?thesis unfolding sk option.case prod.case using el hd re skipelem_shorter [OF sk] by blast
  qed
qed

theorem skipelem_elements_witness:
  "skipelem [47, 97, 47, 47, 98] = Some ([97], [98]) \<and>
   (\<exists>e es. elems [47, 97, 47, 47, 98] = e # es \<and> [97] = take DIRSIZ e \<and> elems [98] = es)"
proof -
  have sk: "skipelem [47, 97, 47, 47, 98] = Some ([97], [98])" by (simp add: skipelem_def SLASH_def)
  show ?thesis using skipelem_elements [of "[47, 97, 47, 47, 98]"] unfolding sk option.case prod.case by blast
qed

end
