(* ===== verification/Xv6_File.thy ===== *)
theory Xv6_File
  imports Xv6_Dir Xv6_Pipe
begin

text \<open>
  The file table: \<^verbatim>\<open>kernel/file.c\<close>, \<^verbatim>\<open>kernel/file.h\<close>, and \<open>pipealloc\<close> and \<open>pipeclose\<close> of \<^verbatim>\<open>kernel/pipe.c\<close>. Open files are named by their
  index in the table. A pipe lives in the page that \<open>pipealloc\<close> got from \<open>kalloc\<close>; \<open>pipes\<close> gives
  its structure by the page's address. The only device with entries in \<^verbatim>\<open>devsw\<close> is the console. A call that has
  to wait returns \<open>Waiting\<close> with the count it has reached. \<open>loc\<close> is the address of the one-byte local through which pipe and
  console pass their data.
\<close>

datatype fdtype = FD_NONE | FD_PIPE | FD_INODE | FD_DEVICE

record kfile =
  f_type :: fdtype
  f_ref :: int
  f_readable :: bool
  f_writable :: bool
  f_pipe :: u64
  f_ip :: nat
  f_off :: u32
  f_major :: u16

definition CONSOLE :: u16 where [simp]: "CONSOLE = 1"

record fworld = fstate +
  files :: "nat \<Rightarrow> kfile"
  pipes :: "u64 \<rightharpoonup> pipe"
  console :: cons
  serial :: uart

datatype fresult = Done int | Waiting int

definition fupd :: "nat \<Rightarrow> (kfile \<Rightarrow> kfile) \<Rightarrow> 'a fworld_scheme \<Rightarrow> 'a fworld_scheme" where
  "fupd i f s = s\<lparr>files := (files s)(i := f (files s i))\<rparr>"

definition filealloc :: "'a fworld_scheme \<Rightarrow> nat option \<times> 'a fworld_scheme" where
  "filealloc s =
     (case List.find (\<lambda>i. f_ref (files s i) = 0) [0..<NFILE] of
        Some i \<Rightarrow> (Some i, fupd i (f_ref_update (\<lambda>_. 1)) s)
      | None \<Rightarrow> (None, s))"

definition filedup :: "nat \<Rightarrow> 'a fworld_scheme \<Rightarrow> 'a fworld_scheme res" where
  "filedup i s =
     (if f_ref (files s i) < 1 then Fail (Panic ''filedup'') else Ok (fupd i (f_ref_update (\<lambda>r. r + 1)) s))"

text \<open>\<open>pipeclose\<close> wakes the other side's sleepers; the page goes back when both ends are closed.\<close>

definition pipeclose :: "u64 \<Rightarrow> bool \<Rightarrow> 'a fworld_scheme \<Rightarrow> 'a fworld_scheme res" where
  "pipeclose pa writable s =
     (case pipes s pa of
        None \<Rightarrow> Fail (Fault ''pipeclose'')
      | Some pi \<Rightarrow>
          let pi = (if writable then pi\<lparr>writeopen := False\<rparr> else pi\<lparr>readopen := False\<rparr>) in
          if \<not> readopen pi \<and> \<not> writeopen pi then
            rbind (kfree (km s) pa) (\<lambda>k. Ok (s\<lparr>km := k, pipes := (pipes s)(pa := None)\<rparr>))
          else Ok (s\<lparr>pipes := (pipes s)(pa \<mapsto> pi)\<rparr>))"

definition fileclose :: "int \<Rightarrow> nat \<Rightarrow> 'a fworld_scheme \<Rightarrow> 'a fworld_scheme res" where
  "fileclose pid i s =
     (if f_ref (files s i) < 1 then Fail (Panic ''fileclose'')
      else let s1 = fupd i (f_ref_update (\<lambda>r. r - 1)) s in
        if f_ref (files s1 i) > 0 then Ok s1
        else let ff = files s1 i; s2 = fupd i (\<lambda>f. f\<lparr>f_ref := 0, f_type := FD_NONE\<rparr>) s1 in
          case f_type ff of
            FD_PIPE \<Rightarrow> pipeclose (f_pipe ff) (f_writable ff) s2
          | FD_NONE \<Rightarrow> Ok s2
          | _ \<Rightarrow> rbind (begin_op s2) (\<lambda>s. rbind (iput pid (f_ip ff) s) (\<lambda>s. end_op pid s)))"

text \<open>
  \<open>pipealloc\<close>: the files of the read and the write end, or nothing. On failure the file slots taken are
  closed again; the pages asked for never fail after they were obtained, so \<open>kfree\<close> is not reached.
\<close>

definition pipe_end :: "bool \<Rightarrow> u64 \<Rightarrow> kfile \<Rightarrow> kfile" where
  "pipe_end w pa f = f\<lparr>f_type := FD_PIPE, f_readable := \<not> w, f_writable := w, f_pipe := pa\<rparr>"

definition pipealloc :: "int \<Rightarrow> 'a fworld_scheme \<Rightarrow> ((nat \<times> nat) option \<times> 'a fworld_scheme) res" where
  "pipealloc pid s =
     (case filealloc s of
        (None, s) \<Rightarrow> Ok (None, s)
      | (Some f0, s) \<Rightarrow>
         (case filealloc s of
            (None, s) \<Rightarrow> rbind (fileclose pid f0 s) (\<lambda>s. Ok (None, s))
          | (Some f1, s) \<Rightarrow>
             (case kalloc (km s) of (pa, k) \<Rightarrow>
                if pa = 0 then
                  rbind (fileclose pid f0 (s\<lparr>km := k\<rparr>)) (\<lambda>s. rbind (fileclose pid f1 s) (\<lambda>s. Ok (None, s)))
                else Ok (Some (f0, f1),
                  fupd f1 (pipe_end True pa) (fupd f0 (pipe_end False pa)
                    (s\<lparr>km := k, pipes := (pipes s)(pa \<mapsto> pipe_init)\<rparr>))))))"

section \<open>stat, read, write\<close>

text \<open>\<^verbatim>\<open>struct stat\<close> in memory: the four bytes before \<open>size\<close> are padding and keep what was there.\<close>

definition put_stat :: "fstat \<Rightarrow> u64 \<Rightarrow> mem \<Rightarrow> mem" where
  "put_stat st a m =
     poke (poke m a (map (le_byte (st_dev st)) [0..<4] @ map (le_byte (st_ino st)) [0..<4] @
       map (le_byte (st_type st)) [0..<2] @ map (le_byte (st_nlink st)) [0..<2]))
       (a + 16) (map (le_byte (st_size st)) [0..<8])"

definition filestat :: "int \<Rightarrow> u64 \<Rightarrow> u64 \<Rightarrow> nat \<Rightarrow> u64 \<Rightarrow> 'a fworld_scheme \<Rightarrow> (int \<times> 'a fworld_scheme) res" where
  "filestat pid pt staddr i addr s =
     (if f_type (files s i) = FD_INODE \<or> f_type (files s i) = FD_DEVICE then
        rbind (ilock pid (f_ip (files s i)) s) (\<lambda>s.
        let st = stati (f_ip (files s i)) s in
        rbind (iunlock pid (f_ip (files s i)) s) (\<lambda>s.
        rbind (copyout ((km s)\<lparr>k_mem := put_stat st staddr (k_mem (km s))\<rparr>) pt addr staddr 24) (\<lambda>(r, k).
          Ok (if r < 0 then -1 else 0, s\<lparr>km := k\<rparr>))))
      else Ok (-1, s))"

definition fileread ::
  "int \<Rightarrow> u64 \<Rightarrow> u64 \<Rightarrow> bool \<Rightarrow> nat \<Rightarrow> u64 \<Rightarrow> int \<Rightarrow> 'a fworld_scheme \<Rightarrow> (fresult \<times> 'a fworld_scheme) res" where
  "fileread pid pt loc killed i addr n s =
     (let f = files s i in
      if \<not> f_readable f then Ok (Done (-1), s)
      else case f_type f of
        FD_PIPE \<Rightarrow>
          (case pipes s (f_pipe f) of
             None \<Rightarrow> Fail (Fault ''fileread: pipe'')
           | Some pi \<Rightarrow>
               rbind (piperead pt loc killed addr n pi (km s)) (\<lambda>(out, _, pi, k).
                 let s = s\<lparr>km := k, pipes := (pipes s)(f_pipe f \<mapsto> pi)\<rparr> in
                 case out of Return r \<Rightarrow> Ok (Done r, s) | Sleep _ r \<Rightarrow> Ok (Waiting r, s)))
      | FD_DEVICE \<Rightarrow>
          if f_major f \<noteq> CONSOLE then Ok (Done (-1), s)
          else rbind (consoleread pt loc True killed addr n (console s) (km s)) (\<lambda>(out, c, k).
            let s = s\<lparr>km := k, console := c\<rparr> in
            case out of CReturn r \<Rightarrow> Ok (Done r, s) | CSleep r _ \<Rightarrow> Ok (Waiting r, s))
      | FD_INODE \<Rightarrow>
          rbind (ilock pid (f_ip f) s) (\<lambda>s.
          rbind (readi pid pt (f_ip f) True addr (f_off f) (of_int n) s) (\<lambda>(r, s).
          let s = (if r > 0 then fupd i (f_off_update (\<lambda>o0. o0 + of_int r)) s else s) in
          rbind (iunlock pid (f_ip f) s) (\<lambda>s. Ok (Done r, s))))
      | FD_NONE \<Rightarrow> Fail (Panic ''fileread''))"

definition WRITEMAX :: int where
  "WRITEMAX = ((int MAXOPBLOCKS - 1 - 1 - 2) div 2) * int BSIZE"

lemma WRITEMAX_eq [simp]: "WRITEMAX = 3072"
  by (simp add: WRITEMAX_def)

function filewrite_loop ::
  "int \<Rightarrow> u64 \<Rightarrow> nat \<Rightarrow> u64 \<Rightarrow> int \<Rightarrow> int \<Rightarrow> 'a fworld_scheme \<Rightarrow> (int \<times> 'a fworld_scheme) res" where
  "filewrite_loop pid pt f addr n i s =
     (if i < n then
        let n1 = min (n - i) WRITEMAX; ip = f_ip (files s f) in
        rbind (begin_op s) (\<lambda>s.
        rbind (ilock pid ip s) (\<lambda>s.
        rbind (writei pid pt ip True (addr + of_int i) (f_off (files s f)) (of_int n1) s) (\<lambda>(r, s).
        let s = (if r > 0 then fupd f (f_off_update (\<lambda>o0. o0 + of_int r)) s else s) in
        rbind (iunlock pid ip s) (\<lambda>s.
        rbind (end_op pid s) (\<lambda>s.
          if r \<noteq> n1 then Ok (i, s) else filewrite_loop pid pt f addr n (i + r) s)))))
      else Ok (i, s))"
  by pat_completeness auto
termination
  by (relation "measure (\<lambda>(pid, pt, f, addr, n, i, s). nat (n - i))") auto

declare filewrite_loop.simps [simp del]

definition filewrite ::
  "chip \<Rightarrow> int \<Rightarrow> u64 \<Rightarrow> u64 \<Rightarrow> bool \<Rightarrow> nat \<Rightarrow> u64 \<Rightarrow> int \<Rightarrow> 'a fworld_scheme \<Rightarrow> (fresult \<times> 'a fworld_scheme) res" where
  "filewrite chip pid pt loc killed i addr n s =
     (let f = files s i in
      if \<not> f_writable f then Ok (Done (-1), s)
      else case f_type f of
        FD_PIPE \<Rightarrow>
          (case pipes s (f_pipe f) of
             None \<Rightarrow> Fail (Fault ''filewrite: pipe'')
           | Some pi \<Rightarrow>
               rbind (pipewrite pt loc killed addr n 0 pi (km s)) (\<lambda>(out, _, pi, k).
                 let s = s\<lparr>km := k, pipes := (pipes s)(f_pipe f \<mapsto> pi)\<rparr> in
                 case out of Return r \<Rightarrow> Ok (Done r, s) | Sleep _ r \<Rightarrow> Ok (Waiting r, s)))
      | FD_DEVICE \<Rightarrow>
          if f_major f \<noteq> CONSOLE then Ok (Done (-1), s)
          else rbind (consolewrite chip pt loc True addr n (serial s) (km s)) (\<lambda>(out, u, k).
            let s = s\<lparr>km := k, serial := u\<rparr> in
            case out of CReturn r \<Rightarrow> Ok (Done r, s) | CSleep r _ \<Rightarrow> Ok (Waiting r, s))
      | FD_INODE \<Rightarrow>
          rbind (filewrite_loop pid pt i addr n 0 s) (\<lambda>(k, s). Ok (Done (if k = n then n else -1), s))
      | FD_NONE \<Rightarrow> Fail (Panic ''filewrite''))"

end
