(* ===== verification/Xv6_Proc.thy ===== *)
theory Xv6_Proc
  imports Xv6_File Xv6_Spinlock Xv6_Printf
begin

text \<open>
  Processes: \<^verbatim>\<open>kernel/proc.c\<close> and \<^verbatim>\<open>kernel/proc.h\<close>. The state extends the file world with the process table
  and the variables of \<^verbatim>\<open>proc.c\<close> and \<^verbatim>\<open>trap.c\<close>. A process is named by its slot in the table; \<open>me\<close> is the slot of
  the process that makes a call, the result of \<open>myproc\<close>. Trap frames are in memory, at the byte offsets of
  \<^verbatim>\<open>struct trapframe\<close>. \<open>p->lock\<close>, \<open>wait_lock\<close> and \<open>pid_lock\<close> are elided: what runs under one of them is one step. A call that sleeps
  returns \<open>Waits\<close> with the channel, after it has put itself to sleep; once it has been woken it runs \<open>sleep_resume\<close> and is called
  again. Messages of \<open>printf\<close> collect in \<open>msgs\<close>.
\<close>

section \<open>State\<close>

datatype procstate = UNUSED | USED | SLEEPING | RUNNABLE | RUNNING | ZOMBIE

record kcontext =
  ctx_ra :: u64
  ctx_sp :: u64
  ctx_s :: "u64 list"

record proc =
  p_state :: procstate
  p_chan :: u64
  p_killed :: bool
  p_xstate :: int
  p_pid :: int
  p_parent :: "nat option"
  p_kstack :: u64
  p_sz :: u64
  p_pagetable :: u64
  p_trapframe :: u64
  p_context :: kcontext
  p_ofile :: "nat option list"
  p_cwd :: "nat option"
  p_name :: "u8 list"

text \<open>Offsets in \<^verbatim>\<open>struct trapframe\<close>, and its size.\<close>

definition TF_kernel_satp :: u64 where [simp]: "TF_kernel_satp = 0"
definition TF_kernel_sp :: u64 where [simp]: "TF_kernel_sp = 8"
definition TF_kernel_trap :: u64 where [simp]: "TF_kernel_trap = 16"
definition TF_epc :: u64 where [simp]: "TF_epc = 24"
definition TF_kernel_hartid :: u64 where [simp]: "TF_kernel_hartid = 32"
definition TF_sp :: u64 where [simp]: "TF_sp = 48"
definition TF_a0 :: u64 where [simp]: "TF_a0 = 112"
definition TF_a1 :: u64 where [simp]: "TF_a1 = 120"
definition TF_a7 :: u64 where [simp]: "TF_a7 = 168"
definition TF_SIZE :: nat where [simp]: "TF_SIZE = 288"

text \<open>
  \<open>cur c\<close> is \<^verbatim>\<open>cpus[c].proc\<close>; \<open>proc_base\<close>, \<open>trampoline\<close>, \<open>forkret_addr\<close> and \<open>ticks_addr\<close> are the addresses of the symbols \<^verbatim>\<open>proc\<close>,
  \<^verbatim>\<open>trampoline\<close>, \<^verbatim>\<open>forkret\<close> and \<^verbatim>\<open>ticks\<close>; \<open>first_ret\<close> is the static of \<open>forkret\<close>.
\<close>

record kworld = fworld +
  procs :: "nat \<Rightarrow> proc"
  cur :: "nat \<Rightarrow> nat option"
  nextpid :: int
  initproc :: "nat option"
  first_ret :: bool
  ticks :: u32
  msgs :: string
  proc_base :: u64
  trampoline :: u64
  forkret_addr :: u64
  ticks_addr :: u64

datatype sresult = Returns int | Waits u64

definition pupd :: "nat \<Rightarrow> (proc \<Rightarrow> proc) \<Rightarrow> 'a kworld_scheme \<Rightarrow> 'a kworld_scheme" where
  "pupd i f s = s\<lparr>procs := (procs s)(i := f (procs s i))\<rparr>"

text \<open>\<^verbatim>\<open>&proc[i]\<close>: a \<^verbatim>\<open>struct proc\<close> takes 360 bytes, \<open>xstate\<close> is at offset 44. A null pointer is 0.\<close>

definition proc_addr :: "'a kworld_scheme \<Rightarrow> nat option \<Rightarrow> u64" where
  "proc_addr s p = (case p of None \<Rightarrow> 0 | Some i \<Rightarrow> proc_base s + 360 * of_nat i)"

definition myproc :: "nat \<Rightarrow> 'a kworld_scheme \<Rightarrow> nat option" where
  "myproc c s = cur s c"

section \<open>Allocation\<close>

definition procinit :: "'a kworld_scheme \<Rightarrow> 'a kworld_scheme" where
  "procinit s = fold (\<lambda>i. pupd i (\<lambda>p. p\<lparr>p_state := UNUSED, p_kstack := KSTACK (of_nat i)\<rparr>)) [0..<NPROC] s"

text \<open>\<^verbatim>\<open>nextpid\<close> is a 32-bit \<^verbatim>\<open>int\<close>, whose overflow is undefined.\<close>

definition allocpid :: "'a kworld_scheme \<Rightarrow> (int \<times> 'a kworld_scheme) res" where
  "allocpid s =
     (if nextpid s = 2 ^ 31 - 1 then Fail (Fault ''allocpid: overflow'')
      else Ok (nextpid s, s\<lparr>nextpid := nextpid s + 1\<rparr>))"

definition proc_pagetable :: "u64 \<Rightarrow> u64 \<Rightarrow> kmem \<Rightarrow> (u64 \<times> kmem) res" where
  "proc_pagetable tramp tf k =
     (case uvmcreate k of (pt, k) \<Rightarrow>
        if pt = 0 then Ok (0, k)
        else rbind (mappages k pt TRAMPOLINE PGSIZE tramp (ucast (PTE_R OR PTE_X))) (\<lambda>(r, k).
          if r < 0 then rbind (uvmfree k pt 0) (\<lambda>k. Ok (0, k))
          else rbind (mappages k pt TRAPFRAME PGSIZE tf (ucast (PTE_R OR PTE_W))) (\<lambda>(r, k).
            if r < 0 then rbind (uvmunmap k pt TRAMPOLINE 1 False) (\<lambda>k. rbind (uvmfree k pt 0) (\<lambda>k. Ok (0, k)))
            else Ok (pt, k))))"

definition proc_freepagetable :: "u64 \<Rightarrow> u64 \<Rightarrow> kmem \<Rightarrow> kmem res" where
  "proc_freepagetable pt sz k =
     rbind (uvmunmap k pt TRAMPOLINE 1 False) (\<lambda>k.
     rbind (uvmunmap k pt TRAPFRAME 1 False) (\<lambda>k. uvmfree k pt sz))"

definition freeproc :: "nat \<Rightarrow> 'a kworld_scheme \<Rightarrow> 'a kworld_scheme res" where
  "freeproc i s =
     (let p = procs s i in
      rbind (if p_trapframe p \<noteq> 0 then kfree (km s) (p_trapframe p) else Ok (km s)) (\<lambda>k.
      rbind (if p_pagetable p \<noteq> 0 then proc_freepagetable (p_pagetable p) (p_sz p) k else Ok k) (\<lambda>k.
        Ok (pupd i (\<lambda>p. p\<lparr>p_trapframe := 0, p_pagetable := 0, p_sz := 0, p_pid := 0, p_parent := None, p_name := [],
          p_chan := 0, p_killed := False, p_xstate := 0, p_state := UNUSED\<rparr>) (s\<lparr>km := k\<rparr>)))))"

definition allocproc :: "'a kworld_scheme \<Rightarrow> (nat option \<times> 'a kworld_scheme) res" where
  "allocproc s =
     (case List.find (\<lambda>i. p_state (procs s i) = UNUSED) [0..<NPROC] of
        None \<Rightarrow> Ok (None, s)
      | Some i \<Rightarrow>
          rbind (allocpid s) (\<lambda>(pid, s).
             let s = pupd i (\<lambda>p. p\<lparr>p_pid := pid, p_state := USED\<rparr>) s in
             case kalloc (km s) of (tf, k) \<Rightarrow>
               let s = pupd i (\<lambda>p. p\<lparr>p_trapframe := tf\<rparr>) (s\<lparr>km := k\<rparr>) in
               if tf = 0 then rbind (freeproc i s) (\<lambda>s. Ok (None, s))
               else rbind (proc_pagetable (trampoline s) tf (km s)) (\<lambda>(pt, k).
                 let s = pupd i (\<lambda>p. p\<lparr>p_pagetable := pt\<rparr>) (s\<lparr>km := k\<rparr>) in
                 if pt = 0 then rbind (freeproc i s) (\<lambda>s. Ok (None, s))
                 else Ok (Some i, pupd i (\<lambda>p. p\<lparr>p_context :=
                   \<lparr>ctx_ra = forkret_addr s, ctx_sp = p_kstack p + PGSIZE, ctx_s = replicate 12 0\<rparr>\<rparr>) s))))"

text \<open>\<open>code\<close> is the address of the 52 bytes of \<^verbatim>\<open>initcode\<close>.\<close>

definition userinit :: "u64 \<Rightarrow> 'a kworld_scheme \<Rightarrow> 'a kworld_scheme res" where
  "userinit code s =
     rbind (allocproc s) (\<lambda>(r, s). case r of
       None \<Rightarrow> Fail (Fault ''userinit: p'')
     | Some i \<Rightarrow>
         let s = s\<lparr>initproc := Some i\<rparr> in
         rbind (uvmfirst (km s) (p_pagetable (procs s i)) code 52) (\<lambda>k.
           let tf = p_trapframe (procs s i);
               k = k\<lparr>k_mem := store64 (store64 (k_mem k) (tf + TF_epc) 0) (tf + TF_sp) PGSIZE\<rparr>;
               s = pupd i (\<lambda>p. p\<lparr>p_sz := PGSIZE, p_name := [105, 110, 105, 116, 99, 111, 100, 101]\<rparr>) (s\<lparr>km := k\<rparr>)
           in rbind (namei (p_pid (procs s i)) (p_pagetable (procs s i)) 0 [47] s) (\<lambda>(ip, s).
             Ok (pupd i (\<lambda>p. p\<lparr>p_cwd := ip, p_state := RUNNABLE\<rparr>) s))))"

definition growproc :: "nat \<Rightarrow> int \<Rightarrow> 'a kworld_scheme \<Rightarrow> (int \<times> 'a kworld_scheme) res" where
  "growproc me n s =
     (let p = procs s me; sz = p_sz p in
      if n > 0 then
        rbind (uvmalloc (km s) (p_pagetable p) sz (sz + of_int n) (ucast PTE_W)) (\<lambda>(sz, k).
          if sz = 0 then Ok (-1, s\<lparr>km := k\<rparr>) else Ok (0, pupd me (p_sz_update (\<lambda>_. sz)) (s\<lparr>km := k\<rparr>)))
      else if n < 0 then
        rbind (uvmdealloc (km s) (p_pagetable p) sz (sz + of_int n)) (\<lambda>(sz, k).
          Ok (0, pupd me (p_sz_update (\<lambda>_. sz)) (s\<lparr>km := k\<rparr>)))
      else Ok (0, s))"

section \<open>Sleeping and waking\<close>

definition sleep :: "nat \<Rightarrow> u64 \<Rightarrow> 'a kworld_scheme \<Rightarrow> 'a kworld_scheme" where
  "sleep me chan s = pupd me (\<lambda>p. p\<lparr>p_chan := chan, p_state := SLEEPING\<rparr>) s"

text \<open>The end of \<open>sleep\<close>, when the process runs again.\<close>

definition sleep_resume :: "nat \<Rightarrow> 'a kworld_scheme \<Rightarrow> 'a kworld_scheme" where
  "sleep_resume me s = pupd me (p_chan_update (\<lambda>_. 0)) s"

definition wake_one :: "nat option \<Rightarrow> u64 \<Rightarrow> nat \<Rightarrow> 'a kworld_scheme \<Rightarrow> 'a kworld_scheme" where
  "wake_one me chan i s =
     (if Some i \<noteq> me \<and> p_state (procs s i) = SLEEPING \<and> p_chan (procs s i) = chan
      then pupd i (p_state_update (\<lambda>_. RUNNABLE)) s else s)"

text \<open>\<open>me\<close> is the result of \<open>myproc\<close>, null when an interrupt handler calls \<open>wakeup\<close> on a CPU that runs no process.\<close>

definition wakeup :: "nat option \<Rightarrow> u64 \<Rightarrow> 'a kworld_scheme \<Rightarrow> 'a kworld_scheme" where
  "wakeup me chan s = fold (wake_one me chan) [0..<NPROC] s"

definition kill :: "int \<Rightarrow> 'a kworld_scheme \<Rightarrow> int \<times> 'a kworld_scheme" where
  "kill pid s =
     (case List.find (\<lambda>i. p_pid (procs s i) = pid) [0..<NPROC] of
        None \<Rightarrow> (-1, s)
      | Some i \<Rightarrow> (0, pupd i (\<lambda>p. p\<lparr>p_killed := True,
          p_state := (if p_state p = SLEEPING then RUNNABLE else p_state p)\<rparr>) s))"

definition setkilled :: "nat \<Rightarrow> 'a kworld_scheme \<Rightarrow> 'a kworld_scheme" where
  "setkilled i s = pupd i (p_killed_update (\<lambda>_. True)) s"

definition killed :: "nat \<Rightarrow> 'a kworld_scheme \<Rightarrow> bool" where
  "killed i s = p_killed (procs s i)"

section \<open>fork, exit, wait\<close>

definition fork_files :: "nat \<Rightarrow> nat \<Rightarrow> nat \<Rightarrow> 'a kworld_scheme \<Rightarrow> 'a kworld_scheme res" where
  "fork_files me np k s =
     (case p_ofile (procs s me) ! k of
        None \<Rightarrow> Ok s
      | Some f \<Rightarrow> rbind (filedup f s) (\<lambda>s. Ok (pupd np (p_ofile_update (\<lambda>l. l[k := Some f])) s)))"

text \<open>The end of \<open>fork\<close>: under \<open>wait_lock\<close> the parent, then under the child's lock the state.\<close>

definition fork_end :: "nat \<Rightarrow> nat \<Rightarrow> 'a kworld_scheme \<Rightarrow> 'a kworld_scheme" where
  "fork_end me np s = pupd np (p_state_update (\<lambda>_. RUNNABLE)) (pupd np (p_parent_update (\<lambda>_. Some me)) s)"

definition fork :: "nat \<Rightarrow> 'a kworld_scheme \<Rightarrow> (int \<times> 'a kworld_scheme) res" where
  "fork me s =
     rbind (allocproc s) (\<lambda>(r, s). case r of
       None \<Rightarrow> Ok (-1, s)
     | Some np \<Rightarrow>
         let p = procs s me in
         rbind (uvmcopy (km s) (p_pagetable p) (p_pagetable (procs s np)) (p_sz p)) (\<lambda>(r, k).
           let s = s\<lparr>km := k\<rparr> in
           if r < 0 then rbind (freeproc np s) (\<lambda>s. Ok (-1, s))
           else
             let s = pupd np (p_sz_update (\<lambda>_. p_sz p)) s;
                 ctf = p_trapframe (procs s np);
                 m = poke (k_mem (km s)) ctf (peek (k_mem (km s)) (p_trapframe p) TF_SIZE);
                 s = s\<lparr>km := (km s)\<lparr>k_mem := store64 m (ctf + TF_a0) 0\<rparr>\<rparr>
             in rbind (rfold (fork_files me np) [0..<NOFILE] s) (\<lambda>s.
               case p_cwd p of
                 None \<Rightarrow> Fail (Fault ''fork: cwd'')
               | Some c \<Rightarrow>
                   let s = pupd np (\<lambda>q. q\<lparr>p_cwd := Some c, p_name := p_name p\<rparr>) (idup c s)
                   in Ok (p_pid (procs s np), fork_end me np s))))"

definition reparent_one :: "nat \<Rightarrow> nat \<Rightarrow> 'a kworld_scheme \<Rightarrow> 'a kworld_scheme" where
  "reparent_one p pp s =
     (if p_parent (procs s pp) = Some p then
        wakeup (Some p) (proc_addr s (initproc s)) (pupd pp (p_parent_update (\<lambda>_. initproc s)) s)
      else s)"

definition reparent :: "nat \<Rightarrow> 'a kworld_scheme \<Rightarrow> 'a kworld_scheme" where
  "reparent p s = fold (reparent_one p) [0..<NPROC] s"

definition exit_files :: "nat \<Rightarrow> nat \<Rightarrow> 'a kworld_scheme \<Rightarrow> 'a kworld_scheme res" where
  "exit_files me k s =
     (case p_ofile (procs s me) ! k of
        None \<Rightarrow> Ok s
      | Some f \<Rightarrow> rbind (fileclose (p_pid (procs s me)) f s) (\<lambda>s. Ok (pupd me (p_ofile_update (\<lambda>l. l[k := None])) s)))"

text \<open>The part of \<open>exit\<close> under \<open>wait_lock\<close>: hand over the children, wake the parent, become a zombie.\<close>

definition exit_end :: "nat \<Rightarrow> int \<Rightarrow> 'a kworld_scheme \<Rightarrow> 'a kworld_scheme" where
  "exit_end me status s =
     (let s = reparent me s;
          s = wakeup (Some me) (proc_addr s (p_parent (procs s me))) s
      in pupd me (\<lambda>p. p\<lparr>p_xstate := status, p_state := ZOMBIE\<rparr>) s)"

text \<open>\<open>exit\<close> up to its call of \<open>sched\<close>, from which it never comes back.\<close>

definition exit :: "nat \<Rightarrow> int \<Rightarrow> 'a kworld_scheme \<Rightarrow> 'a kworld_scheme res" where
  "exit me status s =
     (if Some me = initproc s then Fail (Panic ''init exiting'')
      else rbind (rfold (exit_files me) [0..<NOFILE] s) (\<lambda>s.
        rbind (begin_op s) (\<lambda>s.
          case p_cwd (procs s me) of
            None \<Rightarrow> Fail (Fault ''exit: cwd'')
          | Some c \<Rightarrow>
              rbind (iput (p_pid (procs s me)) c s) (\<lambda>s.
              rbind (end_op (p_pid (procs s me)) s) (\<lambda>s.
                Ok (exit_end me status (pupd me (p_cwd_update (\<lambda>_. None)) s)))))))"

text \<open>One turn of the loop of \<open>wait\<close>. The exit status is copied out of the table entry.\<close>

definition wait :: "nat \<Rightarrow> u64 \<Rightarrow> 'a kworld_scheme \<Rightarrow> (sresult \<times> 'a kworld_scheme) res" where
  "wait me addr s =
     (let kids = filter (\<lambda>i. p_parent (procs s i) = Some me) [0..<NPROC] in
      case List.find (\<lambda>i. p_state (procs s i) = ZOMBIE) kids of
        Some i \<Rightarrow>
          let pid = p_pid (procs s i); xaddr = proc_addr s (Some i) + 44 in
          rbind (if addr \<noteq> 0 then
                   copyout ((km s)\<lparr>k_mem := poke (k_mem (km s)) xaddr
                     (map (le_byte (of_int (p_xstate (procs s i)) :: u32)) [0..<4])\<rparr>)
                     (p_pagetable (procs s me)) addr xaddr 4
                 else Ok (0, km s)) (\<lambda>(r, k).
            let s = s\<lparr>km := k\<rparr> in
            if r < 0 then Ok (Returns (-1), s)
            else rbind (freeproc i s) (\<lambda>s. Ok (Returns pid, s)))
      | None \<Rightarrow>
          if kids = [] \<or> killed me s then Ok (Returns (-1), s)
          else let chan = proc_addr s (Some me) in Ok (Waits chan, sleep me chan s))"

section \<open>Scheduling\<close>

text \<open>
  One visit of the scheduler of CPU \<open>c\<close> to slot \<open>i\<close>: it switches to a process that can run. \<open>swtch i\<close> is what happens until the
  process switches back.
\<close>

definition dispatch :: "nat \<Rightarrow> nat \<Rightarrow> 'a kworld_scheme \<Rightarrow> 'a kworld_scheme" where
  "dispatch c i s = pupd i (p_state_update (\<lambda>_. RUNNING)) (s\<lparr>cur := (cur s)(c := Some i)\<rparr>)"

definition undispatch :: "nat \<Rightarrow> 'a kworld_scheme \<Rightarrow> 'a kworld_scheme" where
  "undispatch c s = s\<lparr>cur := (cur s)(c := None)\<rparr>"

definition sched_visit ::
  "(nat \<Rightarrow> 'a kworld_scheme \<Rightarrow> 'a kworld_scheme) \<Rightarrow> nat \<Rightarrow> nat \<Rightarrow> nat list \<times> 'a kworld_scheme \<Rightarrow> nat list \<times> 'a kworld_scheme" where
  "sched_visit swtch c i = (\<lambda>(found, s).
     if p_state (procs s i) = RUNNABLE then (found @ [i], undispatch c (swtch i (dispatch c i s)))
     else (found, s))"

text \<open>One turn of the scheduler's endless loop: the slots it switched to (when there are none it waits for an interrupt) and the state.\<close>

definition scheduler_pass ::
  "(nat \<Rightarrow> 'a kworld_scheme \<Rightarrow> 'a kworld_scheme) \<Rightarrow> nat \<Rightarrow> 'a kworld_scheme \<Rightarrow> nat list \<times> 'a kworld_scheme" where
  "scheduler_pass swtch c s = fold (sched_visit swtch c) [0..<NPROC] ([], s)"

text \<open>The checks of \<open>sched\<close> before it switches; \<open>held\<close> says whether \<^verbatim>\<open>p->lock\<close> is held.\<close>

definition sched_checks :: "bool \<Rightarrow> nat \<Rightarrow> cpu \<Rightarrow> 'a kworld_scheme \<Rightarrow> unit res" where
  "sched_checks held me c s =
     (if \<not> held then Fail (Panic ''sched p->lock'')
      else if noff c \<noteq> 1 then Fail (Panic ''sched locks'')
      else if p_state (procs s me) = RUNNING then Fail (Panic ''sched running'')
      else if intr_get c then Fail (Panic ''sched interruptible'')
      else Ok ())"

text \<open>After the switch back: \<^verbatim>\<open>intena\<close> belongs to the kernel thread, so it is restored on the CPU it now runs on.\<close>

definition sched_resume :: "bool \<Rightarrow> cpu \<Rightarrow> cpu" where
  "sched_resume old c = c\<lparr>intena := old\<rparr>"

definition yield :: "nat \<Rightarrow> 'a kworld_scheme \<Rightarrow> 'a kworld_scheme" where
  "yield me s = pupd me (p_state_update (\<lambda>_. RUNNABLE)) s"

definition state_name :: "procstate \<Rightarrow> string" where
  "state_name st = (case st of UNUSED \<Rightarrow> ''unused'' | USED \<Rightarrow> ''used'' | SLEEPING \<Rightarrow> ''sleep '' | RUNNABLE \<Rightarrow> ''runble''
     | RUNNING \<Rightarrow> ''run   '' | ZOMBIE \<Rightarrow> ''zombie'')"

definition procdump_line :: "proc \<Rightarrow> string res" where
  "procdump_line p =
     (if p_state p = UNUSED then Ok []
      else rbind (printf_loop ''%d %s %s'' [VNum (of_int (p_pid p)), VStr (Some (state_name (p_state p))), VStr (Some (map (\<lambda>b. char_of (unat b)) (p_name p)))])
        (\<lambda>o1. Ok (o1 @ [CHR 0x0A])))"

definition procdump :: "'a kworld_scheme \<Rightarrow> string res" where
  "procdump s =
     rfold (\<lambda>i out. rbind (procdump_line (procs s i)) (\<lambda>l. Ok (out @ l))) [0..<NPROC] [CHR 0x0A]"

section \<open>Properties\<close>

lemma procs_pupd [simp]: "procs (pupd i f s) j = (if j = i then f (procs s i) else procs s j)"
  by (simp add: pupd_def)

lemma wake_fold:
  assumes "distinct l"
  shows "procs (fold (wake_one me chan) l s) j =
    (if j \<in> set l \<and> Some j \<noteq> me \<and> p_state (procs s j) = SLEEPING \<and> p_chan (procs s j) = chan
     then (procs s j)\<lparr>p_state := RUNNABLE\<rparr> else procs s j)"
  using assms
proof (induction l arbitrary: s)
  case (Cons i l)
  show ?case using Cons.prems unfolding fold.simps comp_def
    by (subst Cons.IH) (auto simp: wake_one_def)
qed simp

section \<open>The process table under the operations\<close>

lemma pupd_frame [simp]:
  "cur (pupd i f s) = cur s" "nextpid (pupd i f s) = nextpid s" "initproc (pupd i f s) = initproc s"
  "km (pupd i f s) = km s" "proc_base (pupd i f s) = proc_base s" "msgs (pupd i f s) = msgs s"
  "files (pupd i f s) = files s" "inodes (pupd i f s) = inodes s" "pipes (pupd i f s) = pipes s"
  "trampoline (pupd i f s) = trampoline s" "forkret_addr (pupd i f s) = forkret_addr s"
  by (simp_all add: pupd_def)

lemma procs_pupd_fun: "procs (pupd i f s) = (procs s)(i := f (procs s i))"
  by (simp add: pupd_def)

lemma wake_fold_frame:
  "cur (fold (wake_one me chan) l s) = cur s" "nextpid (fold (wake_one me chan) l s) = nextpid s"
  "initproc (fold (wake_one me chan) l s) = initproc s" "proc_base (fold (wake_one me chan) l s) = proc_base s"
  by (induction l arbitrary: s) (auto simp: wake_one_def)

lemmas wakeup_frame [simp] = wake_fold_frame [where l = "[0..<NPROC]", folded wakeup_def]

lemma procs_wakeup:
  "procs (wakeup me chan s) j =
    (if j < NPROC \<and> Some j \<noteq> me \<and> p_state (procs s j) = SLEEPING \<and> p_chan (procs s j) = chan
     then (procs s j)\<lparr>p_state := RUNNABLE\<rparr> else procs s j)"
  unfolding wakeup_def by (subst wake_fold) (auto simp del: upt_rec_numeral)

text \<open>What \<open>freeproc\<close> leaves in the slot.\<close>

definition freed_slot :: "proc \<Rightarrow> proc" where
  "freed_slot p = p\<lparr>p_trapframe := 0, p_pagetable := 0, p_sz := 0, p_pid := 0, p_parent := None, p_name := [],
     p_chan := 0, p_killed := False, p_xstate := 0, p_state := UNUSED\<rparr>"

lemma freed_slot_simps [simp]: "p_state (freed_slot p) = UNUSED" "p_pid (freed_slot p) = 0" "p_killed (freed_slot p) = False" "p_parent (freed_slot p) = None"
  "p_ofile (freed_slot p) = p_ofile p"
  by (simp_all add: freed_slot_def)

lemma freeproc_table:
  assumes "freeproc i s = Ok s'"
  shows "procs s' = (procs s)(i := freed_slot (procs s i)) \<and> cur s' = cur s \<and> nextpid s' = nextpid s \<and> initproc s' = initproc s \<and>
    files s' = files s"
  using assms by (auto simp: freeproc_def Let_def rbind_Ok_iff procs_pupd_fun freed_slot_def)

lemma find_first:
  assumes "List.find P [0..<n] = Some i"
  shows "i < n" "P i" "\<forall>j<i. \<not> P j"
proof -
  obtain k where k: "k < n" "P k" "i = k" "\<forall>j<k. \<not> P j"
    using assms by (auto simp: find_Some_iff)
  then show "i < n" "P i" "\<forall>j<i. \<not> P j" by auto
qed

text \<open>\<open>allocproc\<close> changes at most the first unused slot, which it either takes or gives back.\<close>

lemma allocproc_table:
  assumes "allocproc s = Ok (r, s')"
  shows "cur s' = cur s \<and> initproc s' = initproc s \<and> files s' = files s \<and>
    (r = None \<and> procs s' = procs s \<and> nextpid s' = nextpid s \<or>
     (\<exists>i q. i < NPROC \<and> p_state (procs s i) = UNUSED \<and> (\<forall>j<i. p_state (procs s j) \<noteq> UNUSED) \<and>
        procs s' = (procs s)(i := q) \<and> nextpid s' = nextpid s + 1 \<and> p_ofile q = p_ofile (procs s i) \<and>
        (r = None \<and> p_state q = UNUSED \<and> p_pid q = 0 \<or>
         r = Some i \<and> p_state q = USED \<and> p_pid q = nextpid s \<and> p_killed q = p_killed (procs s i))))"
proof (cases "List.find (\<lambda>i. p_state (procs s i) = UNUSED) [0..<NPROC]")
  case None
  then show ?thesis using assms by (auto simp: allocproc_def)
next
  case (Some i)
  note f = find_first [OF Some]
  show ?thesis using assms f unfolding allocproc_def Some option.case
    by (auto simp: rbind_Ok_iff allocpid_def Let_def procs_pupd_fun split: if_splits prod.splits
        dest!: freeproc_table intro!: exI [of _ i])
qed

section \<open>A concrete world\<close>

text \<open>Just after \<open>procinit\<close>: every slot unused, no file open, a cold buffer cache.\<close>

definition idle_proc :: proc where
  "idle_proc = \<lparr>p_state = UNUSED, p_chan = 0, p_killed = False, p_xstate = 0, p_pid = 0, p_parent = None, p_kstack = 0, p_sz = 0,
     p_pagetable = 0, p_trapframe = 0, p_context = \<lparr>ctx_ra = 0, ctx_sp = 0, ctx_s = []\<rparr>, p_ofile = replicate NOFILE None,
     p_cwd = None, p_name = []\<rparr>"

definition boot_world :: kworld where
  "boot_world =
     \<lparr>bc = boot_cache, lg = \<lparr>l_start = 2, l_size = 30, outstanding = 0, committing = False, l_dev = 1, lh = []\<rparr>,
      sb = \<lparr>sb_magic = FSMAGIC, sb_size = 2000, sb_nblocks = 1954, sb_ninodes = 200, sb_nlog = 30, sb_logstart = 2,
        sb_inodestart = 32, sb_bmapstart = 45\<rparr>,
      inodes = (\<lambda>_. \<lparr>i_dev = 0, i_num = 0, i_ref = 0, i_lock = initsleeplock ''inode'', i_valid = False, i_type = 0, i_major = 0,
        i_minor = 0, i_nlink = 0, i_size = 0, i_addrs = replicate 13 0\<rparr>),
      km = empty_space, baddr = (\<lambda>b. 0x80010000 + 1112 * of_nat b), deaddr = 0x80008000,
      files = (\<lambda>_. \<lparr>f_type = FD_NONE, f_ref = 0, f_readable = False, f_writable = False, f_pipe = 0, f_ip = 0, f_off = 0, f_major = 0\<rparr>),
      pipes = (\<lambda>_. None), console = \<lparr>c_buf = replicate 128 0, c_r = 0, c_w = 0, c_e = 0\<rparr>,
      serial = \<lparr>uart_tx_buf = replicate 32 0, uart_tx_w = 0, uart_tx_r = 0, clock = 0, writes = []\<rparr>,
      procs = (\<lambda>_. idle_proc), cur = (\<lambda>_. None), nextpid = 1, initproc = None, first_ret = True, ticks = 0, msgs = [],
      proc_base = 0x80009000, trampoline = 0x80007000, forkret_addr = 0x80001a00, ticks_addr = 0x80008f00\<rparr>"

lemma boot_world_simps [simp]:
  "procs boot_world = (\<lambda>_. idle_proc)" "cur boot_world = (\<lambda>_. None)" "nextpid boot_world = 1" "initproc boot_world = None"
  "p_state idle_proc = UNUSED" "p_pid idle_proc = 0" "p_killed idle_proc = False" "p_parent idle_proc = None"
  "p_ofile idle_proc = replicate NOFILE None"
  by (simp_all add: boot_world_def idle_proc_def)

end
