(* ===== verification/Xv6_Sleep.thy ===== *)
theory Xv6_Sleep
  imports Xv6_Proc
begin

text \<open>
  No wakeup is lost: the interleaving of \<open>sleep\<close> with any number of callers of \<open>wakeup\<close>, at the grain of lock operations. A process \<open>me\<close>
  waits for a condition as the kernel's code does (\<^verbatim>\<open>while(!cond) sleep(chan, &lk)\<close> with \<open>lk\<close> held), wakers make the condition true and call
  \<open>wakeup(chan)\<close> with \<open>lk\<close> held. \<open>lk\<close> and \<open>p->lock\<close> are mutual-exclusion locks, given by their owner (\<open>Xv6_Spinlock\<close> proves this of the
  spin locks). Between them the steps of \<open>Xv6_Proc\<close> run on the process table.
\<close>

datatype thread = Sleeper | Waker nat

text \<open>
  Where the waiting process is: outside; with \<open>lk\<close> held before the test; about to call \<open>sleep\<close>; in \<open>sleep\<close> after \<open>acquire(&p->lock)\<close>, after
  \<open>release(lk)\<close>, after the assignments to \<open>chan\<close> and \<open>state\<close>; off the CPU; back from \<open>sched\<close>; before \<open>acquire(lk)\<close>; past the loop.
\<close>

datatype spc = Outside | Testing | CallSleep | BothLocks | OwnLock | Marked | OffCpu | Back | Relock | Through

datatype wpc = Idle | HaveLk | InWakeup | WithP | Leaving

record sw =
  world :: kworld
  condv :: bool
  lk_own :: "thread option"
  p_own :: "thread option"
  spc_of :: spc
  wpc_of :: "nat \<Rightarrow> wpc"

inductive sw_step :: "nat \<Rightarrow> u64 \<Rightarrow> sw \<Rightarrow> sw \<Rightarrow> bool" for me :: nat and chan :: u64 where
  s_enter: "spc_of s = Outside \<Longrightarrow> lk_own s = None \<Longrightarrow> sw_step me chan s (s\<lparr>lk_own := Some Sleeper, spc_of := Testing\<rparr>)"
| s_true: "spc_of s = Testing \<Longrightarrow> condv s \<Longrightarrow> sw_step me chan s (s\<lparr>condv := False, spc_of := Through\<rparr>)"
| s_false: "spc_of s = Testing \<Longrightarrow> \<not> condv s \<Longrightarrow> sw_step me chan s (s\<lparr>spc_of := CallSleep\<rparr>)"
| s_lock: "spc_of s = CallSleep \<Longrightarrow> p_own s = None \<Longrightarrow> sw_step me chan s (s\<lparr>p_own := Some Sleeper, spc_of := BothLocks\<rparr>)"
| s_release: "spc_of s = BothLocks \<Longrightarrow> sw_step me chan s (s\<lparr>lk_own := None, spc_of := OwnLock\<rparr>)"
| s_mark: "spc_of s = OwnLock \<Longrightarrow> sw_step me chan s (s\<lparr>world := sleep me chan (world s), spc_of := Marked\<rparr>)"
| s_sched: "spc_of s = Marked \<Longrightarrow> sw_step me chan s (s\<lparr>p_own := None, spc_of := OffCpu\<rparr>)"
| s_dispatch: "spc_of s = OffCpu \<Longrightarrow> p_own s = None \<Longrightarrow> p_state (procs (world s) me) = RUNNABLE \<Longrightarrow>
    sw_step me chan s (s\<lparr>world := dispatch c me (world s), p_own := Some Sleeper, spc_of := Back\<rparr>)"
| s_back: "spc_of s = Back \<Longrightarrow> sw_step me chan s (s\<lparr>world := sleep_resume me (world s), p_own := None, spc_of := Relock\<rparr>)"
| s_relock: "spc_of s = Relock \<Longrightarrow> lk_own s = None \<Longrightarrow> sw_step me chan s (s\<lparr>lk_own := Some Sleeper, spc_of := Testing\<rparr>)"
| s_leave: "spc_of s = Through \<Longrightarrow> sw_step me chan s (s\<lparr>lk_own := None, spc_of := Outside\<rparr>)"
| w_lock: "wpc_of s w = Idle \<Longrightarrow> lk_own s = None \<Longrightarrow>
    sw_step me chan s (s\<lparr>lk_own := Some (Waker w), wpc_of := (wpc_of s)(w := HaveLk)\<rparr>)"
| w_set: "wpc_of s w = HaveLk \<Longrightarrow> sw_step me chan s (s\<lparr>condv := True, wpc_of := (wpc_of s)(w := InWakeup)\<rparr>)"
| w_plock: "wpc_of s w = InWakeup \<Longrightarrow> p_own s = None \<Longrightarrow>
    sw_step me chan s (s\<lparr>p_own := Some (Waker w), wpc_of := (wpc_of s)(w := WithP)\<rparr>)"
| w_wake: "wpc_of s w = WithP \<Longrightarrow> Some me \<noteq> q \<Longrightarrow>
    sw_step me chan s (s\<lparr>world := wake_one q chan me (world s), p_own := None, wpc_of := (wpc_of s)(w := Leaving)\<rparr>)"
| w_unlock: "wpc_of s w = Leaving \<Longrightarrow> sw_step me chan s (s\<lparr>lk_own := None, wpc_of := (wpc_of s)(w := Idle)\<rparr>)"

inductive sw_reach :: "nat \<Rightarrow> u64 \<Rightarrow> sw \<Rightarrow> sw \<Rightarrow> bool" for me chan s0 where
  sw_start: "sw_reach me chan s0 s0"
| sw_more: "sw_reach me chan s0 s \<Longrightarrow> sw_step me chan s t \<Longrightarrow> sw_reach me chan s0 t"

definition sw_init :: "nat \<Rightarrow> sw \<Rightarrow> bool" where
  "sw_init me s \<longleftrightarrow> lk_own s = None \<and> p_own s = None \<and> spc_of s = Outside \<and> (\<forall>w. wpc_of s w = Idle) \<and>
     p_state (procs (world s) me) = RUNNING"

section \<open>The invariant\<close>

definition asleep :: "nat \<Rightarrow> u64 \<Rightarrow> sw \<Rightarrow> bool" where
  "asleep me chan s \<longleftrightarrow> p_state (procs (world s) me) = SLEEPING \<and> p_chan (procs (world s) me) = chan"

text \<open>The locks belong to who is between its acquire and its release.\<close>

definition lk_inv :: "sw \<Rightarrow> bool" where
  "lk_inv s \<longleftrightarrow>
     (lk_own s = Some Sleeper \<longleftrightarrow> spc_of s \<in> {Testing, CallSleep, BothLocks, Through}) \<and>
     (\<forall>w. lk_own s = Some (Waker w) \<longleftrightarrow> wpc_of s w \<noteq> Idle)"

definition p_inv :: "sw \<Rightarrow> bool" where
  "p_inv s \<longleftrightarrow>
     (p_own s = Some Sleeper \<longleftrightarrow> spc_of s \<in> {BothLocks, OwnLock, Marked, Back}) \<and>
     (\<forall>w. p_own s = Some (Waker w) \<longleftrightarrow> wpc_of s w = WithP)"

text \<open>The process state follows the program counter; a false condition stays false while \<open>lk\<close> is held; and whoever made it true since then is still
  on the way to the wakeup.\<close>

definition st_inv :: "nat \<Rightarrow> u64 \<Rightarrow> sw \<Rightarrow> bool" where
  "st_inv me chan s \<longleftrightarrow>
     (if spc_of s = Marked then asleep me chan s
      else if spc_of s = OffCpu then asleep me chan s \<or> p_state (procs (world s) me) = RUNNABLE
      else p_state (procs (world s) me) = RUNNING)"

definition due :: "sw \<Rightarrow> bool" where
  "due s \<longleftrightarrow> (\<exists>w. wpc_of s w = InWakeup \<or> wpc_of s w = WithP)"

definition wait_inv :: "nat \<Rightarrow> u64 \<Rightarrow> sw \<Rightarrow> bool" where
  "wait_inv me chan s \<longleftrightarrow>
     (condv s \<longrightarrow> spc_of s \<noteq> CallSleep \<and> spc_of s \<noteq> BothLocks) \<and>
     (condv s \<and> (spc_of s = OwnLock \<or> spc_of s = Marked \<or> spc_of s = OffCpu \<and> asleep me chan s) \<longrightarrow> due s)"

lemma world_sleep [simp]:
  "p_state (procs (sleep me chan w) me) = SLEEPING" "p_chan (procs (sleep me chan w) me) = chan"
  by (simp_all add: sleep_def)

lemma world_dispatch [simp]: "p_state (procs (dispatch c me w) me) = RUNNING"
  by (simp add: dispatch_def)

lemma world_resume [simp]: "p_state (procs (sleep_resume me w) me) = p_state (procs w me)"
  by (simp add: sleep_resume_def)

lemma lk_unique: "lk_inv s \<Longrightarrow> wpc_of s v \<noteq> Idle \<Longrightarrow> wpc_of s w \<noteq> Idle \<Longrightarrow> v = w"
  unfolding lk_inv_def by (metis option.inject thread.inject(1))

lemma p_unique: "p_inv s \<Longrightarrow> wpc_of s v = WithP \<Longrightarrow> wpc_of s w = WithP \<Longrightarrow> v = w"
  unfolding p_inv_def by (metis option.inject thread.inject(1))

lemma lk_inv_step: "sw_step me chan s t \<Longrightarrow> lk_inv s \<Longrightarrow> lk_inv t"
proof (induction rule: sw_step.induct)
  case (w_unlock s w)
  then have "v = w" if "wpc_of s v \<noteq> Idle" for v using lk_unique [of s v w] that by simp
  then show ?case using w_unlock by (auto simp: lk_inv_def)
qed (auto simp: lk_inv_def split: if_splits)

lemma p_inv_step: "sw_step me chan s t \<Longrightarrow> p_inv s \<Longrightarrow> p_inv t"
proof (induction rule: sw_step.induct)
  case (w_wake s w q)
  then have "wpc_of s v \<noteq> WithP" if "v \<noteq> w" for v using p_unique [of s v w] that by blast
  then show ?case using w_wake by (auto simp: p_inv_def)
qed (auto simp: p_inv_def split: if_splits)

lemma st_inv_step: "sw_step me chan s t \<Longrightarrow> p_inv s \<Longrightarrow> st_inv me chan s \<Longrightarrow> st_inv me chan t"
  by (induction rule: sw_step.induct)
    (auto simp: st_inv_def p_inv_def asleep_def wake_one_def split: if_splits)

lemma due_unlock: "wpc_of s w = Leaving \<Longrightarrow> due s \<Longrightarrow> due (s\<lparr>lk_own := None, wpc_of := (wpc_of s)(w := Idle)\<rparr>)"
proof -
  assume w: "wpc_of s w = Leaving" and "due s"
  then obtain v where v: "wpc_of s v = InWakeup \<or> wpc_of s v = WithP" by (auto simp: due_def)
  then have "v \<noteq> w" using w by auto
  then show ?thesis using v by (auto simp: due_def)
qed

lemma wait_inv_step:
  "sw_step me chan s t \<Longrightarrow> lk_inv s \<Longrightarrow> p_inv s \<Longrightarrow> st_inv me chan s \<Longrightarrow> wait_inv me chan s \<Longrightarrow> wait_inv me chan t"
proof (induction rule: sw_step.induct)
  case (w_set s w)
  then show ?case by (auto simp: wait_inv_def due_def lk_inv_def)
next
  case (w_wake s w q)
  have "spc_of s \<noteq> OwnLock" "spc_of s \<noteq> Marked" using w_wake by (auto simp: p_inv_def)
  moreover have "\<not> asleep me chan (s\<lparr>world := wake_one q chan me (world s), p_own := None, wpc_of := (wpc_of s)(w := Leaving)\<rparr>)"
    using w_wake by (auto simp: asleep_def wake_one_def)
  ultimately show ?case using w_wake by (auto simp: wait_inv_def)
next
  case (w_unlock s w)
  then show ?case using due_unlock by (auto simp: wait_inv_def asleep_def)
qed (fastforce simp: wait_inv_def due_def asleep_def lk_inv_def p_inv_def)+

lemma sw_invariant:
  assumes "sw_reach me chan s0 s" and "sw_init me s0"
  shows "lk_inv s \<and> p_inv s \<and> st_inv me chan s \<and> wait_inv me chan s"
  using assms
proof (induction rule: sw_reach.induct)
  case sw_start
  then show ?case by (auto simp: sw_init_def lk_inv_def p_inv_def st_inv_def wait_inv_def)
next
  case (sw_more s t)
  then show ?case using lk_inv_step p_inv_step st_inv_step wait_inv_step by blast
qed

text \<open>
  C4: no wakeup is lost. In every interleaving, when the condition is true and the process has released \<open>lk\<close> inside \<open>sleep\<close> and
  is or is going to be asleep, a waker is still inside \<open>wakeup\<close>; so once all wakers have released \<open>lk\<close>, the process is not asleep.
\<close>

theorem no_lost_wakeup:
  assumes "sw_reach me chan s0 s" and "sw_init me s0" and "condv s"
  shows "(spc_of s = OwnLock \<or> spc_of s = Marked \<or> spc_of s = OffCpu \<and> asleep me chan s \<longrightarrow> due s) \<and>
    (lk_own s = None \<and> spc_of s = OffCpu \<longrightarrow> p_state (procs (world s) me) = RUNNABLE)"
proof -
  have inv: "lk_inv s" "st_inv me chan s" "wait_inv me chan s" using sw_invariant [OF assms(1,2)] by auto
  have free: "\<not> due s" if "lk_own s = None" using inv(1) that by (auto simp: lk_inv_def due_def) 
  show ?thesis using inv(2,3) free assms(3) by (auto simp: wait_inv_def st_inv_def)
qed

text \<open>A run in which a waker makes the condition true between \<open>release(lk)\<close> and the assignment to the state.\<close>

definition sw_boot :: sw where
  "sw_boot = \<lparr>world = boot_world\<lparr>procs := (\<lambda>_. idle_proc)(3 := idle_proc\<lparr>p_state := RUNNING\<rparr>)\<rparr>, condv = False, lk_own = None, p_own = None,
     spc_of = Outside, wpc_of = (\<lambda>_. Idle)\<rparr>"

definition sw_race :: sw where
  "sw_race = sw_boot\<lparr>condv := True, lk_own := Some (Waker 0), p_own := Some Sleeper, spc_of := OwnLock, wpc_of := (\<lambda>_. Idle)(0 := InWakeup)\<rparr>"

lemma sw_race_reached: "sw_reach 3 7 sw_boot sw_race"
proof -
  let ?a = "sw_boot\<lparr>lk_own := Some Sleeper, spc_of := Testing\<rparr>"
  let ?b = "?a\<lparr>spc_of := CallSleep\<rparr>"
  let ?c = "?b\<lparr>p_own := Some Sleeper, spc_of := BothLocks\<rparr>"
  let ?d = "?c\<lparr>lk_own := None, spc_of := OwnLock\<rparr>"
  let ?e = "?d\<lparr>lk_own := Some (Waker 0), wpc_of := (wpc_of ?d)(0 := HaveLk)\<rparr>"
  let ?f = "?e\<lparr>condv := True, wpc_of := (wpc_of ?e)(0 := InWakeup)\<rparr>"
  have "sw_reach 3 7 sw_boot ?a" by (rule sw_more [OF sw_start s_enter]) (simp_all add: sw_boot_def)
  then have "sw_reach 3 7 sw_boot ?b" by (rule sw_more [OF _ s_false]) (simp_all add: sw_boot_def)
  then have "sw_reach 3 7 sw_boot ?c" by (rule sw_more [OF _ s_lock]) (simp_all add: sw_boot_def)
  then have "sw_reach 3 7 sw_boot ?d" by (rule sw_more [OF _ s_release]) simp
  then have "sw_reach 3 7 sw_boot ?e" by (rule sw_more [OF _ w_lock]) (simp_all add: sw_boot_def)
  then have "sw_reach 3 7 sw_boot ?f" by (rule sw_more [OF _ w_set]) simp
  moreover have "?f = sw_race" by (simp add: sw_race_def sw_boot_def)
  ultimately show ?thesis by simp
qed

theorem no_lost_wakeup_witness: "sw_reach 3 7 sw_boot sw_race \<and> condv sw_race \<and> spc_of sw_race = OwnLock \<and> due sw_race"
proof -
  have i: "sw_init 3 sw_boot" by (simp add: sw_init_def sw_boot_def)
  have c: "condv sw_race" and s: "spc_of sw_race = OwnLock" by (simp_all add: sw_race_def)
  show ?thesis using no_lost_wakeup [OF sw_race_reached i c] sw_race_reached c s by simp
qed

end
