(* ===== verification/Xv6_Sched.thy ===== *)
theory Xv6_Sched
  imports Xv6_Sleep
begin

text \<open>
  Properties of the process table as a whole. The steps are the critical sections of \<^verbatim>\<open>kernel/proc.c\<close> on any number of CPUs: each runs under
  \<open>p->lock\<close> or \<open>wait_lock\<close>, so they interleave but do not overlap. \<open>tstep\<close> is the step relation, \<open>table_inv\<close> its invariant.
\<close>

section \<open>Steps and invariant\<close>

inductive tstep :: "kworld \<Rightarrow> kworld \<Rightarrow> bool" where
  t_dispatch: "cur s c = None \<Longrightarrow> i < NPROC \<Longrightarrow> p_state (procs s i) = RUNNABLE \<Longrightarrow> tstep s (dispatch c i s)"
| t_yield: "cur s c = Some i \<Longrightarrow> tstep s (undispatch c (yield i s))"
| t_sleep: "cur s c = Some i \<Longrightarrow> tstep s (undispatch c (sleep i chan s))"
| t_resume: "cur s c = Some i \<Longrightarrow> tstep s (sleep_resume i s)"
| t_exit: "cur s c = Some i \<Longrightarrow> tstep s (undispatch c (exit_end i status s))"
| t_wakeup: "tstep s (wakeup (myproc c s) chan s)"
| t_kill: "tstep s (snd (kill pid s))"
| t_setkilled: "cur s c = Some i \<Longrightarrow> tstep s (setkilled i s)"
| t_alloc: "allocproc s = Ok (r, s') \<Longrightarrow> tstep s s'"
| t_abort: "p_state (procs s i) = USED \<Longrightarrow> freeproc i s = Ok s' \<Longrightarrow> tstep s s'"
| t_first: "p_state (procs s i) = USED \<Longrightarrow> tstep s (pupd i (p_state_update (\<lambda>_. RUNNABLE)) s)"
| t_fork: "cur s c = Some i \<Longrightarrow> p_state (procs s np) = USED \<Longrightarrow> tstep s (fork_end i np s)"
| t_reap: "cur s c = Some i \<Longrightarrow> p_parent (procs s j) = Some i \<Longrightarrow> p_state (procs s j) = ZOMBIE \<Longrightarrow> freeproc j s = Ok s' \<Longrightarrow> tstep s s'"

inductive treach :: "kworld \<Rightarrow> kworld \<Rightarrow> bool" for s0 where
  t_start: "treach s0 s0"
| t_more: "treach s0 s \<Longrightarrow> tstep s t \<Longrightarrow> treach s0 t"

text \<open>After \<open>procinit\<close>.\<close>

definition table_init :: "kworld \<Rightarrow> bool" where
  "table_init s \<longleftrightarrow> (\<forall>i. p_state (procs s i) = UNUSED \<and> p_pid (procs s i) = 0) \<and> (\<forall>c. cur s c = None) \<and> 0 < nextpid s"

definition run_inv :: "kworld \<Rightarrow> bool" where
  "run_inv s \<longleftrightarrow>
     (\<forall>c i. cur s c = Some i \<longrightarrow> p_state (procs s i) = RUNNING) \<and>
     (\<forall>c d i. cur s c = Some i \<and> cur s d = Some i \<longrightarrow> c = d) \<and>
     (\<forall>i. p_state (procs s i) = RUNNING \<longrightarrow> (\<exists>c. cur s c = Some i))"

definition pid_inv :: "kworld \<Rightarrow> bool" where
  "pid_inv s \<longleftrightarrow> 0 < nextpid s \<and>
     (\<forall>i. if p_state (procs s i) = UNUSED then p_pid (procs s i) = 0 else 0 < p_pid (procs s i) \<and> p_pid (procs s i) < nextpid s) \<and>
     (\<forall>i j. p_state (procs s i) \<noteq> UNUSED \<and> p_pid (procs s i) = p_pid (procs s j) \<longrightarrow> i = j)"

section \<open>What the steps do to states and pids\<close>

text \<open>A step that only moves processes between states other than unused and running keeps both invariants.\<close>

definition quiet :: "kworld \<Rightarrow> kworld \<Rightarrow> bool" where
  "quiet s t \<longleftrightarrow> cur t = cur s \<and> nextpid t = nextpid s \<and>
     (\<forall>i. p_pid (procs t i) = p_pid (procs s i) \<and>
        (p_state (procs t i) = p_state (procs s i) \<or>
         p_state (procs s i) \<notin> {UNUSED, RUNNING} \<and> p_state (procs t i) \<notin> {UNUSED, RUNNING}))"

lemma pid_inv_cong:
  assumes "nextpid t = nextpid s" and "\<And>j. p_pid (procs t j) = p_pid (procs s j)"
    and "\<And>j. p_state (procs t j) = UNUSED \<longleftrightarrow> p_state (procs s j) = UNUSED" and "pid_inv s"
  shows "pid_inv t"
  using assms(4) unfolding pid_inv_def assms(1-3) .

lemma quiet_refl [simp, intro]: "quiet s s"
  by (simp add: quiet_def)

lemma quiet_trans: "quiet s t \<Longrightarrow> quiet t u \<Longrightarrow> quiet s u"
  unfolding quiet_def by metis

lemma quiet_run_inv: "quiet s t \<Longrightarrow> run_inv s \<Longrightarrow> run_inv t"
  unfolding quiet_def run_inv_def by (metis insertCI)

lemma quiet_pid_inv: "quiet s t \<Longrightarrow> pid_inv s \<Longrightarrow> pid_inv t"
  unfolding quiet_def by (rule pid_inv_cong [of t s]) (auto, (metis+))

lemma quiet_wakeup [simp, intro]: "quiet s (wakeup me chan s)"
  by (auto simp: quiet_def procs_wakeup)

lemma quiet_pupd:
  assumes "p_pid (f (procs s i)) = p_pid (procs s i)"
    and "p_state (f (procs s i)) = p_state (procs s i) \<or>
      p_state (procs s i) \<notin> {UNUSED, RUNNING} \<and> p_state (f (procs s i)) \<notin> {UNUSED, RUNNING}"
  shows "quiet s (pupd i f s)"
  using assms by (auto simp: quiet_def)

lemma quiet_reparent [simp, intro]: "quiet s (reparent p s)"
proof -
  have one: "quiet s (reparent_one p pp s)" for pp s
    unfolding reparent_one_def by (auto intro: quiet_trans [OF quiet_pupd quiet_wakeup])
  have "quiet s (fold (reparent_one p) l s)" for l
    by (induction l arbitrary: s) (auto intro: quiet_trans [OF one])
  then show ?thesis by (simp add: reparent_def)
qed

lemma quiet_kill [simp, intro]: "quiet s (snd (kill pid s))"
  by (auto simp: kill_def quiet_def split: option.splits if_splits)

lemma exit_end_shape:
  obtains u where "quiet s u" and "exit_end i status s = pupd i (\<lambda>p. p\<lparr>p_xstate := status, p_state := ZOMBIE\<rparr>) u"
  unfolding exit_end_def Let_def using quiet_trans [OF quiet_reparent quiet_wakeup] by blast

lemma quiet_cur: "quiet s t \<Longrightarrow> cur t = cur s"
  by (simp add: quiet_def)

text \<open>Leaving the CPU: the running process takes another state that is not unused.\<close>

lemma leave_run_inv:
  assumes "run_inv s" and "cur s c = Some i" and "p_state (f (procs s i)) \<noteq> RUNNING"
  shows "run_inv (undispatch c (pupd i f s))"
proof -
  have own: "cur s d \<noteq> Some i" if "d \<noteq> c" for d using assms(1,2) that unfolding run_inv_def by blast
  have "\<exists>d. d \<noteq> c \<and> cur s d = Some j" if r: "p_state (procs s j) = RUNNING" and ne: "j \<noteq> i" for j
  proof -
    obtain d where "cur s d = Some j" using assms(1) r unfolding run_inv_def by blast
    then show ?thesis using ne assms(2) by (metis option.inject)
  qed
  then show ?thesis using assms own unfolding run_inv_def undispatch_def by simp blast
qed

lemma leave_pid_inv:
  assumes "pid_inv s" and "p_state (procs s i) \<noteq> UNUSED"
    and "p_pid (f (procs s i)) = p_pid (procs s i)" and "p_state (f (procs s i)) \<noteq> UNUSED"
  shows "pid_inv (undispatch c (pupd i f s))"
  by (rule pid_inv_cong [OF _ _ _ assms(1)]) (use assms(2-4) in \<open>auto simp: undispatch_def\<close>)

lemma free_run_inv:
  assumes "run_inv s" and "freeproc i s = Ok t" and "p_state (procs s i) \<noteq> RUNNING"
  shows "run_inv t"
  using assms freeproc_table [OF assms(2)] unfolding run_inv_def by auto

lemma free_pid_inv:
  assumes "pid_inv s" and "freeproc i s = Ok t"
  shows "pid_inv t"
proof -
  have "p_pid (procs s j) \<noteq> 0" if "p_state (procs s j) \<noteq> UNUSED" for j
    using assms(1) that unfolding pid_inv_def by (metis less_irrefl)
  then show ?thesis using assms(1) freeproc_table [OF assms(2)] unfolding pid_inv_def by auto
qed

lemma alloc_pid_inv:
  assumes "pid_inv s" and "procs t = (procs s)(i := q)" and "nextpid t = nextpid s + 1"
    and q: "p_state q = UNUSED \<and> p_pid q = 0 \<or> p_state q = USED \<and> p_pid q = nextpid s"
  shows "pid_inv t"
proof -
  have pos: "0 < nextpid s" using assms(1) by (simp add: pid_inv_def)
  have live: "0 < p_pid (procs s j) \<and> p_pid (procs s j) < nextpid s" if "p_state (procs s j) \<noteq> UNUSED" for j
    using assms(1) that unfolding pid_inv_def by metis
  have dead: "p_pid (procs s j) = 0" if "p_state (procs s j) = UNUSED" for j
    using assms(1) that unfolding pid_inv_def by metis
  have uniq: "j = k" if "p_state (procs s j) \<noteq> UNUSED" "p_pid (procs s j) = p_pid (procs s k)" for j k
    using assms(1) that unfolding pid_inv_def by metis
  have "if p_state (procs t j) = UNUSED then p_pid (procs t j) = 0 else 0 < p_pid (procs t j) \<and> p_pid (procs t j) < nextpid t" for j
    using q pos live [of j] dead [of j] unfolding assms(2,3) by (cases "j = i") auto
  moreover have "j = k" if "p_state (procs t j) \<noteq> UNUSED" "p_pid (procs t j) = p_pid (procs t k)" for j k
  proof (cases "j = i \<or> k = i")
    case False
    then show ?thesis using uniq [of j k] that unfolding assms(2) by simp
  next
    case True
    then show ?thesis using that q pos live [of j] live [of k] dead [of k] unfolding assms(2) by (auto split: if_splits)
  qed
  moreover have "0 < nextpid t" using pos assms(3) by simp
  ultimately show ?thesis unfolding pid_inv_def by blast
qed

lemma run_inv_step: "tstep s t \<Longrightarrow> run_inv s \<Longrightarrow> run_inv t"
proof (induction rule: tstep.induct)
  case (t_dispatch s c i)
  then have "\<exists>d. d \<noteq> c \<and> cur s d = Some j" if "p_state (procs s j) = RUNNING" for j
    using that unfolding run_inv_def by (metis option.distinct(1))
  then show ?case using t_dispatch by (fastforce simp: run_inv_def dispatch_def)
next
  case (t_yield s c i)
  then show ?case unfolding yield_def by (auto intro: leave_run_inv)
next
  case (t_sleep s c i chan)
  then show ?case unfolding sleep_def by (auto intro: leave_run_inv)
next
  case (t_exit s c i status)
  obtain u where u: "quiet s u" "exit_end i status s = pupd i (\<lambda>p. p\<lparr>p_xstate := status, p_state := ZOMBIE\<rparr>) u"
    by (rule exit_end_shape)
  have "run_inv u" "cur u c = Some i" using t_exit quiet_run_inv [OF u(1)] quiet_cur [OF u(1)] by simp_all
  then show ?case unfolding u(2) by (rule leave_run_inv) simp
next
  case (t_alloc s r s')
  then show ?case using allocproc_table [OF t_alloc(1)] unfolding run_inv_def by (auto split: if_splits)
qed (auto intro: quiet_run_inv [OF quiet_pupd] quiet_run_inv [OF quiet_wakeup] quiet_run_inv [OF quiet_kill] free_run_inv
  quiet_run_inv [OF quiet_trans [OF quiet_pupd quiet_pupd]] simp: sleep_resume_def setkilled_def fork_end_def)

lemma pid_inv_step: "tstep s t \<Longrightarrow> run_inv s \<Longrightarrow> pid_inv s \<Longrightarrow> pid_inv t"
proof (induction rule: tstep.induct)
  case (t_dispatch s c i)
  show ?case by (rule pid_inv_cong [OF _ _ _ t_dispatch(5)]) (use t_dispatch(3) in \<open>auto simp: dispatch_def\<close>)
next
  case (t_yield s c i)
  then show ?case unfolding yield_def by (auto intro: leave_pid_inv simp: run_inv_def)
next
  case (t_sleep s c i chan)
  then show ?case unfolding sleep_def by (auto intro: leave_pid_inv simp: run_inv_def)
next
  case (t_exit s c i status)
  obtain u where u: "quiet s u" "exit_end i status s = pupd i (\<lambda>p. p\<lparr>p_xstate := status, p_state := ZOMBIE\<rparr>) u"
    by (rule exit_end_shape)
  have "run_inv u" "cur u c = Some i" using t_exit quiet_run_inv [OF u(1)] quiet_cur [OF u(1)] by simp_all
  then have "p_state (procs u i) = RUNNING" by (simp add: run_inv_def)
  then show ?case unfolding u(2) by (intro leave_pid_inv quiet_pid_inv [OF u(1) t_exit(3)]) simp_all
next
  case (t_alloc s r s')
  from allocproc_table [OF t_alloc(1)] show ?case
  proof (elim conjE disjE exE, goal_cases)
    case 1
    show ?case by (rule pid_inv_cong [OF _ _ _ t_alloc(3)]) (simp_all add: 1)
  qed (blast intro: alloc_pid_inv [OF t_alloc(3)])+
qed (auto intro: quiet_pid_inv [OF quiet_pupd] quiet_pid_inv [OF quiet_wakeup] quiet_pid_inv [OF quiet_kill] free_pid_inv
  quiet_pid_inv [OF quiet_trans [OF quiet_pupd quiet_pupd]] simp: sleep_resume_def setkilled_def fork_end_def)

lemma table_invariant:
  assumes "treach s0 s" and "table_init s0"
  shows "run_inv s \<and> pid_inv s"
  using assms
proof (induction rule: treach.induct)
  case t_start
  then show ?case by (simp add: table_init_def run_inv_def pid_inv_def)
next
  case (t_more s t)
  then show ?case using run_inv_step pid_inv_step by blast
qed

section \<open>Properties\<close>

text \<open>
  C8: the process table is safe on any number of CPUs, in every interleaving of the critical sections: no process runs on two CPUs, a process is in
  state running exactly when it is the current process of some CPU, and processes that exist at the same time have different, positive pids.
\<close>

theorem process_table_safe:
  assumes "treach s0 s" and "table_init s0"
  shows "(cur s c = Some i \<and> cur s d = Some i \<longrightarrow> c = d) \<and>
    (p_state (procs s i) = RUNNING \<longleftrightarrow> (\<exists>c. cur s c = Some i)) \<and>
    (p_state (procs s i) \<noteq> UNUSED \<longrightarrow> 0 < p_pid (procs s i)) \<and>
    (p_state (procs s i) \<noteq> UNUSED \<and> i \<noteq> j \<longrightarrow> p_pid (procs s i) \<noteq> p_pid (procs s j))"
proof -
  have r: "run_inv s" and p: "pid_inv s" using table_invariant [OF assms] by auto
  show ?thesis using r p unfolding run_inv_def pid_inv_def by metis
qed

text \<open>A boot state in which slot 3 has a process ready to run and slot 5 one that sleeps.\<close>

definition two_procs :: kworld where
  "two_procs = boot_world\<lparr>nextpid := 9, procs := (\<lambda>_. idle_proc)(3 := idle_proc\<lparr>p_state := RUNNABLE, p_pid := 7\<rparr>,
     5 := idle_proc\<lparr>p_state := SLEEPING, p_pid := 8, p_chan := 0x80008f00\<rparr>)\<rparr>"

theorem process_table_safe_witness:
  "treach boot_world (snd (kill 0 boot_world)) \<and> table_init boot_world \<and>
   (p_state (procs (snd (kill 0 boot_world)) 4) = RUNNING \<longleftrightarrow> (\<exists>c. cur (snd (kill 0 boot_world)) c = Some 4))"
proof -
  have t: "treach boot_world (snd (kill 0 boot_world))" by (rule t_more [OF t_start t_kill])
  have i: "table_init boot_world" by (simp add: table_init_def)
  show ?thesis using process_table_safe [OF t i, where i = 4] t i by blast
qed

lemma visit_found: "set found \<subseteq> set (fst (sched_visit swtch c i (found, s)))"
  by (auto simp: sched_visit_def)

lemma visits_found: "set found \<subseteq> set (fst (fold (sched_visit swtch c) l (found, s)))"
proof (induction l arbitrary: found s)
  case (Cons i l)
  obtain f' s' where v: "sched_visit swtch c i (found, s) = (f', s')" by force
  then have "set found \<subseteq> set f'" using visit_found [of found swtch c i s] by simp
  then show ?case using Cons [of f' s'] by (simp add: v)
qed simp

lemma visits_runnable:
  assumes stays: "\<And>i t. i \<noteq> j \<Longrightarrow> p_state (procs t j) = RUNNABLE \<Longrightarrow> p_state (procs (swtch i t) j) = RUNNABLE"
    and "j \<in> set l" and "p_state (procs s j) = RUNNABLE"
  shows "j \<in> set (fst (fold (sched_visit swtch c) l (found, s)))"
  using assms(2,3)
proof (induction l arbitrary: found s)
  case (Cons i l)
  show ?case
  proof (cases "i = j")
    case True
    have v: "sched_visit swtch c i (found, s) = (found @ [j], undispatch c (swtch j (dispatch c j s)))"
      using True Cons.prems by (simp add: sched_visit_def)
    show ?thesis using visits_found [of "found @ [j]" swtch c l] by (simp add: v)
  next
    case False
    obtain f' s' where v: "sched_visit swtch c i (found, s) = (f', s')" by force
    have "p_state (procs (swtch i (dispatch c i s)) j) = RUNNABLE"
      by (rule stays [OF False]) (use False Cons.prems in \<open>simp add: dispatch_def\<close>)
    then have "p_state (procs s' j) = RUNNABLE"
      using v Cons.prems by (auto simp: sched_visit_def undispatch_def split: if_splits)
    then show ?thesis using Cons.IH [of s' f'] Cons.prems False by (simp add: v)
  qed
qed simp

lemma visits_sublist: "\<exists>l'. fst (fold (sched_visit swtch c) l (found, s)) = found @ l' \<and> set l' \<subseteq> set l \<and> (distinct l \<longrightarrow> distinct l')"
proof (induction l arbitrary: found s)
  case (Cons i l)
  obtain f' s' where v: "sched_visit swtch c i (found, s) = (f', s')" by force
  obtain l' where l': "fst (fold (sched_visit swtch c) l (f', s')) = f' @ l'" "set l' \<subseteq> set l" "distinct l \<longrightarrow> distinct l'"
    using Cons [of f' s'] by blast
  have "f' = found \<or> f' = found @ [i]" using v by (auto simp: sched_visit_def split: if_splits)
  then show ?case
  proof
    assume "f' = found"
    then show ?thesis using l' by (auto simp: v)
  next
    assume "f' = found @ [i]"
    then have "fst (fold (sched_visit swtch c) (i # l) (found, s)) = found @ (i # l')" using l' by (simp add: v)
    moreover have "distinct (i # l) \<longrightarrow> distinct (i # l')" using l' by auto
    ultimately show ?thesis using l'(2) by (metis insert_mono list.simps(15))
  qed
qed simp

text \<open>
  C38: the scheduler starves no process. Whatever the processes do while they run, as long as nobody else takes process \<open>j\<close> out of the state runnable,
  one pass of the scheduler's loop switches to it, and to every process at most once, so at most \<open>NPROC - 1\<close> others run before it.
\<close>

theorem scheduler_runs_every_runnable:
  assumes "\<And>i t. i \<noteq> j \<Longrightarrow> p_state (procs t j) = RUNNABLE \<Longrightarrow> p_state (procs (swtch i t) j) = RUNNABLE"
    and "j < NPROC" and "p_state (procs s j) = RUNNABLE"
  shows "j \<in> set (fst (scheduler_pass swtch c s)) \<and> distinct (fst (scheduler_pass swtch c s)) \<and>
    length (fst (scheduler_pass swtch c s)) \<le> NPROC"
proof -
  have j: "j \<in> set (fst (scheduler_pass swtch c s))"
    unfolding scheduler_pass_def by (rule visits_runnable [OF assms(1)]) (use assms(2,3) in \<open>simp_all del: upt_rec_numeral\<close>)
  obtain l' where l': "fst (scheduler_pass swtch c s) = l'" "set l' \<subseteq> set [0..<NPROC]" "distinct l'"
    using visits_sublist [of swtch c "[0..<NPROC]" "[]" s] unfolding scheduler_pass_def by auto
  have "length l' = card (set l')" using l'(3) by (simp add: distinct_card)
  also have "\<dots> \<le> card (set [0..<NPROC])" by (rule card_mono) (use l'(2) in auto)
  also have "\<dots> = NPROC" by (simp del: upt_rec_numeral)
  finally show ?thesis using j l' by simp
qed

theorem scheduler_runs_every_runnable_witness:
  "p_state (procs two_procs 3) = RUNNABLE \<and> 3 \<in> set (fst (scheduler_pass yield 0 two_procs))"
  using scheduler_runs_every_runnable [of 3 yield two_procs 0] by (simp add: yield_def two_procs_def)

text \<open>
  C39: \<open>kill(0)\<close> succeeds although no process has pid 0. Unused slots have it, so an unused slot is marked as killed; nothing clears the mark
  when the slot is taken, and the next process created there starts out killed.
\<close>

theorem kill_zero_hits_unused:
  assumes "pid_inv s" and "i < NPROC" and "p_state (procs s i) = UNUSED"
  shows "\<exists>s'. kill 0 s = (0, s') \<and> (case allocproc s' of Ok (Some j, t) \<Rightarrow> killed j t | _ \<Rightarrow> True)"
proof -
  have iff: "p_pid (procs s j) = 0 \<longleftrightarrow> p_state (procs s j) = UNUSED" for j
    using assms(1) unfolding pid_inv_def by (metis less_irrefl)
  obtain j where j: "List.find (\<lambda>i. p_pid (procs s i) = 0) [0..<NPROC] = Some j"
    using assms(2,3) iff by (cases "List.find (\<lambda>i. p_pid (procs s i) = 0) [0..<NPROC]") (auto simp: find_None_iff simp del: upt_rec_numeral)
  note fj = find_first [OF j]
  define s' where "s' = pupd j (\<lambda>p. p\<lparr>p_killed := True, p_state := (if p_state p = SLEEPING then RUNNABLE else p_state p)\<rparr>) s"
  have st: "p_state (procs s' k) = p_state (procs s k)" for k using fj(2) iff [of j] by (auto simp: s'_def)
  have "killed r t" if a: "allocproc s' = Ok (Some r, t)" for r t
  proof -
    obtain k q where k: "p_state (procs s' k) = UNUSED" "\<forall>l<k. p_state (procs s' l) \<noteq> UNUSED"
      "procs t = (procs s')(k := q)" "r = k" "p_killed q = p_killed (procs s' k)"
      using allocproc_table [OF a] by auto
    have "k = j" using k(1,2) fj iff st by (metis linorder_neqE_nat)
    then show ?thesis using k by (simp add: killed_def s'_def)
  qed
  then have "case allocproc s' of Ok (Some j, t) \<Rightarrow> killed j t | _ \<Rightarrow> True" by (auto split: res.splits option.splits)
  moreover have "kill 0 s = (0, s')" unfolding kill_def j option.case s'_def ..
  ultimately show ?thesis by blast
qed

theorem kill_zero_hits_unused_witness:
  "pid_inv boot_world \<and> (\<exists>s'. kill 0 boot_world = (0, s') \<and> (case allocproc s' of Ok (Some j, t) \<Rightarrow> killed j t | _ \<Rightarrow> True))"
proof -
  have p: "pid_inv boot_world" by (simp add: pid_inv_def)
  show ?thesis using kill_zero_hits_unused [OF p, of 2] p by simp
qed

end
