(* ===== verification/Xv6_Vmprint.thy ===== *)
theory Xv6_Vmprint
  imports Xv6_Vm Xv6_Printf
begin

text \<open>
  The page-table printer of \<^verbatim>\<open>kernel/vm.c\<close>. It recurses through every valid entry without permission bits, whatever the level;
  \<open>depth\<close> is the number of calls the kernel stack has room for.
\<close>

definition vmprint_line :: "nat \<Rightarrow> nat \<Rightarrow> u64 \<Rightarrow> string res" where
  "vmprint_line level i pte =
     rbind (printf_loop (''%d: -> pte %p pa %p'' @ [CHR 0x0A]) [VNum (of_nat i), VNum pte, VNum (PTE2PA pte)]) (\<lambda>l.
       Ok (concat (replicate level '' ..'') @ l))"

primrec vmprint_helper :: "nat \<Rightarrow> mem \<Rightarrow> u64 \<Rightarrow> nat \<Rightarrow> string res" where
  "vmprint_helper 0 m pagetable level = Fail (Fault ''kernel stack'')"
| "vmprint_helper (Suc depth) m pagetable level =
     (if pagetable = 0 then Ok []
      else rfold (\<lambda>i out.
        let pte = load64 m (slot pagetable i) in
        if pte AND PTE_V \<noteq> 0 then
          rbind (vmprint_line level i pte) (\<lambda>l.
            if pte AND (PTE_R OR PTE_W OR PTE_X) = 0 then
              rbind (vmprint_helper depth m (PTE2PA pte) (level + 1)) (\<lambda>sub. Ok (out @ l @ sub))
            else Ok (out @ l))
        else Ok out) [0..<512] [])"

definition vmprint :: "nat \<Rightarrow> mem \<Rightarrow> u64 \<Rightarrow> string res" where
  "vmprint depth m pagetable =
     rbind (printf_loop (''page table %p'' @ [CHR 0x0A]) [VNum pagetable]) (\<lambda>l.
     rbind (vmprint_helper depth m pagetable 1) (\<lambda>t. Ok (l @ t)))"

end
