(* ===== verification/Xv6_Sysproc.thy ===== *)
theory Xv6_Sysproc
  imports Xv6_Proc Xv6_Vmprint
begin

text \<open>
  Fetching system-call arguments (first half of \<^verbatim>\<open>kernel/syscall.c\<close>) and the calls of \<^verbatim>\<open>kernel/sysproc.c\<close>. The arguments are the
  saved user registers in the trap frame. \<open>lcl\<close> has the addresses of the locals that the kernel's functions pass by reference. A system
  call gives the value for \<open>a0\<close>, or waits (after it has put the process to sleep), or does not return.
\<close>

record locals =
  l_ch :: u64
  l_path :: u64
  l_path2 :: u64
  l_uarg :: u64
  l_stat :: u64
  l_mask :: u64
  l_fd0 :: u64
  l_fd1 :: u64
  l_elf :: u64
  l_ph :: u64
  l_ustack :: u64
  l_depth :: nat

datatype sysval = SysRet u64 | SysWait | SysGone

definition sys_int :: "int \<Rightarrow> sysval" where
  "sys_int r = SysRet (of_int r)"

section \<open>Arguments\<close>

definition fetchaddr :: "nat \<Rightarrow> u64 \<Rightarrow> u64 \<Rightarrow> 'a kworld_scheme \<Rightarrow> (int \<times> 'a kworld_scheme) res" where
  "fetchaddr me addr ip s =
     (let p = procs s me in
      if addr \<ge> p_sz p \<or> addr + 8 > p_sz p then Ok (-1, s)
      else rbind (copyin (km s) (p_pagetable p) ip addr 8) (\<lambda>(r, k).
        Ok (if r \<noteq> 0 then -1 else 0, s\<lparr>km := k\<rparr>)))"

definition fetchstr :: "nat \<Rightarrow> u64 \<Rightarrow> u64 \<Rightarrow> u64 \<Rightarrow> 'a kworld_scheme \<Rightarrow> (int \<times> 'a kworld_scheme) res" where
  "fetchstr me addr buf mx s =
     rbind (copyinstr (km s) (p_pagetable (procs s me)) buf addr mx) (\<lambda>(r, k).
       let s = s\<lparr>km := k\<rparr> in
       if r < 0 then Ok (-1, s)
       else case strlen (k_mem k) buf of None \<Rightarrow> Fail (Fault ''strlen'') | Some n \<Rightarrow> Ok (int n, s))"

definition argraw :: "nat \<Rightarrow> nat \<Rightarrow> 'a kworld_scheme \<Rightarrow> u64 res" where
  "argraw me n s =
     (if n < 6 then Ok (load64 (k_mem (km s)) (p_trapframe (procs s me) + TF_a0 + 8 * of_nat n))
      else Fail (Panic ''argraw''))"

text \<open>An \<^verbatim>\<open>int\<close> argument is the low half of the register.\<close>

definition argint :: "nat \<Rightarrow> nat \<Rightarrow> 'a kworld_scheme \<Rightarrow> int res" where
  "argint me n s = rbind (argraw me n s) (\<lambda>x. Ok (sint (ucast x :: u32)))"

definition argaddr :: "nat \<Rightarrow> nat \<Rightarrow> 'a kworld_scheme \<Rightarrow> u64 res" where
  "argaddr me n s = argraw me n s"

definition argstr :: "nat \<Rightarrow> nat \<Rightarrow> u64 \<Rightarrow> u64 \<Rightarrow> 'a kworld_scheme \<Rightarrow> (int \<times> 'a kworld_scheme) res" where
  "argstr me n buf mx s = rbind (argaddr me n s) (\<lambda>addr. fetchstr me addr buf mx s)"

section \<open>Process calls\<close>

definition sys_exit :: "nat \<Rightarrow> 'a kworld_scheme \<Rightarrow> (sysval \<times> 'a kworld_scheme) res" where
  "sys_exit me s = rbind (argint me 0 s) (\<lambda>n. rbind (exit me n s) (\<lambda>s. Ok (SysGone, s)))"

definition sys_getpid :: "nat \<Rightarrow> 'a kworld_scheme \<Rightarrow> (sysval \<times> 'a kworld_scheme) res" where
  "sys_getpid me s = Ok (sys_int (p_pid (procs s me)), s)"

definition sys_fork :: "nat \<Rightarrow> 'a kworld_scheme \<Rightarrow> (sysval \<times> 'a kworld_scheme) res" where
  "sys_fork me s = rbind (fork me s) (\<lambda>(r, s). Ok (sys_int r, s))"

definition sys_wait :: "nat \<Rightarrow> 'a kworld_scheme \<Rightarrow> (sysval \<times> 'a kworld_scheme) res" where
  "sys_wait me s =
     rbind (argaddr me 0 s) (\<lambda>p. rbind (wait me p s) (\<lambda>(r, s).
       Ok (case r of Returns n \<Rightarrow> sys_int n | Waits _ \<Rightarrow> SysWait, s)))"

definition sys_sbrk :: "nat \<Rightarrow> 'a kworld_scheme \<Rightarrow> (sysval \<times> 'a kworld_scheme) res" where
  "sys_sbrk me s =
     rbind (argint me 0 s) (\<lambda>n.
       let addr = p_sz (procs s me) in
       rbind (growproc me n s) (\<lambda>(r, s). Ok (if r < 0 then sys_int (-1) else SysRet addr, s)))"

text \<open>One turn of the loop of \<open>sys_sleep\<close>; the comparison of \<^verbatim>\<open>uint\<close> with \<^verbatim>\<open>int\<close> is unsigned.\<close>

definition sleep_turn :: "nat \<Rightarrow> int \<Rightarrow> u32 \<Rightarrow> 'a kworld_scheme \<Rightarrow> (sysval \<times> 'a kworld_scheme) res" where
  "sleep_turn me n ticks0 s =
     (if ticks s - ticks0 < of_int n then
        if killed me s then Ok (sys_int (-1), s)
        else Ok (SysWait, sleep me (ticks_addr s) s)
      else Ok (sys_int 0, s))"

definition sys_sleep :: "nat \<Rightarrow> 'a kworld_scheme \<Rightarrow> (sysval \<times> 'a kworld_scheme) res" where
  "sys_sleep me s = rbind (argint me 0 s) (\<lambda>n. sleep_turn me (if n < 0 then 0 else n) (ticks s) s)"

definition sys_kill :: "nat \<Rightarrow> 'a kworld_scheme \<Rightarrow> (sysval \<times> 'a kworld_scheme) res" where
  "sys_kill me s = rbind (argint me 0 s) (\<lambda>pid. case kill pid s of (r, s) \<Rightarrow> Ok (sys_int r, s))"

definition sys_uptime :: "nat \<Rightarrow> 'a kworld_scheme \<Rightarrow> (sysval \<times> 'a kworld_scheme) res" where
  "sys_uptime me s = Ok (SysRet (ucast (ticks s)), s)"

section \<open>Page-table calls\<close>

text \<open>\<open>sys_pgpte\<close> returns \<^verbatim>\<open>int\<close>: the low half of the entry, sign-extended in the register.\<close>

definition sys_pgpte :: "nat \<Rightarrow> 'a kworld_scheme \<Rightarrow> (sysval \<times> 'a kworld_scheme) res" where
  "sys_pgpte me s =
     rbind (argaddr me 0 s) (\<lambda>va.
     rbind (pgpte (km s) (p_pagetable (procs s me)) va) (\<lambda>pte.
       Ok (if pte \<noteq> 0 then sys_int (sint (ucast (load64 (k_mem (km s)) pte) :: u32)) else sys_int 0, s)))"

definition sys_kpgtbl :: "locals \<Rightarrow> nat \<Rightarrow> 'a kworld_scheme \<Rightarrow> (sysval \<times> 'a kworld_scheme) res" where
  "sys_kpgtbl lcl me s =
     rbind (vmprint (l_depth lcl) (k_mem (km s)) (p_pagetable (procs s me))) (\<lambda>out.
       Ok (sys_int 0, s\<lparr>msgs := msgs s @ out\<rparr>))"

definition sys_vmprint :: "locals \<Rightarrow> nat \<Rightarrow> 'a kworld_scheme \<Rightarrow> (sysval \<times> 'a kworld_scheme) res" where
  "sys_vmprint lcl me s =
     rbind (argaddr me 0 s) (\<lambda>pgtbl_addr.
     rbind (vmprint (l_depth lcl) (k_mem (km s)) pgtbl_addr) (\<lambda>out.
       Ok (sys_int 0, s\<lparr>msgs := msgs s @ out\<rparr>)))"

text \<open>
  The loop of \<open>sys_pgaccess\<close>. The counter \<open>i\<close> is an \<^verbatim>\<open>int\<close> while \<open>numpages\<close> is any 64-bit value: \<^verbatim>\<open>i * PGSIZE\<close> overflows from \<open>2 ^ 19\<close> on,
  and the shift by \<open>i\<close> is undefined from 64 on.
\<close>

function pgaccess_loop :: "u64 \<Rightarrow> u64 \<Rightarrow> nat \<Rightarrow> nat \<Rightarrow> u64 \<Rightarrow> kmem \<Rightarrow> (u64 \<times> kmem) res" where
  "pgaccess_loop pagetable start_va numpages i amask k =
     (if i < numpages then
        if i \<ge> 2 ^ 19 then Fail (Fault ''i * PGSIZE'')
        else rbind (walk k pagetable (start_va + of_nat i * PGSIZE) False) (\<lambda>(pte, k).
          if pte = 0 then pgaccess_loop pagetable start_va numpages (i + 1) amask k
          else if load64 (k_mem k) pte AND PTE_A \<noteq> 0 then
            if i \<ge> 64 then Fail (Fault ''1ULL << i'')
            else pgaccess_loop pagetable start_va numpages (i + 1) (amask OR push_bit i 1)
              (k\<lparr>k_mem := store64 (k_mem k) pte (load64 (k_mem k) pte AND NOT PTE_A)\<rparr>)
          else pgaccess_loop pagetable start_va numpages (i + 1) amask k)
      else Ok (amask, k))"
  by pat_completeness auto
termination
  by (relation "measure (\<lambda>(pt, va, n, i, amask, k). n - i)") auto

declare pgaccess_loop.simps [simp del]

text \<open>The test whether an unsigned argument is negative is never true.\<close>

definition sys_pgaccess :: "locals \<Rightarrow> nat \<Rightarrow> 'a kworld_scheme \<Rightarrow> (sysval \<times> 'a kworld_scheme) res" where
  "sys_pgaccess lcl me s =
     rbind (argaddr me 0 s) (\<lambda>start_va.
     rbind (argaddr me 1 s) (\<lambda>numpages.
     rbind (argaddr me 2 s) (\<lambda>mask_user.
       let pt = p_pagetable (procs s me) in
       rbind (pgaccess_loop pt start_va (unat numpages) 0 0 (km s)) (\<lambda>(amask, k).
       rbind (copyout (k\<lparr>k_mem := store64 (k_mem k) (l_mask lcl) amask\<rparr>) pt mask_user (l_mask lcl) 8) (\<lambda>(r, k).
         Ok (if r < 0 then sys_int (-1) else sys_int 0, s\<lparr>km := k\<rparr>))))))"

end
