(* ===== verification/Xv6_Exec.thy ===== *)
theory Xv6_Exec
  imports Xv6_Sysproc
begin

text \<open>
  Loading a program: \<^verbatim>\<open>kernel/exec.c\<close> with the structures of \<^verbatim>\<open>kernel/elf.h\<close>. The headers are read into locals and their fields taken
  from the bytes. \<open>argv\<close> is the list of the kernel pages with the argument strings, without the terminating null pointer.
\<close>

section \<open>ELF\<close>

definition ELF_MAGIC :: u32 where [simp]: "ELF_MAGIC = 0x464C457F"
definition ELF_PROG_LOAD :: u32 where [simp]: "ELF_PROG_LOAD = 1"
definition ELFHDR_SIZE :: nat where [simp]: "ELFHDR_SIZE = 64"
definition PROGHDR_SIZE :: nat where [simp]: "PROGHDR_SIZE = 56"
definition USERSTACK :: u64 where [simp]: "USERSTACK = 1"

definition load32 :: "mem \<Rightarrow> u64 \<Rightarrow> u32" where
  "load32 m a = le_word (\<lambda>i. m (a + of_nat i)) 4"

definition load16 :: "mem \<Rightarrow> u64 \<Rightarrow> u16" where
  "load16 m a = le_word (\<lambda>i. m (a + of_nat i)) 2"

record elfhdr =
  e_magic :: u32
  e_entry :: u64
  e_phoff :: u64
  e_phnum :: u16

definition get_elfhdr :: "mem \<Rightarrow> u64 \<Rightarrow> elfhdr" where
  "get_elfhdr m a = \<lparr>e_magic = load32 m a, e_entry = load64 m (a + 24), e_phoff = load64 m (a + 32), e_phnum = load16 m (a + 56)\<rparr>"

record proghdr =
  ph_type :: u32
  ph_flags :: u32
  ph_off :: u64
  ph_vaddr :: u64
  ph_filesz :: u64
  ph_memsz :: u64

definition get_proghdr :: "mem \<Rightarrow> u64 \<Rightarrow> proghdr" where
  "get_proghdr m a = \<lparr>ph_type = load32 m a, ph_flags = load32 m (a + 4), ph_off = load64 m (a + 8), ph_vaddr = load64 m (a + 16),
     ph_filesz = load64 m (a + 32), ph_memsz = load64 m (a + 40)\<rparr>"

definition flags2perm :: "u32 \<Rightarrow> u32" where
  "flags2perm flags =
     (let perm = (if flags AND 1 \<noteq> 0 then ucast PTE_X else 0) in
      if flags AND 2 \<noteq> 0 then perm OR ucast PTE_W else perm)"

section \<open>Segments\<close>

text \<open>\<open>i\<close> is a \<^verbatim>\<open>uint\<close>; it cannot wrap before it reaches \<open>sz\<close> unless \<open>sz\<close> is within a page of \<open>2 ^ 32\<close>, then the loop starts over.\<close>

function loadseg_loop :: "int \<Rightarrow> u64 \<Rightarrow> u64 \<Rightarrow> nat \<Rightarrow> u32 \<Rightarrow> nat \<Rightarrow> nat \<Rightarrow> 'a kworld_scheme \<Rightarrow> (int \<times> 'a kworld_scheme) res" where
  "loadseg_loop pid pagetable va ip offset sz i s =
     (if i < sz then
        rbind (walkaddr (km s) pagetable (va + of_nat i)) (\<lambda>pa.
          if pa = 0 then Fail (Panic ''loadseg: address should exist'')
          else let n = (if sz - i < 4096 then sz - i else 4096) in
            rbind (readi pid pagetable ip False pa (offset + of_nat i) (of_nat n) s) (\<lambda>(r, s).
              if r \<noteq> int n then Ok (-1, s)
              else if i + 4096 \<ge> 2 ^ 32 then Fail (Blocked ''loadseg: starts over'')
              else loadseg_loop pid pagetable va ip offset sz (i + 4096) s))
      else Ok (0, s))"
  by pat_completeness auto
termination
  by (relation "measure (\<lambda>(pid, pt, va, ip, offset, sz, i, s). sz - i)") auto

declare loadseg_loop.simps [simp del]

definition loadseg :: "int \<Rightarrow> u64 \<Rightarrow> u64 \<Rightarrow> nat \<Rightarrow> u32 \<Rightarrow> u32 \<Rightarrow> 'a kworld_scheme \<Rightarrow> (int \<times> 'a kworld_scheme) res" where
  "loadseg pid pagetable va ip offset sz s = loadseg_loop pid pagetable va ip offset (unat sz) 0 s"

text \<open>The checks on a program header, and growing the image for it: the new size, or 0 for \<^verbatim>\<open>goto bad\<close>.\<close>

definition ph_bad :: "proghdr \<Rightarrow> bool" where
  "ph_bad ph \<longleftrightarrow> ph_memsz ph < ph_filesz ph \<or> ph_vaddr ph + ph_memsz ph < ph_vaddr ph \<or> ph_vaddr ph mod PGSIZE \<noteq> 0"

text \<open>The loop over the program headers: whether it got to the end, and the size of the image so far.\<close>

function exec_load ::
  "locals \<Rightarrow> int \<Rightarrow> u64 \<Rightarrow> nat \<Rightarrow> nat \<Rightarrow> nat \<Rightarrow> u32 \<Rightarrow> u64 \<Rightarrow> 'a kworld_scheme \<Rightarrow> ((bool \<times> u64) \<times> 'a kworld_scheme) res" where
  "exec_load lcl pid pagetable ip phnum i off sz s =
     (if i < phnum then
        rbind (readi pid pagetable ip False (l_ph lcl) off (of_nat PROGHDR_SIZE) s) (\<lambda>(r, s).
          if r \<noteq> int PROGHDR_SIZE then Ok ((False, sz), s)
          else let ph = get_proghdr (k_mem (km s)) (l_ph lcl); next_off = off + of_nat PROGHDR_SIZE in
            if ph_type ph \<noteq> ELF_PROG_LOAD then exec_load lcl pid pagetable ip phnum (i + 1) next_off sz s
            else if ph_bad ph then Ok ((False, sz), s)
            else rbind (uvmalloc (km s) pagetable sz (ph_vaddr ph + ph_memsz ph) (flags2perm (ph_flags ph))) (\<lambda>(sz1, k).
              if sz1 = 0 then Ok ((False, sz), s\<lparr>km := k\<rparr>)
              else rbind (loadseg pid pagetable (ph_vaddr ph) ip (ucast (ph_off ph)) (ucast (ph_filesz ph)) (s\<lparr>km := k\<rparr>)) (\<lambda>(r, s).
                if r < 0 then Ok ((False, sz1), s)
                else exec_load lcl pid pagetable ip phnum (i + 1) next_off sz1 s)))
      else Ok ((True, sz), s))"
  by pat_completeness auto
termination
  by (relation "measure (\<lambda>(lcl, pid, pt, ip, phnum, i, off, sz, s). phnum - i)") auto

declare exec_load.simps [simp del]

section \<open>Arguments\<close>

text \<open>The argument strings go to the new stack: the stack pointer and the pointers for \<^verbatim>\<open>ustack\<close>, or nothing for \<^verbatim>\<open>goto bad\<close>.\<close>

primrec exec_push ::
  "u64 \<Rightarrow> u64 \<Rightarrow> u64 list \<Rightarrow> u64 \<Rightarrow> u64 list \<Rightarrow> kmem \<Rightarrow> ((u64 \<times> u64 list) option \<times> kmem) res" where
  "exec_push pagetable stackbase [] sp ustack k = Ok (Some (sp, ustack), k)"
| "exec_push pagetable stackbase (a # argv) sp ustack k =
     (if length ustack \<ge> MAXARG then Ok (None, k)
      else case strlen (k_mem k) a of
        None \<Rightarrow> Fail (Fault ''strlen'')
      | Some n \<Rightarrow>
          let sp = sp - (of_nat n + 1); sp = sp - sp mod 16 in
          if sp < stackbase then Ok (None, k)
          else rbind (copyout k pagetable sp a (of_nat n + 1)) (\<lambda>(r, k).
            if r < 0 then Ok (None, k) else exec_push pagetable stackbase argv sp (ustack @ [sp]) k))"

definition put_ustack :: "u64 list \<Rightarrow> u64 \<Rightarrow> mem \<Rightarrow> mem" where
  "put_ustack ustack a m = fold (\<lambda>i m. store64 m (a + 8 * of_nat i) ((ustack @ [0]) ! i)) [0..<length ustack + 1] m"

text \<open>The new stack pointer and the count of arguments. \<^verbatim>\<open>ustack\<close> has room for \<open>MAXARG\<close> entries, the null pointer included.\<close>

definition exec_args ::
  "locals \<Rightarrow> u64 \<Rightarrow> u64 \<Rightarrow> u64 \<Rightarrow> u64 list \<Rightarrow> kmem \<Rightarrow> ((u64 \<times> nat) option \<times> kmem) res" where
  "exec_args lcl pagetable sp stackbase argv k =
     rbind (exec_push pagetable stackbase argv sp [] k) (\<lambda>(r, k). case r of
       None \<Rightarrow> Ok (None, k)
     | Some (sp, ustack) \<Rightarrow>
         if length ustack \<ge> MAXARG then Fail (Fault ''ustack'')
         else let argc = length ustack; sp = sp - of_nat (argc + 1) * 8; sp = sp - sp mod 16 in
           if sp < stackbase then Ok (None, k)
           else rbind (copyout (k\<lparr>k_mem := put_ustack ustack (l_ustack lcl) (k_mem k)\<rparr>) pagetable sp (l_ustack lcl) (of_nat (argc + 1) * 8))
             (\<lambda>(r, k). Ok (if r < 0 then None else Some (sp, argc), k)))"

text \<open>The part of the path after its last slash, cut to the 15 bytes that fit \<^verbatim>\<open>p->name\<close>.\<close>

definition last_elem :: "u8 list \<Rightarrow> u8 list" where
  "last_elem path = rev (takeWhile (\<lambda>c. c \<noteq> SLASH) (rev path))"

section \<open>exec\<close>

text \<open>\<open>namei\<close> and \<open>nameiparent\<close> for the process: only a relative path uses the current directory.\<close>

definition with_cwd :: "nat \<Rightarrow> u8 list \<Rightarrow> 'a kworld_scheme \<Rightarrow> nat res" where
  "with_cwd me path s =
     (case p_cwd (procs s me) of
        Some c \<Rightarrow> Ok c
      | None \<Rightarrow> if path \<noteq> [] \<and> hd path = SLASH then Ok 0 else Fail (Fault ''cwd''))"

definition p_namei :: "nat \<Rightarrow> u8 list \<Rightarrow> 'a kworld_scheme \<Rightarrow> (nat option \<times> 'a kworld_scheme) res" where
  "p_namei me path s =
     rbind (with_cwd me path s) (\<lambda>c. namei (p_pid (procs s me)) (p_pagetable (procs s me)) c path s)"

definition p_nameiparent :: "nat \<Rightarrow> u8 list \<Rightarrow> 'a kworld_scheme \<Rightarrow> ((nat option \<times> u8 list) \<times> 'a kworld_scheme) res" where
  "p_nameiparent me path s =
     rbind (with_cwd me path s) (\<lambda>c. nameiparent (p_pid (procs s me)) (p_pagetable (procs s me)) c path s)"

text \<open>The label \<^verbatim>\<open>bad\<close>.\<close>

definition exec_bad :: "int \<Rightarrow> u64 \<Rightarrow> u64 \<Rightarrow> nat option \<Rightarrow> 'a kworld_scheme \<Rightarrow> (int \<times> 'a kworld_scheme) res" where
  "exec_bad pid pagetable sz ip s =
     rbind (if pagetable \<noteq> 0 then rbind (proc_freepagetable pagetable sz (km s)) (\<lambda>k. Ok (s\<lparr>km := k\<rparr>)) else Ok s) (\<lambda>s.
     rbind (case ip of None \<Rightarrow> Ok s | Some ip \<Rightarrow> rbind (iunlockput pid ip s) (end_op pid)) (\<lambda>s. Ok (-1, s)))"

text \<open>From the last check to the return: commit to the new image, free the old one, print the new page table.\<close>

definition exec_commit ::
  "locals \<Rightarrow> nat \<Rightarrow> u8 list \<Rightarrow> u64 \<Rightarrow> u64 \<Rightarrow> u64 \<Rightarrow> u64 \<Rightarrow> nat \<Rightarrow> u64 \<Rightarrow> 'a kworld_scheme \<Rightarrow> (int \<times> 'a kworld_scheme) res" where
  "exec_commit lcl me path pagetable sz entry sp argc oldsz s =
     (let tf = p_trapframe (procs s me); oldpagetable = p_pagetable (procs s me);
          m = store64 (store64 (store64 (k_mem (km s)) (tf + TF_a1) sp) (tf + TF_epc) entry) (tf + TF_sp) sp;
          s = pupd me (\<lambda>p. p\<lparr>p_name := take 15 (last_elem path), p_pagetable := pagetable, p_sz := sz\<rparr>) (s\<lparr>km := (km s)\<lparr>k_mem := m\<rparr>\<rparr>)
      in rbind (proc_freepagetable oldpagetable oldsz (km s)) (\<lambda>k.
         rbind (vmprint (l_depth lcl) (k_mem k) pagetable) (\<lambda>out.
           Ok (int argc, s\<lparr>km := k, msgs := msgs s @ out\<rparr>))))"

text \<open>The stack, the arguments and the commit, after the file has been closed.\<close>

definition exec_stack ::
  "locals \<Rightarrow> nat \<Rightarrow> u8 list \<Rightarrow> u64 list \<Rightarrow> u64 \<Rightarrow> u64 \<Rightarrow> u64 \<Rightarrow> 'a kworld_scheme \<Rightarrow> (int \<times> 'a kworld_scheme) res" where
  "exec_stack lcl me path argv pagetable sz0 entry s =
     (let pid = p_pid (procs s me); oldsz = p_sz (procs s me); sz = PGROUNDUP sz0 in
      rbind (uvmalloc (km s) pagetable sz (sz + (USERSTACK + 1) * PGSIZE) (ucast PTE_W)) (\<lambda>(sz1, k).
        if sz1 = 0 then exec_bad pid pagetable sz None (s\<lparr>km := k\<rparr>)
        else rbind (uvmclear k pagetable (sz1 - (USERSTACK + 1) * PGSIZE)) (\<lambda>k.
          rbind (exec_args lcl pagetable sz1 (sz1 - USERSTACK * PGSIZE) argv k) (\<lambda>(r, k). case r of
            None \<Rightarrow> exec_bad pid pagetable sz1 None (s\<lparr>km := k\<rparr>)
          | Some (sp, argc) \<Rightarrow> exec_commit lcl me path pagetable sz1 entry sp argc oldsz (s\<lparr>km := k\<rparr>)))))"

definition exec :: "locals \<Rightarrow> nat \<Rightarrow> u8 list \<Rightarrow> u64 list \<Rightarrow> 'a kworld_scheme \<Rightarrow> (int \<times> 'a kworld_scheme) res" where
  "exec lcl me path argv s =
     (let pid = p_pid (procs s me); upt = p_pagetable (procs s me) in
      rbind (begin_op s) (\<lambda>s.
      rbind (p_namei me path s) (\<lambda>(r, s). case r of
        None \<Rightarrow> rbind (end_op pid s) (\<lambda>s. Ok (-1, s))
      | Some ip \<Rightarrow>
          rbind (ilock pid ip s) (\<lambda>s.
          rbind (readi pid upt ip False (l_elf lcl) 0 (of_nat ELFHDR_SIZE) s) (\<lambda>(r, s).
            let elf = get_elfhdr (k_mem (km s)) (l_elf lcl) in
            if r \<noteq> int ELFHDR_SIZE \<or> e_magic elf \<noteq> ELF_MAGIC then exec_bad pid 0 0 (Some ip) s
            else rbind (proc_pagetable (trampoline s) (p_trapframe (procs s me)) (km s)) (\<lambda>(pagetable, k).
              if pagetable = 0 then exec_bad pid 0 0 (Some ip) (s\<lparr>km := k\<rparr>)
              else rbind (exec_load lcl pid pagetable ip (unat (e_phnum elf)) 0 (ucast (e_phoff elf)) 0 (s\<lparr>km := k\<rparr>)) (\<lambda>((ok, sz), s).
                if \<not> ok then exec_bad pid pagetable sz (Some ip) s
                else rbind (iunlockput pid ip s) (\<lambda>s.
                  rbind (end_op pid s) (\<lambda>s. exec_stack lcl me path argv pagetable sz (e_entry elf) s)))))))))"

end
