(* ===== verification/Xv6_Sysfile.thy ===== *)
theory Xv6_Sysfile
  imports Xv6_Exec
begin

text \<open>
  The file-system calls: \<^verbatim>\<open>kernel/sysfile.c\<close>. A path is fetched into the local buffer and then read from there as the bytes before the NUL.
\<close>

definition O_RDONLY :: int where [simp]: "O_RDONLY = 0"
definition O_WRONLY :: int where [simp]: "O_WRONLY = 1"
definition O_RDWR :: int where [simp]: "O_RDWR = 2"
definition O_CREATE :: int where [simp]: "O_CREATE = 0x200"
definition O_TRUNC :: int where [simp]: "O_TRUNC = 0x400"

abbreviation minus_one :: sysval where
  "minus_one \<equiv> sys_int (-1)"

section \<open>Descriptors\<close>

definition argfd :: "nat \<Rightarrow> nat \<Rightarrow> 'a kworld_scheme \<Rightarrow> (nat \<times> nat) option res" where
  "argfd me n s =
     rbind (argint me n s) (\<lambda>fd.
       if fd < 0 \<or> fd \<ge> int NOFILE then Ok None
       else case p_ofile (procs s me) ! nat fd of None \<Rightarrow> Ok None | Some f \<Rightarrow> Ok (Some (nat fd, f)))"

definition set_ofile :: "nat \<Rightarrow> nat \<Rightarrow> nat option \<Rightarrow> 'a kworld_scheme \<Rightarrow> 'a kworld_scheme" where
  "set_ofile me fd f s = pupd me (p_ofile_update (\<lambda>l. l[fd := f])) s"

definition fdalloc :: "nat \<Rightarrow> nat \<Rightarrow> 'a kworld_scheme \<Rightarrow> nat option \<times> 'a kworld_scheme" where
  "fdalloc me f s =
     (case List.find (\<lambda>fd. p_ofile (procs s me) ! fd = None) [0..<NOFILE] of
        Some fd \<Rightarrow> (Some fd, set_ofile me fd (Some f) s)
      | None \<Rightarrow> (None, s))"

definition sys_dup :: "nat \<Rightarrow> 'a kworld_scheme \<Rightarrow> (sysval \<times> 'a kworld_scheme) res" where
  "sys_dup me s =
     rbind (argfd me 0 s) (\<lambda>r. case r of
       None \<Rightarrow> Ok (minus_one, s)
     | Some (_, f) \<Rightarrow>
         (case fdalloc me f s of
            (None, s) \<Rightarrow> Ok (minus_one, s)
          | (Some fd, s) \<Rightarrow> rbind (filedup f s) (\<lambda>s. Ok (sys_int (int fd), s))))"

definition of_fresult :: "fresult \<Rightarrow> sysval" where
  "of_fresult r = (case r of Done n \<Rightarrow> sys_int n | Waiting _ \<Rightarrow> SysWait)"

definition sys_read :: "locals \<Rightarrow> nat \<Rightarrow> 'a kworld_scheme \<Rightarrow> (sysval \<times> 'a kworld_scheme) res" where
  "sys_read lcl me s =
     rbind (argaddr me 1 s) (\<lambda>p. rbind (argint me 2 s) (\<lambda>n. rbind (argfd me 0 s) (\<lambda>r. case r of
       None \<Rightarrow> Ok (minus_one, s)
     | Some (_, f) \<Rightarrow>
         rbind (fileread (p_pid (procs s me)) (p_pagetable (procs s me)) (l_ch lcl) (killed me s) f p n s) (\<lambda>(r, s).
           Ok (of_fresult r, s)))))"

definition sys_write :: "chip \<Rightarrow> locals \<Rightarrow> nat \<Rightarrow> 'a kworld_scheme \<Rightarrow> (sysval \<times> 'a kworld_scheme) res" where
  "sys_write chip lcl me s =
     rbind (argaddr me 1 s) (\<lambda>p. rbind (argint me 2 s) (\<lambda>n. rbind (argfd me 0 s) (\<lambda>r. case r of
       None \<Rightarrow> Ok (minus_one, s)
     | Some (_, f) \<Rightarrow>
         rbind (filewrite chip (p_pid (procs s me)) (p_pagetable (procs s me)) (l_ch lcl) (killed me s) f p n s) (\<lambda>(r, s).
           Ok (of_fresult r, s)))))"

definition sys_close :: "nat \<Rightarrow> 'a kworld_scheme \<Rightarrow> (sysval \<times> 'a kworld_scheme) res" where
  "sys_close me s =
     rbind (argfd me 0 s) (\<lambda>r. case r of
       None \<Rightarrow> Ok (minus_one, s)
     | Some (fd, f) \<Rightarrow>
         rbind (fileclose (p_pid (procs s me)) f (set_ofile me fd None s)) (\<lambda>s. Ok (sys_int 0, s)))"

definition sys_fstat :: "locals \<Rightarrow> nat \<Rightarrow> 'a kworld_scheme \<Rightarrow> (sysval \<times> 'a kworld_scheme) res" where
  "sys_fstat lcl me s =
     rbind (argaddr me 1 s) (\<lambda>st. rbind (argfd me 0 s) (\<lambda>r. case r of
       None \<Rightarrow> Ok (minus_one, s)
     | Some (_, f) \<Rightarrow>
         rbind (filestat (p_pid (procs s me)) (p_pagetable (procs s me)) (l_stat lcl) f st s) (\<lambda>(r, s). Ok (sys_int r, s))))"

section \<open>Links\<close>

text \<open>A path argument: the string at \<open>buf\<close>, or nothing when it cannot be fetched.\<close>

definition argpath :: "nat \<Rightarrow> nat \<Rightarrow> u64 \<Rightarrow> 'a kworld_scheme \<Rightarrow> (u8 list option \<times> 'a kworld_scheme) res" where
  "argpath me n buf s =
     rbind (argstr me n buf (of_nat MAXPATH) s) (\<lambda>(r, s).
       Ok (if r < 0 then None else Some (peek (k_mem (km s)) buf (nat r)), s))"

definition link_bad :: "int \<Rightarrow> nat \<Rightarrow> 'a kworld_scheme \<Rightarrow> (sysval \<times> 'a kworld_scheme) res" where
  "link_bad pid ip s =
     rbind (ilock pid ip s) (\<lambda>s.
     rbind (iupdate pid ip (iupd ip (i_nlink_update (\<lambda>n. n - 1)) s)) (\<lambda>s.
     rbind (iunlockput pid ip s) (\<lambda>s.
     rbind (end_op pid s) (\<lambda>s. Ok (minus_one, s)))))"

definition link_new :: "nat \<Rightarrow> nat \<Rightarrow> u8 list \<Rightarrow> 'a kworld_scheme \<Rightarrow> (sysval \<times> 'a kworld_scheme) res" where
  "link_new me ip new s =
     (let pid = p_pid (procs s me); pt = p_pagetable (procs s me) in
      rbind (p_nameiparent me new s) (\<lambda>((r, name), s). case r of
        None \<Rightarrow> link_bad pid ip s
      | Some dp \<Rightarrow>
          rbind (ilock pid dp s) (\<lambda>s.
          rbind (if i_dev (inodes s dp) \<noteq> i_dev (inodes s ip) then Ok (-1, s) else dirlink pid pt dp name (i_num (inodes s ip)) s) (\<lambda>(r, s).
            if r < 0 then rbind (iunlockput pid dp s) (link_bad pid ip)
            else rbind (iunlockput pid dp s) (\<lambda>s.
              rbind (iput pid ip s) (\<lambda>s.
              rbind (end_op pid s) (\<lambda>s. Ok (sys_int 0, s))))))))"

definition sys_link :: "locals \<Rightarrow> nat \<Rightarrow> 'a kworld_scheme \<Rightarrow> (sysval \<times> 'a kworld_scheme) res" where
  "sys_link lcl me s =
     (let pid = p_pid (procs s me) in
      rbind (argpath me 0 (l_path2 lcl) s) (\<lambda>(r, s). case r of None \<Rightarrow> Ok (minus_one, s) | Some old \<Rightarrow>
      rbind (argpath me 1 (l_path lcl) s) (\<lambda>(r, s). case r of None \<Rightarrow> Ok (minus_one, s) | Some new \<Rightarrow>
      rbind (begin_op s) (\<lambda>s.
      rbind (p_namei me old s) (\<lambda>(r, s). case r of
        None \<Rightarrow> rbind (end_op pid s) (\<lambda>s. Ok (minus_one, s))
      | Some ip \<Rightarrow>
          rbind (ilock pid ip s) (\<lambda>s.
            if i_type (inodes s ip) = T_DIR then
              rbind (iunlockput pid ip s) (\<lambda>s. rbind (end_op pid s) (\<lambda>s. Ok (minus_one, s)))
            else
              rbind (iupdate pid ip (iupd ip (i_nlink_update (\<lambda>n. n + 1)) s)) (\<lambda>s.
              rbind (iunlock pid ip s) (\<lambda>s. link_new me ip new s))))))))"

function isdirempty_loop :: "int \<Rightarrow> u64 \<Rightarrow> nat \<Rightarrow> nat \<Rightarrow> nat \<Rightarrow> 'a kworld_scheme \<Rightarrow> (bool \<times> 'a kworld_scheme) res" where
  "isdirempty_loop pid pt dp sz off s =
     (if off < sz then
        rbind (readi pid pt dp False (deaddr s) (of_nat off) 16 s) (\<lambda>(r, s).
          if r \<noteq> 16 then Fail (Panic ''isdirempty: readi'')
          else if get16 (peek (k_mem (km s)) (deaddr s) 16) 0 \<noteq> 0 then Ok (False, s)
          else isdirempty_loop pid pt dp sz (off + 16) s)
      else Ok (True, s))"
  by pat_completeness auto
termination
  by (relation "measure (\<lambda>(pid, pt, dp, sz, off, s). sz - off)") auto

declare isdirempty_loop.simps [simp del]

definition isdirempty :: "int \<Rightarrow> u64 \<Rightarrow> nat \<Rightarrow> 'a kworld_scheme \<Rightarrow> (bool \<times> 'a kworld_scheme) res" where
  "isdirempty pid pt dp s = isdirempty_loop pid pt dp (unat (i_size (inodes s dp))) (2 * 16) s"

definition unlink_bad :: "int \<Rightarrow> nat \<Rightarrow> 'a kworld_scheme \<Rightarrow> (sysval \<times> 'a kworld_scheme) res" where
  "unlink_bad pid dp s = rbind (iunlockput pid dp s) (\<lambda>s. rbind (end_op pid s) (\<lambda>s. Ok (minus_one, s)))"

text \<open>Clear the entry at \<open>off\<close>, and drop the links.\<close>

definition unlink_entry :: "int \<Rightarrow> u64 \<Rightarrow> nat \<Rightarrow> nat \<Rightarrow> nat \<Rightarrow> 'a kworld_scheme \<Rightarrow> (sysval \<times> 'a kworld_scheme) res" where
  "unlink_entry pid pt dp ip off s =
     (let s = s\<lparr>km := (km s)\<lparr>k_mem := poke (k_mem (km s)) (deaddr s) (replicate 16 0)\<rparr>\<rparr> in
      rbind (writei pid pt dp False (deaddr s) (of_nat off) 16 s) (\<lambda>(r, s).
        if r \<noteq> 16 then Fail (Panic ''unlink: writei'')
        else rbind (if i_type (inodes s ip) = T_DIR then iupdate pid dp (iupd dp (i_nlink_update (\<lambda>n. n - 1)) s) else Ok s) (\<lambda>s.
          rbind (iunlockput pid dp s) (\<lambda>s.
          rbind (iupdate pid ip (iupd ip (i_nlink_update (\<lambda>n. n - 1)) s)) (\<lambda>s.
          rbind (iunlockput pid ip s) (\<lambda>s.
          rbind (end_op pid s) (\<lambda>s. Ok (sys_int 0, s))))))))"

definition sys_unlink :: "locals \<Rightarrow> nat \<Rightarrow> 'a kworld_scheme \<Rightarrow> (sysval \<times> 'a kworld_scheme) res" where
  "sys_unlink lcl me s =
     (let pid = p_pid (procs s me); pt = p_pagetable (procs s me) in
      rbind (argpath me 0 (l_path lcl) s) (\<lambda>(r, s). case r of None \<Rightarrow> Ok (minus_one, s) | Some path \<Rightarrow>
      rbind (begin_op s) (\<lambda>s.
      rbind (p_nameiparent me path s) (\<lambda>((r, name), s). case r of
        None \<Rightarrow> rbind (end_op pid s) (\<lambda>s. Ok (minus_one, s))
      | Some dp \<Rightarrow>
          rbind (ilock pid dp s) (\<lambda>s.
            if namecmp name [46] = 0 \<or> namecmp name [46, 46] = 0 then unlink_bad pid dp s
            else rbind (dirlookup pid pt dp name s) (\<lambda>(r, s). case r of
              None \<Rightarrow> unlink_bad pid dp s
            | Some (ip, off) \<Rightarrow>
                rbind (ilock pid ip s) (\<lambda>s.
                  if sint (i_nlink (inodes s ip)) < 1 then Fail (Panic ''unlink: nlink < 1'')
                  else rbind (if i_type (inodes s ip) = T_DIR then isdirempty pid pt ip s else Ok (True, s)) (\<lambda>(e, s).
                    if \<not> e then rbind (iunlockput pid ip s) (unlink_bad pid dp)
                    else unlink_entry pid pt dp ip off s))))))))"

section \<open>Creation\<close>

definition create_fail :: "int \<Rightarrow> nat \<Rightarrow> nat \<Rightarrow> 'a kworld_scheme \<Rightarrow> (nat option \<times> 'a kworld_scheme) res" where
  "create_fail pid dp ip s =
     rbind (iupdate pid ip (iupd ip (i_nlink_update (\<lambda>_. 0)) s)) (\<lambda>s.
     rbind (iunlockput pid ip s) (\<lambda>s.
     rbind (iunlockput pid dp s) (\<lambda>s. Ok (None, s))))"

text \<open>A new inode below \<open>dp\<close>: for a directory first its dot entries, then the name in the parent.\<close>

definition create_new ::
  "int \<Rightarrow> u64 \<Rightarrow> nat \<Rightarrow> u8 list \<Rightarrow> u16 \<Rightarrow> u16 \<Rightarrow> u16 \<Rightarrow> 'a kworld_scheme \<Rightarrow> (nat option \<times> 'a kworld_scheme) res" where
  "create_new pid pt dp name ty major minor s =
     rbind (ialloc pid (i_dev (inodes s dp)) ty s) (\<lambda>(r, s). case r of
       None \<Rightarrow> rbind (iunlockput pid dp s) (\<lambda>s. Ok (None, s))
     | Some ip \<Rightarrow>
         rbind (ilock pid ip s) (\<lambda>s.
         rbind (iupdate pid ip (iupd ip (\<lambda>x. x\<lparr>i_major := major, i_minor := minor, i_nlink := 1\<rparr>) s)) (\<lambda>s.
         rbind (if ty = T_DIR then
                  rbind (dirlink pid pt ip [46] (i_num (inodes s ip)) s) (\<lambda>(r, s).
                    if r < 0 then Ok (r, s) else dirlink pid pt ip [46, 46] (i_num (inodes s dp)) s)
                else Ok (0, s)) (\<lambda>(r, s).
           if r < 0 then create_fail pid dp ip s
           else rbind (dirlink pid pt dp name (i_num (inodes s ip)) s) (\<lambda>(r, s).
             if r < 0 then create_fail pid dp ip s
             else rbind (if ty = T_DIR then iupdate pid dp (iupd dp (i_nlink_update (\<lambda>n. n + 1)) s) else Ok s) (\<lambda>s.
               rbind (iunlockput pid dp s) (\<lambda>s. Ok (Some ip, s))))))))"

definition create ::
  "nat \<Rightarrow> u8 list \<Rightarrow> u16 \<Rightarrow> u16 \<Rightarrow> u16 \<Rightarrow> 'a kworld_scheme \<Rightarrow> (nat option \<times> 'a kworld_scheme) res" where
  "create me path ty major minor s =
     (let pid = p_pid (procs s me); pt = p_pagetable (procs s me) in
      rbind (p_nameiparent me path s) (\<lambda>((r, name), s). case r of
        None \<Rightarrow> Ok (None, s)
      | Some dp \<Rightarrow>
          rbind (ilock pid dp s) (\<lambda>s.
          rbind (dirlookup pid pt dp name s) (\<lambda>(r, s). case r of
            Some (ip, _) \<Rightarrow>
              rbind (iunlockput pid dp s) (\<lambda>s.
              rbind (ilock pid ip s) (\<lambda>s.
                if ty = T_FILE \<and> (i_type (inodes s ip) = T_FILE \<or> i_type (inodes s ip) = T_DEVICE) then Ok (Some ip, s)
                else rbind (iunlockput pid ip s) (\<lambda>s. Ok (None, s))))
          | None \<Rightarrow> create_new pid pt dp name ty major minor s))))"

section \<open>open\<close>

text \<open>The inode to open, locked; nothing when \<open>sys_open\<close> fails before it has a file.\<close>

definition open_inode :: "nat \<Rightarrow> u8 list \<Rightarrow> int \<Rightarrow> 'a kworld_scheme \<Rightarrow> (nat option \<times> 'a kworld_scheme) res" where
  "open_inode me path omode s =
     (let pid = p_pid (procs s me) in
      if omode AND O_CREATE \<noteq> 0 then create me path T_FILE 0 0 s
      else rbind (p_namei me path s) (\<lambda>(r, s). case r of
        None \<Rightarrow> Ok (None, s)
      | Some ip \<Rightarrow>
          rbind (ilock pid ip s) (\<lambda>s.
            if i_type (inodes s ip) = T_DIR \<and> omode \<noteq> O_RDONLY then
              rbind (iunlockput pid ip s) (\<lambda>s. Ok (None, s))
            else Ok (Some ip, s))))"

definition open_file :: "nat \<Rightarrow> int \<Rightarrow> 'a kworld_scheme \<Rightarrow> kfile \<Rightarrow> kfile" where
  "open_file ip omode s f =
     (let f = (if i_type (inodes s ip) = T_DEVICE then f\<lparr>f_type := FD_DEVICE, f_major := i_major (inodes s ip)\<rparr>
               else f\<lparr>f_type := FD_INODE, f_off := 0\<rparr>)
      in f\<lparr>f_ip := ip, f_readable := (omode AND O_WRONLY = 0), f_writable := (omode AND O_WRONLY \<noteq> 0 \<or> omode AND O_RDWR \<noteq> 0)\<rparr>)"

definition open_bad :: "int \<Rightarrow> nat \<Rightarrow> 'a kworld_scheme \<Rightarrow> (sysval \<times> 'a kworld_scheme) res" where
  "open_bad pid ip s = rbind (iunlockput pid ip s) (\<lambda>s. rbind (end_op pid s) (\<lambda>s. Ok (minus_one, s)))"

definition sys_open :: "locals \<Rightarrow> nat \<Rightarrow> 'a kworld_scheme \<Rightarrow> (sysval \<times> 'a kworld_scheme) res" where
  "sys_open lcl me s =
     (let pid = p_pid (procs s me) in
      rbind (argint me 1 s) (\<lambda>omode.
      rbind (argpath me 0 (l_path lcl) s) (\<lambda>(r, s). case r of None \<Rightarrow> Ok (minus_one, s) | Some path \<Rightarrow>
      rbind (begin_op s) (\<lambda>s.
      rbind (open_inode me path omode s) (\<lambda>(r, s). case r of
        None \<Rightarrow> rbind (end_op pid s) (\<lambda>s. Ok (minus_one, s))
      | Some ip \<Rightarrow>
          if i_type (inodes s ip) = T_DEVICE \<and> (sint (i_major (inodes s ip)) < 0 \<or> sint (i_major (inodes s ip)) \<ge> int NDEV) then open_bad pid ip s
          else (case filealloc s of
            (None, s) \<Rightarrow> open_bad pid ip s
          | (Some f, s) \<Rightarrow>
              (case fdalloc me f s of
                 (None, s) \<Rightarrow> rbind (fileclose pid f s) (open_bad pid ip)
               | (Some fd, s) \<Rightarrow>
                   let s = fupd f (open_file ip omode s) s in
                   rbind (if omode AND O_TRUNC \<noteq> 0 \<and> i_type (inodes s ip) = T_FILE then itrunc pid ip s else Ok s) (\<lambda>s.
                   rbind (iunlock pid ip s) (\<lambda>s.
                   rbind (end_op pid s) (\<lambda>s. Ok (sys_int (int fd), s)))))))))))"

text \<open>The end of \<open>sys_mkdir\<close> and \<open>sys_mknod\<close>.\<close>

definition finish_create :: "int \<Rightarrow> nat option \<times> 'a kworld_scheme \<Rightarrow> (sysval \<times> 'a kworld_scheme) res" where
  "finish_create pid = (\<lambda>(r, s). case r of
     None \<Rightarrow> rbind (end_op pid s) (\<lambda>s. Ok (minus_one, s))
   | Some ip \<Rightarrow> rbind (iunlockput pid ip s) (\<lambda>s. rbind (end_op pid s) (\<lambda>s. Ok (sys_int 0, s))))"

definition sys_mkdir :: "locals \<Rightarrow> nat \<Rightarrow> 'a kworld_scheme \<Rightarrow> (sysval \<times> 'a kworld_scheme) res" where
  "sys_mkdir lcl me s =
     rbind (begin_op s) (\<lambda>s.
     rbind (argpath me 0 (l_path lcl) s) (\<lambda>(r, s).
     rbind (case r of None \<Rightarrow> Ok (None, s) | Some path \<Rightarrow> create me path T_DIR 0 0 s) (finish_create (p_pid (procs s me)))))"

definition sys_mknod :: "locals \<Rightarrow> nat \<Rightarrow> 'a kworld_scheme \<Rightarrow> (sysval \<times> 'a kworld_scheme) res" where
  "sys_mknod lcl me s =
     rbind (begin_op s) (\<lambda>s.
     rbind (argint me 1 s) (\<lambda>major. rbind (argint me 2 s) (\<lambda>minor.
     rbind (argpath me 0 (l_path lcl) s) (\<lambda>(r, s).
     rbind (case r of None \<Rightarrow> Ok (None, s) | Some path \<Rightarrow> create me path T_DEVICE (of_int major) (of_int minor) s)
       (finish_create (p_pid (procs s me)))))))"

definition sys_chdir :: "locals \<Rightarrow> nat \<Rightarrow> 'a kworld_scheme \<Rightarrow> (sysval \<times> 'a kworld_scheme) res" where
  "sys_chdir lcl me s =
     (let pid = p_pid (procs s me) in
      rbind (begin_op s) (\<lambda>s.
      rbind (argpath me 0 (l_path lcl) s) (\<lambda>(r, s).
      rbind (case r of None \<Rightarrow> Ok (None, s) | Some path \<Rightarrow> p_namei me path s) (\<lambda>(r, s). case r of
        None \<Rightarrow> rbind (end_op pid s) (\<lambda>s. Ok (minus_one, s))
      | Some ip \<Rightarrow>
          rbind (ilock pid ip s) (\<lambda>s.
            if i_type (inodes s ip) \<noteq> T_DIR then
              rbind (iunlockput pid ip s) (\<lambda>s. rbind (end_op pid s) (\<lambda>s. Ok (minus_one, s)))
            else rbind (iunlock pid ip s) (\<lambda>s.
              case p_cwd (procs s me) of
                None \<Rightarrow> Fail (Fault ''cwd'')
              | Some c \<Rightarrow>
                  rbind (iput pid c s) (\<lambda>s.
                  rbind (end_op pid s) (\<lambda>s.
                    Ok (sys_int 0, pupd me (p_cwd_update (\<lambda>_. Some ip)) s)))))))))"

section \<open>exec and pipe\<close>

text \<open>The loop that fetches the argument strings, each to a page of its own: whether it succeeded, and the pages.\<close>

function sysexec_loop ::
  "locals \<Rightarrow> nat \<Rightarrow> u64 \<Rightarrow> u64 list \<Rightarrow> 'a kworld_scheme \<Rightarrow> ((bool \<times> u64 list) \<times> 'a kworld_scheme) res" where
  "sysexec_loop lcl me uargv argv s =
     (if length argv \<ge> MAXARG then Ok ((False, argv), s)
      else rbind (fetchaddr me (uargv + 8 * of_nat (length argv)) (l_uarg lcl) s) (\<lambda>(r, s).
        if r < 0 then Ok ((False, argv), s)
        else let uarg = load64 (k_mem (km s)) (l_uarg lcl) in
          if uarg = 0 then Ok ((True, argv), s)
          else case kalloc (km s) of (pa, k) \<Rightarrow>
            let s = s\<lparr>km := k\<rparr> in
            if pa = 0 then Ok ((False, argv), s)
            else rbind (fetchstr me uarg pa PGSIZE s) (\<lambda>(r, s).
              if r < 0 then Ok ((False, argv @ [pa]), s) else sysexec_loop lcl me uargv (argv @ [pa]) s)))"
  by pat_completeness auto
termination
  by (relation "measure (\<lambda>(lcl, me, uargv, argv, s). MAXARG - length argv)") auto

declare sysexec_loop.simps [simp del]

definition free_args :: "u64 list \<Rightarrow> 'a kworld_scheme \<Rightarrow> 'a kworld_scheme res" where
  "free_args argv s = rbind (rfold (\<lambda>pa k. kfree k pa) argv (km s)) (\<lambda>k. Ok (s\<lparr>km := k\<rparr>))"

definition sys_exec :: "locals \<Rightarrow> nat \<Rightarrow> 'a kworld_scheme \<Rightarrow> (sysval \<times> 'a kworld_scheme) res" where
  "sys_exec lcl me s =
     rbind (argaddr me 1 s) (\<lambda>uargv.
     rbind (argpath me 0 (l_path lcl) s) (\<lambda>(r, s). case r of None \<Rightarrow> Ok (minus_one, s) | Some path \<Rightarrow>
     rbind (sysexec_loop lcl me uargv [] s) (\<lambda>((ok, argv), s).
       if \<not> ok then rbind (free_args argv s) (\<lambda>s. Ok (minus_one, s))
       else rbind (exec lcl me path argv s) (\<lambda>(ret, s).
         rbind (free_args argv s) (\<lambda>s. Ok (sys_int ret, s))))))"

definition close_both :: "int \<Rightarrow> nat \<Rightarrow> nat \<Rightarrow> 'a kworld_scheme \<Rightarrow> (sysval \<times> 'a kworld_scheme) res" where
  "close_both pid rf wrf s = rbind (fileclose pid rf s) (\<lambda>s. rbind (fileclose pid wrf s) (\<lambda>s. Ok (minus_one, s)))"

text \<open>A descriptor as the four bytes of an \<^verbatim>\<open>int\<close>.\<close>

definition int_bytes :: "nat \<Rightarrow> u8 list" where
  "int_bytes fd = map (le_byte (of_nat fd :: u32)) [0..<4]"

definition copyout_int :: "nat \<Rightarrow> u64 \<Rightarrow> u64 \<Rightarrow> nat \<Rightarrow> 'a kworld_scheme \<Rightarrow> (int \<times> 'a kworld_scheme) res" where
  "copyout_int me dst src fd s =
     rbind (copyout ((km s)\<lparr>k_mem := poke (k_mem (km s)) src (int_bytes fd)\<rparr>) (p_pagetable (procs s me)) dst src 4) (\<lambda>(r, k).
       Ok (r, s\<lparr>km := k\<rparr>))"

definition sys_pipe :: "locals \<Rightarrow> nat \<Rightarrow> 'a kworld_scheme \<Rightarrow> (sysval \<times> 'a kworld_scheme) res" where
  "sys_pipe lcl me s =
     (let pid = p_pid (procs s me) in
      rbind (argaddr me 0 s) (\<lambda>fdarray.
      rbind (pipealloc pid s) (\<lambda>(r, s). case r of None \<Rightarrow> Ok (minus_one, s) | Some (rf, wrf) \<Rightarrow>
        (case fdalloc me rf s of
           (None, s) \<Rightarrow> close_both pid rf wrf s
         | (Some fd0, s) \<Rightarrow>
            (case fdalloc me wrf s of
               (None, s) \<Rightarrow> close_both pid rf wrf (set_ofile me fd0 None s)
             | (Some fd1, s) \<Rightarrow>
                 rbind (copyout_int me fdarray (l_fd0 lcl) fd0 s) (\<lambda>(r, s).
                 rbind (if r < 0 then Ok (r, s) else copyout_int me (fdarray + 4) (l_fd1 lcl) fd1 s) (\<lambda>(r, s).
                   if r < 0 then close_both pid rf wrf (set_ofile me fd1 None (set_ofile me fd0 None s))
                   else Ok (sys_int 0, s))))))))"

end
