(* ===== verification/Xv6_Frame.thy ===== *)
theory Xv6_Frame
  imports Xv6_File
begin

text \<open>
  What the file system leaves alone: no operation of \<^verbatim>\<open>kernel/log.c\<close> and \<^verbatim>\<open>kernel/fs.c\<close> touches the parts of the state beyond its own,
  such as the file table and the process table. \<open>keep0\<close> and \<open>keep1\<close> say so of a result; their rules follow the structure of the
  definitions, so that each operation is one line.
\<close>

definition keep0 :: "'a fstate_scheme \<Rightarrow> 'a fstate_scheme res \<Rightarrow> bool" where
  "keep0 s m \<longleftrightarrow> (\<forall>t. m = Ok t \<longrightarrow> fstate.more t = fstate.more s)"

definition keep1 :: "'a fstate_scheme \<Rightarrow> ('b \<times> 'a fstate_scheme) res \<Rightarrow> bool" where
  "keep1 s m \<longleftrightarrow> (\<forall>x t. m = Ok (x, t) \<longrightarrow> fstate.more t = fstate.more s)"

lemma keep0D: "keep0 s m \<Longrightarrow> m = Ok t \<Longrightarrow> fstate.more t = fstate.more s"
  by (simp add: keep0_def)

lemma keep1D: "keep1 s m \<Longrightarrow> m = Ok (x, t) \<Longrightarrow> fstate.more t = fstate.more s"
  by (simp add: keep1_def)

section \<open>Rules\<close>

lemma keep_Ok:
  "fstate.more t = fstate.more s \<Longrightarrow> keep0 s (Ok t)"
  "fstate.more t = fstate.more s \<Longrightarrow> keep1 s (Ok (x, t))"
  by (simp_all add: keep0_def keep1_def)

lemma keep_Fail: "keep0 s (Fail e)" "keep1 s (Fail e)"
  by (simp_all add: keep0_def keep1_def)

lemma keep_iff [simp]:
  "keep0 s (Ok t) \<longleftrightarrow> fstate.more t = fstate.more s" "keep1 s (Ok (x, t)) \<longleftrightarrow> fstate.more t = fstate.more s"
  "keep0 s (Fail e)" "keep1 s (Fail e)"
  by (simp_all add: keep0_def keep1_def)

lemma keep_bind0:
  "keep0 s m \<Longrightarrow> (\<And>t. fstate.more t = fstate.more s \<Longrightarrow> keep0 s (f t)) \<Longrightarrow> keep0 s (rbind m f)"
  "keep0 s m \<Longrightarrow> (\<And>t. fstate.more t = fstate.more s \<Longrightarrow> keep1 s (g t)) \<Longrightarrow> keep1 s (rbind m g)"
  by (cases m; simp)+

lemma keep_bind1:
  assumes "keep1 s m"
  shows "(\<And>x t. fstate.more t = fstate.more s \<Longrightarrow> keep0 s (f (x, t))) \<Longrightarrow> keep0 s (rbind m f)"
    and "(\<And>x t. fstate.more t = fstate.more s \<Longrightarrow> keep1 s (g (x, t))) \<Longrightarrow> keep1 s (rbind m g)"
proof -
  have m: "(\<exists>e. m = Fail e) \<or> (\<exists>x t. m = Ok (x, t) \<and> fstate.more t = fstate.more s)"
    using assms by (cases m) (auto simp: keep1_def)
  show "(\<And>x t. fstate.more t = fstate.more s \<Longrightarrow> keep0 s (f (x, t))) \<Longrightarrow> keep0 s (rbind m f)"
    using m by (elim disjE exE conjE) simp_all
  show "(\<And>x t. fstate.more t = fstate.more s \<Longrightarrow> keep1 s (g (x, t))) \<Longrightarrow> keep1 s (rbind m g)"
    using m by (elim disjE exE conjE) simp_all
qed

lemma keep_bind_other:
  "(\<And>x. keep0 s (f0 x)) \<Longrightarrow> keep0 s (rbind m f0)"
  "(\<And>x. keep1 s (f1 x)) \<Longrightarrow> keep1 s (rbind m f1)"
  by (cases m; simp)+

lemma keep_struct:
  "(P \<Longrightarrow> keep0 s a) \<Longrightarrow> (\<not> P \<Longrightarrow> keep0 s b) \<Longrightarrow> keep0 s (if P then a else b)"
  "(P \<Longrightarrow> keep1 s c) \<Longrightarrow> (\<not> P \<Longrightarrow> keep1 s d) \<Longrightarrow> keep1 s (if P then c else d)"
  "keep0 s (f0 x) \<Longrightarrow> keep0 s (Let x f0)"
  "keep1 s (f1 x) \<Longrightarrow> keep1 s (Let x f1)"
  "keep0 s (g0 y z) \<Longrightarrow> keep0 s (case (y, z) of (u, v) \<Rightarrow> g0 u v)"
  "keep1 s (g1 y z) \<Longrightarrow> keep1 s (case (y, z) of (u, v) \<Rightarrow> g1 u v)"
  by (simp_all add: Let_def)

lemma keep_cases:
  "(\<And>y z. p = (y, z) \<Longrightarrow> keep0 s (g0 y z)) \<Longrightarrow> keep0 s (case p of (u, v) \<Rightarrow> g0 u v)"
  "(\<And>y z. p = (y, z) \<Longrightarrow> keep1 s (g1 y z)) \<Longrightarrow> keep1 s (case p of (u, v) \<Rightarrow> g1 u v)"
  "keep0 s n0 \<Longrightarrow> (\<And>x. o0 = Some x \<Longrightarrow> keep0 s (h0 x)) \<Longrightarrow> keep0 s (case o0 of None \<Rightarrow> n0 | Some x \<Rightarrow> h0 x)"
  "keep1 s n1 \<Longrightarrow> (\<And>x. o1 = Some x \<Longrightarrow> keep1 s (h1 x)) \<Longrightarrow> keep1 s (case o1 of None \<Rightarrow> n1 | Some x \<Rightarrow> h1 x)"
  by ((cases p; simp)+, (cases o0; simp), (cases o1; simp))

lemma keep_case_app:
  "(\<And>y z. p = (y, z) \<Longrightarrow> keep0 s (g0 y z t)) \<Longrightarrow> keep0 s ((case p of (u, v) \<Rightarrow> g0 u v) t)"
  "(\<And>y z. p = (y, z) \<Longrightarrow> keep1 s (g1 y z t)) \<Longrightarrow> keep1 s ((case p of (u, v) \<Rightarrow> g1 u v) t)"
  by (cases p; simp)+

lemma keep_rfold:
  assumes "\<And>x t. fstate.more t = fstate.more s \<Longrightarrow> keep0 s (f x t)" and "fstate.more t = fstate.more s"
  shows "keep0 s (rfold f xs t)"
  using assms(2)
proof (induction xs arbitrary: t)
  case (Cons x xs)
  show ?case unfolding rfold.simps by (rule keep_bind0(1) [OF assms(1) Cons.IH]) (use Cons.prems in simp_all)
qed simp

lemma keep_trans:
  "fstate.more t = fstate.more s \<Longrightarrow> keep0 t m0 \<Longrightarrow> keep0 s m0"
  "fstate.more t = fstate.more s \<Longrightarrow> keep1 t m1 \<Longrightarrow> keep1 s m1"
  by (simp_all add: keep0_def keep1_def)

lemmas keep_intros = keep_Ok keep_Fail keep_struct keep_cases keep_case_app keep_bind0 keep_bind1

section \<open>Log and buffers\<close>

lemma more_upd [simp]:
  "fstate.more (bc_update f s) = fstate.more s" "fstate.more (lg_update g s) = fstate.more s"
  "fstate.more (iupd i h s) = fstate.more s" "fstate.more (set_bdata b d s) = fstate.more s"
  by (simp_all add: iupd_def set_bdata_def)

lemma keep_bread: "fstate.more t = fstate.more s \<Longrightarrow> keep1 s (bread' pid d b t)"
  unfolding bread'_def by (auto intro!: keep_bind_other keep_intros)

lemma keep_bwrite: "fstate.more t = fstate.more s \<Longrightarrow> keep0 s (bwrite' pid b t)"
  unfolding bwrite'_def by (auto intro!: keep_bind_other keep_intros)

lemma keep_brelse: "fstate.more t = fstate.more s \<Longrightarrow> keep0 s (brelse' pid b t)"
  unfolding brelse'_def by (auto intro!: keep_bind_other keep_intros)

lemma keep_log_write: "fstate.more t = fstate.more s \<Longrightarrow> keep0 s (log_write b t)"
  unfolding log_write_def by (auto intro!: keep_intros)

lemma keep_begin_op: "fstate.more t = fstate.more s \<Longrightarrow> keep0 s (begin_op t)"
  unfolding begin_op_def by (auto intro!: keep_intros)

lemmas keep_base = keep_bread keep_bwrite keep_brelse keep_log_write keep_begin_op

lemma keep_write_one: "fstate.more t = fstate.more s \<Longrightarrow> keep0 s (write_one pid i t)"
  unfolding write_one_def by (intro keep_intros keep_base) simp_all

lemma keep_install_one: "fstate.more t = fstate.more s \<Longrightarrow> keep0 s (install_one pid r i t)"
  unfolding install_one_def by (intro keep_intros keep_base) simp_all

lemma keep_write_head: "fstate.more t = fstate.more s \<Longrightarrow> keep0 s (write_head pid t)"
  unfolding write_head_def by (intro keep_intros keep_base) simp_all

lemma keep_commit: "fstate.more t = fstate.more s \<Longrightarrow> keep0 s (commit pid t)"
  unfolding commit_def write_log_def install_trans_def
  by (intro keep_intros keep_rfold keep_write_one keep_install_one keep_write_head) simp_all

lemma keep_end_op: "fstate.more t = fstate.more s \<Longrightarrow> keep0 s (end_op pid t)"
  unfolding end_op_def by (intro keep_intros keep_commit) simp_all

section \<open>Blocks and inodes\<close>

lemma keep_bzero: "fstate.more t = fstate.more s \<Longrightarrow> keep0 s (bzero pid d b t)"
  unfolding bzero_def by (intro keep_intros keep_base) simp_all

lemma keep_balloc_loop: "fstate.more t = fstate.more s \<Longrightarrow> keep1 s (balloc_loop pid d sz b t)"
proof (induction "sz - b" arbitrary: b t rule: less_induct)
  case less
  show ?case
    by (subst balloc_loop.simps, intro keep_intros keep_base keep_bzero less.hyps) (use less.prems in simp_all)
qed

lemma keep_balloc: "fstate.more t = fstate.more s \<Longrightarrow> keep1 s (balloc pid d t)"
  unfolding balloc_def by (rule keep_balloc_loop)

lemma keep_bfree: "fstate.more t = fstate.more s \<Longrightarrow> keep0 s (bfree pid d b t)"
  unfolding bfree_def by (intro keep_intros keep_base) simp_all

lemma keep_iget: "fstate.more t = fstate.more s \<Longrightarrow> keep1 s (iget d i t)"
  unfolding iget_def by (intro keep_intros) simp_all

lemma keep_ialloc_loop: "fstate.more t = fstate.more s \<Longrightarrow> keep1 s (ialloc_loop pid d ty n i t)"
proof (induction "n - i" arbitrary: i t rule: less_induct)
  case less
  show ?case
    by (subst ialloc_loop.simps, intro keep_intros keep_base keep_iget less.hyps) (use less.prems in simp_all)
qed

lemma keep_ialloc: "fstate.more t = fstate.more s \<Longrightarrow> keep1 s (ialloc pid d ty t)"
  unfolding ialloc_def by (rule keep_ialloc_loop)

lemma keep_iupdate: "fstate.more t = fstate.more s \<Longrightarrow> keep0 s (iupdate pid i t)"
  unfolding iupdate_def by (intro keep_intros keep_base) simp_all

lemma keep_ilock: "fstate.more t = fstate.more s \<Longrightarrow> keep0 s (ilock pid i t)"
  unfolding ilock_def by (intro keep_intros keep_base keep_bind_other) simp_all

lemma keep_iunlock: "fstate.more t = fstate.more s \<Longrightarrow> keep0 s (iunlock pid i t)"
  unfolding iunlock_def by (intro keep_intros) simp_all

lemma keep_trunc_direct: "fstate.more t = fstate.more s \<Longrightarrow> keep0 s (trunc_direct pid i k t)"
  unfolding trunc_direct_def by (intro keep_intros keep_bfree) simp_all

lemma keep_trunc_indirect: "fstate.more t = fstate.more s \<Longrightarrow> keep0 s (trunc_indirect pid i bp k t)"
  unfolding trunc_indirect_def by (intro keep_intros keep_bfree) simp_all

lemma keep_itrunc: "fstate.more t = fstate.more s \<Longrightarrow> keep0 s (itrunc pid i t)"
  unfolding itrunc_def
  by (intro keep_intros keep_base keep_rfold keep_trunc_direct keep_trunc_indirect keep_bfree keep_iupdate) simp_all

lemma keep_iput: "fstate.more t = fstate.more s \<Longrightarrow> keep0 s (iput pid i t)"
  unfolding iput_def by (intro keep_intros keep_itrunc keep_iupdate keep_bind_other) simp_all

lemma keep_iunlockput: "fstate.more t = fstate.more s \<Longrightarrow> keep0 s (iunlockput pid i t)"
  unfolding iunlockput_def by (intro keep_intros keep_iunlock keep_iput) simp_all

lemmas keep_inode = keep_begin_op keep_end_op keep_iget keep_ialloc keep_iupdate keep_ilock keep_iunlock keep_itrunc keep_iput keep_iunlockput

section \<open>Contents, directories and paths\<close>

lemma keep_bmap: "fstate.more t = fstate.more s \<Longrightarrow> keep1 s (bmap pid i bn t)"
  unfolding bmap_def by (intro keep_intros keep_base keep_balloc) simp_all

lemma keep_copy_from_buf: "fstate.more t = fstate.more s \<Longrightarrow> keep1 s (copy_from_buf pt ud dst bp off m t)"
  unfolding copy_from_buf_def by (intro keep_intros keep_bind_other) simp_all

lemma keep_copy_to_buf: "fstate.more t = fstate.more s \<Longrightarrow> keep1 s (copy_to_buf pt us src bp off m t)"
  unfolding copy_to_buf_def by (intro keep_intros keep_bind_other) simp_all

lemma keep_readi_loop: "fstate.more t = fstate.more s \<Longrightarrow> keep1 s (readi_loop pid pt i ud dst off n tot t)"
proof (induction "n - tot" arbitrary: dst off tot t rule: less_induct)
  case less
  show ?case
    by (subst readi_loop.simps, intro keep_intros keep_base keep_bmap keep_copy_from_buf less.hyps) (use less.prems in simp_all)
qed

lemma keep_readi: "fstate.more t = fstate.more s \<Longrightarrow> keep1 s (readi pid pt i ud dst off n t)"
  unfolding readi_def by (intro keep_intros keep_readi_loop) simp_all

lemma keep_writei_loop: "fstate.more t = fstate.more s \<Longrightarrow> keep1 s (writei_loop pid pt i us src off n tot t)"
proof (induction "n - tot" arbitrary: src off tot t rule: less_induct)
  case less
  show ?case
    by (subst writei_loop.simps, intro keep_intros keep_base keep_bmap keep_copy_to_buf less.hyps) (use less.prems in simp_all)
qed

lemma keep_writei: "fstate.more t = fstate.more s \<Longrightarrow> keep1 s (writei pid pt i us src off n t)"
  unfolding writei_def by (intro keep_intros keep_writei_loop keep_iupdate) simp_all

lemma keep_dirlookup_loop: "fstate.more t = fstate.more s \<Longrightarrow> keep1 s (dirlookup_loop pid pt dp name sz off t)"
proof (induction "sz - off" arbitrary: off t rule: less_induct)
  case less
  show ?case
    by (subst dirlookup_loop.simps, intro keep_intros keep_readi keep_iget less.hyps) (use less.prems in simp_all)
qed

lemma keep_dirlookup: "fstate.more t = fstate.more s \<Longrightarrow> keep1 s (dirlookup pid pt dp name t)"
  unfolding dirlookup_def by (intro keep_intros keep_dirlookup_loop) simp_all

lemma keep_dirlink_scan: "fstate.more t = fstate.more s \<Longrightarrow> keep1 s (dirlink_scan pid pt dp sz off t)"
proof (induction "sz - off" arbitrary: off t rule: less_induct)
  case less
  show ?case
    by (subst dirlink_scan.simps, intro keep_intros keep_readi less.hyps) (use less.prems in simp_all)
qed

lemma keep_dirlink: "fstate.more t = fstate.more s \<Longrightarrow> keep1 s (dirlink pid pt dp name inum t)"
  unfolding dirlink_def by (intro keep_intros keep_dirlookup keep_dirlink_scan keep_iput keep_writei) simp_all

lemma keep_namex_loop: "fstate.more t = fstate.more s \<Longrightarrow> keep1 s (namex_loop pid pt path parent ip name t)"
proof (induction "length path" arbitrary: path ip name t rule: less_induct)
  case less
  show ?case
    by (subst namex_loop.simps, intro keep_intros keep_inode keep_dirlookup less.hyps)
      (use less.prems in \<open>simp_all add: skipelem_shorter\<close>)
qed

lemma keep_namex: "fstate.more t = fstate.more s \<Longrightarrow> keep1 s (namex pid pt cwd path parent t)"
  unfolding namex_def by (intro keep_intros keep_iget keep_namex_loop) (simp_all add: idup_def)

lemma keep_namei: "fstate.more t = fstate.more s \<Longrightarrow> keep1 s (namei pid pt cwd path t)"
  unfolding namei_def by (intro keep_intros keep_namex) simp_all

lemma keep_nameiparent: "fstate.more t = fstate.more s \<Longrightarrow> keep1 s (nameiparent pid pt cwd path t)"
  unfolding nameiparent_def by (rule keep_namex)

end
