(* ===== verification/Xv6_Fdtable.thy ===== *)
theory Xv6_Fdtable
  imports Xv6_Sysfile Xv6_Frame
begin

text \<open>
  The reference counts of open files. Every descriptor of every process is one reference; \<open>filealloc\<close>, \<open>filedup\<close> and \<open>fileclose\<close> count them. The invariant relates the
  file table with the process table and is kept by every system call that handles descriptors, on success and on every error path.
\<close>

section \<open>What the calls do to descriptors and counts\<close>

abbreviation refc :: "'a kworld_scheme \<Rightarrow> nat \<Rightarrow> int" where
  "refc s f \<equiv> f_ref (files s f)"

abbreviation fds :: "'a kworld_scheme \<Rightarrow> nat \<Rightarrow> nat option list" where
  "fds s i \<equiv> p_ofile (procs s i)"

text \<open>The number of descriptors that refer to file \<open>f\<close>.\<close>

definition nrefs :: "'a kworld_scheme \<Rightarrow> nat \<Rightarrow> nat" where
  "nrefs s f = (\<Sum>i<NPROC. count_list (fds s i) (Some f))"

text \<open>
  The balance: besides its descriptors, a file may have references held by a call in progress, \<open>held f\<close> of them. Processes that do not exist any more have
  no descriptors.
\<close>

definition fd_bal :: "'a kworld_scheme \<Rightarrow> (nat \<Rightarrow> int) \<Rightarrow> bool" where
  "fd_bal s held \<longleftrightarrow> (\<forall>i<NPROC. length (fds s i) = NOFILE) \<and> (\<forall>f. refc s f = int (nrefs s f) + held f) \<and>
     (\<forall>i<NPROC. p_state (procs s i) \<in> {UNUSED, ZOMBIE} \<longrightarrow> (\<forall>k<NOFILE. fds s i ! k = None))"

definition fd_inv :: "'a kworld_scheme \<Rightarrow> bool" where
  "fd_inv s \<longleftrightarrow> fd_bal s (\<lambda>_. 0)"

definition alive :: "'a kworld_scheme \<Rightarrow> nat \<Rightarrow> bool" where
  "alive s me \<longleftrightarrow> me < NPROC \<and> p_state (procs s me) \<notin> {UNUSED, ZOMBIE}"

text \<open>Two states with the same tables.\<close>

definition same :: "'a kworld_scheme \<Rightarrow> 'a kworld_scheme \<Rightarrow> bool" where
  "same s t \<longleftrightarrow> files t = files s \<and> procs t = procs s"

lemma same_refl [simp]: "same s s"
  by (simp add: same_def)

lemma same_trans: "same s t \<Longrightarrow> same t u \<Longrightarrow> same s u"
  by (simp add: same_def)

lemma more_same: "fstate.more t = fstate.more (s :: 'a kworld_scheme) \<Longrightarrow> same s t"
  unfolding same_def by (cases s, cases t) simp

lemma same_bal: "same s t \<Longrightarrow> fd_bal s e \<Longrightarrow> fd_bal t e"
  by (simp add: same_def fd_bal_def nrefs_def)

lemma same_alive: "same s t \<Longrightarrow> alive s me \<Longrightarrow> alive t me"
  by (simp add: same_def alive_def)

lemma same_km [simp]: "same s (s\<lparr>km := k\<rparr>)"
  by (simp add: same_def)

lemma keep0_same: "keep0 (s :: 'a kworld_scheme) m \<Longrightarrow> m = Ok t \<Longrightarrow> same s t"
  by (drule (1) keep0D, rule more_same)

lemma keep1_same: "keep1 (s :: 'a kworld_scheme) m \<Longrightarrow> m = Ok (x, t) \<Longrightarrow> same s t"
  by (drule (1) keep1D, rule more_same)

section \<open>Counting\<close>

lemma count_list_update:
  "k < length xs \<Longrightarrow> int (count_list (xs[k := y]) z) = int (count_list xs z) - of_bool (xs ! k = z) + of_bool (y = z)"
proof (induction xs arbitrary: k)
  case (Cons x xs)
  then show ?case using Cons.IH [of "k - 1"] by (cases k) auto
qed simp

lemma nrefs_set_ofile:
  assumes "me < NPROC" and "k < length (fds s me)"
  shows "int (nrefs (set_ofile me k y s) f) = int (nrefs s f) - of_bool (fds s me ! k = Some f) + of_bool (y = Some f)"
proof -
  let ?t = "set_ofile me k y s"
  have o: "count_list (fds ?t i) (Some f) = count_list (fds s i) (Some f)" if "i \<noteq> me" for i
    using that by (simp add: set_ofile_def)
  have "nrefs ?t f = count_list (fds ?t me) (Some f) + (\<Sum>i\<in>{..<NPROC} - {me}. count_list (fds ?t i) (Some f))"
    unfolding nrefs_def by (rule sum.remove) (use assms in auto)
  also have "(\<Sum>i\<in>{..<NPROC} - {me}. count_list (fds ?t i) (Some f)) = (\<Sum>i\<in>{..<NPROC} - {me}. count_list (fds s i) (Some f))"
    by (rule sum.cong) (auto simp: o)
  finally have t: "nrefs ?t f = count_list ((fds s me)[k := y]) (Some f) + (\<Sum>i\<in>{..<NPROC} - {me}. count_list (fds s i) (Some f))"
    by (simp add: set_ofile_def)
  have "nrefs s f = count_list (fds s me) (Some f) + (\<Sum>i\<in>{..<NPROC} - {me}. count_list (fds s i) (Some f))"
    unfolding nrefs_def by (rule sum.remove) (use assms in auto)
  then show ?thesis using t count_list_update [OF assms(2), of y "Some f"] by simp
qed

lemma set_ofile_simps [simp]:
  "files (set_ofile me k y s) = files s" "p_state (procs (set_ofile me k y s) i) = p_state (procs s i)"
  "fds (set_ofile me k y s) i = (if i = me then (fds s me)[k := y] else fds s i)"
  by (simp_all add: set_ofile_def)

lemma bal_set_ofile:
  assumes "fd_bal s e" and "me < NPROC" and "k < NOFILE" and "y = None \<or> alive s me"
  shows "fd_bal (set_ofile me k y s) (\<lambda>f. e f + of_bool (fds s me ! k = Some f) - of_bool (y = Some f))"
proof -
  have len: "k < length (fds s me)" using assms(1-3) by (simp add: fd_bal_def)
  show ?thesis using assms nrefs_set_ofile [OF assms(2) len, of y]
    by (auto simp: fd_bal_def alive_def nth_list_update)
qed

section \<open>The file table\<close>

lemma bal_files:
  assumes "fd_bal s e" and "procs t = procs s" and "\<And>f. refc t f = refc s f + d f"
  shows "fd_bal t (\<lambda>f. e f + d f)"
  using assms by (simp add: fd_bal_def nrefs_def)

lemma filealloc_Some:
  assumes "filealloc s = (Some f, t)"
  shows "procs t = procs s" "refc t g = refc s g + of_bool (g = f)" "refc s f = 0"
proof -
  have "List.find (\<lambda>i. refc s i = 0) [0..<NFILE] = Some f" "t = fupd f (f_ref_update (\<lambda>_. 1)) s"
    using assms by (auto simp: filealloc_def split: option.splits)
  then show "procs t = procs s" "refc t g = refc s g + of_bool (g = f)" "refc s f = 0"
    using find_first(2) by (auto simp: fupd_def)
qed

lemma filealloc_None: "filealloc s = (None, t) \<Longrightarrow> t = s"
  by (auto simp: filealloc_def split: option.splits)

lemma filedup_Ok:
  assumes "filedup f s = Ok t"
  shows "procs t = procs s" "refc t g = refc s g + of_bool (g = f)"
  using assms by (auto simp: filedup_def fupd_def split: if_splits)

lemma pipeclose_same: "pipeclose pa w (s :: 'a kworld_scheme) = Ok t \<Longrightarrow> same s t"
  by (auto simp: pipeclose_def same_def Let_def rbind_Ok_iff split: option.splits if_splits)

lemma close_inode_same:
  fixes s :: "'a kworld_scheme"
  assumes "rbind (begin_op s) (\<lambda>s. rbind (iput pid i s) (\<lambda>s. end_op pid s)) = Ok t"
  shows "same s t"
proof (rule keep0_same [OF _ assms])
  show "keep0 s (rbind (begin_op s) (\<lambda>s. rbind (iput pid i s) (\<lambda>s. end_op pid s)))"
    by (intro keep_intros keep_inode) simp_all
qed

lemma fileclose_Ok:
  fixes s :: "'a kworld_scheme"
  assumes "fileclose pid f s = Ok t"
  shows "procs t = procs s" "refc t g = refc s g - of_bool (g = f)" "refc s f \<ge> 1"
proof -
  let ?s1 = "fupd f (f_ref_update (\<lambda>r. r - 1)) s"
  let ?s2 = "fupd f (\<lambda>f. f\<lparr>f_ref := 0, f_type := FD_NONE\<rparr>) ?s1"
  show r: "refc s f \<ge> 1" using assms by (auto simp: fileclose_def split: if_splits)
  have "same ?s1 t \<or> same ?s2 t \<and> \<not> refc ?s1 f > 0"
    using assms by (auto simp: fileclose_def Let_def split: if_splits fdtype.splits dest: pipeclose_same close_inode_same)
  moreover have "refc ?s2 g = refc ?s1 g" if "\<not> refc ?s1 f > 0" for g
    using that r by (auto simp: fupd_def)
  moreover have "refc ?s1 g = refc s g - of_bool (g = f)" for g by (simp add: fupd_def)
  moreover have "procs ?s1 = procs s" "procs ?s2 = procs s" by (simp_all add: fupd_def)
  ultimately show "procs t = procs s" "refc t g = refc s g - of_bool (g = f)" by (auto simp: same_def)
qed

lemma bal_fileclose:
  fixes s :: "'a kworld_scheme"
  assumes "fileclose pid f s = Ok t" and "fd_bal s e"
  shows "fd_bal t (\<lambda>g. e g - of_bool (g = f))"
  using bal_files [OF assms(2) fileclose_Ok(1) [OF assms(1)], of "\<lambda>g. - of_bool (g = f)"] fileclose_Ok(2) [OF assms(1)] by simp

lemma bal_filealloc: "filealloc s = (Some f, t) \<Longrightarrow> fd_bal s e \<Longrightarrow> fd_bal t (\<lambda>g. e g + of_bool (g = f))"
  by (rule bal_files) (simp_all add: filealloc_Some)

lemma bal_filedup: "filedup f s = Ok t \<Longrightarrow> fd_bal s e \<Longrightarrow> fd_bal t (\<lambda>g. e g + of_bool (g = f))"
  by (rule bal_files) (simp_all add: filedup_Ok)

lemma fdalloc_Some:
  assumes "fdalloc me f s = (Some k, t)"
  shows "k < NOFILE" "fds s me ! k = None" "t = set_ofile me k (Some f) s"
proof -
  have "List.find (\<lambda>fd. fds s me ! fd = None) [0..<NOFILE] = Some k" "t = set_ofile me k (Some f) s"
    using assms by (auto simp: fdalloc_def split: option.splits)
  then show "k < NOFILE" "fds s me ! k = None" "t = set_ofile me k (Some f) s" using find_first by blast+
qed

lemma fdalloc_None: "fdalloc me f s = (None, t) \<Longrightarrow> t = s"
  by (auto simp: fdalloc_def split: option.splits)

lemma bal_fdalloc:
  assumes "fdalloc me f s = (Some k, t)" and "fd_bal s e" and "alive s me"
  shows "fd_bal t (\<lambda>g. e g - of_bool (g = f))"
proof -
  note F = fdalloc_Some [OF assms(1)]
  have "me < NPROC" using assms(3) by (simp add: alive_def)
  then have "fd_bal t (\<lambda>g. e g + of_bool (fds s me ! k = Some g) - of_bool (Some f = Some g))"
    unfolding F(3) using bal_set_ofile [OF assms(2) _ F(1)] assms(3) by blast
  then show ?thesis using F(2) by (simp add: eq_commute)
qed

section \<open>System calls\<close>

lemma argfd_Some:
  assumes "argfd me n s = Ok (Some (k, f))"
  shows "k < NOFILE" "fds s me ! k = Some f"
  using assms by (auto simp: argfd_def rbind_Ok_iff split: if_splits option.splits)

lemma alive_set_ofile [simp]: "alive (set_ofile me k y s) i = alive s i"
  by (simp add: alive_def)

lemma alive_procs: "procs t = procs s \<Longrightarrow> alive s me \<Longrightarrow> alive t me"
  by (simp add: alive_def)

lemma inv_dup:
  assumes "fd_inv s" and "alive s me" and "sys_dup me s = Ok (v, t)"
  shows "fd_inv t"
proof -
  obtain r where r: "argfd me 0 s = Ok r" using assms(3) by (auto simp: sys_dup_def rbind_Ok_iff)
  show ?thesis
  proof (cases r)
    case None
    then show ?thesis using assms r by (simp add: sys_dup_def)
  next
    case (Some kf)
    obtain f where kf: "snd kf = f" by simp
    obtain q u where q: "fdalloc me f s = (q, u)" by fastforce
    show ?thesis
    proof (cases q)
      case None
      then show ?thesis using assms r Some kf q fdalloc_None by (auto simp: sys_dup_def split: prod.splits)
    next
      case (Some k)
      then have "filedup f u = Ok t" using assms(3) r q kf \<open>r = Some kf\<close> by (auto simp: sys_dup_def rbind_Ok_iff split: prod.splits)
      from bal_filedup [OF this bal_fdalloc [OF q [unfolded Some] assms(1) [unfolded fd_inv_def] assms(2)]]
      show ?thesis by (simp add: fd_inv_def)
    qed
  qed
qed

lemma inv_close:
  fixes s :: "'a kworld_scheme"
  assumes "fd_inv s" and "alive s me" and "sys_close me s = Ok (v, t)"
  shows "fd_inv t"
proof -
  obtain r where r: "argfd me 0 s = Ok r" using assms(3) by (auto simp: sys_close_def rbind_Ok_iff)
  show ?thesis
  proof (cases r)
    case None
    then show ?thesis using assms r by (simp add: sys_close_def)
  next
    case (Some kf)
    obtain k f where kf: "kf = (k, f)" by fastforce
    have A: "k < NOFILE" "fds s me ! k = Some f" using argfd_Some r Some kf by blast+
    have "fileclose (p_pid (procs s me)) f (set_ofile me k None s) = Ok t"
      using assms(3) r Some kf by (auto simp: sys_close_def rbind_Ok_iff)
    moreover have "fd_bal (set_ofile me k None s) (\<lambda>g. of_bool (g = f))"
      using bal_set_ofile [of s "\<lambda>_. 0" me k None] A assms(1,2) by (simp add: fd_inv_def alive_def eq_commute)
    ultimately show ?thesis using bal_fileclose by (fastforce simp: fd_inv_def)
  qed
qed

lemma close_both_Ok:
  fixes s :: "'a kworld_scheme"
  assumes "close_both pid f g s = Ok (v, t)" and "fd_bal s e"
  shows "fd_bal t (\<lambda>h. e h - of_bool (h = f) - of_bool (h = g))"
  using assms by (auto simp: close_both_def rbind_Ok_iff dest!: bal_fileclose)

lemma pipealloc_Ok:
  fixes s :: "'a kworld_scheme"
  assumes "pipealloc pid s = Ok (r, t)" and "fd_bal s e"
  shows "procs t = procs s \<and> (case r of None \<Rightarrow> fd_bal t e | Some (f, g) \<Rightarrow> fd_bal t (\<lambda>h. e h + of_bool (h = f) + of_bool (h = g)))"
proof -
  obtain r0 s0 where a0: "filealloc s = (r0, s0)" by fastforce
  show ?thesis
  proof (cases r0)
    case None
    then show ?thesis using assms a0 filealloc_None by (auto simp: pipealloc_def)
  next
    case (Some f)
    note F = bal_filealloc [OF a0 [unfolded Some] assms(2)] filealloc_Some(1) [OF a0 [unfolded Some]]
    obtain r1 s1 where a1: "filealloc s0 = (r1, s1)" by fastforce
    show ?thesis
    proof (cases r1)
      case None
      then have "fileclose pid f s0 = Ok t" "r = None"
        using assms a0 a1 Some filealloc_None by (auto simp: pipealloc_def rbind_Ok_iff)
      then show ?thesis using bal_fileclose [OF _ F(1)] fileclose_Ok(1) F(2) by fastforce
    next
      case (Some g)
      note G = bal_filealloc [OF a1 [unfolded Some] F(1)] filealloc_Some(1) [OF a1 [unfolded Some]]
      obtain pa k where k: "kalloc (km s1) = (pa, k)" by fastforce
      note eqs = a0 a1 Some \<open>r0 = Some f\<close> k
      have B: "fd_bal (s1\<lparr>km := k\<rparr>) (\<lambda>h. e h + of_bool (h = f) + of_bool (h = g))" using same_bal [OF same_km G(1)] .
      show ?thesis
      proof (cases "pa = 0")
        case True
        then obtain u where u: "fileclose pid f (s1\<lparr>km := k\<rparr>) = Ok u" "fileclose pid g u = Ok t" "r = None"
          using assms(1) eqs by (auto simp: pipealloc_def rbind_Ok_iff)
        then show ?thesis using bal_fileclose [OF u(2) bal_fileclose [OF u(1) B]] fileclose_Ok(1) [OF u(1)] fileclose_Ok(1) [OF u(2)] F(2) G(2)
          by simp
      next
        case False
        then have t: "t = fupd g (pipe_end True pa) (fupd f (pipe_end False pa) (s1\<lparr>km := k, pipes := (pipes s1)(pa \<mapsto> pipe_init)\<rparr>))" "r = Some (f, g)"
          using assms(1) eqs by (auto simp: pipealloc_def)
        have "procs t = procs s" using F(2) G(2) by (simp add: t fupd_def)
        moreover have "fd_bal t (\<lambda>h. e h + of_bool (h = f) + of_bool (h = g) + 0)"
          by (rule bal_files [OF B]) (simp_all add: t fupd_def pipe_end_def)
        ultimately show ?thesis using t(2) by simp
      qed
    qed
  qed
qed

lemma copyout_int_same: "copyout_int me dst src fd s = Ok (r, t) \<Longrightarrow> same s t"
  by (auto simp: copyout_int_def rbind_Ok_iff same_def)

lemma inv_pipe:
  fixes s :: "'a kworld_scheme"
  assumes "fd_inv s" and "alive s me" and "sys_pipe lcl me s = Ok (v, t)"
  shows "fd_inv t"
proof -
  let ?pid = "p_pid (procs s me)"
  have me: "me < NPROC" using assms(2) by (simp add: alive_def)
  obtain a r s1 where a: "argaddr me 0 s = Ok a" and p: "pipealloc ?pid s = Ok (r, s1)"
    using assms(3) by (auto simp: sys_pipe_def Let_def rbind_Ok_iff)
  note P = pipealloc_Ok [OF p assms(1) [unfolded fd_inv_def]]
  show ?thesis
  proof (cases r)
    case None
    then show ?thesis using assms(3) a p P by (simp add: sys_pipe_def Let_def fd_inv_def)
  next
    case (Some fg)
    obtain f g where fg: "fg = (f, g)" by fastforce
    have B1: "fd_bal s1 (\<lambda>h. of_bool (h = f) + of_bool (h = g))" and al1: "alive s1 me"
      using P Some fg assms(2) alive_procs by auto
    obtain q0 s2 where q0: "fdalloc me f s1 = (q0, s2)" by fastforce
    show ?thesis
    proof (cases q0)
      case None
      then have "close_both ?pid f g s1 = Ok (v, t)"
        using assms(3) a p Some fg q0 fdalloc_None by (auto simp: sys_pipe_def Let_def)
      from close_both_Ok [OF this B1] show ?thesis by (simp add: fd_inv_def)
    next
      case (Some k0)
      note K0 = fdalloc_Some [OF q0 [unfolded Some]]
      have B2: "fd_bal s2 (\<lambda>h. of_bool (h = g))" using bal_fdalloc [OF q0 [unfolded Some] B1 al1] by simp
      have al2: "alive s2 me" using al1 unfolding K0(3) by simp
      obtain q1 s3 where q1: "fdalloc me g s2 = (q1, s3)" by fastforce
      note eqs = a p \<open>r = Some fg\<close> fg q0 Some q1
      have len1: "length (fds s1 me) = NOFILE" using B1 me by (simp add: fd_bal_def)
      have at2: "fds s2 me ! k0 = Some f" using K0 len1 by simp
      show ?thesis
      proof (cases q1)
        case None
        then have c: "close_both ?pid f g (set_ofile me k0 None s2) = Ok (v, t)"
          using assms(3) eqs fdalloc_None by (auto simp: sys_pipe_def Let_def)
        have "fd_bal (set_ofile me k0 None s2) (\<lambda>h. of_bool (h = g) + of_bool (h = f))"
          using bal_set_ofile [OF B2 me K0(1), of None] at2 by (simp add: eq_commute)
        from close_both_Ok [OF c this] show ?thesis by (simp add: fd_inv_def)
      next
        case (Some k1)
        note K1 = fdalloc_Some [OF q1 [unfolded Some]]
        have B3: "fd_bal s3 (\<lambda>_. 0)" using bal_fdalloc [OF q1 [unfolded Some] B2 al2] by simp
        obtain r4 s4 where c4: "copyout_int me a (l_fd0 lcl) k0 s3 = Ok (r4, s4)"
          using assms(3) eqs Some by (auto simp: sys_pipe_def Let_def rbind_Ok_iff)
        obtain r5 s5 where c5: "(if r4 < 0 then Ok (r4, s4) else copyout_int me (a + 4) (l_fd1 lcl) k1 s4) = Ok (r5, s5)"
          using assms(3) eqs Some c4 by (auto simp: sys_pipe_def Let_def rbind_Ok_iff)
        have "same s3 s4" by (rule copyout_int_same [OF c4])
        moreover have "same s4 s5" using c5 copyout_int_same by (auto split: if_splits)
        ultimately have sm: "same s3 s5" by (rule same_trans)
        have B5: "fd_bal s5 (\<lambda>_. 0)" by (rule same_bal [OF sm B3])
        show ?thesis
        proof (cases "r5 < 0")
          case False
          then show ?thesis using assms(3) eqs Some c4 c5 B5 by (auto simp: sys_pipe_def Let_def fd_inv_def)
        next
          case True
          then have c: "close_both ?pid f g (set_ofile me k1 None (set_ofile me k0 None s5)) = Ok (v, t)"
            using assms(3) eqs Some c4 c5 by (auto simp: sys_pipe_def Let_def)
          have ne: "k1 \<noteq> k0" using K1(2) at2 by auto
          have len2: "length (fds s2 me) = NOFILE" using B2 me by (simp add: fd_bal_def)
          have f5: "fds s5 me = (fds s2 me)[k1 := Some g]" using sm K1(3) by (simp add: same_def)
          have at5: "fds s5 me ! k0 = Some f" "fds s5 me ! k1 = Some g" using ne at2 K1(1) len2 by (simp_all add: f5)
          have "fd_bal (set_ofile me k0 None s5) (\<lambda>h. of_bool (h = f))"
            using bal_set_ofile [OF B5 me K0(1), of None] at5 by (simp add: eq_commute)
          from bal_set_ofile [OF this me K1(1), of None]
          have "fd_bal (set_ofile me k1 None (set_ofile me k0 None s5)) (\<lambda>h. of_bool (h = f) + of_bool (h = g))"
            using at5 ne by (simp add: eq_commute)
          from close_both_Ok [OF c this] show ?thesis by (simp add: fd_inv_def)
        qed
      qed
    qed
  qed
qed

section \<open>open\<close>

lemma argpath_same: "argpath me n buf s = Ok (r, t) \<Longrightarrow> same s t"
  by (auto simp: argpath_def argstr_def fetchstr_def rbind_Ok_iff Let_def same_def split: if_splits option.splits)

lemma keep_p_namei: "fstate.more t = fstate.more s \<Longrightarrow> keep1 s (p_namei me path t)"
  unfolding p_namei_def by (intro keep_bind_other keep_namei)

lemma keep_p_nameiparent: "fstate.more t = fstate.more s \<Longrightarrow> keep1 s (p_nameiparent me path t)"
  unfolding p_nameiparent_def by (intro keep_bind_other keep_nameiparent)

lemmas keep_dir = keep_p_namei keep_p_nameiparent keep_dirlookup keep_dirlink

lemma keep_create_fail: "fstate.more t = fstate.more s \<Longrightarrow> keep1 s (create_fail pid dp ip t)"
  unfolding create_fail_def by (intro keep_intros keep_inode) simp_all

lemma keep_create_new: "fstate.more t = fstate.more s \<Longrightarrow> keep1 s (create_new pid pt dp name ty ma mi t)"
  unfolding create_new_def by (intro keep_intros keep_inode keep_dir keep_create_fail) simp_all

lemma keep_create: "fstate.more t = fstate.more s \<Longrightarrow> keep1 s (create me path ty ma mi t)"
  unfolding create_def by (intro keep_intros keep_inode keep_dir keep_create_new) simp_all

lemma keep_open_inode: "fstate.more t = fstate.more s \<Longrightarrow> keep1 s (open_inode me path omode t)"
  unfolding open_inode_def by (intro keep_intros keep_inode keep_dir keep_create) simp_all

lemma keep_open_bad: "fstate.more t = fstate.more s \<Longrightarrow> keep1 s (open_bad pid ip t)"
  unfolding open_bad_def by (intro keep_intros keep_inode) simp_all

lemma bal_open_file: "fd_bal s e \<Longrightarrow> fd_bal (fupd f (open_file ip omode u) s) e"
  using bal_files [of s e "fupd f (open_file ip omode u) s" "\<lambda>_. 0"] by (simp add: fupd_def open_file_def Let_def)

text \<open>The end of \<open>sys_open\<close>, from \<open>filealloc\<close> on.\<close>

definition open_rest :: "int \<Rightarrow> nat \<Rightarrow> nat \<Rightarrow> int \<Rightarrow> 'a kworld_scheme \<Rightarrow> (sysval \<times> 'a kworld_scheme) res" where
  "open_rest pid me ip omode s =
     (case filealloc s of
        (None, s) \<Rightarrow> open_bad pid ip s
      | (Some f, s) \<Rightarrow>
          (case fdalloc me f s of
             (None, s) \<Rightarrow> rbind (fileclose pid f s) (open_bad pid ip)
           | (Some fd, s) \<Rightarrow>
               let s = fupd f (open_file ip omode s) s in
               rbind (if omode AND O_TRUNC \<noteq> 0 \<and> i_type (inodes s ip) = T_FILE then itrunc pid ip s else Ok s) (\<lambda>s.
               rbind (iunlock pid ip s) (\<lambda>s.
               rbind (end_op pid s) (\<lambda>s. Ok (sys_int (int fd), s))))))"

lemma bal_open_rest:
  fixes s :: "'a kworld_scheme"
  assumes "fd_bal s e" and "alive s me" and "open_rest pid me ip omode s = Ok (v, t)"
  shows "fd_bal t e"
proof -
  obtain r s1 where a: "filealloc s = (r, s1)" by fastforce
  show ?thesis
  proof (cases r)
    case None
    then have "open_bad pid ip s = Ok (v, t)" using assms(3) a filealloc_None by (auto simp: open_rest_def)
    then show ?thesis using same_bal [OF keep1_same [OF keep_open_bad] assms(1)] by blast
  next
    case (Some f)
    note A = bal_filealloc [OF a [unfolded Some] assms(1)]
    have al: "alive s1 me" by (rule alive_procs [OF filealloc_Some(1) [OF a [unfolded Some]] assms(2)])
    obtain q s2 where q: "fdalloc me f s1 = (q, s2)" by fastforce
    show ?thesis
    proof (cases q)
      case None
      have "s2 = s1" using fdalloc_None [OF q [unfolded None]] .
      then obtain u where u: "fileclose pid f s1 = Ok u" "open_bad pid ip u = Ok (v, t)"
        using assms(3) a Some q None by (auto simp: open_rest_def rbind_Ok_iff)
      have "fd_bal u e" using bal_fileclose [OF u(1) A] by simp
      then show ?thesis using same_bal [OF keep1_same [OF keep_open_bad u(2)]] by simp
    next
      case (Some k)
      have B: "fd_bal s2 e" using bal_fdalloc [OF q [unfolded Some] A al] by simp
      let ?s = "fupd f (open_file ip omode s2) s2"
      have "keep1 ?s (rbind (if omode AND O_TRUNC \<noteq> 0 \<and> i_type (inodes ?s ip) = T_FILE then itrunc pid ip ?s else Ok ?s) (\<lambda>s.
               rbind (iunlock pid ip s) (\<lambda>s. rbind (end_op pid s) (\<lambda>s. Ok (sys_int (int k), s)))))"
        by (intro keep_intros keep_inode) simp_all
      moreover have "(rbind (if omode AND O_TRUNC \<noteq> 0 \<and> i_type (inodes ?s ip) = T_FILE then itrunc pid ip ?s else Ok ?s) (\<lambda>s.
               rbind (iunlock pid ip s) (\<lambda>s. rbind (end_op pid s) (\<lambda>s. Ok (sys_int (int k), s))))) = Ok (v, t)"
        using assms(3) a \<open>r = Some f\<close> q Some unfolding open_rest_def Let_def by simp
      ultimately have "same ?s t" by (rule keep1_same)
      then show ?thesis by (rule same_bal) (rule bal_open_file [OF B])
    qed
  qed
qed

lemma inv_open:
  fixes s :: "'a kworld_scheme"
  assumes "fd_inv s" and "alive s me" and "sys_open lcl me s = Ok (v, t)"
  shows "fd_inv t"
proof -
  let ?pid = "p_pid (procs s me)"
  obtain om r s1 where a: "argint me 1 s = Ok om" "argpath me 0 (l_path lcl) s = Ok (r, s1)"
    using assms(3) by (auto simp: sys_open_def Let_def rbind_Ok_iff)
  have S1: "same s s1" by (rule argpath_same [OF a(2)])
  show ?thesis
  proof (cases r)
    case None
    then have "t = s1" using assms(3) a by (simp add: sys_open_def Let_def)
    then show ?thesis using same_bal [OF S1] assms(1) by (simp add: fd_inv_def)
  next
    case (Some path)
    then obtain s2 r3 s3 where b: "begin_op s1 = Ok s2" "open_inode me path om s2 = Ok (r3, s3)"
      using assms(3) a by (auto simp: sys_open_def Let_def rbind_Ok_iff)
    have "same s1 s2" by (rule keep0_same [OF keep_begin_op b(1)]) simp
    moreover have "same s2 s3" by (rule keep1_same [OF keep_open_inode b(2)]) simp
    ultimately have S3: "same s s3" using S1 same_trans by blast
    have B3: "fd_bal s3 (\<lambda>_. 0)" and al3: "alive s3 me"
      using same_bal [OF S3] same_alive [OF S3] assms(1,2) by (simp_all add: fd_inv_def)
    show ?thesis
    proof (cases r3)
      case None
      have "keep1 s3 (rbind (end_op ?pid s3) (\<lambda>s. Ok (minus_one, s)))" by (intro keep_intros keep_inode) simp_all
      moreover have "rbind (end_op ?pid s3) (\<lambda>s. Ok (minus_one, s)) = Ok (v, t)"
        using assms(3) a Some b None by (simp add: sys_open_def Let_def)
      ultimately have "same s3 t" by (rule keep1_same)
      then show ?thesis using same_bal B3 by (auto simp: fd_inv_def)
    next
      case (Some ip)
      then have "open_bad ?pid ip s3 = Ok (v, t) \<or> open_rest ?pid me ip om s3 = Ok (v, t)"
        using assms(3) a \<open>r = Some path\<close> b unfolding sys_open_def Let_def open_rest_def by (simp split: if_splits)
      then show ?thesis
      proof
        assume "open_bad ?pid ip s3 = Ok (v, t)"
        then have "same s3 t" by (rule keep1_same [OF keep_open_bad, OF refl])
        then show ?thesis using same_bal B3 by (auto simp: fd_inv_def)
      next
        assume "open_rest ?pid me ip om s3 = Ok (v, t)"
        then show ?thesis using bal_open_rest [OF B3 al3] by (simp add: fd_inv_def)
      qed
    qed
  qed
qed

section \<open>fork, exit and wait\<close>

text \<open>Steps that leave descriptors and counts alone, and revive nobody.\<close>

definition tidy :: "'a kworld_scheme \<Rightarrow> 'a kworld_scheme \<Rightarrow> bool" where
  "tidy s t \<longleftrightarrow> files t = files s \<and>
     (\<forall>i. fds t i = fds s i \<and> (p_state (procs t i) \<in> {UNUSED, ZOMBIE} \<longrightarrow> p_state (procs s i) \<in> {UNUSED, ZOMBIE}))"

lemma tidy_bal: "tidy s t \<Longrightarrow> fd_bal s e \<Longrightarrow> fd_bal t e"
  by (simp add: tidy_def fd_bal_def nrefs_def) blast

lemma tidy_refl [simp]: "tidy s s"
  by (simp add: tidy_def)

lemma tidy_trans: "tidy s t \<Longrightarrow> tidy t u \<Longrightarrow> tidy s u"
  unfolding tidy_def by metis

lemma same_tidy: "same s t \<Longrightarrow> tidy s t"
  by (simp add: same_def tidy_def)

lemma tidy_pupd:
  "p_ofile (f (procs s i)) = p_ofile (procs s i) \<Longrightarrow> p_state (f (procs s i)) \<in> {UNUSED, ZOMBIE} \<longrightarrow> p_state (procs s i) \<in> {UNUSED, ZOMBIE} \<Longrightarrow>
   tidy s (pupd i f s)"
  by (simp add: tidy_def)

lemma files_wakeup [simp]: "files (wakeup me chan s) = files s"
proof -
  have "files (fold (wake_one me chan) l s) = files s" for l
    by (induction l arbitrary: s) (simp_all add: wake_one_def)
  then show ?thesis by (simp add: wakeup_def)
qed

lemma tidy_wakeup: "tidy s (wakeup me chan s)"
  by (simp add: tidy_def procs_wakeup)

lemma tidy_reparent: "tidy s (reparent p s)"
proof -
  have one: "tidy s (reparent_one p q s)" for q s
    unfolding reparent_one_def by (auto intro: tidy_trans [OF tidy_pupd tidy_wakeup])
  have "tidy s (fold (reparent_one p) l s)" for l
    by (induction l arbitrary: s) (auto intro: tidy_trans [OF one])
  then show ?thesis by (simp add: reparent_def)
qed

lemma tidy_allocproc:
  assumes "allocproc s = Ok (r, t)"
  shows "tidy s t" "r = Some np \<Longrightarrow> np < NPROC \<and> p_state (procs s np) = UNUSED \<and> p_state (procs t np) = USED"
  using allocproc_table [OF assms] by (auto simp: tidy_def split: if_splits)

text \<open>An existing process without descriptors may become unused or a zombie.\<close>

lemma bal_retire:
  assumes "fd_bal s e" and "\<forall>k<NOFILE. fds s i ! k = None" and "p_ofile (f (procs s i)) = p_ofile (procs s i)"
  shows "fd_bal (pupd i f s) e"
  using assms by (auto simp: fd_bal_def nrefs_def intro!: sum.cong)

lemma bal_freeproc:
  assumes "freeproc i s = Ok t" and "fd_bal s e" and "\<forall>k<NOFILE. fds s i ! k = None"
  shows "fd_bal t e"
proof -
  have "procs t = procs (pupd i freed_slot s)" "files t = files (pupd i freed_slot s)"
    using freeproc_table [OF assms(1)] by (simp_all add: procs_pupd_fun)
  moreover have "fd_bal (pupd i freed_slot s) e" by (rule bal_retire [OF assms(2,3)]) simp
  ultimately show ?thesis by (simp add: fd_bal_def nrefs_def)
qed

lemma rfold_inv:
  assumes "rfold f [0..<n] s = Ok t" and "P 0 s" and "\<And>i u v. i < n \<Longrightarrow> P i u \<Longrightarrow> f i u = Ok v \<Longrightarrow> P (Suc i) v"
  shows "P n t"
  using assms(1,3)
proof (induction n arbitrary: t)
  case 0
  then show ?case using assms(2) by simp
next
  case (Suc n)
  then obtain u where u: "rfold f [0..<n] s = Ok u" "f n u = Ok t" by (auto simp: rfold_append rbind_Ok_iff)
  then have "P n u" using Suc by simp
  then show ?case using Suc.prems(2) u(2) by simp
qed

lemma fork_files_step:
  assumes "fork_files me np k s = Ok t" and "me \<noteq> np" and "np < NPROC" and "k < NOFILE"
    and "fd_bal s e \<and> p_state (procs s np) = USED \<and> (\<forall>l<NOFILE. k \<le> l \<longrightarrow> fds s np ! l = None)"
  shows "fd_bal t e \<and> p_state (procs t np) = USED \<and> (\<forall>l<NOFILE. Suc k \<le> l \<longrightarrow> fds t np ! l = None)"
proof (cases "fds s me ! k")
  case None
  then show ?thesis using assms by (simp add: fork_files_def)
next
  case (Some f)
  then obtain u where u: "filedup f s = Ok u" "t = set_ofile np k (Some f) u"
    using assms(1) by (auto simp: fork_files_def rbind_Ok_iff set_ofile_def)
  have p: "procs u = procs s" by (rule filedup_Ok(1) [OF u(1)])
  have "fd_bal u (\<lambda>g. e g + of_bool (g = f))" using bal_filedup [OF u(1)] assms(5) by blast
  moreover have "alive u np" using assms(3,5) p by (simp add: alive_def)
  moreover have "fds u np ! k = None" using assms(4,5) p by simp
  ultimately have "fd_bal t e" unfolding u(2) using bal_set_ofile [of u "\<lambda>g. e g + of_bool (g = f)" np k "Some f"] assms(3,4)
    by (simp add: eq_commute)
  then show ?thesis using assms(5) p unfolding u(2) by simp
qed

lemma inv_fork:
  fixes s :: "'a kworld_scheme"
  assumes "fd_inv s" and "alive s me" and "sys_fork me s = Ok (v, t)"
  shows "fd_inv t"
proof -
  obtain r where r: "fork me s = Ok (r, t)" using assms(3) by (auto simp: sys_fork_def rbind_Ok_iff)
  obtain q s1 where a: "allocproc s = Ok (q, s1)" using r by (auto simp: fork_def rbind_Ok_iff)
  note T = tidy_allocproc [OF a]
  have B1: "fd_bal s1 (\<lambda>_. 0)" using tidy_bal [OF T(1)] assms(1) by (simp add: fd_inv_def)
  show ?thesis
  proof (cases q)
    case None
    then show ?thesis using r a B1 by (simp add: fork_def fd_inv_def)
  next
    case (Some np)
    have np: "np < NPROC" "p_state (procs s np) = UNUSED" "p_state (procs s1 np) = USED" using T(2) [OF Some] by auto
    then have ne: "me \<noteq> np" using assms(2) by (auto simp: alive_def)
    have none: "\<forall>k<NOFILE. fds s1 np ! k = None" using T(1) assms(1) np by (simp add: fd_inv_def fd_bal_def tidy_def)
    obtain u k where u: "uvmcopy (km s1) (p_pagetable (procs s1 me)) (p_pagetable (procs s1 np)) (p_sz (procs s1 me)) = Ok (u, k)"
      using r a Some by (auto simp: fork_def rbind_Ok_iff Let_def)
    show ?thesis
    proof (cases "u < 0")
      case True
      then have "freeproc np (s1\<lparr>km := k\<rparr>) = Ok t" using r a Some u by (auto simp: fork_def rbind_Ok_iff Let_def)
      then show ?thesis using bal_freeproc [OF _ same_bal [OF same_km B1]] none by (simp add: fd_inv_def)
    next
      case False
      define s2 where "s2 = (let s = s1\<lparr>km := k\<rparr>; p = procs s1 me; s = pupd np (p_sz_update (\<lambda>_. p_sz p)) s; ctf = p_trapframe (procs s np);
         m = poke (k_mem (km s)) ctf (peek (k_mem (km s)) (p_trapframe p) TF_SIZE) in s\<lparr>km := (km s)\<lparr>k_mem := store64 m (ctf + TF_a0) 0\<rparr>\<rparr>)"
      have t2: "tidy s1 s2" by (simp add: s2_def Let_def tidy_def)
      have st2: "p_state (procs s2 np) = USED" using np(3) by (simp add: s2_def Let_def)
      obtain s3 c where l: "rfold (fork_files me np) [0..<NOFILE] s2 = Ok s3" and c: "p_cwd (procs s1 me) = Some c"
        and t: "t = fork_end me np (pupd np (\<lambda>q. q\<lparr>p_cwd := Some c, p_name := p_name (procs s1 me)\<rparr>) (idup c s3))"
        using r a Some u False by (auto simp: fork_def rbind_Ok_iff Let_def s2_def split: option.splits)
      let ?P = "\<lambda>k s. fd_bal s (\<lambda>_. 0) \<and> p_state (procs s np) = USED \<and> (\<forall>l<NOFILE. k \<le> l \<longrightarrow> fds s np ! l = None)"
      have "?P NOFILE s3"
      proof (rule rfold_inv [where P = ?P, OF l])
        show "?P 0 s2" using tidy_bal [OF t2 B1] st2 none t2 by (simp add: tidy_def)
        show "?P (Suc i) w" if "i < NOFILE" "?P i u'" "fork_files me np i u' = Ok w" for i u' w
          using fork_files_step [OF that(3) ne np(1) that(1,2)] .
      qed
      then have B3: "fd_bal s3 (\<lambda>_. 0)" by simp
      have "tidy s3 (idup c s3)" by (simp add: idup_def iupd_def tidy_def)
      moreover have "tidy (idup c s3) t" unfolding t fork_end_def by (simp add: tidy_def)
      ultimately show ?thesis using tidy_bal [OF tidy_trans B3] by (simp add: fd_inv_def)
    qed
  qed
qed

lemma exit_files_step:
  fixes s :: "'a kworld_scheme"
  assumes "exit_files me k s = Ok t" and "me < NPROC" and "k < NOFILE"
    and "fd_bal s e \<and> (\<forall>l<k. fds s me ! l = None)"
  shows "fd_bal t e \<and> (\<forall>l<Suc k. fds t me ! l = None)"
proof (cases "fds s me ! k")
  case None
  then show ?thesis using assms by (auto simp: exit_files_def less_Suc_eq)
next
  case (Some f)
  then obtain u where u: "fileclose (p_pid (procs s me)) f s = Ok u" "t = set_ofile me k None u"
    using assms(1) by (auto simp: exit_files_def rbind_Ok_iff set_ofile_def)
  have p: "procs u = procs s" by (rule fileclose_Ok(1) [OF u(1)])
  have "fd_bal u (\<lambda>g. e g - of_bool (g = f))" using bal_fileclose [OF u(1)] assms(4) by blast
  then have "fd_bal t e" unfolding u(2) using bal_set_ofile [of u "\<lambda>g. e g - of_bool (g = f)" me k None] assms(2,3) Some p
    by (simp add: eq_commute)
  moreover have "length (fds u me) = NOFILE" using assms(2,4) p by (simp add: fd_bal_def)
  ultimately show ?thesis using assms(3,4) p unfolding u(2) by (auto simp: less_Suc_eq nth_list_update)
qed

lemma inv_exit:
  fixes s :: "'a kworld_scheme"
  assumes "fd_inv s" and "alive s me" and "sys_exit me s = Ok (v, t)"
  shows "fd_inv t"
proof -
  have me: "me < NPROC" using assms(2) by (simp add: alive_def)
  obtain n where n: "exit me n s = Ok t" using assms(3) by (auto simp: sys_exit_def rbind_Ok_iff)
  obtain s1 s2 c s3 s4 where l: "rfold (exit_files me) [0..<NOFILE] s = Ok s1" and b: "begin_op s1 = Ok s2"
    and c: "p_cwd (procs s2 me) = Some c" "iput (p_pid (procs s2 me)) c s2 = Ok s3" "end_op (p_pid (procs s3 me)) s3 = Ok s4"
    and t: "t = exit_end me n (pupd me (p_cwd_update (\<lambda>_. None)) s4)"
    using n by (auto simp: exit_def rbind_Ok_iff split: if_splits option.splits)
  let ?P = "\<lambda>k s. fd_bal s (\<lambda>_. 0) \<and> (\<forall>l<k. fds s me ! l = None)"
  have P1: "?P NOFILE s1"
  proof (rule rfold_inv [where P = ?P, OF l])
    show "?P 0 s" using assms(1) by (simp add: fd_inv_def)
    show "?P (Suc i) w" if "i < NOFILE" "?P i u" "exit_files me i u = Ok w" for i u w
      using exit_files_step [OF that(3) me that(1,2)] .
  qed
  have "same s1 s2" by (rule keep0_same [OF keep_begin_op b]) simp
  moreover have "same s2 s3" by (rule keep0_same [OF keep_iput c(2)]) simp
  moreover have "same s3 s4" by (rule keep0_same [OF keep_end_op c(3)]) simp
  ultimately have S: "same s1 s4" using same_trans by blast
  let ?a = "pupd me (p_cwd_update (\<lambda>_. None)) s4"
  let ?b = "wakeup (Some me) (proc_addr (reparent me ?a) (p_parent (procs (reparent me ?a) me))) (reparent me ?a)"
  have "tidy s4 ?a" by (rule tidy_pupd) simp_all
  then have T: "tidy s1 ?b"
    using tidy_trans [OF same_tidy [OF S] tidy_trans [OF _ tidy_trans [OF tidy_reparent tidy_wakeup]]] by blast
  have "fd_bal ?b (\<lambda>_. 0)" using tidy_bal [OF T] P1 by blast
  moreover have "\<forall>k<NOFILE. fds ?b me ! k = None" using T P1 by (simp add: tidy_def)
  ultimately have "fd_bal t (\<lambda>_. 0)" unfolding t exit_end_def Let_def by (rule bal_retire) simp
  then show ?thesis by (simp add: fd_inv_def)
qed

lemma inv_wait:
  fixes s :: "'a kworld_scheme"
  assumes "fd_inv s" and "alive s me" and "sys_wait me s = Ok (v, t)"
  shows "fd_inv t"
proof -
  obtain addr r where w: "wait me addr s = Ok (r, t)" using assms(3) by (auto simp: sys_wait_def rbind_Ok_iff)
  let ?kids = "filter (\<lambda>i. p_parent (procs s i) = Some me) [0..<NPROC]"
  have B: "fd_bal s (\<lambda>_. 0)" using assms(1) by (simp add: fd_inv_def)
  show ?thesis
  proof (cases "List.find (\<lambda>i. p_state (procs s i) = ZOMBIE) ?kids")
    case None
    have "tidy s t" using w None unfolding wait_def Let_def by (auto simp: sleep_def tidy_def split: if_splits)
    then show ?thesis using tidy_bal B by (auto simp: fd_inv_def)
  next
    case (Some i)
    then have i: "i < NPROC" "p_state (procs s i) = ZOMBIE" by (auto simp: find_Some_iff dest!: nth_mem)
    then have none: "\<forall>k<NOFILE. fds s i ! k = None" using B by (simp add: fd_bal_def)
    obtain k where "t = s\<lparr>km := k\<rparr> \<or> freeproc i (s\<lparr>km := k\<rparr>) = Ok t \<or> freeproc i s = Ok t"
      using w Some unfolding wait_def Let_def by (auto simp: rbind_Ok_iff split: if_splits)
    then show ?thesis
      using same_bal [OF same_km B] bal_freeproc [OF _ same_bal [OF same_km B]] bal_freeproc [OF _ B] none by (auto simp: fd_inv_def)
  qed
qed

section \<open>Every sequence of calls\<close>

inductive fdstep :: "kworld \<Rightarrow> kworld \<Rightarrow> bool" where
  "alive s me \<Longrightarrow> sys_dup me s = Ok (v, t) \<Longrightarrow> fdstep s t"
| "alive s me \<Longrightarrow> sys_close me s = Ok (v, t) \<Longrightarrow> fdstep s t"
| "alive s me \<Longrightarrow> sys_open lcl me s = Ok (v, t) \<Longrightarrow> fdstep s t"
| "alive s me \<Longrightarrow> sys_pipe lcl me s = Ok (v, t) \<Longrightarrow> fdstep s t"
| "alive s me \<Longrightarrow> sys_fork me s = Ok (v, t) \<Longrightarrow> fdstep s t"
| "alive s me \<Longrightarrow> sys_exit me s = Ok (v, t) \<Longrightarrow> fdstep s t"
| "alive s me \<Longrightarrow> sys_wait me s = Ok (v, t) \<Longrightarrow> fdstep s t"
| "tidy s t \<Longrightarrow> fdstep s t"

inductive fdreach :: "kworld \<Rightarrow> kworld \<Rightarrow> bool" for s0 where
  fd_start: "fdreach s0 s0"
| fd_more: "fdreach s0 s \<Longrightarrow> fdstep s t \<Longrightarrow> fdreach s0 t"

lemma fdstep_inv: "fdstep s t \<Longrightarrow> fd_inv s \<Longrightarrow> fd_inv t"
  by (induction rule: fdstep.induct)
    (blast intro: inv_dup inv_close inv_open inv_pipe inv_fork inv_exit inv_wait tidy_bal [of _ _ "\<lambda>_. 0", folded fd_inv_def])+

text \<open>
  C3: reference counts are exact. After every sequence of dup, close, open, pipe, fork, exit and wait (successful or failing) and of steps that do not handle
  descriptors, the count of every open file is the number of descriptors that refer to it; so every descriptor's file is open, and a file without
  descriptors is free.
\<close>

theorem file_refs_exact:
  assumes "fdreach s0 s" and "fd_inv s0"
  shows "(\<forall>f. f_ref (files s f) = (\<Sum>i<NPROC. int (count_list (p_ofile (procs s i)) (Some f)))) \<and>
    (i < NPROC \<and> k < NOFILE \<and> p_ofile (procs s i) ! k = Some f \<longrightarrow> f_ref (files s f) \<ge> 1)"
proof -
  have inv: "fd_inv s" using assms by (induction rule: fdreach.induct) (auto intro: fdstep_inv)
  then have r: "refc s f = (\<Sum>i<NPROC. int (count_list (fds s i) (Some f)))" for f
    by (simp add: fd_inv_def fd_bal_def nrefs_def)
  have "refc s f \<ge> 1" if h: "i < NPROC" "k < NOFILE" "fds s i ! k = Some f"
  proof -
    have "length (fds s i) = NOFILE" using inv h(1) by (simp add: fd_inv_def fd_bal_def)
    then have "Some f \<in> set (fds s i)" using h(2,3) nth_mem by metis
    then have "1 \<le> int (count_list (fds s i) (Some f))" by (simp add: Suc_le_eq count_list_0_iff flip: neq0_conv)
    also have "\<dots> \<le> (\<Sum>i<NPROC. int (count_list (fds s i) (Some f)))" by (rule member_le_sum) (use h(1) in auto)
    finally show ?thesis using r by simp
  qed
  then show ?thesis using r by blast
qed

text \<open>A process in slot 3 with file 5 open as descriptor 0; its argument registers are 0.\<close>

definition fd_world :: kworld where
  "fd_world = boot_world\<lparr>procs := (\<lambda>_. idle_proc)(3 := idle_proc\<lparr>p_state := RUNNING, p_ofile := Some 5 # replicate 15 None\<rparr>),
     files := (\<lambda>_. \<lparr>f_type = FD_NONE, f_ref = 0, f_readable = False, f_writable = False, f_pipe = 0, f_ip = 0, f_off = 0, f_major = 0\<rparr>)
       (5 := \<lparr>f_type = FD_INODE, f_ref = 1, f_readable = True, f_writable = True, f_pipe = 0, f_ip = 0, f_off = 0, f_major = 0\<rparr>)\<rparr>"

lemma fd_world_inv: "fd_inv fd_world"
proof -
  have c: "count_list (fds fd_world i) (Some f) = (if i = 3 then of_bool (f = 5) else 0)" for i f
    by (simp add: fd_world_def)
  have "nrefs fd_world f = of_bool (f = 5)" for f unfolding nrefs_def c by simp
  then show ?thesis by (auto simp: fd_inv_def fd_bal_def fd_world_def nth_Cons split: nat.splits)
qed

theorem file_refs_exact_witness:
  "\<exists>t. fdreach fd_world t \<and> p_ofile (procs t 3) ! 1 = Some 5 \<and> f_ref (files t 5) \<ge> 1 \<and>
    f_ref (files t 5) = (\<Sum>i<NPROC. int (count_list (p_ofile (procs t i)) (Some 5)))"
proof -
  let ?t = "fupd 5 (f_ref_update (\<lambda>r. r + 1)) (set_ofile 3 1 (Some 5) fd_world)"
  have z: "load64 (k_mem (km fd_world)) a = 0" for a
    by (simp add: fd_world_def boot_world_def empty_space_def load64_def le_word_def)
  have u: "[0..<16] = 0 # 1 # [2..<16]" by (simp add: upt_rec)
  have "argfd 3 0 fd_world = Ok (Some (0, 5))"
    by (simp add: argfd_def argint_def argraw_def z) (simp add: fd_world_def)
  moreover have "fdalloc 3 5 fd_world = (Some 1, set_ofile 3 1 (Some 5) fd_world)"
    unfolding fdalloc_def NOFILE_def u by (simp add: fd_world_def)
  moreover have "filedup 5 (set_ofile 3 1 (Some 5) fd_world) = Ok ?t" by (simp add: filedup_def) (simp add: fd_world_def)
  ultimately have "sys_dup 3 fd_world = Ok (sys_int 1, ?t)" by (simp add: sys_dup_def)
  moreover have "alive fd_world 3" by (simp add: alive_def fd_world_def)
  ultimately have r: "fdreach fd_world ?t" using fd_more [OF fd_start] fdstep.intros(1) by blast
  have o: "p_ofile (procs ?t 3) ! 1 = Some 5" by (simp add: fupd_def) (simp add: fd_world_def)
  show ?thesis using file_refs_exact [OF r fd_world_inv, of 3 1 5] r o by (intro exI [of _ ?t]) auto
qed

end
