(* ===== verification/Xv6_Image.thy ===== *)
theory Xv6_Image
  imports Xv6_Proc
begin

text \<open>
  The address space of a process as \<^verbatim>\<open>kernel/proc.c\<close> builds it: the user's pages from address 0, and the trampoline and the trap frame at the
  top, which user code cannot reach. \<open>uimage F k pt n\<close> says that the table \<open>pt\<close> maps such a space with \<open>n\<close> user pages, and that \<open>F\<close> is exactly its tables, its pages and
  the free pages. The operations that \<open>exec\<close> uses keep \<open>F\<close>: what they take and give back stays inside.
\<close>

definition uimage :: "u64 set \<Rightarrow> kmem \<Rightarrow> u64 \<Rightarrow> nat \<Rightarrow> bool" where
  "uimage F k pt n \<longleftrightarrow> as_inv k pt n \<and> F = free_pages k \<union> tabs k pt \<union> upages k pt 0 n \<and>
     (\<forall>va. 4096 * n \<le> unat va \<and> unat va < unat TRAPFRAME \<longrightarrow> xlate k pt va = None) \<and>
     (\<forall>va. unat TRAPFRAME \<le> unat va \<and> unat va < 2 ^ 38 \<longrightarrow>
        pte_valid (pte k pt va) \<and> PTE_FLAGS (pte k pt va) \<noteq> PTE_V \<and> pte k pt va AND PTE_U = 0)"

lemma uimageD:
  assumes "uimage F k pt n"
  shows "as_inv k pt n" "F = free_pages k \<union> tabs k pt \<union> upages k pt 0 n" "kinv k"
    "4096 * n \<le> unat va \<Longrightarrow> unat va < unat TRAPFRAME \<Longrightarrow> xlate k pt va = None"
    "unat TRAPFRAME \<le> unat va \<Longrightarrow> unat va < 2 ^ 38 \<Longrightarrow> pte_valid (pte k pt va)"
    "unat TRAPFRAME \<le> unat va \<Longrightarrow> unat va < 2 ^ 38 \<Longrightarrow> PTE_FLAGS (pte k pt va) \<noteq> PTE_V"
    "unat TRAPFRAME \<le> unat va \<Longrightarrow> unat va < 2 ^ 38 \<Longrightarrow> pte k pt va AND PTE_U = 0"
  using assms as_invD(5) [of k pt n] unfolding uimage_def by blast+

section \<open>Growing\<close>

lemma grew_uimage:
  assumes u: "uimage F s pt j" and g: "grew s s' pt j k"
  shows "uimage F s' pt k" "agree (- F) (k_mem s) (k_mem s')"
proof -
  note U = uimageD [OF u] and G = grewD [OF g]
  have small: "k \<le> 0x88000" by (rule as_inv_small [OF G(1)])
  have up: "upages s' pt 0 k = upages s pt 0 j \<union> upages s' pt j k"
  proof -
    have "nth_page s' pt 0 i = nth_page s pt 0 i" if "i < j" for i
      using grew_pte [OF g U(1) that] by (simp add: nth_page_0)
    moreover have "{0..<k} = {0..<j} \<union> {j..<k}" using G(2) by auto
    ultimately show ?thesis unfolding upages_def by (simp add: image_Un)
  qed
  have F: "F = free_pages s' \<union> tabs s' pt \<union> upages s' pt 0 k" unfolding up using U(2) G(4,5) by blast
  have top: "xlate s' pt va = xlate s pt va" if "4096 * k \<le> unat va" "unat va < 2 ^ 38" for va
    using G(6) [OF that(2)] that(1) by simp
  have hi: "pte s' pt va = pte s pt va" if "unat TRAPFRAME \<le> unat va" "unat va < 2 ^ 38" for va
  proof -
    have "4096 * k \<le> unat va" using that(1) small by simp
    then show ?thesis using top [OF _ that(2)] U(5) [OF that] by (simp add: xlate_def split: if_splits)
  qed
  have lo: "xlate s' pt va = None" if "4096 * k \<le> unat va" "unat va < unat TRAPFRAME" for va
    using top [of va] U(4) [of va] that G(2) by simp
  show "uimage F s' pt k" unfolding uimage_def using G(1) F lo hi U(5-7) by simp
  show "agree (- F) (k_mem s) (k_mem s')" using G(7) by (rule agree_mono) (use U(2) in blast)
qed

lemma uimage_alloc:
  assumes u: "uimage F k pt (npg sz)" and a: "uvmalloc k pt sz newsz xperm = Ok (r, k')" and x: "ucast (PTE_R OR PTE_U) OR xperm < (1024 :: u32)"
  shows "uimage F k' pt (npg (if r = 0 then sz else r)) \<and> agree (- F) (k_mem k) (k_mem k') \<and>
    (r \<noteq> 0 \<longrightarrow> r = (if newsz < sz then sz else newsz) \<and>
      (\<forall>i. npg sz \<le> i \<and> i < npg r \<longrightarrow> pte k' pt (pva i) = leaf_pte (nth_page k' pt 0 i) (ucast (PTE_R OR PTE_U) OR xperm)))"
proof (cases "newsz < sz")
  case True
  then have "r = sz" "k' = k" using a by (simp_all add: uvmalloc_def)
  then show ?thesis using u True by (auto simp: word_less_nat_alt split: if_splits)
next
  case False
  note U = uimageD [OF u]
  have "npg sz \<le> 0x88000" by (rule as_inv_small [OF U(1)])
  then have "unat sz \<le> 2 ^ 38" using npg_bounds(1) [of sz] by simp
  then have r: "PGROUNDUP sz = pva (npg sz)" by (simp add: PGROUNDUP_npg)
  have eq: "uvmalloc k pt sz newsz xperm = uvmalloc_loop k pt (pva (npg sz)) (pva (npg sz)) newsz xperm"
    using False by (auto simp: uvmalloc_def r)
  have le: "npg sz \<le> npg newsz" using False by (intro npg_mono) simp
  have none: "xlate k pt va = None" if "4096 * npg sz \<le> unat va" "unat va < 4096 * npg newsz" "unat va < 4096 * 0x88001" for va
    using U(4) [of va] that by simp
  obtain r' s' where R: "uvmalloc k pt sz newsz xperm = Ok (r', s')"
    "r' = newsz \<and> grew k s' pt (npg sz) (npg newsz) \<and>
       (\<forall>i. npg sz \<le> i \<and> i < npg newsz \<longrightarrow> zero_page s' pt (ucast (PTE_R OR PTE_U) OR xperm) i) \<or>
     r' = 0 \<and> grew k s' pt (npg sz) (npg sz)"
    unfolding eq using uvmalloc_loop_spec [OF grew_refl [OF U(1)] U(1) le refl x none] by auto
  have [simp]: "r' = r" "s' = k'" using R(1) a by simp_all
  have g: "grew k k' pt (npg sz) (npg (if r = 0 then sz else r))"
  proof (cases "r = 0")
    case True
    then have "newsz = 0 \<and> grew k k' pt (npg sz) (npg newsz) \<or> grew k k' pt (npg sz) (npg sz)" using R(2) by auto
    then show ?thesis using True False by (auto simp: word_gt_0)
  qed (use R(2) in auto)
  then show ?thesis using grew_uimage [OF u g] R(2) False by (auto simp: zero_page_def)
qed

section \<open>Writing into it\<close>

lemma uimage_frame:
  assumes u: "uimage F k pt n" and ag: "agree (tabs k pt \<union> free_pages k) (k_mem k) m"
  shows "uimage F (k\<lparr>k_mem := m\<rparr>) pt n" "pte (k\<lparr>k_mem := m\<rparr>) pt = pte k pt"
proof -
  note U = uimageD [OF u]
  let ?k = "k\<lparr>k_mem := m\<rparr>"
  have "agree (free_pages k) (k_mem k) m" using ag by (rule agree_mono) simp
  from kinv_mem [OF U(3) this] have K: "kinv ?k" "free_pages ?k = free_pages k" by simp_all
  have "agree (tabs k pt) (k_mem k) (k_mem ?k)" using ag by (simp, rule agree_mono) simp
  then have A: "as_inv ?k pt n" "tabs ?k pt = tabs k pt" "\<And>va. pte ?k pt va = pte k pt va" "\<And>a i. nth_page ?k pt a i = nth_page k pt a i"
    using as_frame [OF U(1) K(1)] K(2) by auto
  show "pte ?k pt = pte k pt" using A(3) by (rule ext)
  have "upages ?k pt 0 n = upages k pt 0 n" by (simp add: upages_def A(4))
  then have "F = free_pages ?k \<union> tabs ?k pt \<union> upages ?k pt 0 n" using K(2) A(2) U(2) by simp
  moreover have "xlate ?k pt va = xlate k pt va" for va by (simp add: xlate_def A(3))
  ultimately show "uimage F ?k pt n" unfolding uimage_def using A(1,3) U(4-7) by simp
qed

lemma uimage_own: "uimage F k pt n \<Longrightarrow> upages k pt 0 n \<inter> (tabs k pt \<union> free_pages k) = {}"
  using as_invD(10,11) [OF uimageD(1) [of F k pt n]] unfolding upages_def by auto

lemma uimage_user:
  assumes u: "uimage F k pt n"
  shows "user_pages k pt \<subseteq> upages k pt 0 n" "user_ok k pt"
proof -
  note U = uimageD [OF u]
  show up: "user_pages k pt \<subseteq> upages k pt 0 n"
  proof
    fix p assume "p \<in> user_pages k pt"
    then obtain va where va: "unat va < 2 ^ 38" "pte_valid (pte k pt va)" "pte k pt va AND PTE_U \<noteq> 0" "p = PTE2PA (pte k pt va)"
      unfolding user_pages_def by blast
    have "unat va < 4096 * n" using U(4) [of va] U(7) [of va] va by (fastforce simp: not_le)
    then have i: "unat va div 4096 < n" by (simp add: less_mult_imp_div_less mult.commute)
    have b: "4096 * (unat va div 4096) \<le> unat va" by simp
    have up: "unat (pva (unat va div 4096)) = 4096 * (unat va div 4096)" using b va(1) by (intro unat_pva) simp
    then have "PGROUNDDOWN (pva (unat va div 4096)) = PGROUNDDOWN va" by (simp add: word_unat_eq_iff unat_PGROUNDDOWN)
    then have "pte k pt (pva (unat va div 4096)) = pte k pt va" using va(1) up b by (intro pte_same_page) simp_all
    then show "p \<in> upages k pt 0 n" unfolding upages_def va(4) using i by (auto simp: nth_page_0 intro!: image_eqI [of _ _ "unat va div 4096"])
  qed
  show "user_ok k pt" unfolding user_ok_def using as_invD(1) [OF U(1)] uimage_own [OF u] up by blast
qed

lemma copyout_mem: "copyout s pt va src len = Ok (r, s') \<Longrightarrow> \<exists>m. s' = s\<lparr>k_mem := m\<rparr>"
proof (induction s pt va src len rule: copyout.induct)
  case (1 s pt va src len)
  have id: "\<exists>m. s = s\<lparr>k_mem := m\<rparr>" by (rule exI [of _ "k_mem s"]) simp
  show ?case
    using "1.prems" id
    by (subst (asm) copyout.simps) (auto simp: Let_def rbind_Ok_iff split: if_splits prod.splits dest!: "1.IH")
qed

lemma uimage_copyout:
  assumes u: "uimage F k pt n" and c: "copyout k pt va src len = Ok (r, k')"
  shows "uimage F k' pt n" "agree (- F) (k_mem k) (k_mem k')" "pte k' pt = pte k pt"
proof -
  note I = uimage_user [OF u]
  have a: "agree (- user_writable k pt) (k_mem k) (k_mem k')" using copyout_safe [OF I(2), of va src len] c by auto
  obtain m where m: "k' = k\<lparr>k_mem := m\<rparr>" using copyout_mem [OF c] by blast
  have w: "user_writable k pt \<subseteq> upages k pt 0 n" using I(1) user_writable_subset by blast
  have "agree (tabs k pt \<union> free_pages k) (k_mem k) (k_mem k')" using a by (rule agree_mono) (use w uimage_own [OF u] in blast)
  then have "agree (tabs k pt \<union> free_pages k) (k_mem k) m" unfolding m by simp
  note fr = uimage_frame [OF u this]
  show "uimage F k' pt n" "pte k' pt = pte k pt" using fr unfolding m by auto
  show "agree (- F) (k_mem k) (k_mem k')" using a by (rule agree_mono) (use w uimageD(2) [OF u] in blast)
qed

lemma bit_PTE_U: "bit PTE_U i \<longleftrightarrow> i = 4" "e AND PTE_U = 0 \<longleftrightarrow> \<not> bit e 4"
proof -
  have e: "PTE_U = 2 ^ 4" by (simp add: PTE_U_def)
  show "bit PTE_U i \<longleftrightarrow> i = 4" unfolding e bit_exp_iff by auto
  show "e AND PTE_U = 0 \<longleftrightarrow> \<not> bit e 4" for e unfolding e and_exp_eq_0_iff_not_bit ..
qed

text \<open>\<open>uvmclear\<close> on a page that stays readable for the kernel.\<close>

lemma uimage_clear:
  assumes u: "uimage F k pt n" and j: "j < n" and R: "pte k pt (pva j) AND PTE_R \<noteq> 0" and c: "uvmclear k pt (pva j) = Ok k'"
  shows "uimage F k' pt n" "agree (- F) (k_mem k) (k_mem k')"
proof -
  note U = uimageD [OF u]
  note I = as_invD [OF U(1)]
  have small: "n \<le> 0x88000" by (rule as_inv_small [OF U(1)])
  have up: "unat (pva i) = 4096 * i" if "i < n" for i using that small by (intro unat_pva) simp
  have lt: "unat (pva j) < 2 ^ 38" using up [OF j] j small by simp
  obtain q where q: "walk k pt (pva j) False = Ok (slot q (ix 0 (pva j)), k)" "slot q (ix 0 (pva j)) \<noteq> 0"
    "leaf_tab (k_mem k) 2 pt (pva j) = Some q" "load64 (k_mem k) (slot q (ix 0 (pva j))) = pte k pt (pva j)"
    using I(1) lt I(7) [OF j] by (rule walk_mapped)
  let ?e = "pte k pt (pva j) AND NOT PTE_U"
  have k': "k' = k\<lparr>k_mem := store64 (k_mem k) (slot q (ix 0 (pva j))) ?e\<rparr>" using c q by (simp add: uvmclear_def)
  note st = vm_stepD [OF vm_step_store [OF I(1) q(3) lt, of ?e], folded k']
  have e: "pte_valid ?e" "PTE2PA ?e = PTE2PA (pte k pt (pva j))" "PTE_FLAGS ?e \<noteq> PTE_V"
  proof -
    note bU = bit_PTE_U(1)
    show "pte_valid ?e" using I(7) [OF j] by (simp add: pte_valid_bit bit_simps bU)
    show "PTE2PA ?e = PTE2PA (pte k pt (pva j))" unfolding PTE2PA_def
      by (rule bit_word_eqI) (auto simp: bit_simps bU)
    have "bit (pte k pt (pva j)) 1" using R by (simp add: pte_bits and_exp_eq_0_iff_not_bit [of _ 1, simplified])
    then have "bit (PTE_FLAGS ?e) 1" by (simp add: PTE_FLAGS_def bit_simps bU)
    moreover have "\<not> bit PTE_V 1" by (simp add: pte_bits)
    ultimately show "PTE_FLAGS ?e \<noteq> PTE_V" by auto
  qed
  have al: "page_aligned (pva j)" using j small by (intro page_aligned_pva) simp
  have pg: "PGROUNDDOWN va = PGROUNDDOWN (pva j) \<longleftrightarrow> 4096 * j \<le> unat va \<and> unat va < 4096 * j + 4096" for va
    using page_range [OF al, of va] up [OF j] PGROUNDDOWN_aligned [OF al] by simp
  have P: "pte k' pt va = (if 4096 * j \<le> unat va \<and> unat va < 4096 * j + 4096 then ?e else pte k pt va)" if "unat va < 2 ^ 38" for va
    using st(5) [OF that] unfolding pg .
  have Pi: "pte k' pt (pva i) = (if i = j then ?e else pte k pt (pva i))" if "i < n" for i
    using P [of "pva i"] up [OF that] that small by auto
  then have N: "nth_page k' pt 0 i = nth_page k pt 0 i" if "i < n" for i using that e(2) by (simp add: nth_page_0)
  have qt: "q \<in> tabs k pt" using leaf_tab_in [OF q(3)] by (simp add: tabs_def)
  have ag: "agree (- {q}) (k_mem k) (k_mem k')"
    unfolding k' using agree_store_slot [OF page_ok_aligned [OF vm_inv_parts(5) [OF I(1) qt]] ix_less] by simp
  have "agree (free_pages k) (k_mem k) (k_mem k')" using ag by (rule agree_mono) (use qt I(6) in blast)
  then have fr: "free_pages k' = free_pages k" using kinv_mem(2) [OF U(3)] k' by simp
  have tb: "tabs k' pt = tabs k pt" using st(4) fr by simp
  have "leaves k' pt 0 n" unfolding leaves_0 using Pi I(7,8) e by simp
  moreover have "own_pages k' pt 0 n" using I(4) N unfolding own_pages_def by (simp add: tb fr st(2) inj_on_def)
  ultimately have as: "as_inv k' pt n" using st(1) I(2) by (simp add: as_inv_def)
  have hi: "pte k' pt va = pte k pt va" if "4096 * n \<le> unat va" "unat va < 2 ^ 38" for va
  proof -
    have "\<not> unat va < 4096 * j + 4096" using that(1) j by simp
    then show ?thesis using P [OF that(2)] by simp
  qed
  have "upages k' pt 0 n = upages k pt 0 n" unfolding upages_def using N by (intro image_cong) auto
  then have "F = free_pages k' \<union> tabs k' pt \<union> upages k' pt 0 n" using U(2) fr tb by simp
  moreover have "xlate k' pt va = None" if "4096 * n \<le> unat va" "unat va < unat TRAPFRAME" for va
    using hi [of va] U(4) [OF that] that by (simp add: xlate_def split: if_splits)
  moreover have "pte k' pt va = pte k pt va" if "unat TRAPFRAME \<le> unat va" "unat va < 2 ^ 38" for va
    using hi [OF _ that(2)] that(1) small by simp
  ultimately show "uimage F k' pt n" unfolding uimage_def using as U(5-7) by simp
  show "agree (- F) (k_mem k) (k_mem k')" using ag by (rule agree_mono) (use qt U(2) in blast)
qed

section \<open>Creating and freeing\<close>

lemma uvmcreate_took:
  assumes "kinv s" and "uvmcreate s = (pt, s1)" and "pt \<noteq> 0"
  shows "agree (- {pt}) (k_mem s) (k_mem s1)"
proof -
  obtain p t where k: "kalloc s = (p, t)" by fastforce
  have p: "p = pt" "p \<noteq> 0" and s1: "s1 = t\<lparr>k_mem := memset (k_mem t) pt 0 4096\<rparr>"
    using assms(2,3) k by (auto simp: uvmcreate_def split: if_splits)
  have "page_aligned pt" using kalloc_aligned [OF assms(1) k p(2)] p(1) by simp
  then have "took s s1 pt" unfolding s1 using assms(1) k p by (intro took_kalloc agree_memset_page) auto
  then show ?thesis by (simp add: took_def)
qed

lemma as_release:
  assumes inv: "as_inv k pt n" and r: "vm_release k k' pt f {}" and f: "\<And>va. unat va < 4096 * n \<Longrightarrow> f va = pte k pt va"
  shows "as_inv k' pt n" "upages k' pt 0 n = upages k pt 0 n"
proof -
  note I = as_invD [OF inv] and R = vm_releaseD [OF r]
  have up: "unat (pva i) = 4096 * i" if "i < n" for i using that I(2) by (intro unat_pva) simp
  have P: "pte k' pt (pva i) = pte k pt (pva i)" if "i < n" for i
    using R(5) [of "pva i"] f [of "pva i"] up [OF that] that I(2) by simp
  then have N: "nth_page k' pt 0 i = nth_page k pt 0 i" if "i < n" for i using that by (simp add: nth_page_0)
  have "leaves k' pt 0 n" unfolding leaves_0 using P I(7,8) by simp
  moreover have "own_pages k' pt 0 n" using I(4) N R(2-4) unfolding own_pages_def by (simp add: inj_on_def)
  ultimately show "as_inv k' pt n" using R(1) I(2) by (simp add: as_inv_def)
  show "upages k' pt 0 n = upages k pt 0 n" unfolding upages_def using N by (intro image_cong) auto
qed

lemma uimage_free:
  assumes u: "uimage F k pt (npg sz)"
  shows "\<exists>k'. proc_freepagetable pt sz k = Ok k' \<and> kinv k' \<and> free_pages k' = F \<and> agree (- F) (k_mem k) (k_mem k')"
proof -
  note U = uimageD [OF u]
  have small: "npg sz \<le> 0x88000" by (rule as_inv_small [OF U(1)])
  have v: "vm_inv k pt" by (rule as_invD(1) [OF U(1)])
  have l1: "leaves k pt TRAMPOLINE (unat (1 :: u64))" using U(5,6) [of TRAMPOLINE] by (simp add: leaves_def Let_def)
  obtain k1 where k1: "uvmunmap k pt TRAMPOLINE 1 False = Ok k1" "vm_release k k1 pt (unmap_upd (pte k pt) TRAMPOLINE (unat (1 :: u64))) {}"
    by (rule uvmunmap_spec [OF v _ _ l1, of False]) (simp_all add: page_aligned_def)
  note R1 = vm_releaseD [OF k1(2)]
  have "pte k1 pt TRAPFRAME = pte k pt TRAPFRAME" using R1(5) [of TRAPFRAME] by (simp add: unmap_upd_def)
  then have l2: "leaves k1 pt TRAPFRAME (unat (1 :: u64))" using U(5,6) [of TRAPFRAME] by (simp add: leaves_def Let_def)
  obtain k2 where k2: "uvmunmap k1 pt TRAPFRAME 1 False = Ok k2" "vm_release k1 k2 pt (unmap_upd (pte k1 pt) TRAPFRAME (unat (1 :: u64))) {}"
    by (rule uvmunmap_spec [OF R1(1) _ _ l2, of False]) (simp_all add: page_aligned_def)
  note R2 = vm_releaseD [OF k2(2)]
  have p2: "pte k2 pt va = (if unat TRAPFRAME \<le> unat va then 0 else pte k pt va)" if "unat va < 2 ^ 38" for va
    using R1(5) [OF that] R2(5) [OF that] that by (auto simp: unmap_upd_def)
  have "vm_release k k2 pt (\<lambda>va. if unat TRAPFRAME \<le> unat va then 0 else pte k pt va) {}"
    using vm_release_trans [OF k1(2) k2(2)] p2 R2(5) by (simp add: vm_release_def)
  from as_release [OF U(1) this] small have A: "as_inv k2 pt (npg sz)" "upages k2 pt 0 (npg sz) = upages k pt 0 (npg sz)" by auto
  have none: "xlate k2 pt va = None" if "4096 * npg sz \<le> unat va" "unat va < 2 ^ 38" for va
    using p2 [OF that(2)] U(4) [OF that(1)] by auto
  obtain k3 where k3: "uvmfree k2 pt sz = Ok k3" "freed k2 k3 (tabs k2 pt \<union> upages k2 pt 0 (npg sz))"
    by (rule uvmfree_spec [OF A(1) none]) auto
  note D = freedD [OF k3(2)]
  have F: "free_pages k3 = F" using D(3) A(2) R1(3,4) R2(3,4) U(2) by auto
  have "agree (- F) (k_mem k) (k_mem k1)" using R1(6) by (rule agree_mono) (use U(2) in auto)
  moreover have "agree (- F) (k_mem k1) (k_mem k2)" using R2(6) by (rule agree_mono) (use U(2) R1(3) in auto)
  moreover have "agree (- F) (k_mem k2) (k_mem k3)" using D(4) by (rule agree_mono) (use U(2) R1(3) R2(3) A(2) in auto)
  ultimately have "agree (- F) (k_mem k) (k_mem k3)" by (blast intro: agree_trans)
  moreover have "proc_freepagetable pt sz k = Ok k3" unfolding proc_freepagetable_def using k1(1) k2(1) k3(1) by simp
  ultimately show ?thesis using D(1) F by blast
qed

text \<open>A table without a mapping is freed completely.\<close>

lemma blank_free:
  assumes v: "vm_inv k pt" and none: "\<And>va. unat va < 2 ^ 38 \<Longrightarrow> \<not> pte_valid (pte k pt va)"
  shows "\<exists>k'. uvmfree k pt 0 = Ok k' \<and> freed k k' (tabs k pt)"
proof -
  have n: "npg 0 = 0" by (simp add: npg_def)
  have "as_inv k pt (npg 0)" using v by (simp add: n as_inv_def leaves_def own_pages_def)
  then obtain k' where "uvmfree k pt 0 = Ok k'" "freed k k' (tabs k pt \<union> upages k pt 0 (npg 0))"
    by (rule uvmfree_spec) (use none in auto)
  then show ?thesis by (auto simp: upages_def n)
qed

text \<open>The two entries at the top.\<close>

lemma top_entry:
  assumes "perm = ucast (PTE_R OR PTE_X) \<or> perm = ucast (PTE_R OR PTE_W)"
  shows "pte_valid (leaf_pte pa perm)" "PTE_FLAGS (leaf_pte pa perm) \<noteq> PTE_V" "leaf_pte pa perm AND PTE_U = 0"
proof -
  have p: "perm = 10 \<or> perm = 6" using assms by (auto simp: pte_bits)
  have b: "bit (scast perm :: u64) 1" "\<not> bit (scast perm :: u64) 4" using p by (auto simp: bit_simps)
  show "pte_valid (leaf_pte pa perm)" by (simp add: leaf_pte_def or.assoc [symmetric])
  have "bit (PTE_FLAGS (leaf_pte pa perm)) 1" using b(1) by (simp add: PTE_FLAGS_def leaf_pte_def bit_simps)
  moreover have "\<not> bit PTE_V 1" by (simp add: pte_bits)
  ultimately show "PTE_FLAGS (leaf_pte pa perm) \<noteq> PTE_V" by auto
  have "\<not> bit (leaf_pte pa perm) 4" using b(2) bit_PA2PTE_low [of 4 pa] by (simp add: leaf_pte_def bit_simps pte_bits)
  then show "leaf_pte pa perm AND PTE_U = 0" using bit_PTE_U(2) by blast
qed

text \<open>Giving back a table into which no page could be mapped.\<close>

lemma vm_step_pages:
  assumes "vm_step s s' pt f"
  shows "free_pages s' \<union> tabs s' pt = free_pages s \<union> tabs s pt" "agree (- (free_pages s \<union> tabs s pt)) (k_mem s) (k_mem s')"
proof -
  note D = vm_stepD [OF assms]
  show "free_pages s' \<union> tabs s' pt = free_pages s \<union> tabs s pt" using D(3,4) by blast
  show "agree (- (free_pages s \<union> tabs s pt)) (k_mem s) (k_mem s')" using D(6) by (rule agree_mono) blast
qed

lemma blank_done:
  assumes v: "vm_inv k pt" and none: "\<And>va. unat va < 2 ^ 38 \<Longrightarrow> \<not> pte_valid (pte k pt va)" and F: "free_pages k \<union> tabs k pt = F"
    and f: "uvmfree k pt 0 = Ok k'"
  shows "kinv k'" "free_pages k' = F" "agree (- F) (k_mem k) (k_mem k')"
proof -
  have d: "freed k k' (tabs k pt)" using blank_free [OF v none] f by auto
  note D = freedD [OF d]
  show "kinv k'" "free_pages k' = F" using D F by auto
  show "agree (- F) (k_mem k) (k_mem k')" using D(4) by (rule agree_mono) (use F in blast)
qed

lemma top_pages:
  "PGROUNDDOWN va = TRAMPOLINE \<longleftrightarrow> unat TRAMPOLINE \<le> unat va \<and> unat va < unat TRAMPOLINE + 4096"
  "PGROUNDDOWN va = TRAPFRAME \<longleftrightarrow> unat TRAPFRAME \<le> unat va \<and> unat va < unat TRAPFRAME + 4096"
  by (rule page_range, simp add: page_aligned_def)+

lemma uimage_create:
  assumes inv: "kinv k" and c: "proc_pagetable tr tf k = Ok (pt, k')"
  shows "(if pt = 0 then kinv k' \<and> free_pages k' = free_pages k else uimage (free_pages k) k' pt 0) \<and> agree (- free_pages k) (k_mem k) (k_mem k')"
proof -
  obtain p k1 where uc: "uvmcreate k = (p, k1)" by fastforce
  show ?thesis
  proof (cases "p = 0")
    case True
    then have z: "kalloc k = (0, k1)" using uc by (auto simp: uvmcreate_def split: prod.splits if_splits)
    have "k1 = k" by (rule kalloc_cases [OF inv]) (use z in auto)
    then show ?thesis using c uc True inv by (auto simp: proc_pagetable_def)
  next
    case p0: False
    note C = uvmcreate_spec [OF inv uc p0]
    let ?F = "free_pages k"
    have v1: "vm_inv k1 p" by (rule as_invD(1) [OF C(1)])
    have F1: "free_pages k1 \<union> tabs k1 p = ?F" unfolding C(3,5) using C(4) by auto
    have a1: "agree (- ?F) (k_mem k) (k_mem k1)" using uvmcreate_took [OF inv uc p0] by (rule agree_mono) (use C(4) in auto)
    have n1: "\<not> pte_valid (pte k1 p va)" for va using C(2) by simp
    let ?px = "ucast (PTE_R OR PTE_X) :: u32" and ?pw = "ucast (PTE_R OR PTE_W) :: u32"
    have rest: "proc_pagetable tr tf k = rbind (mappages k1 p TRAMPOLINE PGSIZE tr ?px) (\<lambda>(r, k).
        if r < 0 then rbind (uvmfree k p 0) (\<lambda>k. Ok (0, k))
        else rbind (mappages k p TRAPFRAME PGSIZE tf ?pw) (\<lambda>(r, k).
          if r < 0 then rbind (uvmunmap k p TRAMPOLINE 1 False) (\<lambda>k. rbind (uvmfree k p 0) (\<lambda>k. Ok (0, k)))
          else Ok (p, k)))" unfolding proc_pagetable_def uc using p0 by simp
    have al: "page_aligned TRAMPOLINE" "page_aligned TRAPFRAME" "page_aligned PGSIZE" by (simp_all add: page_aligned_def)
    have d1: "unat PGSIZE div 4096 = Suc 0" by simp
    show ?thesis
    proof (cases rule: mappages_spec [OF v1 al(1,3), of tr ?px])
      case 1 show ?case by simp
    next
      case 2 show ?case by simp
    next
      case 3 show ?case using n1 by simp
    next
      case (5 k2 j)
      then have "j = 0" by simp
      then have st: "vm_step k1 k2 p (pte k1 p)" using 5(4) by simp
      obtain k3 where k3: "uvmfree k2 p 0 = Ok k3" "pt = 0" "k' = k3" using c unfolding rest 5(1) by (auto simp: rbind_Ok_iff)
      have n2: "\<not> pte_valid (pte k2 p va)" if "unat va < 2 ^ 38" for va using vm_stepD(5) [OF st that] n1 by simp
      have F2: "free_pages k2 \<union> tabs k2 p = ?F" using vm_step_pages(1) [OF st] F1 by simp
      note B = blank_done [OF vm_stepD(1) [OF st] n2 F2 k3(1)]
      have "agree (- ?F) (k_mem k1) (k_mem k2)" using vm_step_pages(2) [OF st] unfolding F1 .
      then have "agree (- ?F) (k_mem k) (k_mem k3)" using a1 B(3) by (blast intro: agree_trans)
      then show ?thesis using B(1,2) k3(2,3) by simp
    next
      case (4 k2)
      have rest2: "proc_pagetable tr tf k = rbind (mappages k2 p TRAPFRAME PGSIZE tf ?pw) (\<lambda>(r, k).
          if r < 0 then rbind (uvmunmap k p TRAMPOLINE 1 False) (\<lambda>k. rbind (uvmfree k p 0) (\<lambda>k. Ok (0, k)))
          else Ok (p, k))" unfolding rest 4(1) by (simp del: TRAMPOLINE_def TRAPFRAME_def PGSIZE_def MAXVA_def)
      from 4 have st: "vm_step k1 k2 p (map_upd (pte k1 p) TRAMPOLINE (Suc 0) tr ?px)" by (simp only: d1)
      have F2: "free_pages k2 \<union> tabs k2 p = ?F" using vm_step_pages(1) [OF st] F1 by simp
      have a2: "agree (- ?F) (k_mem k) (k_mem k2)" using vm_step_pages(2) [OF st] a1 unfolding F1 by (blast intro: agree_trans)
      have p2: "pte k2 p va = (if PGROUNDDOWN va = TRAMPOLINE then leaf_pte tr ?px else pte k1 p va)" if "unat va < 2 ^ 38" for va
        using vm_stepD(5) [OF st that] unfolding map_upd_1 [OF al(1)] .
      note tb = top_pages
      show ?thesis
      proof (cases rule: mappages_spec [OF vm_stepD(1) [OF st] al(2,3), of tf ?pw])
        case 1 show ?case by simp
      next
        case 2 show ?case by simp
      next
        case 3 show ?case using p2 n1 tb by (auto simp: not_less)
      next
        case (4 k3)
        then have st3: "vm_step k2 k3 p (map_upd (pte k2 p) TRAPFRAME (Suc 0) tf ?pw)" by (simp only: d1)
        have k': "pt = p" "k' = k3" using c unfolding rest2 4(1) by simp_all
        have F3: "free_pages k3 \<union> tabs k3 p = ?F" using vm_step_pages(1) [OF st3] F2 by simp
        have a3: "agree (- ?F) (k_mem k) (k_mem k3)" using vm_step_pages(2) [OF st3] a2 unfolding F2 by (blast intro: agree_trans)
        have p3: "pte k3 p va = (if PGROUNDDOWN va = TRAPFRAME then leaf_pte tf ?pw else pte k2 p va)" if "unat va < 2 ^ 38" for va
          using vm_stepD(5) [OF st3 that] unfolding map_upd_1 [OF al(2)] .
        have "as_inv k3 p 0" using vm_stepD(1) [OF st3] by (simp add: as_inv_def leaves_def own_pages_def)
        moreover have "xlate k3 p va = None" if "unat va < unat TRAPFRAME" for va
        proof -
          have "unat va < 2 ^ 38" using that by simp
          then show ?thesis using p3 [of va] p2 [of va] tb [of va] that n1 by (auto simp: not_less)
        qed
        moreover have "pte_valid (pte k3 p va) \<and> PTE_FLAGS (pte k3 p va) \<noteq> PTE_V \<and> pte k3 p va AND PTE_U = 0"
          if "unat TRAPFRAME \<le> unat va" "unat va < 2 ^ 38" for va
          using p3 [OF that(2)] p2 [OF that(2)] tb [of va] that top_entry by auto
        ultimately have "uimage ?F k3 p 0" unfolding uimage_def using F3 by (auto simp: upages_def)
        then show ?thesis using p0 a3 k' by simp
      next
        case (5 k3 j)
        then have "j = 0" by simp
        then have st3: "vm_step k2 k3 p (pte k2 p)" using 5(4) by simp
        have F3: "free_pages k3 \<union> tabs k3 p = ?F" using vm_step_pages(1) [OF st3] F2 by simp
        have a3: "agree (- ?F) (k_mem k) (k_mem k3)" using vm_step_pages(2) [OF st3] a2 unfolding F2 by (blast intro: agree_trans)
        have "pte k3 p TRAMPOLINE = leaf_pte tr ?px" using vm_stepD(5) [OF st3, of TRAMPOLINE] p2 [of TRAMPOLINE] tb [of TRAMPOLINE] by simp
        then have l: "leaves k3 p TRAMPOLINE (unat (1 :: u64))" using top_entry [of ?px tr] by (simp add: leaves_def Let_def)
        obtain k4 where k4: "uvmunmap k3 p TRAMPOLINE 1 False = Ok k4" "vm_release k3 k4 p (unmap_upd (pte k3 p) TRAMPOLINE (unat (1 :: u64))) {}"
          by (rule uvmunmap_spec [OF vm_stepD(1) [OF st3] al(1) _ l, of False]) simp_all
        note R4 = vm_releaseD [OF k4(2)]
        obtain k5 where k5: "uvmfree k4 p 0 = Ok k5" "pt = 0" "k' = k5"
          using c unfolding rest2 5(1) by (simp add: k4(1) [simplified] rbind_Ok_iff)
        have n4: "\<not> pte_valid (pte k4 p va)" if "unat va < 2 ^ 38" for va
          using R4(5) [OF that] vm_stepD(5) [OF st3 that] p2 [OF that] n1 tb [of va] that by (auto simp: unmap_upd_def)
        have F4: "free_pages k4 \<union> tabs k4 p = ?F" using R4(3,4) F3 by simp
        note B = blank_done [OF R4(1) n4 F4 k5(1)]
        have "agree (- ?F) (k_mem k3) (k_mem k4)" using R4(6) by (rule agree_mono) (use F3 in blast)
        then have "agree (- ?F) (k_mem k) (k_mem k5)" using a3 B(3) by (blast intro: agree_trans)
        then show ?thesis using B(1,2) k5(2,3) by simp
      qed
    qed
  qed
qed

end
