(* ===== verification/Xv6_MemFrame.thy ===== *)
theory Xv6_MemFrame
  imports Xv6_Exec
begin

text \<open>
  What the file system does to memory. The operations that \<open>exec\<close> uses write only to the data of buffers, to the local \<^verbatim>\<open>struct dirent\<close> and to the
  destination of a read. \<open>mkeep W\<close> says of two states that memory differs at most in \<open>W\<close> and that the allocator is the same; the rules for it follow the
  structure of the definitions.
\<close>

definition mkeep :: "u64 set \<Rightarrow> 'a fstate_scheme \<Rightarrow> 'a fstate_scheme \<Rightarrow> bool" where
  "mkeep W s t \<longleftrightarrow> baddr t = baddr s \<and> deaddr t = deaddr s \<and>
     (\<exists>m. km t = (km s)\<lparr>k_mem := m\<rparr> \<and> (\<forall>x. x \<notin> W \<longrightarrow> m x = k_mem (km s) x))"

text \<open>The memory that the file system writes on its own account.\<close>

definition fs_area :: "'a fstate_scheme \<Rightarrow> u64 set" where
  "fs_area s = {baddr s b + of_nat i | b i. i < BSIZE} \<union> {deaddr s + of_nat i | i. i < 16}"

definition region :: "u64 \<Rightarrow> nat \<Rightarrow> u64 set" where
  "region a n = {a + of_nat i | i. i < n}"

definition mk0 :: "u64 set \<Rightarrow> 'a fstate_scheme \<Rightarrow> 'a fstate_scheme res \<Rightarrow> bool" where
  "mk0 W s m \<longleftrightarrow> (\<forall>t. m = Ok t \<longrightarrow> mkeep W s t)"

definition mk1 :: "u64 set \<Rightarrow> 'a fstate_scheme \<Rightarrow> ('b \<times> 'a fstate_scheme) res \<Rightarrow> bool" where
  "mk1 W s m \<longleftrightarrow> (\<forall>x t. m = Ok (x, t) \<longrightarrow> mkeep W s t)"

lemma mk0D: "mk0 W s m \<Longrightarrow> m = Ok t \<Longrightarrow> mkeep W s t"
  by (simp add: mk0_def)

lemma mk1D: "mk1 W s m \<Longrightarrow> m = Ok (x, t) \<Longrightarrow> mkeep W s t"
  by (simp add: mk1_def)

lemma mkeep_refl [simp]: "mkeep W s s"
  unfolding mkeep_def by (intro conjI exI [of _ "k_mem (km s)"]) simp_all

lemma mkeep_addr: "mkeep W s t \<Longrightarrow> baddr t = baddr s" "mkeep W s t \<Longrightarrow> deaddr t = deaddr s" "mkeep W s t \<Longrightarrow> fs_area t = fs_area s"
  by (simp_all add: mkeep_def fs_area_def)

lemma mkeep_mem: "mkeep W s t \<Longrightarrow> x \<notin> W \<Longrightarrow> k_mem (km t) x = k_mem (km s) x"
  by (auto simp: mkeep_def)

lemma mkeep_write:
  assumes "mkeep W s t" and "\<And>x. x \<notin> W \<Longrightarrow> m x = k_mem (km t) x"
  shows "mkeep W s (t\<lparr>km := (km t)\<lparr>k_mem := m\<rparr>\<rparr>)"
  using assms unfolding mkeep_def by (auto intro!: exI [of _ m])

section \<open>Rules\<close>

lemma mf_Ok:
  "mkeep W s t \<Longrightarrow> mk0 W s (Ok t)"
  "mkeep W s t \<Longrightarrow> mk1 W s (Ok (x, t))"
  by (simp_all add: mk0_def mk1_def)

lemma mf_Fail: "mk0 W s (Fail e)" "mk1 W s (Fail e)"
  by (simp_all add: mk0_def mk1_def)

lemma mf_iff [simp]:
  "mk0 W s (Ok t) \<longleftrightarrow> mkeep W s t" "mk1 W s (Ok (x, t)) \<longleftrightarrow> mkeep W s t"
  "mk0 W s (Fail e)" "mk1 W s (Fail e)"
  by (simp_all add: mk0_def mk1_def)

lemma mf_bind0:
  "mk0 W s m \<Longrightarrow> (\<And>t. mkeep W s t \<Longrightarrow> mk0 W s (f t)) \<Longrightarrow> mk0 W s (rbind m f)"
  "mk0 W s m \<Longrightarrow> (\<And>t. mkeep W s t \<Longrightarrow> mk1 W s (g t)) \<Longrightarrow> mk1 W s (rbind m g)"
  by (cases m; simp)+

lemma mf_bind1:
  assumes "mk1 W s m"
  shows "(\<And>x t. mkeep W s t \<Longrightarrow> mk0 W s (f (x, t))) \<Longrightarrow> mk0 W s (rbind m f)"
    and "(\<And>x t. mkeep W s t \<Longrightarrow> mk1 W s (g (x, t))) \<Longrightarrow> mk1 W s (rbind m g)"
proof -
  have m: "(\<exists>e. m = Fail e) \<or> (\<exists>x t. m = Ok (x, t) \<and> mkeep W s t)"
    using assms by (cases m) (auto simp: mk1_def)
  show "(\<And>x t. mkeep W s t \<Longrightarrow> mk0 W s (f (x, t))) \<Longrightarrow> mk0 W s (rbind m f)"
    using m by (elim disjE exE conjE) simp_all
  show "(\<And>x t. mkeep W s t \<Longrightarrow> mk1 W s (g (x, t))) \<Longrightarrow> mk1 W s (rbind m g)"
    using m by (elim disjE exE conjE) simp_all
qed

lemma mf_bind_other:
  "(\<And>x. mk0 W s (f0 x)) \<Longrightarrow> mk0 W s (rbind m f0)"
  "(\<And>x. mk1 W s (f1 x)) \<Longrightarrow> mk1 W s (rbind m f1)"
  by (cases m; simp)+

lemma mf_struct:
  "(P \<Longrightarrow> mk0 W s a) \<Longrightarrow> (\<not> P \<Longrightarrow> mk0 W s b) \<Longrightarrow> mk0 W s (if P then a else b)"
  "(P \<Longrightarrow> mk1 W s c) \<Longrightarrow> (\<not> P \<Longrightarrow> mk1 W s d) \<Longrightarrow> mk1 W s (if P then c else d)"
  "mk0 W s (f0 x) \<Longrightarrow> mk0 W s (Let x f0)"
  "mk1 W s (f1 x) \<Longrightarrow> mk1 W s (Let x f1)"
  "mk0 W s (g0 y z) \<Longrightarrow> mk0 W s (case (y, z) of (u, v) \<Rightarrow> g0 u v)"
  "mk1 W s (g1 y z) \<Longrightarrow> mk1 W s (case (y, z) of (u, v) \<Rightarrow> g1 u v)"
  by (simp_all add: Let_def)

lemma mf_cases:
  "(\<And>y z. p = (y, z) \<Longrightarrow> mk0 W s (g0 y z)) \<Longrightarrow> mk0 W s (case p of (u, v) \<Rightarrow> g0 u v)"
  "(\<And>y z. p = (y, z) \<Longrightarrow> mk1 W s (g1 y z)) \<Longrightarrow> mk1 W s (case p of (u, v) \<Rightarrow> g1 u v)"
  "mk0 W s n0 \<Longrightarrow> (\<And>x. o0 = Some x \<Longrightarrow> mk0 W s (h0 x)) \<Longrightarrow> mk0 W s (case o0 of None \<Rightarrow> n0 | Some x \<Rightarrow> h0 x)"
  "mk1 W s n1 \<Longrightarrow> (\<And>x. o1 = Some x \<Longrightarrow> mk1 W s (h1 x)) \<Longrightarrow> mk1 W s (case o1 of None \<Rightarrow> n1 | Some x \<Rightarrow> h1 x)"
  by ((cases p; simp)+, (cases o0; simp), (cases o1; simp))

lemma mf_case_app:
  "(\<And>y z. p = (y, z) \<Longrightarrow> mk0 W s (g0 y z t)) \<Longrightarrow> mk0 W s ((case p of (u, v) \<Rightarrow> g0 u v) t)"
  "(\<And>y z. p = (y, z) \<Longrightarrow> mk1 W s (g1 y z t)) \<Longrightarrow> mk1 W s ((case p of (u, v) \<Rightarrow> g1 u v) t)"
  by (cases p; simp)+

lemma mf_rfold:
  assumes "\<And>x t. mkeep W s t \<Longrightarrow> mk0 W s (f x t)" and "mkeep W s t"
  shows "mk0 W s (rfold f xs t)"
  using assms(2)
proof (induction xs arbitrary: t)
  case (Cons x xs)
  show ?case unfolding rfold.simps by (rule mf_bind0(1) [OF assms(1) Cons.IH]) (use Cons.prems in simp_all)
qed simp

lemmas mf_intros = mf_Ok mf_Fail mf_struct mf_cases mf_case_app mf_bind0 mf_bind1

section \<open>Log and buffers\<close>

lemma mkeep_upd [simp]:
  "mkeep W s (bc_update f t) = mkeep W s t" "mkeep W s (lg_update g t) = mkeep W s t"
  "mkeep W s (inodes_update k t) = mkeep W s t" "mkeep W s (iupd i h t) = mkeep W s t" "mkeep W s (set_bdata b d t) = mkeep W s t"
  by (simp_all add: mkeep_def iupd_def set_bdata_def)

lemma mf_bread: "mkeep W s t \<Longrightarrow> mk1 W s (bread' pid d b t)"
  unfolding bread'_def by (auto intro!: mf_bind_other mf_intros)

lemma mf_bwrite: "mkeep W s t \<Longrightarrow> mk0 W s (bwrite' pid b t)"
  unfolding bwrite'_def by (auto intro!: mf_bind_other mf_intros)

lemma mf_brelse: "mkeep W s t \<Longrightarrow> mk0 W s (brelse' pid b t)"
  unfolding brelse'_def by (auto intro!: mf_bind_other mf_intros)

lemma mf_log_write: "mkeep W s t \<Longrightarrow> mk0 W s (log_write b t)"
  unfolding log_write_def by (auto intro!: mf_intros)

lemma mf_begin_op: "mkeep W s t \<Longrightarrow> mk0 W s (begin_op t)"
  unfolding begin_op_def by (auto intro!: mf_intros)

lemmas mf_base = mf_bread mf_bwrite mf_brelse mf_log_write mf_begin_op

lemma mf_write_one: "mkeep W s t \<Longrightarrow> mk0 W s (write_one pid i t)"
  unfolding write_one_def by (intro mf_intros mf_base) simp_all

lemma mf_install_one: "mkeep W s t \<Longrightarrow> mk0 W s (install_one pid r i t)"
  unfolding install_one_def by (intro mf_intros mf_base) simp_all

lemma mf_write_head: "mkeep W s t \<Longrightarrow> mk0 W s (write_head pid t)"
  unfolding write_head_def by (intro mf_intros mf_base) simp_all

lemma mf_commit: "mkeep W s t \<Longrightarrow> mk0 W s (commit pid t)"
  unfolding commit_def write_log_def install_trans_def
  by (intro mf_intros mf_rfold mf_write_one mf_install_one mf_write_head) simp_all

lemma mf_end_op: "mkeep W s t \<Longrightarrow> mk0 W s (end_op pid t)"
  unfolding end_op_def by (intro mf_intros mf_commit) simp_all

section \<open>Blocks and inodes\<close>

lemma mf_bzero: "mkeep W s t \<Longrightarrow> mk0 W s (bzero pid d b t)"
  unfolding bzero_def by (intro mf_intros mf_base) simp_all

lemma mf_balloc_loop: "mkeep W s t \<Longrightarrow> mk1 W s (balloc_loop pid d sz b t)"
proof (induction "sz - b" arbitrary: b t rule: less_induct)
  case less
  show ?case
    by (subst balloc_loop.simps, intro mf_intros mf_base mf_bzero less.hyps) (use less.prems in simp_all)
qed

lemma mf_balloc: "mkeep W s t \<Longrightarrow> mk1 W s (balloc pid d t)"
  unfolding balloc_def by (rule mf_balloc_loop)

lemma mf_bfree: "mkeep W s t \<Longrightarrow> mk0 W s (bfree pid d b t)"
  unfolding bfree_def by (intro mf_intros mf_base) simp_all

lemma mf_iget: "mkeep W s t \<Longrightarrow> mk1 W s (iget d i t)"
  unfolding iget_def by (intro mf_intros) simp_all

lemma mf_iupdate: "mkeep W s t \<Longrightarrow> mk0 W s (iupdate pid i t)"
  unfolding iupdate_def by (intro mf_intros mf_base) simp_all

lemma mf_ilock: "mkeep W s t \<Longrightarrow> mk0 W s (ilock pid i t)"
  unfolding ilock_def by (intro mf_intros mf_base mf_bind_other) simp_all

lemma mf_iunlock: "mkeep W s t \<Longrightarrow> mk0 W s (iunlock pid i t)"
  unfolding iunlock_def by (intro mf_intros) simp_all

lemma mf_trunc_direct: "mkeep W s t \<Longrightarrow> mk0 W s (trunc_direct pid i k t)"
  unfolding trunc_direct_def by (intro mf_intros mf_bfree) simp_all

lemma mf_trunc_indirect: "mkeep W s t \<Longrightarrow> mk0 W s (trunc_indirect pid i bp k t)"
  unfolding trunc_indirect_def by (intro mf_intros mf_bfree) simp_all

lemma mf_itrunc: "mkeep W s t \<Longrightarrow> mk0 W s (itrunc pid i t)"
  unfolding itrunc_def
  by (intro mf_intros mf_base mf_rfold mf_trunc_direct mf_trunc_indirect mf_bfree mf_iupdate) simp_all

lemma mf_iput: "mkeep W s t \<Longrightarrow> mk0 W s (iput pid i t)"
  unfolding iput_def by (intro mf_intros mf_itrunc mf_iupdate mf_bind_other) simp_all

lemma mf_iunlockput: "mkeep W s t \<Longrightarrow> mk0 W s (iunlockput pid i t)"
  unfolding iunlockput_def by (intro mf_intros mf_iunlock mf_iput) simp_all

lemmas mf_inode = mf_begin_op mf_end_op mf_iget mf_iupdate mf_ilock mf_iunlock mf_itrunc mf_iput mf_iunlockput

section \<open>Contents, directories and paths\<close>

lemma mf_bmap: "mkeep W s t \<Longrightarrow> mk1 W s (bmap pid i bn t)"
  unfolding bmap_def by (intro mf_intros mf_base mf_balloc) simp_all

lemma mf_poke: "poke m a xs x = m x" if "x \<notin> region a (length xs)"
  using that unfolding poke_def region_def by (intro fold_upd_other) auto

lemma mf_memmove: "memmove m dst src n x = m x" if "x \<notin> region dst (unat n)"
proof (rule memmove_other, rule notI)
  assume "in_region x dst (unat n)"
  then have "unat (x - dst) < unat n" by (simp add: in_region_def)
  moreover have "x = dst + of_nat (unat (x - dst))" by simp
  ultimately show False using that unfolding region_def by blast
qed

lemma mf_copy_from_buf:
  assumes k: "mkeep W s t" and W: "fs_area s \<subseteq> W" "region dst m \<subseteq> W" and m: "m \<le> BSIZE"
  shows "mk1 W s (copy_from_buf pt False dst bp off m t)"
proof -
  let ?m0 = "poke (k_mem (km t)) (baddr t bp) (take BSIZE (bdata bp t))"
  have "region (baddr t bp) (length (take BSIZE (bdata bp t))) \<subseteq> fs_area s"
    unfolding region_def fs_area_def mkeep_addr(1) [OF k] by auto
  then have p: "?m0 x = k_mem (km t) x" if "x \<notin> W" for x using that W(1) by (intro mf_poke) blast
  have u: "unat (ucast (of_nat m :: u64) :: u32) = m" using m by (simp add: unsigned_ucast_eq unat_of_nat_small take_bit_nat_eq_self)
  have "memmove ?m0 dst a (ucast (of_nat m :: u64)) x = k_mem (km t) x" if "x \<notin> W" for x a
    using mf_memmove [of x dst "ucast (of_nat m :: u64)"] p [OF that] that W(2) u by (metis subsetD)
  then show ?thesis unfolding copy_from_buf_def either_copyout_def Let_def mk1_def by (auto intro: mkeep_write [OF k])
qed

lemma region_drop: "m \<le> n \<Longrightarrow> region (a + of_nat m) (n - m) \<subseteq> region a n"
proof
  fix x assume le: "m \<le> n" and "x \<in> region (a + of_nat m) (n - m)"
  then obtain i where "i < n - m" "x = a + of_nat m + of_nat i" by (auto simp: region_def)
  then have "m + i < n" "x = a + of_nat (m + i)" using le by simp_all
  then show "x \<in> region a n" unfolding region_def by blast
qed

lemma region_mono: "m \<le> n \<Longrightarrow> region a m \<subseteq> region a n"
  unfolding region_def by fastforce

lemma mf_readi_loop:
  "mkeep W s t \<Longrightarrow> fs_area s \<subseteq> W \<Longrightarrow> region dst (n - tot) \<subseteq> W \<Longrightarrow> mk1 W s (readi_loop pid pt i False dst off n tot t)"
proof (induction "n - tot" arbitrary: dst off tot t rule: less_induct)
  case less
  let ?m = "min (n - tot) (BSIZE - off mod BSIZE)"
  have le: "?m \<le> n - tot" by simp
  have r: "region (dst + of_nat ?m) (n - (tot + ?m)) \<subseteq> W" "region dst ?m \<subseteq> W"
    using region_drop [OF le, of dst] region_mono [OF le, of dst] less.prems(3) by (auto simp: diff_diff_left)
  have "0 < BSIZE - off mod BSIZE" using mod_less_divisor [of BSIZE off] by simp
  then have d: "n - (tot + ?m) < n - tot" if "tot < n" using that by linarith
  show ?case
    by (subst readi_loop.simps, intro mf_intros mf_base mf_bmap mf_copy_from_buf less.hyps)
      (assumption | rule less.prems(1,2) r d min.coboundedI2 diff_le_self)+
qed

lemma mf_readi:
  assumes "mkeep W s t" "fs_area s \<subseteq> W" "region dst (unat n) \<subseteq> W"
  shows "mk1 W s (readi pid pt i False dst off n t)"
proof -
  have "region dst (unat n') \<subseteq> W" if "unat n' \<le> unat n" for n' using region_mono [OF that, of dst] assms(3) by blast
  moreover have "unat (if i_size (inodes t i) < off + n then i_size (inodes t i) - off else n) \<le> unat n"
    if "\<not> (i_size (inodes t i) < off \<or> off + n < off)"
  proof -
    have a: "unat off \<le> unat (i_size (inodes t i))" "unat off \<le> unat (off + n)" using that by (simp_all add: word_less_nat_alt)
    have "unat (off + n) = unat off + unat n" using a(2) by (metis le_iff_add unat_add_lem unat_plus_if' not_add_less2 word_le_nat_alt no_olen_add_nat)
    then show ?thesis using a by (auto simp: word_less_nat_alt unat_diff_le word_le_nat_alt)
  qed
  ultimately show ?thesis unfolding readi_def Let_def
    by (intro mf_intros mf_readi_loop assms(1,2)) (auto split: if_splits)
qed

lemma mf_dirlookup_loop: "mkeep W s t \<Longrightarrow> fs_area s \<subseteq> W \<Longrightarrow> mk1 W s (dirlookup_loop pid pt dp name sz off t)"
proof (induction "sz - off" arbitrary: off t rule: less_induct)
  case less
  have "region (deaddr t) (unat (16 :: u32)) \<subseteq> W"
    using less.prems(2) unfolding fs_area_def mkeep_addr(2) [OF less.prems(1)] by (auto simp: region_def)
  then show ?case
    by (subst dirlookup_loop.simps, intro mf_intros mf_readi mf_iget less.hyps) (use less.prems in simp_all)
qed

lemma mf_dirlookup: "mkeep W s t \<Longrightarrow> fs_area s \<subseteq> W \<Longrightarrow> mk1 W s (dirlookup pid pt dp name t)"
  unfolding dirlookup_def by (intro mf_intros mf_dirlookup_loop) simp_all

lemma mf_namex_loop: "mkeep W s t \<Longrightarrow> fs_area s \<subseteq> W \<Longrightarrow> mk1 W s (namex_loop pid pt path parent ip name t)"
proof (induction "length path" arbitrary: path ip name t rule: less_induct)
  case less
  show ?case
    by (subst namex_loop.simps, intro mf_intros mf_inode mf_dirlookup less.hyps)
      (use less.prems in \<open>simp_all add: skipelem_shorter\<close>)
qed

lemma mf_namex: "mkeep W s t \<Longrightarrow> fs_area s \<subseteq> W \<Longrightarrow> mk1 W s (namex pid pt cwd path parent t)"
  unfolding namex_def by (intro mf_intros mf_iget mf_namex_loop) (simp_all add: idup_def)

lemma mf_namei: "mkeep W s t \<Longrightarrow> fs_area s \<subseteq> W \<Longrightarrow> mk1 W s (namei pid pt cwd path t)"
  unfolding namei_def by (intro mf_intros mf_namex) simp_all

end
