(* ===== verification/Xv6_ExecSafe.thy ===== *)
theory Xv6_ExecSafe
  imports Xv6_Fdtable Xv6_Image Xv6_MemFrame
begin

text \<open>
  \<open>exec\<close> is all or nothing. Until the commit it builds a new address space from pages that were free, and writes nowhere else but to its locals, the buffers of the
  file system and the local directory entry; when it fails it gives every page back.
\<close>

section \<open>Where exec may write\<close>

text \<open>The locals of \<open>exec\<close> and the memory of the file system; memory outside of it and of the pages \<open>F\<close> is unchanged.\<close>

definition exec_scratch :: "locals \<Rightarrow> 'a fstate_scheme \<Rightarrow> u64 set" where
  "exec_scratch lcl s = fs_area s \<union> region (l_elf lcl) ELFHDR_SIZE \<union> region (l_ph lcl) PROGHDR_SIZE \<union> region (l_ustack lcl) (8 * MAXARG)"

definition unchanged :: "u64 set \<Rightarrow> u64 set \<Rightarrow> kmem \<Rightarrow> kmem \<Rightarrow> bool" where
  "unchanged F W k k' \<longleftrightarrow> (\<forall>x. PGROUNDDOWN x \<notin> F \<and> x \<notin> W \<longrightarrow> k_mem k' x = k_mem k x)"

definition apart_from :: "u64 set \<Rightarrow> u64 set \<Rightarrow> bool" where
  "apart_from F W \<longleftrightarrow> (\<forall>x\<in>W. PGROUNDDOWN x \<notin> F)"

lemma unchanged_refl [simp]: "unchanged F W k k"
  by (simp add: unchanged_def)

lemma unchanged_trans: "unchanged F W k k' \<Longrightarrow> unchanged F W k' k'' \<Longrightarrow> unchanged F W k k''"
  by (simp add: unchanged_def)

lemma agree_unchanged: "agree (- F) (k_mem k) (k_mem k') \<Longrightarrow> unchanged F W k k'"
  by (simp add: unchanged_def agree_def)

text \<open>The states of \<open>exec\<close> started in \<open>s\<close>: without a new page table, and with one for \<open>n\<close> pages.\<close>

definition untouched :: "u64 set \<Rightarrow> u64 set \<Rightarrow> 'a kworld_scheme \<Rightarrow> 'a kworld_scheme \<Rightarrow> bool" where
  "untouched F W s t \<longleftrightarrow> fstate.more t = fstate.more s \<and> fs_area t = fs_area s \<and> unchanged F W (km s) (km t) \<and> kinv (km t) \<and> free_pages (km t) = F"

definition building :: "u64 set \<Rightarrow> u64 set \<Rightarrow> 'a kworld_scheme \<Rightarrow> 'a kworld_scheme \<Rightarrow> u64 \<Rightarrow> nat \<Rightarrow> bool" where
  "building F W s t pt n \<longleftrightarrow> fstate.more t = fstate.more s \<and> fs_area t = fs_area s \<and> unchanged F W (km s) (km t) \<and> uimage F (km t) pt n"

lemma untouched_keep:
  assumes u: "untouched F W s t" and m: "fstate.more t' = fstate.more t" "mkeep W t t'" and W: "apart_from F W"
  shows "untouched F W s t'"
proof -
  obtain m' where k: "km t' = (km t)\<lparr>k_mem := m'\<rparr>" "\<forall>x. x \<notin> W \<longrightarrow> m' x = k_mem (km t) x" using m(2) by (auto simp: mkeep_def)
  have "agree (free_pages (km t)) (k_mem (km t)) m'" using k(2) u W by (auto simp: agree_def untouched_def apart_from_def)
  then have "kinv (km t')" "free_pages (km t') = F" using kinv_mem [of "km t" m'] u k(1) by (simp_all add: untouched_def)
  moreover have "unchanged F W (km t) (km t')" using k by (simp add: unchanged_def)
  ultimately show ?thesis using u m mkeep_addr(3) [OF m(2)] unchanged_trans unfolding untouched_def by metis
qed

lemma building_keep:
  assumes b: "building F W s t pt n" and m: "fstate.more t' = fstate.more t" "mkeep V t t'" and W: "apart_from F W"
    and V: "\<And>x. x \<in> V \<Longrightarrow> x \<in> W \<or> PGROUNDDOWN x \<in> upages (km t) pt 0 n"
  shows "building F W s t' pt n"
proof -
  have u: "uimage F (km t) pt n" using b by (simp add: building_def)
  obtain m' where k: "km t' = (km t)\<lparr>k_mem := m'\<rparr>" "\<forall>x. x \<notin> V \<longrightarrow> m' x = k_mem (km t) x" using m(2) by (auto simp: mkeep_def)
  have "x \<notin> V" if "PGROUNDDOWN x \<in> tabs (km t) pt \<union> free_pages (km t)" for x
    using that V [of x] uimage_own [OF u] uimageD(2) [OF u] W unfolding apart_from_def by blast
  then have "agree (tabs (km t) pt \<union> free_pages (km t)) (k_mem (km t)) m'" using k(2) by (auto simp: agree_def)
  then have "uimage F (km t') pt n" using uimage_frame(1) [OF u] k(1) by simp
  moreover have "unchanged F W (km t) (km t')"
    using k V uimageD(2) [OF u] unfolding unchanged_def by auto
  ultimately show ?thesis using b m mkeep_addr(3) [OF m(2)] unchanged_trans unfolding building_def by metis
qed

lemma building_km:
  assumes "building F W s t pt n" and "uimage F k pt' n'" and "agree (- F) (k_mem (km t)) (k_mem k)"
  shows "building F W s (t\<lparr>km := k\<rparr>) pt' n'"
  using assms agree_unchanged [OF assms(3), of W] unchanged_trans unfolding building_def by (auto simp: fs_area_def)

lemma scratch_area: "fs_area s \<subseteq> exec_scratch lcl s" "region (l_elf lcl) ELFHDR_SIZE \<subseteq> exec_scratch lcl s"
  "region (l_ph lcl) PROGHDR_SIZE \<subseteq> exec_scratch lcl s" "region (l_ustack lcl) (8 * MAXARG) \<subseteq> exec_scratch lcl s"
  by (auto simp: exec_scratch_def)

lemma mf_p_namei: "mkeep W s t \<Longrightarrow> fs_area s \<subseteq> W \<Longrightarrow> mk1 W s (p_namei me path t)"
  unfolding p_namei_def by (intro mf_bind_other mf_namei)

section \<open>The parts\<close>

lemma keep_loadseg_loop: "fstate.more t = fstate.more s \<Longrightarrow> keep1 s (loadseg_loop pid pt va ip offset sz i t)"
proof (induction "sz - i" arbitrary: i t rule: less_induct)
  case less
  show ?case
    by (subst loadseg_loop.simps, intro keep_intros keep_readi less.hyps keep_bind_other) (use less.prems in simp_all)
qed

lemma keep_loadseg: "fstate.more t = fstate.more s \<Longrightarrow> keep1 s (loadseg pid pt va ip offset sz t)"
  unfolding loadseg_def by (rule keep_loadseg_loop)

lemma keep_exec_load: "fstate.more t = fstate.more s \<Longrightarrow> keep1 s (exec_load lcl pid pt ip n i off sz t)"
proof (induction "n - i" arbitrary: i off sz t rule: less_induct)
  case less
  show ?case
    by (subst exec_load.simps, intro keep_intros keep_readi keep_loadseg less.hyps keep_bind_other) (use less.prems in simp_all)
qed

lemma keep_exec_bad: "fstate.more t = fstate.more s \<Longrightarrow> keep1 s (exec_bad pid pt sz ip t)"
  unfolding exec_bad_def by (intro keep_intros keep_inode keep_bind_other) simp_all

lemma exec_bad_value: "exec_bad pid pt sz ip t = Ok (r, u) \<Longrightarrow> r = -1"
  by (auto simp: exec_bad_def rbind_Ok_iff)


text \<open>Reading a segment writes the pages of the new image.\<close>

lemma page_region: "page_aligned p \<Longrightarrow> n \<le> 4096 \<Longrightarrow> x \<in> region p n \<Longrightarrow> PGROUNDDOWN x = p"
  unfolding region_def using page_offset by auto

lemma building_loadseg_loop:
  assumes "building F W s t pt n" and W: "apart_from F W" "fs_area s \<subseteq> W" and "loadseg_loop pid pt va ip off sz i t = Ok (r, t')"
  shows "building F W s t' pt n"
  using assms(1,4)
proof (induction "sz - i" arbitrary: i t rule: less_induct)
  case less
  note b = less.prems(1)
  show ?case
  proof (cases "i < sz")
    case False
    then show ?thesis using less.prems by (simp add: loadseg_loop.simps)
  next
    case True
    have u: "uimage F (km t) pt n" and ar: "fs_area t = fs_area s" using b by (simp_all add: building_def)
    let ?n = "if sz - i < 4096 then sz - i else 4096"
    from less.prems(2) True obtain pa q t1 where w: "walkaddr (km t) pt (va + of_nat i) = Ok pa" "pa \<noteq> 0"
      and rd: "readi pid pt ip False pa (off + of_nat i) (of_nat ?n) t = Ok (q, t1)"
      and rest: "(if q \<noteq> int ?n then Ok (-1, t1) else if i + 4096 \<ge> 2 ^ 32 then Fail (Blocked ''loadseg: starts over'')
        else loadseg_loop pid pt va ip off sz (i + 4096) t1) = Ok (r, t')"
      by (subst (asm) loadseg_loop.simps) (auto simp: rbind_Ok_iff Let_def split: if_splits)
    have pa: "page_aligned pa" "pa \<in> upages (km t) pt 0 n"
    proof -
      have v: "vm_inv (km t) pt" by (rule as_invD(1) [OF uimageD(1) [OF u]])
      show "page_aligned pa" by (rule walkaddr_cases [OF v, of "va + of_nat i"]) (use w PTE2PA_aligned in auto)
      have "pa \<in> user_pages (km t) pt" by (rule walkaddr_cases [OF v, of "va + of_nat i"]) (use w user_page_reached in auto)
      then show "pa \<in> upages (km t) pt 0 n" using uimage_user(1) [OF u] by blast
    qed
    have un: "unat (of_nat ?n :: u32) \<le> 4096" by (auto simp: unat_of_nat_small)
    let ?V = "fs_area t \<union> region pa (unat (of_nat ?n :: u32))"
    have "mkeep ?V t t1" using mk1D [OF mf_readi [OF mkeep_refl] rd] by blast
    moreover have "fstate.more t1 = fstate.more t" by (rule keep1D [OF keep_readi [OF refl] rd])
    moreover have "x \<in> W \<or> PGROUNDDOWN x \<in> upages (km t) pt 0 n" if "x \<in> ?V" for x
      using that W(2) ar page_region [OF pa(1) un, of x] pa(2) by auto
    ultimately have b1: "building F W s t1 pt n" using building_keep [OF b _ _ W(1), of t1 ?V] by blast
    show ?thesis using rest b1 less.hyps [of "i + 4096" t1] True by (auto split: if_splits)
  qed
qed

lemma flags_small: "ucast (PTE_R OR PTE_U) OR flags2perm f < (1024 :: u32)"
  by (simp add: flags2perm_def Let_def pte_bits)

lemma building_load:
  assumes "building F W s t pt (npg sz)" and W: "apart_from F W" "exec_scratch lcl s \<subseteq> W"
    and "exec_load lcl pid pt ip phnum i off sz t = Ok ((ok, sz'), t')"
  shows "building F W s t' pt (npg sz')"
  using assms(1,4)
proof (induction "phnum - i" arbitrary: i off sz t rule: less_induct)
  case less
  show ?case
  proof (cases "i < phnum")
    case False
    then show ?thesis using less.prems by (simp add: exec_load.simps)
  next
    case True
    have ar: "fs_area t = fs_area s" using less.prems(1) by (simp add: building_def)
    from less.prems(2) True obtain q t1 where rd: "readi pid pt ip False (l_ph lcl) off (of_nat PROGHDR_SIZE) t = Ok (q, t1)"
      by (subst (asm) exec_load.simps) (auto simp: rbind_Ok_iff)
    have "mkeep W t t1" by (rule mk1D [OF mf_readi [OF mkeep_refl] rd]) (use W(2) ar scratch_area [where s = s and lcl = lcl] in auto)
    then have b1: "building F W s t1 pt (npg sz)"
      using building_keep [OF less.prems(1) keep1D [OF keep_readi [OF refl] rd] _ W(1), of W] by blast
    let ?ph = "get_proghdr (k_mem (km t1)) (l_ph lcl)"
    consider (stop) "t' = t1" "sz' = sz"
      | (skip) "exec_load lcl pid pt ip phnum (i + 1) (off + of_nat PROGHDR_SIZE) sz t1 = Ok ((ok, sz'), t')"
      | (grow) sz1 k where "uvmalloc (km t1) pt sz (ph_vaddr ?ph + ph_memsz ?ph) (flags2perm (ph_flags ?ph)) = Ok (sz1, k)"
          "sz1 = 0 \<and> t' = t1\<lparr>km := k\<rparr> \<and> sz' = sz \<or> sz1 \<noteq> 0 \<and> (\<exists>r2 t2.
            loadseg pid pt (ph_vaddr ?ph) ip (ucast (ph_off ?ph)) (ucast (ph_filesz ?ph)) (t1\<lparr>km := k\<rparr>) = Ok (r2, t2) \<and>
            (r2 < 0 \<and> t' = t2 \<and> sz' = sz1 \<or>
             exec_load lcl pid pt ip phnum (i + 1) (off + of_nat PROGHDR_SIZE) sz1 t2 = Ok ((ok, sz'), t')))"
      using less.prems(2) True rd
      by (subst (asm) exec_load.simps) (auto simp: Let_def rbind_Ok_iff split: if_splits)
    then show ?thesis
    proof cases
      case stop
      then show ?thesis using b1 by simp
    next
      case skip
      show ?thesis by (rule less.hyps [OF _ b1 skip]) (use True in simp)
    next
      case (grow sz1 k)
      have u1: "uimage F (km t1) pt (npg sz)" using b1 by (simp add: building_def)
      note A = uimage_alloc [OF u1 grow(1) flags_small]
      have b2: "building F W s (t1\<lparr>km := k\<rparr>) pt (npg (if sz1 = 0 then sz else sz1))"
        using A by (intro building_km [OF b1]) auto
      show ?thesis using grow(2)
      proof
        assume "sz1 = 0 \<and> t' = t1\<lparr>km := k\<rparr> \<and> sz' = sz"
        then show ?thesis using b2 by simp
      next
        assume "sz1 \<noteq> 0 \<and> (\<exists>r2 t2. loadseg pid pt (ph_vaddr ?ph) ip (ucast (ph_off ?ph)) (ucast (ph_filesz ?ph)) (t1\<lparr>km := k\<rparr>) = Ok (r2, t2) \<and>
            (r2 < 0 \<and> t' = t2 \<and> sz' = sz1 \<or> exec_load lcl pid pt ip phnum (i + 1) (off + of_nat PROGHDR_SIZE) sz1 t2 = Ok ((ok, sz'), t')))"
        then obtain r2 t2 where sz1: "sz1 \<noteq> 0"
          and ls: "loadseg pid pt (ph_vaddr ?ph) ip (ucast (ph_off ?ph)) (ucast (ph_filesz ?ph)) (t1\<lparr>km := k\<rparr>) = Ok (r2, t2)"
          and e: "r2 < 0 \<and> t' = t2 \<and> sz' = sz1 \<or> exec_load lcl pid pt ip phnum (i + 1) (off + of_nat PROGHDR_SIZE) sz1 t2 = Ok ((ok, sz'), t')" by blast
        have fa: "fs_area s \<subseteq> W" using W(2) scratch_area(1) [of s lcl] by blast
        have b3: "building F W s t2 pt (npg sz1)"
          using building_loadseg_loop [OF _ W(1) fa ls [unfolded loadseg_def]] b2 sz1 by simp
        have "building F W s t' pt (npg sz')" if "exec_load lcl pid pt ip phnum (i + 1) (off + of_nat PROGHDR_SIZE) sz1 t2 = Ok ((ok, sz'), t')"
          by (rule less.hyps [OF _ b3 that]) (use True in simp)
        then show ?thesis using e b3 by auto
      qed
    qed
  qed
qed

text \<open>The arguments go to the new stack.\<close>

lemma uimage_push:
  "uimage F k pt n \<Longrightarrow> exec_push pt base argv sp us k = Ok (r, k') \<Longrightarrow> uimage F k' pt n \<and> agree (- F) (k_mem k) (k_mem k')"
proof (induction argv arbitrary: sp us k)
  case (Cons a argv)
  show ?case
  proof (cases "k' = k")
    case False
    from Cons.prems(2) False obtain va len q k1 where c: "copyout k pt va a len = Ok (q, k1)"
      and e: "k' = k1 \<or> exec_push pt base argv va (us @ [va]) k1 = Ok (r, k')"
      by (auto simp: Let_def rbind_Ok_iff split: if_splits option.splits)
    note C = uimage_copyout [OF Cons.prems(1) c]
    from e show ?thesis
    proof
      assume "exec_push pt base argv va (us @ [va]) k1 = Ok (r, k')"
      from Cons.IH [OF C(1) this] show ?thesis using C(2) agree_trans by blast
    qed (use C in simp)
  qed (use Cons.prems(1) in simp)
qed simp

lemma put_ustack_other:
  assumes "x \<notin> region a (8 * Suc (length us))"
  shows "put_ustack us a m x = m x"
proof -
  have "\<not> in_region x (a + 8 * of_nat i) 8" if "i \<le> length us" for i
  proof
    assume "in_region x (a + 8 * of_nat i) 8"
    then have d: "unat (x - (a + 8 * of_nat i)) < 8" by (simp add: in_region_def)
    have "x = a + of_nat (8 * i + unat (x - (a + 8 * of_nat i)))" by simp
    moreover have "8 * i + unat (x - (a + 8 * of_nat i)) < 8 * Suc (length us)" using d that by simp
    ultimately show False using assms unfolding region_def by blast
  qed
  then have f: "fold (\<lambda>i m. store64 m (a + 8 * of_nat i) ((us @ [0]) ! i)) js m x = m x" if "set js \<subseteq> {..length us}" for js
    using that by (induction js arbitrary: m) (auto simp: store64_other)
  show ?thesis unfolding put_ustack_def by (rule f) auto
qed

lemma uimage_args:
  assumes u: "uimage F k pt n" and W: "apart_from F W" "region (l_ustack lcl) (8 * MAXARG) \<subseteq> W" and a: "exec_args lcl pt sp base argv k = Ok (r, k')"
  shows "uimage F k' pt n \<and> unchanged F W k k'"
proof -
  from a obtain q k1 where p: "exec_push pt base argv sp [] k = Ok (q, k1)" unfolding exec_args_def by (auto simp: rbind_Ok_iff)
  have P: "uimage F k1 pt n" "agree (- F) (k_mem k) (k_mem k1)" using uimage_push [OF u p] by auto
  have c1: "unchanged F W k k1" by (rule agree_unchanged [OF P(2)])
  show ?thesis
  proof (cases "k' = k1")
    case False
    then obtain us len va x where us: "length us < MAXARG"
      and c: "copyout (k1\<lparr>k_mem := put_ustack us (l_ustack lcl) (k_mem k1)\<rparr>) pt va (l_ustack lcl) len = Ok (x, k')"
      using a p unfolding exec_args_def by (auto simp: rbind_Ok_iff Let_def not_le split: if_splits option.splits prod.splits)
    let ?m = "put_ustack us (l_ustack lcl) (k_mem k1)"
    have "region (l_ustack lcl) (8 * Suc (length us)) \<subseteq> W" using region_mono [of "8 * Suc (length us)" "8 * MAXARG"] us W(2) by auto
    then have m: "?m x = k_mem k1 x" if "x \<notin> W" for x using put_ustack_other [of x] that by blast
    have "x \<notin> W" if "PGROUNDDOWN x \<in> F" for x using that W(1) by (auto simp: apart_from_def)
    then have "agree (tabs k1 pt \<union> free_pages k1) (k_mem k1) ?m" using m uimageD(2) [OF P(1)] by (auto simp: agree_def)
    note C = uimage_copyout [OF uimage_frame(1) [OF P(1) this] c]
    have "unchanged F W k1 k'" using agreeD [OF C(2)] m by (auto simp: unchanged_def)
    then show ?thesis using C(1) c1 unchanged_trans by blast
  qed (use P(1) c1 in simp)
qed

text \<open>The label \<^verbatim>\<open>bad\<close>.\<close>

lemma untouched_bad:
  assumes u: "untouched F W s u" and W: "apart_from F W" and b: "exec_bad pid 0 sz ip u = Ok (r, t)"
  shows "r = -1 \<and> untouched F W s t"
proof -
  have "mk1 W u (exec_bad pid 0 sz ip u)" unfolding exec_bad_def by (intro mf_intros mf_inode) simp_all
  then have "mkeep W u t" by (rule mk1D [OF _ b])
  then show ?thesis using untouched_keep [OF u keep1D [OF keep_exec_bad [OF refl] b] _ W] exec_bad_value [OF b] by simp
qed

lemma building_bad:
  assumes u: "building F W s u pt (npg sz)" and pt: "pt \<noteq> 0" and W: "apart_from F W" and b: "exec_bad pid pt sz ip u = Ok (r, t)"
  shows "r = -1 \<and> untouched F W s t"
proof -
  have i: "uimage F (km u) pt (npg sz)" using u by (simp add: building_def)
  obtain k where k: "proc_freepagetable pt sz (km u) = Ok k" "kinv k" "free_pages k = F" "agree (- F) (k_mem (km u)) (k_mem k)"
    using uimage_free [OF i] by blast
  have "untouched F W s (u\<lparr>km := k\<rparr>)"
    using u k(2,3) agree_unchanged [OF k(4), of W] unchanged_trans unfolding untouched_def building_def by (auto simp: fs_area_def)
  moreover have "exec_bad pid 0 sz ip (u\<lparr>km := k\<rparr>) = Ok (r, t)" using b k(1) pt by (simp add: exec_bad_def)
  ultimately show ?thesis using untouched_bad W by blast
qed

section \<open>Failure and commit\<close>

text \<open>What \<open>exec\<close> did: it failed, or it committed to the image it built.\<close>

definition exec_committed :: "u64 set \<Rightarrow> u64 set \<Rightarrow> nat \<Rightarrow> u8 list \<Rightarrow> 'a kworld_scheme \<Rightarrow> 'a kworld_scheme \<Rightarrow> bool" where
  "exec_committed F W me path s t \<longleftrightarrow> (\<exists>pt sz entry sp k.
     procs t = (procs s)(me := (procs s me)\<lparr>p_name := take 15 (last_elem path), p_pagetable := pt, p_sz := sz\<rparr>) \<and>
     uimage F k pt (npg sz) \<and> unchanged F W (km s) k \<and>
     proc_freepagetable (p_pagetable (procs s me)) (p_sz (procs s me)) (k\<lparr>k_mem := store64 (store64 (store64 (k_mem k)
       (p_trapframe (procs s me) + TF_a1) sp) (p_trapframe (procs s me) + TF_epc) entry) (p_trapframe (procs s me) + TF_sp) sp\<rparr>) = Ok (km t))"

definition exec_ended :: "u64 set \<Rightarrow> u64 set \<Rightarrow> nat \<Rightarrow> u8 list \<Rightarrow> 'a kworld_scheme \<Rightarrow> int \<Rightarrow> 'a kworld_scheme \<Rightarrow> bool" where
  "exec_ended F W me path s r t \<longleftrightarrow> r = -1 \<and> untouched F W s t \<or> r \<ge> 0 \<and> files t = files s \<and> exec_committed F W me path s t"

lemma building_commit:
  assumes b: "building F W s u pt (npg sz)" and c: "exec_commit lcl me path pt sz entry sp argc (p_sz (procs s me)) u = Ok (r, t)"
  shows "exec_ended F W me path s r t"
proof -
  have m: "files u = files s" "procs u = procs s" using more_same [of u s] b by (simp_all add: building_def same_def)
  from c have "procs t = (procs s)(me := (procs s me)\<lparr>p_name := take 15 (last_elem path), p_pagetable := pt, p_sz := sz\<rparr>)"
    "files t = files s" "0 \<le> r"
    "proc_freepagetable (p_pagetable (procs s me)) (p_sz (procs s me)) ((km u)\<lparr>k_mem := store64 (store64 (store64 (k_mem (km u))
       (p_trapframe (procs s me) + TF_a1) sp) (p_trapframe (procs s me) + TF_epc) entry) (p_trapframe (procs s me) + TF_sp) sp\<rparr>) = Ok (km t)"
    by (auto simp: exec_commit_def Let_def rbind_Ok_iff pupd_def m)
  then show ?thesis using b unfolding exec_ended_def exec_committed_def building_def by blast
qed

lemma leaf_pte_R: "leaf_pte pa (ucast (PTE_R OR PTE_U) OR ucast PTE_W) AND PTE_R \<noteq> 0"
proof -
  have r: "PTE_R = 2 ^ 1" by (simp add: PTE_R_def)
  have "e AND PTE_R = 0 \<longleftrightarrow> \<not> bit e 1" for e unfolding r and_exp_eq_0_iff_not_bit ..
  moreover have "bit (leaf_pte pa (ucast (PTE_R OR PTE_U) OR ucast PTE_W)) 1" by (simp add: leaf_pte_def pte_bits bit_or_iff)
  ultimately show ?thesis by simp
qed

lemma stack_page:
  assumes u: "uimage F k pt (npg sz0)" and a: "uvmalloc k pt (PGROUNDUP sz0) (PGROUNDUP sz0 + (USERSTACK + 1) * PGSIZE) (ucast PTE_W) = Ok (sz1, k1)"
    and c: "sz1 \<noteq> 0" "uvmclear k1 pt (sz1 - (USERSTACK + 1) * PGSIZE) = Ok k2"
  shows "uimage F k2 pt (npg sz1) \<and> agree (- F) (k_mem k) (k_mem k2)"
proof -
  have small: "npg sz0 \<le> 0x88000" by (rule as_inv_small [OF uimageD(1) [OF u]])
  then have "unat sz0 < 2 ^ 63" using npg_bounds(1) [of sz0] by simp
  then have r: "PGROUNDUP sz0 = pva (npg sz0)" by (rule PGROUNDUP_npg)
  have n: "npg (pva (npg sz0)) = npg sz0" using small by (intro npg_pva) simp
  have p2: "pva (npg sz0) + (USERSTACK + 1) * PGSIZE = pva (npg sz0 + 2)" by (simp add: pva_def algebra_simps)
  have n2: "npg (pva (npg sz0 + 2)) = npg sz0 + 2" using small by (intro npg_pva) simp
  have lt: "\<not> pva (npg sz0 + 2) < pva (npg sz0)" using small by (simp add: word_less_nat_alt unat_pva)
  have f: "ucast (PTE_R OR PTE_U) OR ucast PTE_W < (1024 :: u32)" by (simp add: pte_bits)
  have u': "uimage F k pt (npg (pva (npg sz0)))" using u n by simp
  note A = uimage_alloc [OF u' a [unfolded r p2] f]
  have s1: "sz1 = pva (npg sz0 + 2)" using A c(1) lt by simp
  have "pte k1 pt (pva (npg sz0)) = leaf_pte (nth_page k1 pt 0 (npg sz0)) (ucast (PTE_R OR PTE_U) OR ucast PTE_W)"
    using A c(1) n n2 s1 by simp
  then have R: "pte k1 pt (pva (npg sz0)) AND PTE_R \<noteq> 0" by (simp add: leaf_pte_R)
  have e: "sz1 - (USERSTACK + 1) * PGSIZE = pva (npg sz0)" unfolding s1 p2 [symmetric] by (rule add_diff_cancel_right')
  have u1: "uimage F k1 pt (npg sz0 + 2)" using A c(1) n2 s1 by simp
  note C = uimage_clear [OF u1 _ R c(2) [unfolded e]]
  show ?thesis using C A agree_trans n2 s1 by auto
qed

lemma stack_failed:
  assumes u: "uimage F k pt (npg sz0)" and a: "uvmalloc k pt (PGROUNDUP sz0) (PGROUNDUP sz0 + (USERSTACK + 1) * PGSIZE) (ucast PTE_W) = Ok (sz1, k1)"
    and z: "sz1 = 0"
  shows "uimage F k1 pt (npg (PGROUNDUP sz0)) \<and> agree (- F) (k_mem k) (k_mem k1)"
proof -
  have small: "npg sz0 \<le> 0x88000" by (rule as_inv_small [OF uimageD(1) [OF u]])
  then have "unat sz0 < 2 ^ 63" using npg_bounds(1) [of sz0] by simp
  then have r: "PGROUNDUP sz0 = pva (npg sz0)" by (rule PGROUNDUP_npg)
  have "npg (PGROUNDUP sz0) = npg sz0" unfolding r using small by (intro npg_pva) simp
  then show ?thesis using uimage_alloc [OF _ a] u z by (simp add: pte_bits)
qed

lemma building_stack:
  assumes b: "building F W s u pt (npg sz0)" and pt: "pt \<noteq> 0" and W: "apart_from F W" "exec_scratch lcl s \<subseteq> W"
    and e: "exec_stack lcl me path argv pt sz0 entry u = Ok (r, t)"
  shows "exec_ended F W me path s r t"
proof -
  have i: "uimage F (km u) pt (npg sz0)" and m: "procs u = procs s" using b more_same [of u s] by (simp_all add: building_def same_def)
  let ?sz = "PGROUNDUP sz0"
  from e obtain sz1 k1 where a: "uvmalloc (km u) pt ?sz (?sz + (USERSTACK + 1) * PGSIZE) (ucast PTE_W) = Ok (sz1, k1)"
    and e1: "(if sz1 = 0 then exec_bad (p_pid (procs u me)) pt ?sz None (u\<lparr>km := k1\<rparr>)
        else rbind (uvmclear k1 pt (sz1 - (USERSTACK + 1) * PGSIZE)) (\<lambda>k.
          rbind (exec_args lcl pt sz1 (sz1 - USERSTACK * PGSIZE) argv k) (\<lambda>(r, k). case r of
            None \<Rightarrow> exec_bad (p_pid (procs u me)) pt sz1 None (u\<lparr>km := k\<rparr>)
          | Some (sp, argc) \<Rightarrow> exec_commit lcl me path pt sz1 entry sp argc (p_sz (procs u me)) (u\<lparr>km := k\<rparr>)))) = Ok (r, t)"
    unfolding exec_stack_def Let_def by (auto elim!: rbind_OkE)
  show ?thesis
  proof (cases "sz1 = 0")
    case True
    have "building F W s (u\<lparr>km := k1\<rparr>) pt (npg ?sz)" using stack_failed [OF i a True] by (intro building_km [OF b]) simp_all
    from building_bad [OF this pt W(1)] e1 True show ?thesis by (auto simp: exec_ended_def)
  next
    case False
    with e1 obtain k2 q k3 where c: "uvmclear k1 pt (sz1 - (USERSTACK + 1) * PGSIZE) = Ok k2"
      and g: "exec_args lcl pt sz1 (sz1 - USERSTACK * PGSIZE) argv k2 = Ok (q, k3)"
      and e2: "(case q of None \<Rightarrow> exec_bad (p_pid (procs u me)) pt sz1 None (u\<lparr>km := k3\<rparr>)
          | Some (sp, argc) \<Rightarrow> exec_commit lcl me path pt sz1 entry sp argc (p_sz (procs u me)) (u\<lparr>km := k3\<rparr>)) = Ok (r, t)"
      by (auto elim!: rbind_OkE)
    note S = stack_page [OF i a False c]
    have us: "region (l_ustack lcl) (8 * MAXARG) \<subseteq> W" using W(2) scratch_area(4) [of lcl s] by blast
    have k3: "uimage F k3 pt (npg sz1)" "unchanged F W k2 k3" using uimage_args [OF conjunct1 [OF S] W(1) us g] by simp_all
    have "unchanged F W (km s) (km u)" using b by (simp add: building_def)
    from unchanged_trans [OF unchanged_trans [OF this agree_unchanged [OF conjunct2 [OF S]]] k3(2)]
    have b3: "building F W s (u\<lparr>km := k3\<rparr>) pt (npg sz1)" using b k3(1) by (simp add: building_def fs_area_def)
    show ?thesis
    proof (cases q)
      case None
      with e2 have "exec_bad (p_pid (procs u me)) pt sz1 None (u\<lparr>km := k3\<rparr>) = Ok (r, t)" by simp
      from building_bad [OF b3 pt W(1) this] show ?thesis by (simp add: exec_ended_def)
    next
      case (Some a)
      obtain sp argc where a: "a = (sp, argc)" by fastforce
      with e2 Some m have "exec_commit lcl me path pt sz1 entry sp argc (p_sz (procs s me)) (u\<lparr>km := k3\<rparr>) = Ok (r, t)" by simp
      from building_commit [OF b3 this] show ?thesis .
    qed
  qed
qed

text \<open>After the header has been read.\<close>

definition exec_file :: "locals \<Rightarrow> nat \<Rightarrow> u8 list \<Rightarrow> u64 list \<Rightarrow> int \<Rightarrow> nat \<Rightarrow> int \<Rightarrow> 'a kworld_scheme \<Rightarrow> (int \<times> 'a kworld_scheme) res" where
  "exec_file lcl me path argv pid ip n s =
     (let elf = get_elfhdr (k_mem (km s)) (l_elf lcl) in
      if n \<noteq> int ELFHDR_SIZE \<or> e_magic elf \<noteq> ELF_MAGIC then exec_bad pid 0 0 (Some ip) s
      else rbind (proc_pagetable (trampoline s) (p_trapframe (procs s me)) (km s)) (\<lambda>(pagetable, k).
        if pagetable = 0 then exec_bad pid 0 0 (Some ip) (s\<lparr>km := k\<rparr>)
        else rbind (exec_load lcl pid pagetable ip (unat (e_phnum elf)) 0 (ucast (e_phoff elf)) 0 (s\<lparr>km := k\<rparr>)) (\<lambda>((ok, sz), s).
          if \<not> ok then exec_bad pid pagetable sz (Some ip) s
          else rbind (iunlockput pid ip s) (\<lambda>s.
            rbind (end_op pid s) (\<lambda>s. exec_stack lcl me path argv pagetable sz (e_entry elf) s)))))"

lemma exec_file_ends:
  assumes u: "untouched F W s u" and W: "apart_from F W" "exec_scratch lcl s \<subseteq> W" and e: "exec_file lcl me path argv pid ip n u = Ok (r, t)"
  shows "exec_ended F W me path s r t"
proof (cases "exec_bad pid 0 0 (Some ip) u = Ok (r, t)")
  case True
  then show ?thesis using untouched_bad [OF u W(1)] by (simp add: exec_ended_def)
next
  case False
  let ?elf = "get_elfhdr (k_mem (km u)) (l_elf lcl)"
  from e False obtain pt k where p: "proc_pagetable (trampoline u) (p_trapframe (procs u me)) (km u) = Ok (pt, k)"
    and e1: "(if pt = 0 then exec_bad pid 0 0 (Some ip) (u\<lparr>km := k\<rparr>)
        else rbind (exec_load lcl pid pt ip (unat (e_phnum ?elf)) 0 (ucast (e_phoff ?elf)) 0 (u\<lparr>km := k\<rparr>)) (\<lambda>((ok, sz), s).
          if \<not> ok then exec_bad pid pt sz (Some ip) s
          else rbind (iunlockput pid ip s) (\<lambda>s.
            rbind (end_op pid s) (\<lambda>s. exec_stack lcl me path argv pt sz (e_entry ?elf) s)))) = Ok (r, t)"
    unfolding exec_file_def Let_def by (auto elim!: rbind_OkE split: if_splits)
  have F: "kinv (km u)" "free_pages (km u) = F" using u by (simp_all add: untouched_def)
  note C = uimage_create [OF F(1) p, unfolded F(2)]
  have c: "unchanged F W (km s) k" using C agree_unchanged [of F "km u" k W] u unchanged_trans unfolding untouched_def by blast
  show ?thesis
  proof (cases "pt = 0")
    case True
    then have "untouched F W s (u\<lparr>km := k\<rparr>)" using C c u by (simp add: untouched_def fs_area_def)
    from untouched_bad [OF this W(1)] show ?thesis using e1 True by (auto simp: exec_ended_def)
  next
    case False
    have b0: "building F W s (u\<lparr>km := k\<rparr>) pt (npg 0)" using C c u False by (simp add: building_def untouched_def fs_area_def npg_def)
    from e1 False obtain x where x: "exec_load lcl pid pt ip (unat (e_phnum ?elf)) 0 (ucast (e_phoff ?elf)) 0 (u\<lparr>km := k\<rparr>) = Ok x"
      by (auto elim!: rbind_OkE)
    obtain ok sz u1 where x1: "x = ((ok, sz), u1)" by (metis surj_pair)
    note l = x [unfolded x1]
    have e2: "exec_bad pid pt sz (Some ip) u1 = Ok (r, t) \<or> (\<exists>u2 u3. iunlockput pid ip u1 = Ok u2 \<and> end_op pid u2 = Ok u3 \<and>
        exec_stack lcl me path argv pt sz (e_entry ?elf) u3 = Ok (r, t))"
      using e1 False l by (auto simp: rbind_Ok_iff split: if_splits)
    have b1: "building F W s u1 pt (npg sz)" by (rule building_load [OF b0 W l])
    from e2 show ?thesis
    proof (elim disjE exE conjE)
      assume "exec_bad pid pt sz (Some ip) u1 = Ok (r, t)"
      then show ?thesis using building_bad [OF b1 False W(1)] by (simp add: exec_ended_def)
    next
      fix u2 u3 assume c: "iunlockput pid ip u1 = Ok u2" "end_op pid u2 = Ok u3" and s: "exec_stack lcl me path argv pt sz (e_entry ?elf) u3 = Ok (r, t)"
      have b2: "building F W s u2 pt (npg sz)"
        by (rule building_keep [OF b1 keep0D [OF keep_iunlockput [OF refl] c(1)] mk0D [OF mf_iunlockput [OF mkeep_refl] c(1)] W(1)]) auto
      have b3: "building F W s u3 pt (npg sz)"
        by (rule building_keep [OF b2 keep0D [OF keep_end_op [OF refl] c(2)] mk0D [OF mf_end_op [OF mkeep_refl] c(2)] W(1)]) auto
      show ?thesis by (rule building_stack [OF b3 False W s])
    qed
  qed
qed

lemma exec_ends:
  assumes e: "exec lcl me path argv s = Ok (r, t)" and inv: "kinv (km s)" "free_pages (km s) = F" and W: "apart_from F W" "exec_scratch lcl s \<subseteq> W"
  shows "exec_ended F W me path s r t"
proof -
  let ?pid = "p_pid (procs s me)" and ?upt = "p_pagetable (procs s me)"
  have fa: "fs_area s \<subseteq> W" using W(2) scratch_area(1) [of s lcl] by blast
  have st: "untouched F W s t'" if "untouched F W s u" "fstate.more t' = fstate.more u" "mkeep W u t'" for u t'
    by (rule untouched_keep [OF that W(1)])
  have ar: "fs_area u \<subseteq> W" "procs u = procs s" if "untouched F W s u" for u
    using that fa more_same [of u s] by (simp_all add: untouched_def same_def)
  from e obtain s1 q s2 where 1: "begin_op s = Ok s1" "p_namei me path s1 = Ok (q, s2)" unfolding exec_def Let_def by (auto elim!: rbind_OkE)
  have u0: "untouched F W s s" using inv by (simp add: untouched_def)
  have u1: "untouched F W s s1" by (rule st [OF u0 keep0D [OF keep_begin_op [OF refl] 1(1)] mk0D [OF mf_begin_op [OF mkeep_refl] 1(1)]])
  have u2: "untouched F W s s2" by (rule st [OF u1 keep1D [OF keep_p_namei [OF refl] 1(2)] mk1D [OF mf_p_namei [OF mkeep_refl ar(1) [OF u1]] 1(2)]])
  show ?thesis
  proof (cases q)
    case None
    with e 1 have "end_op ?pid s2 = Ok t" "r = -1" unfolding exec_def Let_def by (auto simp: rbind_Ok_iff)
    then show ?thesis using st [OF u2 keep0D [OF keep_end_op [OF refl]] mk0D [OF mf_end_op [OF mkeep_refl]]] by (auto simp: exec_ended_def)
  next
    case (Some ip)
    from e 1 Some obtain s3 n s4 where 2: "ilock ?pid ip s2 = Ok s3" "readi ?pid ?upt ip False (l_elf lcl) 0 (of_nat ELFHDR_SIZE) s3 = Ok (n, s4)"
      unfolding exec_def Let_def by (auto elim!: rbind_OkE simp del: ELFHDR_SIZE_def)
    have u3: "untouched F W s s3" by (rule st [OF u2 keep0D [OF keep_ilock [OF refl] 2(1)] mk0D [OF mf_ilock [OF mkeep_refl] 2(1)]])
    have "region (l_elf lcl) (unat (of_nat ELFHDR_SIZE :: u32)) \<subseteq> W" using W(2) scratch_area(2) [of lcl s] by auto
    from mk1D [OF mf_readi [OF mkeep_refl ar(1) [OF u3] this] 2(2)]
    have u4: "untouched F W s s4" by (rule st [OF u3 keep1D [OF keep_readi [OF refl] 2(2)]])
    show ?thesis by (rule exec_file_ends [OF u4 W]) (use e 1 2 Some ar(2) [OF u4] in \<open>simp add: exec_def exec_file_def Let_def del: ELFHDR_SIZE_def\<close>)
  qed
qed

text \<open>
  C7: \<open>exec\<close> is all or nothing, for the process and for memory. Let \<open>F\<close> be the pages free at the start and \<open>W\<close> the locals of \<open>exec\<close> and the memory of the file
  system, which no free page holds. When it returns -1, every file and every process is as it was, every page it took for the new image is free again, and memory has changed
  nowhere outside \<open>F\<close> and \<open>W\<close>: the caller's old page table, pages and trap frame hold what they held. When it returns the count of arguments, there was a moment
  \<open>k\<close> at which still nothing outside \<open>F\<close> and \<open>W\<close> had changed and the new table mapped exactly the pages of an image of the new size, made of pages
  that were free; from there it wrote three registers of the trap frame, gave the process its name, table and size, and freed the old image. The other fields of the process, the
  other processes and the files stay.
\<close>

theorem exec_all_or_nothing:
  assumes "exec lcl me path argv s = Ok (r, t)" and "kinv (km s)"
    and "F = free_pages (km s)" and "W = exec_scratch lcl s" and "\<forall>x\<in>W. PGROUNDDOWN x \<notin> F"
  shows "files t = files s \<and>
     (r = -1 \<and> procs t = procs s \<and> kinv (km t) \<and> free_pages (km t) = F \<and> unchanged F W (km s) (km t) \<or>
      r \<ge> 0 \<and> (\<exists>pt sz entry sp k.
        procs t = (procs s)(me := (procs s me)\<lparr>p_name := take 15 (last_elem path), p_pagetable := pt, p_sz := sz\<rparr>) \<and>
        uimage F k pt (npg sz) \<and> unchanged F W (km s) k \<and>
        proc_freepagetable (p_pagetable (procs s me)) (p_sz (procs s me)) (k\<lparr>k_mem := store64 (store64 (store64 (k_mem k)
          (p_trapframe (procs s me) + TF_a1) sp) (p_trapframe (procs s me) + TF_epc) entry) (p_trapframe (procs s me) + TF_sp) sp\<rparr>) = Ok (km t)))"
proof -
  have "exec_ended F W me path s r t" by (rule exec_ends [OF assms(1,2)]) (use assms(3-5) in \<open>simp_all add: apart_from_def\<close>)
  then show ?thesis unfolding exec_ended_def
  proof (elim disjE conjE)
    assume "r = -1" "untouched F W s t"
    then show ?thesis using more_same [of t s] by (simp add: untouched_def same_def)
  qed (simp add: exec_committed_def)
qed

text \<open>Process 3 tries to execute its current directory, inode 7, which is an empty file: the header cannot be read. The buffers lie below the only free page, and so do the locals.\<close>

definition exec_world :: kworld where
  "exec_world = boot_world\<lparr>baddr := (\<lambda>b. 0x80010000 + 1112 * of_nat (b mod 30)), procs := (\<lambda>_. idle_proc)(3 := idle_proc\<lparr>p_state := RUNNING, p_pid := 9, p_cwd := Some 7\<rparr>),
     inodes := (\<lambda>_. \<lparr>i_dev = 1, i_num = 2, i_ref = 1, i_lock = initsleeplock ''inode'', i_valid = True, i_type = T_FILE, i_major = 0,
        i_minor = 0, i_nlink = 1, i_size = 0, i_addrs = replicate 13 0\<rparr>)\<rparr>"

definition some_locals :: locals where
  "some_locals = \<lparr>l_ch = 0x80005000, l_path = 0x80005100, l_path2 = 0x80005200, l_uarg = 0x80005300, l_stat = 0x80005400, l_mask = 0x80005500,
     l_fd0 = 0x80005600, l_fd1 = 0x80005604, l_elf = 0x80005700, l_ph = 0x80005800, l_ustack = 0x80005900, l_depth = 3\<rparr>"

lemma exec_world_runs: "\<exists>t. exec some_locals 3 [] [] exec_world = Ok (-1, t)"
  by (simp add: exec_def exec_world_def boot_world_def begin_op_def p_namei_def with_cwd_def namei_def namex_def idup_def iupd_def
      namex_loop.simps skipelem_def ilock_def acquiresleep_def initsleeplock_def readi_def readi_loop.simps exec_bad_def iunlockput_def iunlock_def
      holdingsleep_def iput_def end_op_def commit_def releasesleep_def)

lemma region_below:
  assumes "unat a + n \<le> unat b" and "x \<in> region a n"
  shows "unat x < unat b"
proof -
  obtain i where i: "i < n" "x = a + of_nat i" using assms(2) by (auto simp: region_def)
  have "unat (of_nat i :: u64) \<le> i" by (simp add: unat_of_nat)
  moreover have "unat x \<le> unat a + unat (of_nat i :: u64)" unfolding i(2) unat_plus_if' by simp
  ultimately have "unat x \<le> unat a + i" by simp
  then show ?thesis using i(1) assms(1) by simp
qed

lemma exec_world_scratch:
  assumes "x \<in> exec_scratch some_locals exec_world"
  shows "PGROUNDDOWN x \<notin> free_pages (km exec_world)"
proof -
  let ?e = "0x87fff000 :: u64"
  have b: "unat (0x80010000 + 1112 * of_nat (b mod 30) :: u64) \<le> 0x80018000" for b :: nat
  proof -
    have "0x80010000 + 1112 * of_nat (b mod 30) = (of_nat (0x80010000 + 1112 * (b mod 30)) :: u64)" by simp
    moreover have "b mod 30 < 30" by simp
    ultimately show ?thesis by (simp only:) (subst unat_of_nat_small; simp)
  qed
  have fs: "fs_area exec_world = (\<Union>b. region (baddr exec_world b) BSIZE) \<union> region (deaddr exec_world) 16"
    unfolding fs_area_def region_def by blast
  have "unat x < unat ?e"
    using assms unfolding exec_scratch_def fs
  proof (elim UnE UN_E)
    fix i assume "x \<in> region (baddr exec_world i) BSIZE"
    moreover have "unat (baddr exec_world i) + BSIZE \<le> unat ?e" using b [of i] by (simp add: exec_world_def)
    ultimately show ?thesis using region_below by blast
  qed (erule region_below [rotated], simp add: exec_world_def boot_world_def some_locals_def)+
  moreover have "unat (PGROUNDDOWN x) \<le> unat x" by (simp add: unat_PGROUNDDOWN)
  ultimately have "PGROUNDDOWN x \<noteq> ?e" by auto
  then show ?thesis using empty_space_kinv(2) by (simp add: exec_world_def boot_world_def)
qed

theorem exec_all_or_nothing_witness:
  "\<exists>t. exec some_locals 3 [] [] exec_world = Ok (-1, t) \<and> procs t = procs exec_world \<and> files t = files exec_world \<and> free_pages (km t) = {0x87fff000} \<and>
     unchanged {0x87fff000} (exec_scratch some_locals exec_world) (km exec_world) (km t)"
proof -
  obtain t where t: "exec some_locals 3 [] [] exec_world = Ok (-1, t)" using exec_world_runs by blast
  have k: "km exec_world = empty_space" by (simp add: exec_world_def boot_world_def)
  have F: "{0x87fff000} = free_pages (km exec_world)" using k empty_space_kinv(2) by simp
  have "kinv (km exec_world)" using k empty_space_kinv(1) by simp
  from exec_all_or_nothing [OF t this F refl] exec_world_scratch F show ?thesis using t by auto
qed

end
