(* ===== verification/Xv6_Virtio.thy ===== *)
theory Xv6_Virtio
  imports Xv6_Bio Xv6_Queue Xv6_Kalloc
begin

text \<open>
  The disk driver: \<^verbatim>\<open>kernel/virtio_disk.c\<close> with the structures of \<^verbatim>\<open>kernel/virtio.h\<close>. Descriptor table, available and used ring are memory shared with
  the device; they are fields of the driver's record. An address in a descriptor is one of the three things the driver ever puts there. The device is the
  environment: \<open>rd\<close> is what its registers answer, the writes to its registers are recorded. \<open>bdisk b\<close> is \<^verbatim>\<open>b->disk\<close>. \<open>virtio_disk_rw\<close> is in two
  parts, up to the wait for the device and after it; when no descriptors are free it sleeps and starts again.
\<close>

section \<open>Registers and structures\<close>

definition VIRTIO_MMIO_MAGIC_VALUE :: nat where [simp]: "VIRTIO_MMIO_MAGIC_VALUE = 0x000"
definition VIRTIO_MMIO_VERSION :: nat where [simp]: "VIRTIO_MMIO_VERSION = 0x004"
definition VIRTIO_MMIO_DEVICE_ID :: nat where [simp]: "VIRTIO_MMIO_DEVICE_ID = 0x008"
definition VIRTIO_MMIO_VENDOR_ID :: nat where [simp]: "VIRTIO_MMIO_VENDOR_ID = 0x00c"
definition VIRTIO_MMIO_DEVICE_FEATURES :: nat where [simp]: "VIRTIO_MMIO_DEVICE_FEATURES = 0x010"
definition VIRTIO_MMIO_DRIVER_FEATURES :: nat where [simp]: "VIRTIO_MMIO_DRIVER_FEATURES = 0x020"
definition VIRTIO_MMIO_QUEUE_SEL :: nat where [simp]: "VIRTIO_MMIO_QUEUE_SEL = 0x030"
definition VIRTIO_MMIO_QUEUE_NUM_MAX :: nat where [simp]: "VIRTIO_MMIO_QUEUE_NUM_MAX = 0x034"
definition VIRTIO_MMIO_QUEUE_NUM :: nat where [simp]: "VIRTIO_MMIO_QUEUE_NUM = 0x038"
definition VIRTIO_MMIO_QUEUE_READY :: nat where [simp]: "VIRTIO_MMIO_QUEUE_READY = 0x044"
definition VIRTIO_MMIO_QUEUE_NOTIFY :: nat where [simp]: "VIRTIO_MMIO_QUEUE_NOTIFY = 0x050"
definition VIRTIO_MMIO_INTERRUPT_STATUS :: nat where [simp]: "VIRTIO_MMIO_INTERRUPT_STATUS = 0x060"
definition VIRTIO_MMIO_INTERRUPT_ACK :: nat where [simp]: "VIRTIO_MMIO_INTERRUPT_ACK = 0x064"
definition VIRTIO_MMIO_STATUS :: nat where [simp]: "VIRTIO_MMIO_STATUS = 0x070"
definition VIRTIO_MMIO_QUEUE_DESC_LOW :: nat where [simp]: "VIRTIO_MMIO_QUEUE_DESC_LOW = 0x080"
definition VIRTIO_MMIO_QUEUE_DESC_HIGH :: nat where [simp]: "VIRTIO_MMIO_QUEUE_DESC_HIGH = 0x084"
definition VIRTIO_MMIO_DRIVER_DESC_LOW :: nat where [simp]: "VIRTIO_MMIO_DRIVER_DESC_LOW = 0x090"
definition VIRTIO_MMIO_DRIVER_DESC_HIGH :: nat where [simp]: "VIRTIO_MMIO_DRIVER_DESC_HIGH = 0x094"
definition VIRTIO_MMIO_DEVICE_DESC_LOW :: nat where [simp]: "VIRTIO_MMIO_DEVICE_DESC_LOW = 0x0a0"
definition VIRTIO_MMIO_DEVICE_DESC_HIGH :: nat where [simp]: "VIRTIO_MMIO_DEVICE_DESC_HIGH = 0x0a4"

definition VIRTIO_CONFIG_S_ACKNOWLEDGE :: u32 where [simp]: "VIRTIO_CONFIG_S_ACKNOWLEDGE = 1"
definition VIRTIO_CONFIG_S_DRIVER :: u32 where [simp]: "VIRTIO_CONFIG_S_DRIVER = 2"
definition VIRTIO_CONFIG_S_DRIVER_OK :: u32 where [simp]: "VIRTIO_CONFIG_S_DRIVER_OK = 4"
definition VIRTIO_CONFIG_S_FEATURES_OK :: u32 where [simp]: "VIRTIO_CONFIG_S_FEATURES_OK = 8"

text \<open>The feature bits that the driver turns down.\<close>

definition VIRTIO_REFUSED :: "nat list" where
  "VIRTIO_REFUSED = [5, 7, 11, 12, 27, 29, 28]"

definition NUM :: nat where [simp]: "NUM = 8"
definition VRING_DESC_F_NEXT :: u16 where [simp]: "VRING_DESC_F_NEXT = 1"
definition VRING_DESC_F_WRITE :: u16 where [simp]: "VRING_DESC_F_WRITE = 2"
definition VIRTIO_BLK_T_IN :: u32 where [simp]: "VIRTIO_BLK_T_IN = 0"
definition VIRTIO_BLK_T_OUT :: u32 where [simp]: "VIRTIO_BLK_T_OUT = 1"

datatype dma = DNull | DReq nat | DData nat | DStatus nat

record virtq_desc =
  d_addr :: dma
  d_len :: u32
  d_flags :: u16
  d_next :: u16

record virtio_blk_req =
  r_type :: u32
  r_reserved :: u32
  r_sector :: u64

record vinfo =
  in_b :: "nat option"
  in_status :: u8

record vdisk =
  desc :: "nat \<Rightarrow> virtq_desc"
  avail_idx :: u16
  avail_ring :: "u16 list"
  dev_idx :: u16
  used_ring :: "u32 list"
  dfree :: "nat \<Rightarrow> bool"
  used_idx :: u16
  info :: "nat \<Rightarrow> vinfo"
  ops :: "nat \<Rightarrow> virtio_blk_req"
  bdisk :: "nat \<Rightarrow> bool"
  vwrites :: "(nat \<times> u32) list"

definition WriteR :: "nat \<Rightarrow> u32 \<Rightarrow> vdisk \<Rightarrow> vdisk" where
  "WriteR r v d = d\<lparr>vwrites := vwrites d @ [(r, v)]\<rparr>"

section \<open>Initialisation\<close>

text \<open>The three pages for the queues, zeroed: their contents are the fields \<open>desc\<close>, \<open>avail\<close> and \<open>used\<close>.\<close>

definition queue_pages :: "kmem \<Rightarrow> ((u64 \<times> u64 \<times> u64) \<times> kmem) res" where
  "queue_pages k =
     (case kalloc k of (a, k) \<Rightarrow> case kalloc k of (b, k) \<Rightarrow> case kalloc k of (c, k) \<Rightarrow>
        if a = 0 \<or> b = 0 \<or> c = 0 then Fail (Panic ''virtio disk kalloc'')
        else Ok ((a, b, c), k\<lparr>k_mem := memset (memset (memset (k_mem k) a 0 (ucast PGSIZE)) b 0 (ucast PGSIZE)) c 0 (ucast PGSIZE)\<rparr>))"

definition zero_desc :: virtq_desc where
  "zero_desc = \<lparr>d_addr = DNull, d_len = 0, d_flags = 0, d_next = 0\<rparr>"

definition negotiate :: "u32 \<Rightarrow> u32" where
  "negotiate features = fold (\<lambda>b f. f AND NOT (push_bit b 1)) VIRTIO_REFUSED features"

definition high32 :: "u64 \<Rightarrow> u32" where
  "high32 a = ucast (drop_bit 32 a)"

definition virtio_disk_init :: "(nat \<Rightarrow> u32) \<Rightarrow> vdisk \<Rightarrow> kmem \<Rightarrow> (vdisk \<times> kmem) res" where
  "virtio_disk_init rd d k =
     (if rd VIRTIO_MMIO_MAGIC_VALUE \<noteq> 0x74726976 \<or> rd VIRTIO_MMIO_VERSION \<noteq> 2 \<or> rd VIRTIO_MMIO_DEVICE_ID \<noteq> 2 \<or>
         rd VIRTIO_MMIO_VENDOR_ID \<noteq> 0x554d4551 then Fail (Panic ''could not find virtio disk'')
      else let
        status = VIRTIO_CONFIG_S_ACKNOWLEDGE;
        d = WriteR VIRTIO_MMIO_STATUS status (WriteR VIRTIO_MMIO_STATUS 0 d);
        status = status OR VIRTIO_CONFIG_S_DRIVER;
        d = WriteR VIRTIO_MMIO_STATUS status d;
        d = WriteR VIRTIO_MMIO_DRIVER_FEATURES (negotiate (rd VIRTIO_MMIO_DEVICE_FEATURES)) d;
        d = WriteR VIRTIO_MMIO_STATUS (status OR VIRTIO_CONFIG_S_FEATURES_OK) d;
        status = rd VIRTIO_MMIO_STATUS
      in if status AND VIRTIO_CONFIG_S_FEATURES_OK = 0 then Fail (Panic ''virtio disk FEATURES_OK unset'')
      else let d = WriteR VIRTIO_MMIO_QUEUE_SEL 0 d in
      if rd VIRTIO_MMIO_QUEUE_READY \<noteq> 0 then Fail (Panic ''virtio disk should not be ready'')
      else if rd VIRTIO_MMIO_QUEUE_NUM_MAX = 0 then Fail (Panic ''virtio disk has no queue 0'')
      else if rd VIRTIO_MMIO_QUEUE_NUM_MAX < of_nat NUM then Fail (Panic ''virtio disk max queue too short'')
      else rbind (queue_pages k) (\<lambda>((a, b, c), k). let
        d = d\<lparr>desc := (\<lambda>_. zero_desc), avail_idx := 0, avail_ring := replicate NUM 0, dev_idx := 0, used_ring := replicate NUM 0\<rparr>;
        d = WriteR VIRTIO_MMIO_QUEUE_NUM (of_nat NUM) d;
        d = WriteR VIRTIO_MMIO_QUEUE_DESC_HIGH (high32 a) (WriteR VIRTIO_MMIO_QUEUE_DESC_LOW (ucast a) d);
        d = WriteR VIRTIO_MMIO_DRIVER_DESC_HIGH (high32 b) (WriteR VIRTIO_MMIO_DRIVER_DESC_LOW (ucast b) d);
        d = WriteR VIRTIO_MMIO_DEVICE_DESC_HIGH (high32 c) (WriteR VIRTIO_MMIO_DEVICE_DESC_LOW (ucast c) d);
        d = WriteR VIRTIO_MMIO_QUEUE_READY 1 d;
        d = fold (\<lambda>i d. d\<lparr>dfree := (dfree d)(i := True)\<rparr>) [0..<NUM] d
        in Ok (WriteR VIRTIO_MMIO_STATUS (status OR VIRTIO_CONFIG_S_DRIVER_OK) d, k)))"

section \<open>Descriptors\<close>

definition alloc_desc :: "vdisk \<Rightarrow> int \<times> vdisk" where
  "alloc_desc d =
     (case List.find (dfree d) [0..<NUM] of
        Some i \<Rightarrow> (int i, d\<lparr>dfree := (dfree d)(i := False)\<rparr>)
      | None \<Rightarrow> (-1, d))"

text \<open>It also wakes the sleepers on \<^verbatim>\<open>&disk.free[0]\<close>.\<close>

definition free_desc :: "nat \<Rightarrow> vdisk \<Rightarrow> vdisk res" where
  "free_desc i d =
     (if i \<ge> NUM then Fail (Panic ''free_desc 1'')
      else if dfree d i then Fail (Panic ''free_desc 2'')
      else Ok (d\<lparr>desc := (desc d)(i := zero_desc), dfree := (dfree d)(i := True)\<rparr>))"

definition taken :: "vdisk \<Rightarrow> nat set" where
  "taken d = {j. j < NUM \<and> \<not> dfree d j}"

lemma free_desc_taken:
  assumes "free_desc i d = Ok d'"
  shows "card (taken d') < card (taken d)"
proof -
  have i: "i < NUM" "\<not> dfree d i" and d': "dfree d' = (dfree d)(i := True)"
    using assms by (auto simp: free_desc_def split: if_splits)
  have "taken d' = taken d - {i}" unfolding taken_def d' by auto
  moreover have "i \<in> taken d" "finite (taken d)" using i by (simp_all add: taken_def)
  ultimately show ?thesis by (metis card_Diff1_less)
qed

function free_chain :: "nat \<Rightarrow> vdisk \<Rightarrow> vdisk res" where
  "free_chain i d =
     (let flag = d_flags (desc d i); nxt = d_next (desc d i) in
      case free_desc i d of
        Fail e \<Rightarrow> Fail e
      | Ok d' \<Rightarrow> if flag AND VRING_DESC_F_NEXT \<noteq> 0 then free_chain (unat nxt) d' else Ok d')"
  by pat_completeness auto
termination
  by (relation "measure (\<lambda>(i, d). card (taken d))") (auto dest: free_desc_taken)

declare free_chain.simps [simp del]

text \<open>Three descriptors, or none and those taken given back.\<close>

primrec alloc_descs :: "nat \<Rightarrow> nat list \<Rightarrow> vdisk \<Rightarrow> (nat list option \<times> vdisk) res" where
  "alloc_descs 0 idx d = Ok (Some idx, d)"
| "alloc_descs (Suc n) idx d =
     (case alloc_desc d of (i, d) \<Rightarrow>
        if i < 0 then rbind (rfold free_desc idx d) (\<lambda>d. Ok (None, d))
        else alloc_descs n (idx @ [nat i]) d)"

definition alloc3_desc :: "vdisk \<Rightarrow> (nat list option \<times> vdisk) res" where
  "alloc3_desc d = alloc_descs 3 [] d"

section \<open>Requests\<close>

text \<open>Buffer \<open>b\<close> with block number \<open>bn\<close>; the sector number is a product of \<^verbatim>\<open>uint\<close> values.\<close>

definition format_chain :: "nat \<Rightarrow> u32 \<Rightarrow> bool \<Rightarrow> nat \<Rightarrow> nat \<Rightarrow> nat \<Rightarrow> vdisk \<Rightarrow> vdisk" where
  "format_chain b bn write i0 i1 i2 d =
     (let d = d\<lparr>ops := (ops d)(i0 := \<lparr>r_type = (if write then VIRTIO_BLK_T_OUT else VIRTIO_BLK_T_IN), r_reserved = 0,
            r_sector = ucast (bn * (of_nat BSIZE div 512))\<rparr>)\<rparr>;
          d = d\<lparr>desc := (desc d)(i0 := \<lparr>d_addr = DReq i0, d_len = 16, d_flags = VRING_DESC_F_NEXT, d_next = of_nat i1\<rparr>)\<rparr>;
          d = d\<lparr>desc := (desc d)(i1 := \<lparr>d_addr = DData b, d_len = of_nat BSIZE,
            d_flags = (if write then 0 else VRING_DESC_F_WRITE) OR VRING_DESC_F_NEXT, d_next = of_nat i2\<rparr>)\<rparr>;
          d = d\<lparr>info := (info d)(i0 := (info d i0)\<lparr>in_status := 0xff\<rparr>)\<rparr>
      in d\<lparr>desc := (desc d)(i2 := \<lparr>d_addr = DStatus i0, d_len = 1, d_flags = VRING_DESC_F_WRITE, d_next = 0\<rparr>)\<rparr>)"

definition submit :: "nat \<Rightarrow> nat \<Rightarrow> vdisk \<Rightarrow> vdisk" where
  "submit b i0 d =
     (let d = d\<lparr>bdisk := (bdisk d)(b := True), info := (info d)(i0 := (info d i0)\<lparr>in_b := Some b\<rparr>)\<rparr>;
          d = d\<lparr>avail_ring := (avail_ring d)[unat (avail_idx d) mod NUM := of_nat i0]\<rparr>;
          d = d\<lparr>avail_idx := avail_idx d + 1\<rparr>
      in WriteR VIRTIO_MMIO_QUEUE_NOTIFY 0 d)"

text \<open>\<open>virtio_disk_rw\<close> up to its wait: the head of the request's chain, or nothing when it has to sleep for descriptors.\<close>

definition rw_start :: "nat \<Rightarrow> u32 \<Rightarrow> bool \<Rightarrow> vdisk \<Rightarrow> (nat option \<times> vdisk) res" where
  "rw_start b bn write d =
     rbind (alloc3_desc d) (\<lambda>(r, d). case r of
       None \<Rightarrow> Ok (None, d)
     | Some idx \<Rightarrow> Ok (Some (idx ! 0), submit b (idx ! 0) (format_chain b bn write (idx ! 0) (idx ! 1) (idx ! 2) d)))"

text \<open>\<open>virtio_disk_rw\<close> after \<^verbatim>\<open>b->disk\<close> has become 0.\<close>

definition rw_finish :: "nat \<Rightarrow> vdisk \<Rightarrow> vdisk res" where
  "rw_finish i0 d = free_chain i0 (d\<lparr>info := (info d)(i0 := (info d i0)\<lparr>in_b := None\<rparr>)\<rparr>)"

section \<open>Completion\<close>

function intr_loop :: "vdisk \<Rightarrow> vdisk res" where
  "intr_loop d =
     (if used_idx d \<noteq> dev_idx d then
        let i = unat (used_ring d ! (unat (used_idx d) mod NUM)) in
        if i \<ge> NUM then Fail (Fault ''disk.info[id]'')
        else if in_status (info d i) \<noteq> 0 then Fail (Panic ''virtio_disk_intr status'')
        else case in_b (info d i) of
          None \<Rightarrow> Fail (Fault ''disk.info[id].b'')
        | Some b \<Rightarrow> intr_loop (d\<lparr>bdisk := (bdisk d)(b := False), used_idx := used_idx d + 1\<rparr>)
      else Ok d)"
  by pat_completeness auto

lemma u16_distance: "a \<noteq> b \<Longrightarrow> unat (b - (a + 1)) < unat (b - a)" for a b :: u16
proof -
  assume "a \<noteq> b"
  then have "b - a \<noteq> 0" by simp
  then have "unat (b - a - 1) = unat (b - a) - 1" "unat (b - a) \<noteq> 0"
    by (simp_all add: unat_minus_one unsigned_eq_0_iff)
  moreover have "b - a - 1 = b - (a + 1)" by simp
  ultimately show ?thesis by simp
qed

termination intr_loop
  by (relation "measure (\<lambda>d. unat (dev_idx d - used_idx d))") (simp_all add: u16_distance)

declare intr_loop.simps [simp del]

text \<open>\<open>istat\<close> is the value read from the interrupt-status register.\<close>

definition virtio_disk_intr :: "u32 \<Rightarrow> vdisk \<Rightarrow> vdisk res" where
  "virtio_disk_intr istat d = intr_loop (WriteR VIRTIO_MMIO_INTERRUPT_ACK (istat AND 3) d)"

end
