(* ===== verification/Xv6_VirtioSys.thy ===== *)
theory Xv6_VirtioSys
  imports Xv6_Virtio
begin

text \<open>
  The driver against its device. The device follows the virtio specification: it takes chain heads from the available ring in order, carries out any request it has
  taken (following the chain from its head), writes a status and puts the head on the used ring. It may report an error: then the status is any value but 0, and the
  data the request was to transfer (the buffer of a read, the block of a write) may be anything. Threads, interrupts and the device interleave; each thread has the sleep lock of its
  buffer, so a buffer has at most one request, and, as in the buffer cache, no two buffers in flight have the same block.
\<close>

section \<open>Threads and device\<close>

text \<open>A thread in \<open>virtio_disk_rw\<close> has its three descriptors, the block number and the direction as locals.\<close>

datatype vthread = VIdle | VFly nat nat nat u32 bool

record vsys =
  vd :: vdisk
  last_avail :: u16
  pend :: "nat list"
  store :: "u32 \<Rightarrow> block"
  bufd :: "nat \<Rightarrow> block"
  thr :: "nat \<Rightarrow> vthread"

text \<open>
  What the device makes of the chain at \<open>h\<close>: the request it describes as buffer, sector, direction and place of the status. A chain that is not a request
  in the sense of the specification has no meaning.
\<close>

definition dev_request :: "vdisk \<Rightarrow> nat \<Rightarrow> (nat \<times> u64 \<times> bool \<times> nat) option" where
  "dev_request d h =
     (let e0 = desc d h; e1 = desc d (unat (d_next e0)); e2 = desc d (unat (d_next e1)) in
      case (d_addr e0, d_addr e1, d_addr e2) of
        (DReq r, DData b, DStatus st) \<Rightarrow>
          if d_flags e0 = VRING_DESC_F_NEXT \<and> d_len e0 = 16 \<and> d_len e1 = of_nat BSIZE \<and> d_len e2 = 1 \<and> d_flags e2 = VRING_DESC_F_WRITE \<and>
            (r_type (ops d r) = VIRTIO_BLK_T_OUT \<and> d_flags e1 = VRING_DESC_F_NEXT \<or>
             r_type (ops d r) = VIRTIO_BLK_T_IN \<and> d_flags e1 = VRING_DESC_F_WRITE OR VRING_DESC_F_NEXT)
          then Some (b, r_sector (ops d r), r_type (ops d r) = VIRTIO_BLK_T_OUT, st) else None
      | _ \<Rightarrow> None)"

text \<open>
  The device's storage by block: a block is two sectors. The device completes the request with status \<open>v\<close>, where 0 is success; \<open>x\<close> is what a failed
  request leaves in the place it was to fill.
\<close>

definition dev_done :: "nat \<Rightarrow> nat \<Rightarrow> u8 \<Rightarrow> vdisk \<Rightarrow> vdisk" where
  "dev_done h st v d = d\<lparr>info := (info d)(st := (info d st)\<lparr>in_status := v\<rparr>),
     used_ring := (used_ring d)[unat (dev_idx d) mod NUM := of_nat h], dev_idx := dev_idx d + 1\<rparr>"

definition dev_exec :: "nat \<Rightarrow> u8 \<Rightarrow> block \<Rightarrow> vsys \<Rightarrow> vsys option" where
  "dev_exec h v x s =
     (case dev_request (vd s) h of
        None \<Rightarrow> None
      | Some (b, sector, out, st) \<Rightarrow>
          let bn = ucast (sector div 2) in
          Some (s\<lparr>store := (if out then (store s)(bn := if v = 0 then bufd s b else x) else store s),
                  bufd := (if out then bufd s else (bufd s)(b := if v = 0 then store s bn else x)),
                  vd := dev_done h st v (vd s), pend := remove1 h (pend s)\<rparr>))"

inductive vstep :: "vsys \<Rightarrow> vsys \<Rightarrow> bool" where
  v_start: "thr s b = VIdle \<Longrightarrow> unat bn < 2 ^ 31 \<Longrightarrow> (\<forall>c i j k w. thr s c \<noteq> VFly i j k bn w) \<Longrightarrow>
    alloc3_desc (vd s) = Ok (Some [i, j, k], d) \<Longrightarrow> rw_start b bn w (vd s) = Ok (Some i, d') \<Longrightarrow>
    vstep s (s\<lparr>vd := d', thr := (thr s)(b := VFly i j k bn w)\<rparr>)"
| v_nodesc: "thr s b = VIdle \<Longrightarrow> rw_start b bn w (vd s) = Ok (None, d') \<Longrightarrow> vstep s (s\<lparr>vd := d'\<rparr>)"
| v_fill: "thr s b = VIdle \<Longrightarrow> vstep s (s\<lparr>bufd := (bufd s)(b := x)\<rparr>)"
| v_fetch: "last_avail s \<noteq> avail_idx (vd s) \<Longrightarrow>
    vstep s (s\<lparr>last_avail := last_avail s + 1, pend := pend s @ [unat (avail_ring (vd s) ! (unat (last_avail s) mod NUM))]\<rparr>)"
| v_exec: "h \<in> set (pend s) \<Longrightarrow> dev_exec h v x s = Some s' \<Longrightarrow> vstep s s'"
| v_intr: "virtio_disk_intr istat (vd s) = Ok d' \<Longrightarrow> vstep s (s\<lparr>vd := d'\<rparr>)"
| v_finish: "thr s b = VFly i j k bn w \<Longrightarrow> \<not> bdisk (vd s) b \<Longrightarrow> rw_finish i (vd s) = Ok d' \<Longrightarrow>
    vstep s (s\<lparr>vd := d', thr := (thr s)(b := VIdle)\<rparr>)"

inductive vreach :: "vsys \<Rightarrow> vsys \<Rightarrow> bool" for s0 where
  v_refl: "vreach s0 s0"
| v_more: "vreach s0 s \<Longrightarrow> vstep s t \<Longrightarrow> vreach s0 t"

text \<open>After \<open>virtio_disk_init\<close>.\<close>

definition vinit :: "vsys \<Rightarrow> bool" where
  "vinit s \<longleftrightarrow> (\<forall>i<NUM. dfree (vd s) i) \<and> avail_idx (vd s) = last_avail s \<and> used_idx (vd s) = dev_idx (vd s) \<and>
     length (avail_ring (vd s)) = NUM \<and> length (used_ring (vd s)) = NUM \<and> pend s = [] \<and>
     (\<forall>b. thr s b = VIdle \<and> \<not> bdisk (vd s) b)"

section \<open>The invariant\<close>

definition availq :: "vsys \<Rightarrow> nat list" where
  "availq s = map unat (ring (avail_ring (vd s)) NUM (last_avail s) (avail_idx (vd s)))"

definition usedq :: "vdisk \<Rightarrow> nat list" where
  "usedq d = map unat (ring (used_ring d) NUM (used_idx d) (dev_idx d))"

definition waitq :: "vsys \<Rightarrow> nat list" where
  "waitq s = availq s @ pend s @ usedq (vd s)"

text \<open>A request as the driver formats it.\<close>

definition chain_ok :: "vdisk \<Rightarrow> nat \<Rightarrow> nat \<Rightarrow> nat \<Rightarrow> nat \<Rightarrow> u32 \<Rightarrow> bool \<Rightarrow> bool" where
  "chain_ok d b i j k bn w \<longleftrightarrow> distinct [i, j, k] \<and> i < NUM \<and> j < NUM \<and> k < NUM \<and> \<not> dfree d i \<and> \<not> dfree d j \<and> \<not> dfree d k \<and>
     ops d i = \<lparr>r_type = (if w then VIRTIO_BLK_T_OUT else VIRTIO_BLK_T_IN), r_reserved = 0, r_sector = ucast (bn * 2)\<rparr> \<and>
     desc d i = \<lparr>d_addr = DReq i, d_len = 16, d_flags = VRING_DESC_F_NEXT, d_next = of_nat j\<rparr> \<and>
     desc d j = \<lparr>d_addr = DData b, d_len = of_nat BSIZE, d_flags = (if w then 0 else VRING_DESC_F_WRITE) OR VRING_DESC_F_NEXT, d_next = of_nat k\<rparr> \<and>
     desc d k = \<lparr>d_addr = DStatus i, d_len = 1, d_flags = VRING_DESC_F_WRITE, d_next = 0\<rparr> \<and>
     in_b (info d i) = Some b"

definition chains :: "vsys \<Rightarrow> bool" where
  "chains s \<longleftrightarrow>
     (\<forall>b i j k bn w. thr s b = VFly i j k bn w \<longrightarrow> chain_ok (vd s) b i j k bn w \<and> unat bn < 2 ^ 31) \<and>
     (\<forall>b c i j k bn w i' j' k' bn' w'. thr s b = VFly i j k bn w \<and> thr s c = VFly i' j' k' bn' w' \<and> b \<noteq> c \<longrightarrow>
        {i, j, k} \<inter> {i', j', k'} = {} \<and> bn \<noteq> bn') \<and>
     (\<forall>n<NUM. \<not> dfree (vd s) n \<longrightarrow> (\<exists>b i j k bn w. thr s b = VFly i j k bn w \<and> n \<in> {i, j, k}))"

text \<open>
  A buffer is owned by the device exactly while the head of its chain is in a queue. It leaves the used ring only with status 0, and when the device has
  reported status 0 the contents of the buffer are those of the disk.
\<close>

definition queues :: "vsys \<Rightarrow> bool" where
  "queues s \<longleftrightarrow> length (avail_ring (vd s)) = NUM \<and> length (used_ring (vd s)) = NUM \<and> distinct (waitq s) \<and>
     (\<forall>h \<in> set (waitq s). \<exists>b j k bn w. thr s b = VFly h j k bn w) \<and>
     (\<forall>b i j k bn w. thr s b = VFly i j k bn w \<longrightarrow> (bdisk (vd s) b \<longleftrightarrow> i \<in> set (waitq s)) \<and>
        (i \<notin> set (waitq s) \<longrightarrow> in_status (info (vd s) i) = 0) \<and>
        (i \<notin> set (availq s @ pend s) \<and> in_status (info (vd s) i) = 0 \<longrightarrow> bufd s b = store s bn))"

section \<open>Descriptors\<close>

lemma alloc_desc_cases:
  obtains i where "alloc_desc d = (int i, d\<lparr>dfree := (dfree d)(i := False)\<rparr>)" "i < NUM" "dfree d i"
  | "alloc_desc d = (-1, d)"
proof (cases "List.find (dfree d) [0..<NUM]")
  case None
  then show ?thesis using that(2) by (simp add: alloc_desc_def)
next
  case (Some i)
  then have "i < NUM" "dfree d i" by (auto simp: find_Some_iff)
  then show ?thesis using that(1) Some by (simp add: alloc_desc_def)
qed

text \<open>\<open>alloc3_desc\<close> takes three free descriptors, or gives back what it took.\<close>

lemma alloc3_cases:
  obtains i j k where "alloc3_desc d = Ok (Some [i, j, k], d\<lparr>dfree := (dfree d)(i := False, j := False, k := False)\<rparr>)"
      "distinct [i, j, k]" "i < NUM" "j < NUM" "k < NUM" "dfree d i" "dfree d j" "dfree d k"
  | F where "alloc3_desc d = Ok (None, d\<lparr>desc := F\<rparr>)" "\<forall>n. \<not> dfree d n \<longrightarrow> F n = desc d n"
proof (rule alloc_desc_cases [of d])
  assume "alloc_desc d = (-1, d)"
  then have "alloc3_desc d = Ok (None, d\<lparr>desc := desc d\<rparr>)" by (simp add: alloc3_desc_def numeral_3_eq_3)
  then show ?thesis using that(2) by blast
next
  fix i assume i: "alloc_desc d = (int i, d\<lparr>dfree := (dfree d)(i := False)\<rparr>)" "i < NUM" "dfree d i"
  let ?d1 = "d\<lparr>dfree := (dfree d)(i := False)\<rparr>"
  show ?thesis
  proof (rule alloc_desc_cases [of ?d1])
    assume "alloc_desc ?d1 = (-1, ?d1)"
    then have "alloc3_desc d = Ok (None, ?d1\<lparr>desc := (desc d)(i := zero_desc), dfree := (dfree ?d1)(i := True)\<rparr>)"
      using i by (simp add: alloc3_desc_def numeral_3_eq_3 free_desc_def)
    moreover have "?d1\<lparr>desc := (desc d)(i := zero_desc), dfree := (dfree ?d1)(i := True)\<rparr> = d\<lparr>desc := (desc d)(i := zero_desc)\<rparr>"
      using i(3) by (cases d) (simp add: fun_upd_idem)
    ultimately have a: "alloc3_desc d = Ok (None, d\<lparr>desc := (desc d)(i := zero_desc)\<rparr>)" by simp
    show ?thesis by (rule that(2) [OF a]) (use i in auto)
  next
    fix j assume j: "alloc_desc ?d1 = (int j, ?d1\<lparr>dfree := (dfree ?d1)(j := False)\<rparr>)" "j < NUM" "dfree ?d1 j"
    let ?d2 = "?d1\<lparr>dfree := (dfree ?d1)(j := False)\<rparr>"
    have ij: "j \<noteq> i" "dfree d j" using j(3) by (auto split: if_splits)
    show ?thesis
    proof (rule alloc_desc_cases [of ?d2])
      let ?F = "(desc d)(i := zero_desc, j := zero_desc)"
      assume "alloc_desc ?d2 = (-1, ?d2)"
      then have "alloc3_desc d = Ok (None, ?d2\<lparr>desc := ?F, dfree := (dfree ?d2)(i := True, j := True)\<rparr>)"
        using i j ij by (simp add: alloc3_desc_def numeral_3_eq_3 free_desc_def)
      moreover have "?d2\<lparr>desc := ?F, dfree := (dfree ?d2)(i := True, j := True)\<rparr> = d\<lparr>desc := ?F\<rparr>"
        using i(3) ij by (cases d) (auto simp: fun_eq_iff)
      ultimately have a: "alloc3_desc d = Ok (None, d\<lparr>desc := ?F\<rparr>)" by simp
      show ?thesis by (rule that(2) [OF a]) (use i ij in auto)
    next
      fix k assume k: "alloc_desc ?d2 = (int k, ?d2\<lparr>dfree := (dfree ?d2)(k := False)\<rparr>)" "k < NUM" "dfree ?d2 k"
      have "k \<noteq> i" "k \<noteq> j" "dfree d k" using k(3) by (auto split: if_splits)
      moreover have "alloc3_desc d = Ok (Some [i, j, k], d\<lparr>dfree := (dfree d)(i := False, j := False, k := False)\<rparr>)"
        using i j k by (simp add: alloc3_desc_def numeral_3_eq_3)
      ultimately show ?thesis using that(1) i j k ij by auto
    qed
  qed
qed

lemma unat_u16 [simp]: "n < NUM \<Longrightarrow> unat (of_nat n :: u16) = n"
  by (rule unat_of_nat_small) simp

lemma unat_u32 [simp]: "n < NUM \<Longrightarrow> unat (of_nat n :: u32) = n"
  by (rule unat_of_nat_small) simp

lemma chain_ok_cong:
  assumes "chain_ok d b i j k bn w" and "\<And>n. n \<in> {i, j, k} \<Longrightarrow> desc d' n = desc d n \<and> dfree d' n = dfree d n"
    and "ops d' i = ops d i" and "in_b (info d' i) = in_b (info d i)"
  shows "chain_ok d' b i j k bn w"
  using assms by (simp add: chain_ok_def)

text \<open>The chain of a request is freed as it was built.\<close>

lemma free_chain_ok:
  assumes "chain_ok d b i j k bn w"
  shows "free_chain i (d\<lparr>info := X\<rparr>) = Ok (d\<lparr>info := X, desc := (desc d)(i := zero_desc, j := zero_desc, k := zero_desc),
    dfree := (dfree d)(i := True, j := True, k := True)\<rparr>)"
proof -
  have c: "i \<noteq> j" "i \<noteq> k" "j \<noteq> k" "i < NUM" "j < NUM" "k < NUM" "\<not> dfree d i" "\<not> dfree d j" "\<not> dfree d k"
    and f: "d_flags (desc d i) = 1" "d_next (desc d i) = of_nat j" "d_flags (desc d j) AND 1 \<noteq> 0" "d_next (desc d j) = of_nat k"
      "d_flags (desc d k) = 2"
    using assms by (auto simp: chain_ok_def)
  have n: "unat (of_nat j :: u16) = j" "unat (of_nat k :: u16) = k" using c by simp_all
  show ?thesis
    using c f n by (simp add: free_chain.simps [of i] free_chain.simps [of j] free_chain.simps [of k] free_desc_def Let_def del: NUM_def)
qed

lemma sector_bn:
  assumes "unat (bn :: u32) < 2 ^ 31"
  shows "ucast (ucast (bn * 2) div 2 :: u64) = bn"
proof -
  have "unat (bn * 2) = unat bn * 2" using assms by (simp add: unat_word_ariths)
  then have "unat (ucast (bn * 2) :: u64) = unat bn * 2" using assms by (simp add: unsigned_ucast_eq take_bit_nat_eq_self)
  then have "unat (ucast (bn * 2) div 2 :: u64) = unat bn" by (simp add: unat_div)
  then have "unat (ucast (ucast (bn * 2) div 2 :: u64) :: u32) = unat bn" using assms by (simp add: unsigned_ucast_eq take_bit_nat_eq_self)
  then show ?thesis by (rule unsigned_word_eqI)
qed

lemma dev_request_ok:
  assumes "chain_ok d b i j k bn w"
  shows "dev_request d i = Some (b, ucast (bn * 2), w, i)"
proof -
  have n: "unat (of_nat j :: u16) = j" "unat (of_nat k :: u16) = k" using assms by (auto simp: chain_ok_def)
  show ?thesis using assms n by (simp add: dev_request_def chain_ok_def Let_def del: NUM_def)
qed

section \<open>Preservation\<close>

lemma chainsD:
  assumes "chains s" "thr s b = VFly i j k bn w"
  shows "chain_ok (vd s) b i j k bn w" "unat bn < 2 ^ 31"
  using assms unfolding chains_def by blast+

lemma chain_okD:
  assumes "chain_ok d b i j k bn w"
  shows "distinct [i, j, k]" "i < NUM" "j < NUM" "k < NUM" "\<not> dfree d i" "\<not> dfree d j" "\<not> dfree d k" "in_b (info d i) = Some b"
  using assms by (simp_all add: chain_ok_def del: NUM_def)

lemma chains_apart:
  assumes "chains s" "thr s b = VFly i j k bn w" "thr s c = VFly i' j' k' bn' w'" "b \<noteq> c"
  shows "{i, j, k} \<inter> {i', j', k'} = {}" "bn \<noteq> bn'"
  using assms unfolding chains_def by blast+

lemma chains_nonfree:
  assumes "chains s" "n < NUM" "\<not> dfree (vd s) n"
  shows "\<exists>b i j k bn w. thr s b = VFly i j k bn w \<and> n \<in> {i, j, k}"
  using assms unfolding chains_def by blast

lemma chainsI:
  assumes "\<And>b i j k bn w. thr s b = VFly i j k bn w \<Longrightarrow> chain_ok (vd s) b i j k bn w \<and> unat bn < 2 ^ 31"
    and "\<And>b c i j k bn w i' j' k' bn' w'. \<lbrakk>thr s b = VFly i j k bn w; thr s c = VFly i' j' k' bn' w'; b \<noteq> c\<rbrakk> \<Longrightarrow>
        {i, j, k} \<inter> {i', j', k'} = {} \<and> bn \<noteq> bn'"
    and "\<And>n. n < NUM \<Longrightarrow> \<not> dfree (vd s) n \<Longrightarrow> \<exists>b i j k bn w. thr s b = VFly i j k bn w \<and> n \<in> {i, j, k}"
  shows "chains s"
  unfolding chains_def using assms by blast

lemma queuesD:
  assumes "queues s"
  shows "length (avail_ring (vd s)) = NUM" "length (used_ring (vd s)) = NUM" "distinct (waitq s)"
    and "h \<in> set (waitq s) \<Longrightarrow> \<exists>b j k bn w. thr s b = VFly h j k bn w"
    and "thr s b = VFly i j k bn w \<Longrightarrow> bdisk (vd s) b \<longleftrightarrow> i \<in> set (waitq s)"
    and "thr s b = VFly i j k bn w \<Longrightarrow> i \<notin> set (waitq s) \<Longrightarrow> in_status (info (vd s) i) = 0"
    and "thr s b = VFly i j k bn w \<Longrightarrow> i \<notin> set (availq s @ pend s) \<Longrightarrow> in_status (info (vd s) i) = 0 \<Longrightarrow> bufd s b = store s bn"
  using assms unfolding queues_def by blast+

lemma queuesI:
  assumes "length (avail_ring (vd s)) = NUM" "length (used_ring (vd s)) = NUM" "distinct (waitq s)"
    and "\<And>h. h \<in> set (waitq s) \<Longrightarrow> \<exists>b j k bn w. thr s b = VFly h j k bn w"
    and "\<And>b i j k bn w. thr s b = VFly i j k bn w \<Longrightarrow> bdisk (vd s) b \<longleftrightarrow> i \<in> set (waitq s)"
    and "\<And>b i j k bn w. thr s b = VFly i j k bn w \<Longrightarrow> i \<notin> set (waitq s) \<Longrightarrow> in_status (info (vd s) i) = 0"
    and "\<And>b i j k bn w. thr s b = VFly i j k bn w \<Longrightarrow> i \<notin> set (availq s @ pend s) \<Longrightarrow> in_status (info (vd s) i) = 0 \<Longrightarrow> bufd s b = store s bn"
  shows "queues s"
  unfolding queues_def using assms by blast

text \<open>A queued head is the head of a chain, so there are fewer of them than descriptors.\<close>

lemma head_taken:
  assumes "chains s" "queues s" "h \<in> set (waitq s)"
  shows "h < NUM \<and> \<not> dfree (vd s) h"
  using queuesD(4) [OF assms(2,3)] chainsD(1) [OF assms(1)] chain_okD(2,5) by blast

lemma heads_fit:
  assumes "chains s" "queues s" "i < NUM" "dfree (vd s) i"
  shows "i \<notin> set (waitq s)" "length (waitq s) < NUM"
proof -
  show "i \<notin> set (waitq s)" using head_taken [OF assms(1,2)] assms(4) by blast
  have "set (waitq s) \<subseteq> {..<NUM} - {i}" using head_taken [OF assms(1,2)] assms(4) by blast
  then have "card (set (waitq s)) \<le> card ({..<NUM} - {i})" by (intro card_mono) simp_all
  also have "\<dots> < NUM" using assms(3) by simp
  finally show "length (waitq s) < NUM" using distinct_card [OF queuesD(3) [OF assms(2)]] by simp
qed

definition chain_descs :: "nat \<Rightarrow> bool \<Rightarrow> nat \<Rightarrow> nat \<Rightarrow> nat \<Rightarrow> (nat \<Rightarrow> virtq_desc) \<Rightarrow> nat \<Rightarrow> virtq_desc" where
  "chain_descs b w i j k f = f(i := \<lparr>d_addr = DReq i, d_len = 16, d_flags = VRING_DESC_F_NEXT, d_next = of_nat j\<rparr>,
     j := \<lparr>d_addr = DData b, d_len = of_nat BSIZE, d_flags = (if w then 0 else VRING_DESC_F_WRITE) OR VRING_DESC_F_NEXT, d_next = of_nat k\<rparr>,
     k := \<lparr>d_addr = DStatus i, d_len = 1, d_flags = VRING_DESC_F_WRITE, d_next = 0\<rparr>)"

lemma format_chain_flat:
  "format_chain b bn w i j k d = d\<lparr>desc := chain_descs b w i j k (desc d),
     info := (info d)(i := (info d i)\<lparr>in_status := 0xff\<rparr>),
     ops := (ops d)(i := \<lparr>r_type = (if w then VIRTIO_BLK_T_OUT else VIRTIO_BLK_T_IN), r_reserved = 0, r_sector = ucast (bn * 2)\<rparr>)\<rparr>"
proof -
  have "of_nat BSIZE div 512 = (2 :: u32)" by simp
  then show ?thesis by (cases d) (simp only: format_chain_def chain_descs_def Let_def vdisk.simps)
qed

lemma submit_flat:
  "submit b i d = d\<lparr>avail_idx := avail_idx d + 1, avail_ring := (avail_ring d)[unat (avail_idx d) mod NUM := of_nat i],
     info := (info d)(i := (info d i)\<lparr>in_b := Some b\<rparr>), bdisk := (bdisk d)(b := True), vwrites := vwrites d @ [(VIRTIO_MMIO_QUEUE_NOTIFY, 0)]\<rparr>"
  by (cases d) (simp only: submit_def WriteR_def Let_def vdisk.simps)

lemma rw_start_spec:
  assumes r: "rw_start b bn w d = Ok (Some i, d')" and a: "alloc3_desc d = Ok (Some [i, j, k], d0)"
  shows "chain_ok d' b i j k bn w" "dfree d i" "dfree d j" "dfree d k" "i < NUM"
    and "n \<notin> {i, j, k} \<Longrightarrow> desc d' n = desc d n" "dfree d' = (dfree d)(i := False, j := False, k := False)"
    and "n \<noteq> i \<Longrightarrow> ops d' n = ops d n" "n \<noteq> i \<Longrightarrow> info d' n = info d n" "bdisk d' = (bdisk d)(b := True)"
    and "avail_ring d' = (avail_ring d)[unat (avail_idx d) mod NUM := of_nat i]" "avail_idx d' = avail_idx d + 1"
    and "used_ring d' = used_ring d" "used_idx d' = used_idx d" "dev_idx d' = dev_idx d"
proof -
  have i: "distinct [i, j, k]" "i < NUM" "j < NUM" "k < NUM" "dfree d i" "dfree d j" "dfree d k"
    and d0: "d0 = d\<lparr>dfree := (dfree d)(i := False, j := False, k := False)\<rparr>"
    using a by (rule_tac alloc3_cases [of d]; simp)+
  have d': "d' = submit b i (format_chain b bn w i j k d0)" using r a by (simp add: rw_start_def)
  note defs = d' d0 submit_flat format_chain_flat vdisk.simps
  show "dfree d i" "dfree d j" "dfree d k" "i < NUM" using i by simp_all
  show "chain_ok d' b i j k bn w" using i by (simp add: chain_ok_def defs chain_descs_def del: NUM_def)
  show "n \<notin> {i, j, k} \<Longrightarrow> desc d' n = desc d n" "dfree d' = (dfree d)(i := False, j := False, k := False)"
    "n \<noteq> i \<Longrightarrow> ops d' n = ops d n" "n \<noteq> i \<Longrightarrow> info d' n = info d n" "bdisk d' = (bdisk d)(b := True)"
    "avail_ring d' = (avail_ring d)[unat (avail_idx d) mod NUM := of_nat i]" "avail_idx d' = avail_idx d + 1"
    "used_ring d' = used_ring d" "used_idx d' = used_idx d" "dev_idx d' = dev_idx d"
    by (simp_all add: defs chain_descs_def del: NUM_def)
qed

lemma start_chains:
  assumes inv: "chains s" and b: "thr s b = VIdle" and bn: "unat bn < 2 ^ 31" "\<forall>c i j k w. thr s c \<noteq> VFly i j k bn w"
    and a: "alloc3_desc (vd s) = Ok (Some [i, j, k], d0)" and r: "rw_start b bn w (vd s) = Ok (Some i, d')"
  shows "chains (s\<lparr>vd := d', thr := (thr s)(b := VFly i j k bn w)\<rparr>)" (is "chains ?t")
proof -
  note sp = rw_start_spec [OF r a]
  have apart: "{i, j, k} \<inter> {i', j', k'} = {}" if "thr s c = VFly i' j' k' bn' w'" for c i' j' k' bn' w'
    using chain_okD(5-7) [OF chainsD(1) [OF inv that]] sp(2-4) by auto
  have old: "chain_ok d' c i' j' k' bn' w'" if "thr s c = VFly i' j' k' bn' w'" for c i' j' k' bn' w'
  proof (rule chain_ok_cong [OF chainsD(1) [OF inv that]])
    show "desc d' n = desc (vd s) n \<and> dfree d' n = dfree (vd s) n" if "n \<in> {i', j', k'}" for n
      using that apart [OF \<open>thr s c = _\<close>] sp(6,7) by auto
    show "ops d' i' = ops (vd s) i'" "in_b (info d' i') = in_b (info (vd s) i')"
      using apart [OF that] sp(8,9) by auto
  qed
  show ?thesis
  proof (rule chainsI)
    fix c i' j' k' bn' w' assume c: "thr ?t c = VFly i' j' k' bn' w'"
    then show "chain_ok (vd ?t) c i' j' k' bn' w' \<and> unat bn' < 2 ^ 31"
      using sp(1) bn(1) old chainsD(2) [OF inv] by (auto split: if_splits)
  next
    fix c e i1 j1 k1 b1 w1 i2 j2 k2 b2 w2
    assume "thr ?t c = VFly i1 j1 k1 b1 w1" "thr ?t e = VFly i2 j2 k2 b2 w2" "c \<noteq> e"
    then show "{i1, j1, k1} \<inter> {i2, j2, k2} = {} \<and> b1 \<noteq> b2"
      using apart [of c i1 j1 k1 b1 w1] apart [of e i2 j2 k2 b2 w2] bn(2) chains_apart [OF inv, of c i1 j1 k1 b1 w1 e]
      by (cases "c = b"; cases "e = b") auto
  next
    fix n assume n: "n < NUM" "\<not> dfree (vd ?t) n"
    show "\<exists>b i j k bn w. thr ?t b = VFly i j k bn w \<and> n \<in> {i, j, k}"
    proof (cases "n \<in> {i, j, k}")
      case True
      then have "thr ?t b = VFly i j k bn w \<and> n \<in> {i, j, k}" by simp
      then show ?thesis by blast
    next
      case False
      then have "\<not> dfree (vd s) n" using n(2) sp(7) by (auto split: if_splits)
      then obtain c i' j' k' bn' w' where c: "thr s c = VFly i' j' k' bn' w'" "n \<in> {i', j', k'}" using chains_nonfree [OF inv n(1)] by blast
      then have "thr ?t c = VFly i' j' k' bn' w'" using b by auto
      then show ?thesis using c(2) by blast
    qed
  qed
qed

lemma ring8_put:
  assumes "length d = NUM" "unat (w - r :: u16) < NUM"
  shows "ring (d[unat w mod NUM := x]) NUM r (w + 1) = ring d NUM r w @ [x]"
  by (rule ring_put(1)) (use assms in \<open>simp_all\<close>)

lemma start_queues:
  assumes c: "chains s" and q: "queues s" and b: "thr s b = VIdle"
    and a: "alloc3_desc (vd s) = Ok (Some [i, j, k], d0)" and r: "rw_start b bn w (vd s) = Ok (Some i, d')"
  shows "queues (s\<lparr>vd := d', thr := (thr s)(b := VFly i j k bn w)\<rparr>)" (is "queues ?t")
proof -
  note sp = rw_start_spec [OF r a]
  note fit = heads_fit [OF c q sp(5,2)]
  have "unat (avail_idx (vd s) - last_avail s) < NUM" using fit(2) by (simp add: waitq_def availq_def)
  then have av: "availq ?t = availq s @ [i]"
    using sp(5) unfolding availq_def by (simp add: sp(11,12) ring8_put [OF queuesD(1) [OF q]] del: NUM_def)
  have us: "usedq (vd ?t) = usedq (vd s)" unfolding usedq_def by (simp add: sp(13-15))
  have wq: "set (waitq ?t) = insert i (set (waitq s))" and dw: "distinct (waitq ?t)"
    using queuesD(3) [OF q] fit(1) unfolding waitq_def av us by auto
  have ne: "i' \<noteq> i" if "thr s x = VFly i' j' k' bn' w'" for x i' j' k' bn' w'
    using chain_okD(5) [OF chainsD(1) [OF c that]] sp(2) by auto
  show ?thesis
  proof (rule queuesI)
    show "length (avail_ring (vd ?t)) = NUM" "length (used_ring (vd ?t)) = NUM" using queuesD(1,2) [OF q] by (simp_all add: sp)
    show "distinct (waitq ?t)" by (rule dw)
    show "\<exists>b j k bn w. thr ?t b = VFly h j k bn w" if h: "h \<in> set (waitq ?t)" for h
    proof (cases "h = i")
      case True
      have "thr ?t b = VFly i j k bn w" by simp
      then show ?thesis unfolding True by blast
    next
      case False
      then obtain x j' k' bn' w' where x: "thr s x = VFly h j' k' bn' w'" using queuesD(4) [OF q, of h] h wq by blast
      then have "thr ?t x = VFly h j' k' bn' w'" using b by auto
      then show ?thesis by blast
    qed
    show "bdisk (vd ?t) x \<longleftrightarrow> i' \<in> set (waitq ?t)" if "thr ?t x = VFly i' j' k' bn' w'" for x i' j' k' bn' w'
      using that ne queuesD(5) [OF q] by (auto simp: wq sp(10) split: if_splits)
    show "in_status (info (vd ?t) i') = 0" if "thr ?t x = VFly i' j' k' bn' w'" "i' \<notin> set (waitq ?t)" for x i' j' k' bn' w'
      using that ne queuesD(6) [OF q] sp(9) unfolding wq by (auto split: if_splits)
    show "bufd ?t x = store ?t bn'"
      if "thr ?t x = VFly i' j' k' bn' w'" "i' \<notin> set (availq ?t @ pend ?t)" "in_status (info (vd ?t) i') = 0" for x i' j' k' bn' w'
      using that ne queuesD(7) [OF q] sp(9) unfolding av by (auto split: if_splits)
  qed
qed

lemmas qdefs = queues_def waitq_def availq_def usedq_def

lemma nodesc_inv:
  assumes c: "chains s" and q: "queues s" and r: "rw_start b bn w (vd s) = Ok (None, d')"
  shows "chains (s\<lparr>vd := d'\<rparr>)" "queues (s\<lparr>vd := d'\<rparr>)"
proof -
  obtain F where d': "d' = (vd s)\<lparr>desc := F\<rparr>" and F: "\<forall>n. \<not> dfree (vd s) n \<longrightarrow> F n = desc (vd s) n"
    using r by (rule_tac alloc3_cases [of "vd s"]) (auto simp: rw_start_def)
  show "queues (s\<lparr>vd := d'\<rparr>)" using q by (simp add: d' qdefs)
  have ok: "chain_ok d' c i j k bn w" if "chain_ok (vd s) c i j k bn w" for c i j k bn w
    using chain_okD(5-7) [OF that] F by (intro chain_ok_cong [OF that]) (auto simp: d')
  show "chains (s\<lparr>vd := d'\<rparr>)"
  proof (rule chainsI)
    fix c i j k bn w assume "thr (s\<lparr>vd := d'\<rparr>) c = VFly i j k bn w"
    then show "chain_ok (vd (s\<lparr>vd := d'\<rparr>)) c i j k bn w \<and> unat bn < 2 ^ 31" using chainsD [OF c] ok by simp
  next
    fix c e i1 j1 k1 b1 w1 i2 j2 k2 b2 w2
    assume "thr (s\<lparr>vd := d'\<rparr>) c = VFly i1 j1 k1 b1 w1" "thr (s\<lparr>vd := d'\<rparr>) e = VFly i2 j2 k2 b2 w2" "c \<noteq> e"
    then show "{i1, j1, k1} \<inter> {i2, j2, k2} = {} \<and> b1 \<noteq> b2" using chains_apart [OF c, of _ i1 j1 k1 b1 w1 _ i2 j2 k2 b2 w2] by simp
  next
    fix n assume "n < NUM" "\<not> dfree (vd (s\<lparr>vd := d'\<rparr>)) n"
    then show "\<exists>b i j k bn w. thr (s\<lparr>vd := d'\<rparr>) b = VFly i j k bn w \<and> n \<in> {i, j, k}"
      using chains_nonfree [OF c] by (simp add: d' del: NUM_def insert_iff)
  qed
qed

lemma chains_same: "thr t = thr s \<Longrightarrow> vd t = vd s \<Longrightarrow> chains t = chains s"
  by (simp only: chains_def)

lemma fill_inv:
  assumes "chains s" "queues s" "thr s b = VIdle"
  shows "chains (s\<lparr>bufd := (bufd s)(b := x)\<rparr>)" "queues (s\<lparr>bufd := (bufd s)(b := x)\<rparr>)"
proof -
  let ?t = "s\<lparr>bufd := (bufd s)(b := x)\<rparr>"
  show "chains ?t" using chains_same [of ?t s] assms(1) by simp
  have same: "availq ?t = availq s" "pend ?t = pend s" "vd ?t = vd s" "thr ?t = thr s" "store ?t = store s"
    by (simp_all add: availq_def)
  then have wq: "waitq ?t = waitq s" by (simp only: waitq_def)
  show "queues ?t"
  proof (rule queuesI, unfold wq same)
    fix c i j k bn w assume c: "thr s c = VFly i j k bn w"
    then show "bdisk (vd s) c \<longleftrightarrow> i \<in> set (waitq s)" by (rule queuesD(5) [OF assms(2)])
    show "i \<notin> set (waitq s) \<Longrightarrow> in_status (info (vd s) i) = 0" using queuesD(6) [OF assms(2) c] .
    have "c \<noteq> b" using c assms(3) by auto
    then show "i \<notin> set (availq s @ pend s) \<Longrightarrow> in_status (info (vd s) i) = 0 \<Longrightarrow> bufd ?t c = store s bn" using queuesD(7) [OF assms(2) c] by simp
  qed (use queuesD(1-4) [OF assms(2)] in simp_all)
qed

lemma fetch_inv:
  assumes c: "chains s" and q: "queues s" and l: "last_avail s \<noteq> avail_idx (vd s)"
  shows "chains (s\<lparr>last_avail := last_avail s + 1, pend := pend s @ [unat (avail_ring (vd s) ! (unat (last_avail s) mod NUM))]\<rparr>)" (is "chains ?t")
    and "queues (s\<lparr>last_avail := last_avail s + 1, pend := pend s @ [unat (avail_ring (vd s) ! (unat (last_avail s) mod NUM))]\<rparr>)"
proof -
  show "chains ?t" using chains_same [of ?t s] c by simp
  have "unat (avail_idx (vd s) - last_avail s) > 0" using l by (simp add: unat_gt_0)
  from ring_get(1) [OF this, of "avail_ring (vd s)" NUM]
  have av: "availq s = unat (avail_ring (vd s) ! (unat (last_avail s) mod NUM)) # availq ?t" by (simp add: availq_def del: NUM_def)
  have us: "usedq (vd ?t) = usedq (vd s)" by simp
  have st: "set (availq ?t @ pend ?t) = set (availq s @ pend s)" unfolding av by auto
  have wq: "set (waitq ?t) = set (waitq s)" and dw: "distinct (waitq ?t)"
    using queuesD(3) [OF q] unfolding waitq_def us av by auto
  have "thr ?t = thr s" "vd ?t = vd s" "bufd ?t = bufd s" "store ?t = store s" by simp_all
  then show "queues ?t"
    using q dw unfolding queues_def wq st us by simp
qed

lemma dev_exec_ok:
  assumes "thr s b = VFly h j k bn w" "chain_ok (vd s) b h j k bn w" "unat bn < 2 ^ 31"
  shows "dev_exec h v x s = Some (s\<lparr>store := (if w then (store s)(bn := if v = 0 then bufd s b else x) else store s),
     bufd := (if w then bufd s else (bufd s)(b := if v = 0 then store s bn else x)), vd := dev_done h h v (vd s), pend := remove1 h (pend s)\<rparr>)"
  unfolding dev_exec_def dev_request_ok [OF assms(2)] by (simp add: sector_bn [OF assms(3)] Let_def)

lemma exec_chains:
  assumes c: "chains s" and t: "thr t = thr s" "vd t = dev_done h h v (vd s)"
  shows "chains t"
proof -
  have same: "chain_ok (vd t) = chain_ok (vd s)" by (intro ext) (simp add: chain_ok_def t(2) dev_done_def)
  have f: "dfree (vd t) = dfree (vd s)" by (simp add: t(2) dev_done_def)
  show ?thesis using c unfolding chains_def same t(1) f .
qed

lemma exec_inv:
  assumes c: "chains s" and q: "queues s" and h: "h \<in> set (pend s)"
  obtains t where "dev_exec h v x s = Some t" "chains t" "queues t"
proof -
  have hw: "h \<in> set (waitq s)" using h by (simp add: waitq_def)
  then obtain b j k bn w where b: "thr s b = VFly h j k bn w" using queuesD(4) [OF q] by blast
  define t where "t = s\<lparr>store := (if w then (store s)(bn := if v = 0 then bufd s b else x) else store s),
     bufd := (if w then bufd s else (bufd s)(b := if v = 0 then store s bn else x)), vd := dev_done h h v (vd s), pend := remove1 h (pend s)\<rparr>"
  have th: "thr t = thr s" and vt: "vd t = dev_done h h v (vd s)" and pt: "pend t = remove1 h (pend s)" by (simp_all add: t_def)
  have hN: "h < NUM" using head_taken [OF c q hw] by simp
  have av: "availq t = availq s" by (simp add: t_def availq_def dev_done_def)
  have dq: "distinct (waitq s)" by (rule queuesD(3) [OF q])
  have lt: "length (usedq (vd s)) < NUM"
  proof -
    have "set (waitq s) \<subseteq> {..<NUM}" using head_taken [OF c q] by blast
    then have "card (set (waitq s)) \<le> NUM" using card_mono [of "{..<NUM}"] by fastforce
    then have "length (availq s) + length (pend s) + length (usedq (vd s)) \<le> NUM" using distinct_card [OF dq] by (simp add: waitq_def)
    moreover have "length (pend s) > 0" using h by (cases "pend s") simp_all
    ultimately show ?thesis by linarith
  qed
  have us: "usedq (vd t) = usedq (vd s) @ [h]"
    using lt hN unfolding usedq_def vt dev_done_def by (simp add: ring8_put [OF queuesD(2) [OF q]] del: NUM_def)
  have dp: "distinct (pend s)" using dq by (simp add: waitq_def)
  have wq: "set (waitq t) = set (waitq s)" and dw: "distinct (waitq t)"
    using dq dp h unfolding waitq_def av us pt by auto
  have other: "i \<noteq> h \<and> bn' \<noteq> bn" if "thr s x = VFly i j' k' bn' w'" "x \<noteq> b" for x i j' k' bn' w'
    using chains_apart [OF c that(1) b that(2)] by auto
  have "queues t"
  proof (rule queuesI, unfold wq th)
    show "length (avail_ring (vd t)) = NUM" "length (used_ring (vd t)) = NUM" using queuesD(1,2) [OF q] by (simp_all add: vt dev_done_def)
    show "distinct (waitq t)" by (rule dw)
    show "\<exists>b j k bn w. thr s b = VFly h' j k bn w" if "h' \<in> set (waitq s)" for h' using queuesD(4) [OF q that] .
    show "bdisk (vd t) x \<longleftrightarrow> i' \<in> set (waitq s)" if "thr s x = VFly i' j' k' bn' w'" for x i' j' k' bn' w'
      using queuesD(5) [OF q that] by (simp add: vt dev_done_def)
    show "in_status (info (vd t) i') = 0" if "thr s x = VFly i' j' k' bn' w'" "i' \<notin> set (waitq s)" for x i' j' k' bn' w'
      using that queuesD(6) [OF q that] hw by (auto simp: vt dev_done_def)
    show "bufd t x = store t bn'" if x: "thr s x = VFly i' j' k' bn' w'" "i' \<notin> set (availq t @ pend t)" "in_status (info (vd t) i') = 0"
      for x i' j' k' bn' w'
    proof (cases "x = b")
      case True
      then show ?thesis using x(1,3) b by (simp add: t_def dev_done_def)
    next
      case False
      then have "i' \<notin> set (availq s @ pend s)" using x(2) other [OF x(1)] dp unfolding av pt by auto
      moreover have "in_status (info (vd s) i') = 0" using x(3) other [OF x(1) False] by (simp add: vt dev_done_def)
      ultimately show ?thesis using queuesD(7) [OF q x(1)] other [OF x(1) False] False by (simp add: t_def)
    qed
  qed
  moreover have "chains t" by (rule exec_chains [OF c th vt])
  moreover have "dev_exec h v x s = Some t" unfolding t_def by (rule dev_exec_ok [OF b chainsD [OF c b]])
  ultimately show thesis using that by blast
qed

text \<open>One completion: the next entry of the used ring is the head of a chain, and the invariant holds without it when its status is 0.\<close>

lemma intr_one:
  assumes c: "chains s" and q: "queues s" and u: "used_idx (vd s) \<noteq> dev_idx (vd s)"
  defines "h \<equiv> unat (used_ring (vd s) ! (unat (used_idx (vd s)) mod NUM))"
  obtains b where "h < NUM" "in_b (info (vd s) h) = Some b"
    "usedq (vd s) = h # usedq ((vd s)\<lparr>bdisk := (bdisk (vd s))(b := False), used_idx := used_idx (vd s) + 1\<rparr>)"
    "chains (s\<lparr>vd := (vd s)\<lparr>bdisk := (bdisk (vd s))(b := False), used_idx := used_idx (vd s) + 1\<rparr>\<rparr>)"
    "in_status (info (vd s) h) = 0 \<longrightarrow>
      queues (s\<lparr>vd := (vd s)\<lparr>bdisk := (bdisk (vd s))(b := False), used_idx := used_idx (vd s) + 1\<rparr>\<rparr>)"
proof -
  have "unat (dev_idx (vd s) - used_idx (vd s)) > 0" using u by (simp add: unat_gt_0)
  from ring_get(1) [OF this, of "used_ring (vd s)" NUM]
  have uh: "usedq (vd s) = h # usedq ((vd s)\<lparr>bdisk := B, used_idx := used_idx (vd s) + 1\<rparr>)" for B
    by (simp add: usedq_def h_def del: NUM_def)
  have hu: "h \<in> set (usedq (vd s))" by (subst uh [of "bdisk (vd s)"]) simp
  then have hw: "h \<in> set (waitq s)" by (simp add: waitq_def)
  then obtain b j k bn w where b: "thr s b = VFly h j k bn w" using queuesD(4) [OF q] by blast
  let ?t = "s\<lparr>vd := (vd s)\<lparr>bdisk := (bdisk (vd s))(b := False), used_idx := used_idx (vd s) + 1\<rparr>\<rparr>"
  have same: "availq ?t = availq s" "pend ?t = pend s" "thr ?t = thr s" "store ?t = store s" "bufd ?t = bufd s"
    "info (vd ?t) = info (vd s)" by (simp_all add: availq_def)
  have wq: "set (waitq s) = insert h (set (waitq ?t))" "distinct (waitq ?t)" "h \<notin> set (waitq ?t)"
    using queuesD(3) [OF q] unfolding waitq_def same by (auto simp: uh [of "(bdisk (vd s))(b := False)"])
  have other: "i \<noteq> h" if "thr s x = VFly i j' k' bn' w'" "x \<noteq> b" for x i j' k' bn' w'
    using chains_apart(1) [OF c that(1) b that(2)] by auto
  have qt: "queues ?t" if st: "in_status (info (vd s) h) = 0"
  proof (rule queuesI, unfold same)
    show "length (avail_ring (vd ?t)) = NUM" "length (used_ring (vd ?t)) = NUM" using queuesD(1,2) [OF q] by simp_all
    show "distinct (waitq ?t)" by (rule wq(2))
    show "\<exists>b j k bn w. thr s b = VFly h' j k bn w" if "h' \<in> set (waitq ?t)" for h'
      by (rule queuesD(4) [OF q]) (use that wq(1) in blast)
    fix x i' j' k' bn' w' assume x: "thr s x = VFly i' j' k' bn' w'"
    show "bdisk (vd ?t) x \<longleftrightarrow> i' \<in> set (waitq ?t)"
    proof (cases "x = b")
      case True
      then have "i' = h" using x b by simp
      then show ?thesis using wq(3) True by simp
    next
      case False
      then show ?thesis using queuesD(5) [OF q x] other [OF x False] wq(1) by simp
    qed
    show "i' \<notin> set (waitq ?t) \<Longrightarrow> in_status (info (vd s) i') = 0"
      using queuesD(6) [OF q x] wq(1) st by (cases "i' = h") simp_all
    show "i' \<notin> set (availq s @ pend s) \<Longrightarrow> in_status (info (vd s) i') = 0 \<Longrightarrow> bufd s x = store s bn'" by (rule queuesD(7) [OF q x])
  qed
  have "chain_ok (vd ?t) = chain_ok (vd s)" by (intro ext) (simp add: chain_ok_def)
  moreover have "dfree (vd ?t) = dfree (vd s)" by simp
  ultimately have ct: "chains ?t" using c unfolding chains_def same(3) by (simp only:)
  note ok = chain_okD(2,8) [OF chainsD(1) [OF c b]]
  show thesis by (rule that [OF ok uh ct]) (use qt in blast)
qed

text \<open>The interrupt handler panics exactly when the device has reported an error, as it means to.\<close>

lemma intr_loop_inv:
  "chains s \<Longrightarrow> queues s \<Longrightarrow>
    (if \<forall>h \<in> set (usedq (vd s)). in_status (info (vd s) h) = 0
     then \<exists>d'. intr_loop (vd s) = Ok d' \<and> chains (s\<lparr>vd := d'\<rparr>) \<and> queues (s\<lparr>vd := d'\<rparr>)
     else intr_loop (vd s) = Fail (Panic ''virtio_disk_intr status''))"
proof (induction "unat (dev_idx (vd s) - used_idx (vd s))" arbitrary: s rule: less_induct)
  case less
  show ?case
  proof (cases "used_idx (vd s) = dev_idx (vd s)")
    case True
    then show ?thesis using less.prems by (simp add: intr_loop.simps usedq_def ring_def)
  next
    case False
    let ?h = "unat (used_ring (vd s) ! (unat (used_idx (vd s)) mod NUM))"
    obtain b where h: "?h < NUM" "in_b (info (vd s) ?h) = Some b"
      and u: "usedq (vd s) = ?h # usedq ((vd s)\<lparr>bdisk := (bdisk (vd s))(b := False), used_idx := used_idx (vd s) + 1\<rparr>)"
      and t: "chains (s\<lparr>vd := (vd s)\<lparr>bdisk := (bdisk (vd s))(b := False), used_idx := used_idx (vd s) + 1\<rparr>\<rparr>)" (is "chains ?t")
        "in_status (info (vd s) ?h) = 0 \<longrightarrow>
          queues (s\<lparr>vd := (vd s)\<lparr>bdisk := (bdisk (vd s))(b := False), used_idx := used_idx (vd s) + 1\<rparr>\<rparr>)"
      by (rule intr_one [OF less.prems False])
    show ?thesis
    proof (cases "in_status (info (vd s) ?h) = 0")
      case True
      have "intr_loop (vd s) = intr_loop (vd ?t)"
        using False h True by (subst intr_loop.simps) (simp add: Let_def del: NUM_def)
      moreover have "unat (dev_idx (vd ?t) - used_idx (vd ?t)) < unat (dev_idx (vd s) - used_idx (vd s))"
        using u16_distance [OF False] by simp
      ultimately show ?thesis using less.hyps [OF _ t(1) mp [OF t(2) True]] True unfolding u by (simp split: if_splits)
    next
      case bad: False
      then have "intr_loop (vd s) = Fail (Panic ''virtio_disk_intr status'')"
        using False h by (subst intr_loop.simps) (simp add: Let_def del: NUM_def)
      then show ?thesis using bad unfolding u by simp
    qed
  qed
qed

lemma intr_inv:
  assumes c: "chains s" and q: "queues s"
  shows "if \<forall>h \<in> set (usedq (vd s)). in_status (info (vd s) h) = 0
     then \<exists>d'. virtio_disk_intr istat (vd s) = Ok d' \<and> chains (s\<lparr>vd := d'\<rparr>) \<and> queues (s\<lparr>vd := d'\<rparr>)
     else virtio_disk_intr istat (vd s) = Fail (Panic ''virtio_disk_intr status'')"
proof -
  let ?t = "s\<lparr>vd := WriteR VIRTIO_MMIO_INTERRUPT_ACK (istat AND 3) (vd s)\<rparr>"
  have same: "chain_ok (vd ?t) = chain_ok (vd s)" "dfree (vd ?t) = dfree (vd s)" "thr ?t = thr s"
    by (intro ext) (simp_all add: chain_ok_def WriteR_def)
  have ct: "chains ?t" using c unfolding chains_def same .
  have eq: "availq ?t = availq s" "usedq (vd ?t) = usedq (vd s)" "pend ?t = pend s" "bdisk (vd ?t) = bdisk (vd s)" "info (vd ?t) = info (vd s)"
    "avail_ring (vd ?t) = avail_ring (vd s)" "used_ring (vd ?t) = used_ring (vd s)" "bufd ?t = bufd s" "store ?t = store s"
    by (simp_all add: availq_def usedq_def WriteR_def)
  have qt: "queues ?t" using q unfolding queues_def waitq_def same(3) eq .
  show ?thesis using intr_loop_inv [OF ct qt] unfolding virtio_disk_intr_def eq(2,5) by (simp split: if_splits)
qed

end
