(* ===== verification/Xv6_DiskSafe.thy ===== *)
theory Xv6_DiskSafe
  imports Xv6_VirtioSys
begin

text \<open>
  The end of a disk request, that every step of threads, interrupts and device keeps the invariant of the disk driver, and what follows for the driver's clients.
\<close>

section \<open>The end of a request\<close>

lemma finish_inv:
  assumes c: "chains s" and q: "queues s" and b: "thr s b = VFly i j k bn w" and d: "\<not> bdisk (vd s) b"
  obtains d' where "rw_finish i (vd s) = Ok d'" "chains (s\<lparr>vd := d', thr := (thr s)(b := VIdle)\<rparr>)"
    "queues (s\<lparr>vd := d', thr := (thr s)(b := VIdle)\<rparr>)"
proof -
  note ok = chainsD(1) [OF c b]
  have niw: "i \<notin> set (waitq s)" using queuesD(5) [OF q b] d by simp
  define X where "X = (info (vd s))(i := (info (vd s) i)\<lparr>in_b := None\<rparr>)"
  define d' where "d' = (vd s)\<lparr>info := X, desc := (desc (vd s))(i := zero_desc, j := zero_desc, k := zero_desc),
    dfree := (dfree (vd s))(i := True, j := True, k := True)\<rparr>"
  have r: "rw_finish i (vd s) = Ok d'" unfolding rw_finish_def d'_def X_def by (rule free_chain_ok [OF ok])
  let ?t = "s\<lparr>vd := d', thr := (thr s)(b := VIdle)\<rparr>"
  have fly: "thr ?t x = VFly i' j' k' bn' w' \<longleftrightarrow> x \<noteq> b \<and> thr s x = VFly i' j' k' bn' w'" for x i' j' k' bn' w' by simp
  have ap: "{i', j', k'} \<inter> {i, j, k} = {}" if "thr s x = VFly i' j' k' bn' w'" "x \<noteq> b" for x i' j' k' bn' w'
    by (rule chains_apart(1) [OF c that(1) b that(2)])
  have "chains ?t"
  proof (rule chainsI, unfold fly)
    fix x i' j' k' bn' w' assume x: "x \<noteq> b \<and> thr s x = VFly i' j' k' bn' w'"
    have "chain_ok d' x i' j' k' bn' w'"
      by (rule chain_ok_cong [OF chainsD(1) [OF c conjunct2 [OF x]]]) (use ap [OF conjunct2 [OF x] conjunct1 [OF x]] in \<open>auto simp: d'_def X_def\<close>)
    then show "chain_ok (vd ?t) x i' j' k' bn' w' \<and> unat bn' < 2 ^ 31" using chainsD(2) [OF c conjunct2 [OF x]] by simp
  next
    fix x e i1 j1 k1 b1 w1 i2 j2 k2 b2 w2
    assume "x \<noteq> b \<and> thr s x = VFly i1 j1 k1 b1 w1" "e \<noteq> b \<and> thr s e = VFly i2 j2 k2 b2 w2" "x \<noteq> e"
    then show "{i1, j1, k1} \<inter> {i2, j2, k2} = {} \<and> b1 \<noteq> b2"
      using chains_apart [OF c, of x i1 j1 k1 b1 w1 e i2 j2 k2 b2 w2] by blast
  next
    fix n assume n: "n < NUM" "\<not> dfree (vd ?t) n"
    then have "n \<notin> {i, j, k}" "\<not> dfree (vd s) n" by (auto simp: d'_def split: if_splits)
    then obtain x i' j' k' bn' w' where x: "thr s x = VFly i' j' k' bn' w'" "n \<in> {i', j', k'}" using chains_nonfree [OF c n(1)] by blast
    have "x \<noteq> b" using x b \<open>n \<notin> {i, j, k}\<close> by auto
    then show "\<exists>x i j k bn w. (x \<noteq> b \<and> thr s x = VFly i j k bn w) \<and> n \<in> {i, j, k}" using x by blast
  qed
  moreover have "queues ?t"
  proof -
    have same: "availq ?t = availq s" "usedq (vd ?t) = usedq (vd s)" "pend ?t = pend s" "bdisk (vd ?t) = bdisk (vd s)"
      "avail_ring (vd ?t) = avail_ring (vd s)" "used_ring (vd ?t) = used_ring (vd s)" "bufd ?t = bufd s" "store ?t = store s"
      by (simp_all add: availq_def usedq_def d'_def)
    have wq: "waitq ?t = waitq s" unfolding waitq_def same ..
    show ?thesis
    proof (rule queuesI, unfold wq same fly)
      show "length (avail_ring (vd s)) = NUM" "length (used_ring (vd s)) = NUM" "distinct (waitq s)" by (rule queuesD [OF q])+
      fix h assume h: "h \<in> set (waitq s)"
      then obtain x j' k' bn' w' where x: "thr s x = VFly h j' k' bn' w'" using queuesD(4) [OF q] by blast
      have "x \<noteq> b" using x b h niw by auto
      then show "\<exists>x j k bn w. x \<noteq> b \<and> thr s x = VFly h j k bn w" using x by blast
    next
      fix x i' j' k' bn' w' assume "x \<noteq> b \<and> thr s x = VFly i' j' k' bn' w'"
      then have x: "thr s x = VFly i' j' k' bn' w'" and xb: "x \<noteq> b" by blast+
      show "bdisk (vd s) x \<longleftrightarrow> i' \<in> set (waitq s)" by (rule queuesD(5) [OF q x])
      have st: "in_status (info (vd ?t) i') = in_status (info (vd s) i')" using ap [OF x xb] by (simp add: d'_def X_def)
      show "i' \<notin> set (waitq s) \<Longrightarrow> in_status (info (vd ?t) i') = 0" unfolding st by (rule queuesD(6) [OF q x])
      show "i' \<notin> set (availq s @ pend s) \<Longrightarrow> in_status (info (vd ?t) i') = 0 \<Longrightarrow> bufd s x = store s bn'"
        unfolding st by (rule queuesD(7) [OF q x])
    qed
  qed
  ultimately show thesis using that r by blast
qed

lemma vstep_inv:
  assumes "vstep s t" "chains s" "queues s"
  shows "chains t \<and> queues t"
  using assms
proof (induction rule: vstep.induct)
  case (v_start s b bn i j k d w d')
  then show ?case using start_chains [of s b bn i j k d w d'] start_queues [of s b i j k d bn w d'] by blast
next
  case (v_exec h s v x s')
  then show ?case by (metis exec_inv option.inject)
next
  case (v_intr istat s d')
  then show ?case using intr_inv [of s istat] by (auto split: if_splits)
next
  case (v_finish s b i j k bn w d')
  then show ?case by (metis finish_inv res.inject(1))
next
  case (v_fetch s)
  then show ?case using fetch_inv [of s] by blast
qed (use nodesc_inv fill_inv in \<open>blast+\<close>)

lemma vinit_inv:
  assumes "vinit s"
  shows "chains s \<and> queues s"
  using assms by (auto simp: vinit_def chains_def qdefs ring_def simp del: NUM_def)

lemma vreach_inv: "vreach s0 s \<Longrightarrow> vinit s0 \<Longrightarrow> chains s \<and> queues s"
  by (induction rule: vreach.induct) (use vinit_inv vstep_inv in \<open>blast+\<close>)

section \<open>The driver's promise\<close>

text \<open>The state after \<open>virtio_disk_init\<close> with an empty device queue, for the witness.\<close>

definition disk_boot :: vsys where
  "disk_boot = \<lparr>vd = \<lparr>desc = (\<lambda>_. zero_desc), avail_idx = 0, avail_ring = replicate NUM 0, dev_idx = 0, used_ring = replicate NUM 0,
       dfree = (\<lambda>i. i < NUM), used_idx = 0, info = (\<lambda>_. \<lparr>in_b = None, in_status = 0\<rparr>),
       ops = (\<lambda>_. \<lparr>r_type = 0, r_reserved = 0, r_sector = 0\<rparr>), bdisk = (\<lambda>_. False), vwrites = []\<rparr>,
     last_avail = 0, pend = [], store = (\<lambda>_. replicate BSIZE 7), bufd = (\<lambda>_. []), thr = (\<lambda>_. VIdle)\<rparr>"

lemma disk_boot_init: "vinit disk_boot"
  by (simp add: vinit_def disk_boot_def)

text \<open>One read of block 5 into buffer 0: submitted, taken and carried out by the device, completed by the interrupt.\<close>

lemma disk_run: "\<exists>s. vreach disk_boot s \<and> thr s 0 = VFly 0 1 2 5 False \<and> \<not> bdisk (vd s) 0"
proof -
  let ?d = "vd disk_boot"
  define d0 where "d0 = ?d\<lparr>dfree := (dfree ?d)(0 := False, 1 := False, 2 := False)\<rparr>"
  define d1 where "d1 = submit 0 0 (format_chain 0 5 False 0 1 2 d0)"
  have a: "alloc3_desc ?d = Ok (Some [0, 1, 2], d0)"
    by (simp add: alloc3_desc_def numeral_3_eq_3 alloc_desc_def disk_boot_def d0_def upt_conv_Cons numeral_2_eq_2)
  have r: "rw_start 0 5 False ?d = Ok (Some 0, d1)" using a by (simp add: rw_start_def d1_def)
  define s1 where "s1 = disk_boot\<lparr>vd := d1, thr := (thr disk_boot)(0 := VFly 0 1 2 5 False)\<rparr>"
  have r1: "vreach disk_boot s1"
    unfolding s1_def by (rule v_more [OF v_refl v_start [OF _ _ _ a r]]) (simp_all add: disk_boot_def)
  have av: "avail_idx d1 = 1" "avail_ring d1 ! 0 = 0" "used_ring d1 = replicate NUM 0" "used_idx d1 = 0" "dev_idx d1 = 0"
    by (simp_all add: rw_start_spec [OF r a]) (simp_all add: disk_boot_def)
  define s2 where "s2 = s1\<lparr>last_avail := last_avail s1 + 1, pend := pend s1 @ [unat (avail_ring (vd s1) ! (unat (last_avail s1) mod NUM))]\<rparr>"
  have "last_avail s1 \<noteq> avail_idx (vd s1)" using av by (simp add: s1_def) (simp add: disk_boot_def)
  then have r2: "vreach disk_boot s2" unfolding s2_def by (rule v_more [OF r1 v_fetch])
  have t2: "thr s2 0 = VFly 0 1 2 5 False" "vd s2 = d1" "0 \<in> set (pend s2)"
    by (simp_all add: s2_def s1_def av) (simp add: disk_boot_def av)
  have ok: "chain_ok (vd s2) 0 0 1 2 5 False" unfolding t2(2) by (rule rw_start_spec(1) [OF r a])
  obtain s3 where s3: "dev_exec 0 0 [] s2 = Some s3" "thr s3 = thr s2" "vd s3 = dev_done 0 0 0 d1"
    using dev_exec_ok [OF t2(1) ok] t2(2) by simp
  have r3: "vreach disk_boot s3" by (rule v_more [OF r2 v_exec [OF t2(3) s3(1)]])
  have b: "in_b (info d1 0) = Some 0" using chain_okD(8) [OF ok] t2(2) by simp
  have "\<exists>e. virtio_disk_intr 0 (vd s3) = Ok e \<and> \<not> bdisk e 0"
    using b by (simp add: s3(3) virtio_disk_intr_def WriteR_def dev_done_def av intr_loop.simps Let_def)
  then obtain e where e: "virtio_disk_intr 0 (vd s3) = Ok e" "\<not> bdisk e 0" by blast
  have "vreach disk_boot (s3\<lparr>vd := e\<rparr>)" by (rule v_more [OF r3 v_intr [OF e(1)]])
  then show ?thesis using t2(1) s3(2) e(2) by (intro exI [of _ "s3\<lparr>vd := e\<rparr>"]) simp
qed

text \<open>C2: From the state that \<open>virtio_disk_init\<close> leaves, under every interleaving of threads in \<open>virtio_disk_rw\<close>, completion interrupts and the device, where
  the device may complete any request with success or with an error of its choice: starting and finishing a request always return, and no
  access leaves the driver's arrays. The interrupt handler returns when every completed request has status 0, and otherwise stops with the panic it
  has for that. Every chain the device has taken describes the request of the thread that submitted it, with its sector, direction and buffer. And when a thread
  finds \<^verbatim>\<open>b->disk\<close> cleared, the device has reported success for its request, and its buffer and its block on the disk have the same contents.\<close>

theorem disk_requests_served:
  assumes "vinit s0" "vreach s0 s"
  shows "(\<forall>b bn w. \<exists>r. rw_start b bn w (vd s) = Ok r) \<and>
    (\<forall>istat. if \<forall>h \<in> set (usedq (vd s)). in_status (info (vd s) h) = 0 then \<exists>d. virtio_disk_intr istat (vd s) = Ok d
       else virtio_disk_intr istat (vd s) = Fail (Panic ''virtio_disk_intr status'')) \<and>
    (\<forall>h \<in> set (pend s). \<exists>b j k bn w. thr s b = VFly h j k bn w \<and> dev_request (vd s) h = Some (b, ucast (bn * 2), w, h)) \<and>
    (\<forall>b i j k bn w. thr s b = VFly i j k bn w \<and> \<not> bdisk (vd s) b \<longrightarrow>
       in_status (info (vd s) i) = 0 \<and> bufd s b = store s bn \<and> (\<exists>d. rw_finish i (vd s) = Ok d))"
proof -
  have c: "chains s" and q: "queues s" using vreach_inv [OF assms(2,1)] by simp_all
  have "\<exists>r. rw_start b bn w (vd s) = Ok r" for b bn w by (rule alloc3_cases [of "vd s"]) (simp_all add: rw_start_def)
  moreover have "if \<forall>h \<in> set (usedq (vd s)). in_status (info (vd s) h) = 0 then \<exists>d. virtio_disk_intr istat (vd s) = Ok d
       else virtio_disk_intr istat (vd s) = Fail (Panic ''virtio_disk_intr status'')" for istat
    using intr_inv [OF c q, of istat] by (auto split: if_splits)
  moreover have "\<exists>b j k bn w. thr s b = VFly h j k bn w \<and> dev_request (vd s) h = Some (b, ucast (bn * 2), w, h)" if "h \<in> set (pend s)" for h
    using queuesD(4) [OF q, of h] that dev_request_ok [OF chainsD(1) [OF c]] by (fastforce simp: waitq_def)
  moreover have "in_status (info (vd s) i) = 0 \<and> bufd s b = store s bn \<and> (\<exists>d. rw_finish i (vd s) = Ok d)"
    if t: "thr s b = VFly i j k bn w" "\<not> bdisk (vd s) b" for b i j k bn w
  proof (intro conjI)
    have niw: "i \<notin> set (waitq s)" using queuesD(5) [OF q t(1)] t(2) by simp
    then show st: "in_status (info (vd s) i) = 0" by (rule queuesD(6) [OF q t(1)])
    have "i \<notin> set (availq s @ pend s)" using niw by (simp add: waitq_def)
    then show "bufd s b = store s bn" using st by (rule queuesD(7) [OF q t(1)])
    show "\<exists>d. rw_finish i (vd s) = Ok d" by (rule finish_inv [OF c q t]) blast
  qed
  ultimately show ?thesis by blast
qed

theorem disk_requests_served_witness:
  "vinit disk_boot \<and> (\<exists>s. vreach disk_boot s \<and> thr s 0 = VFly 0 1 2 5 False \<and> \<not> bdisk (vd s) 0 \<and> bufd s 0 = store s 5)"
proof -
  obtain s where s: "vreach disk_boot s" "thr s 0 = VFly 0 1 2 5 False" "\<not> bdisk (vd s) 0" using disk_run by blast
  then show ?thesis using disk_requests_served [OF disk_boot_init s(1)] disk_boot_init by blast
qed

end
