(* ===== verification/Xv6_Syscall.thy ===== *)
theory Xv6_Syscall
  imports Xv6_Sysfile
begin

text \<open>
  The dispatch of system calls: the table of \<^verbatim>\<open>kernel/syscall.c\<close> with the numbers of \<^verbatim>\<open>kernel/syscall.h\<close>, and \<open>syscall\<close>. Entries of the array without an
  initialiser are null; here they are absent. Without \<^verbatim>\<open>LAB_NET\<close> the calls of the network lab are not in the table.
\<close>

definition syscalls :: "chip \<Rightarrow> locals \<Rightarrow> (int \<times> (nat \<Rightarrow> 'a kworld_scheme \<Rightarrow> (sysval \<times> 'a kworld_scheme) res)) list" where
  "syscalls chip lcl =
     [(1, sys_fork), (2, sys_exit), (3, sys_wait), (4, sys_pipe lcl), (5, sys_read lcl), (6, sys_kill), (7, sys_exec lcl),
      (8, sys_fstat lcl), (9, sys_chdir lcl), (10, sys_dup), (11, sys_getpid), (12, sys_sbrk), (13, sys_sleep), (14, sys_uptime),
      (15, sys_open lcl), (16, sys_write chip lcl), (17, sys_mknod lcl), (18, sys_unlink lcl), (19, sys_link lcl), (20, sys_mkdir lcl),
      (21, sys_close), (35, sys_vmprint lcl), (33, sys_pgpte), (34, sys_kpgtbl lcl), (36, sys_pgaccess lcl)]"

definition tf_store :: "nat \<Rightarrow> u64 \<Rightarrow> u64 \<Rightarrow> 'a kworld_scheme \<Rightarrow> 'a kworld_scheme" where
  "tf_store me r v s = s\<lparr>km := (km s)\<lparr>k_mem := store64 (k_mem (km s)) (p_trapframe (procs s me) + r) v\<rparr>\<rparr>"

text \<open>The call number is the low half of \<open>a7\<close>, as an \<^verbatim>\<open>int\<close>. A call that waits or does not return stores nothing.\<close>

definition syscall :: "chip \<Rightarrow> locals \<Rightarrow> nat \<Rightarrow> 'a kworld_scheme \<Rightarrow> (sysval \<times> 'a kworld_scheme) res" where
  "syscall chip lcl me s =
     (let p = procs s me; num = sint (ucast (load64 (k_mem (km s)) (p_trapframe p + TF_a7)) :: u32) in
      case map_of (syscalls chip lcl) num of
        Some f \<Rightarrow> rbind (f me s) (\<lambda>(v, s).
          case v of SysRet r \<Rightarrow> Ok (SysRet r, tf_store me TF_a0 r s) | _ \<Rightarrow> Ok (v, s))
      | None \<Rightarrow>
          rbind (printf_loop (''%d %s: unknown sys call %d'' @ [CHR 0x0A])
              [VNum (of_int (p_pid p)), VStr (Some (map (\<lambda>b. char_of (unat b)) (p_name p))), VNum (of_int num)]) (\<lambda>out.
            Ok (SysRet (-1), tf_store me TF_a0 (-1) (s\<lparr>msgs := msgs s @ out\<rparr>))))"

text \<open>A process that is about to ask for the page-table entry of address \<open>va\<close>.\<close>

definition pgpte_world :: "u64 \<Rightarrow> kworld" where
  "pgpte_world va = boot_world\<lparr>km := (km boot_world)\<lparr>k_mem := store64 (store64 (\<lambda>_. 0) TF_a7 33) TF_a0 va\<rparr>\<rparr>"

lemma pgpte_world_regs:
  "load64 (k_mem (km (pgpte_world va))) (p_trapframe (procs (pgpte_world va) 0) + TF_a7) = 33"
  "load64 (k_mem (km (pgpte_world va))) (p_trapframe (procs (pgpte_world va) 0) + TF_a0) = va"
proof -
  have "load64 (store64 (store64 (\<lambda>_. 0) TF_a7 33) TF_a0 va) TF_a7 = load64 (store64 (\<lambda>_. 0) TF_a7 33) TF_a7"
  proof (rule load64_cong)
    fix i :: nat assume "i < 8"
    then have "i \<in> {0, 1, 2, 3, 4, 5, 6, 7}" by auto
    then show "store64 (store64 (\<lambda>_. 0) TF_a7 33) TF_a0 va (TF_a7 + of_nat i) = store64 (\<lambda>_. 0) TF_a7 33 (TF_a7 + of_nat i)"
      by (intro store64_other) (auto simp: in_region_def)
  qed
  then show "load64 (k_mem (km (pgpte_world va))) (p_trapframe (procs (pgpte_world va) 0) + TF_a7) = 33"
    by (simp add: pgpte_world_def idle_proc_def)
  show "load64 (k_mem (km (pgpte_world va))) (p_trapframe (procs (pgpte_world va) 0) + TF_a0) = va"
    by (simp add: pgpte_world_def idle_proc_def)
qed

text \<open>C40: Any process can panic the kernel: the system call \<open>pgpte\<close> hands its argument to \<open>walk\<close> unchecked, so that with an argument of at least
  \<open>MAXVA\<close> the call ends in \<^verbatim>\<open>panic("walk")\<close>, whatever the state of the kernel and the process.\<close>

theorem pgpte_panics_kernel:
  assumes "ucast (load64 (k_mem (km s)) (p_trapframe (procs s me) + TF_a7)) = (33 :: u32)"
    and "load64 (k_mem (km s)) (p_trapframe (procs s me) + TF_a0) \<ge> MAXVA"
  shows "syscall chip lcl me s = Fail (Panic ''walk'')"
proof -
  have "sint (ucast (load64 (k_mem (km s)) (p_trapframe (procs s me) + TF_a7)) :: u32) = 33"
    unfolding assms(1) by simp
  then have "syscall chip lcl me s = rbind (sys_pgpte me s) (\<lambda>(v, s).
      case v of SysRet r \<Rightarrow> Ok (SysRet r, tf_store me TF_a0 r s) | _ \<Rightarrow> Ok (v, s))"
    unfolding syscall_def Let_def syscalls_def by (simp del: TF_a7_def)
  moreover have "sys_pgpte me s = Fail (Panic ''walk'')"
    using assms(2) by (simp add: sys_pgpte_def argaddr_def argraw_def pgpte_def walk_def)
  ultimately show ?thesis by simp
qed

theorem pgpte_panics_kernel_witness: "\<forall>chip lcl. syscall chip lcl 0 (pgpte_world (2 ^ 63)) = Fail (Panic ''walk'')"
  using pgpte_panics_kernel [of "pgpte_world (2 ^ 63)" 0] pgpte_world_regs by simp

end
