(* ===== verification/Xv6_Trap.thy ===== *)
theory Xv6_Trap
  imports Xv6_Syscall Xv6_Virtio
begin

unbundle bit_operations_syntax

text \<open>
  Traps, interrupts and the boot sequence: \<^verbatim>\<open>kernel/trap.c\<close>, \<^verbatim>\<open>kernel/plic.c\<close>, \<^verbatim>\<open>kernel/start.c\<close>, \<^verbatim>\<open>kernel/main.c\<close>, \<open>forkret\<close>, \<open>consoleinit\<close> and \<open>kvminit\<close>. A hart
  has its control registers; the kernel's state \<open>kworld\<close> is extended by the disk driver, the interrupt controller and the page table of the kernel. What a
  device register returns and the time are given by an environment. A call that gives up the CPU takes what happens until the process runs again,
  possibly on another hart, as an argument.
\<close>

section \<open>Registers\<close>

definition SSTATUS_SPP :: u64 where "SSTATUS_SPP = push_bit 8 1"
definition SSTATUS_SPIE :: u64 where "SSTATUS_SPIE = push_bit 5 1"
definition SSTATUS_SIE :: u64 where "SSTATUS_SIE = push_bit 1 1"
definition SIE_SEIE :: u64 where "SIE_SEIE = push_bit 9 1"
definition SIE_STIE :: u64 where "SIE_STIE = push_bit 5 1"
definition SIE_SSIE :: u64 where "SIE_SSIE = push_bit 1 1"
definition MIE_STIE :: u64 where "MIE_STIE = push_bit 5 1"
definition MSTATUS_MPP_MASK :: u64 where "MSTATUS_MPP_MASK = push_bit 11 3"
definition MSTATUS_MPP_S :: u64 where "MSTATUS_MPP_S = push_bit 11 1"
definition UART0_IRQ :: u32 where [simp]: "UART0_IRQ = 10"
definition VIRTIO0_IRQ :: u32 where [simp]: "VIRTIO0_IRQ = 1"

record hart =
  sstatus :: u64
  sepc :: u64
  scause :: u64
  stval :: u64
  stvec :: u64
  satp :: u64
  sie_csr :: u64
  stimecmp :: u64
  tp :: u64
  mstatus :: u64
  mepc :: u64
  medeleg :: u64
  mideleg :: u64
  mie :: u64
  menvcfg :: u64
  mcounteren :: u64
  pmpaddr0 :: u64
  pmpcfg0 :: u64
  mhartid :: u64

definition csr_intr_on :: "hart \<Rightarrow> hart" where
  "csr_intr_on h = h\<lparr>sstatus := sstatus h OR SSTATUS_SIE\<rparr>"

definition csr_intr_off :: "hart \<Rightarrow> hart" where
  "csr_intr_off h = h\<lparr>sstatus := sstatus h AND NOT SSTATUS_SIE\<rparr>"

definition csr_intr_get :: "hart \<Rightarrow> bool" where
  "csr_intr_get h \<longleftrightarrow> sstatus h AND SSTATUS_SIE \<noteq> 0"

definition cpuid :: "hart \<Rightarrow> nat" where
  "cpuid h = unat (ucast (tp h) :: u32)"

text \<open>Addresses that the linker assigns; \<open>a_uservec\<close> and \<open>a_userret\<close> are offsets in the trampoline page.\<close>

record kaddrs =
  a_kernelvec :: u64
  a_uservec :: u64
  a_userret :: u64
  a_usertrap :: u64
  a_main :: u64
  a_cons_r :: u64
  a_uart_tx_r :: u64
  a_buf :: "nat \<Rightarrow> u64"
  a_etext :: u64
  a_initcode :: u64

text \<open>The devices: registers of the interrupt controller and of the disk, the clock, the serial chip; and what \<open>procdump\<close> prints.\<close>

record devs =
  e_plic :: "u64 \<Rightarrow> u32"
  e_virtio :: "nat \<Rightarrow> u32"
  e_time :: u64
  e_chip :: chip
  e_panicked :: bool
  e_procdump :: "uart \<Rightarrow> uart option"

record hworld = kworld +
  vd :: vdisk
  plic_writes :: "(u64 \<times> u32) list"
  kernel_pagetable :: u64
  devsw_console :: bool
  pr :: pr_state
  started :: bool

section \<open>The interrupt controller\<close>

definition PLIC_SENABLE :: "nat \<Rightarrow> u64" where "PLIC_SENABLE hart = PLIC + 0x2080 + of_nat hart * 0x100"
definition PLIC_SPRIORITY :: "nat \<Rightarrow> u64" where "PLIC_SPRIORITY hart = PLIC + 0x201000 + of_nat hart * 0x2000"
definition PLIC_SCLAIM :: "nat \<Rightarrow> u64" where "PLIC_SCLAIM hart = PLIC + 0x201004 + of_nat hart * 0x2000"

definition plic_write :: "u64 \<Rightarrow> u32 \<Rightarrow> 'a hworld_scheme \<Rightarrow> 'a hworld_scheme" where
  "plic_write a v s = s\<lparr>plic_writes := plic_writes s @ [(a, v)]\<rparr>"

definition plicinit :: "'a hworld_scheme \<Rightarrow> 'a hworld_scheme" where
  "plicinit s = plic_write (PLIC + ucast VIRTIO0_IRQ * 4) 1 (plic_write (PLIC + ucast UART0_IRQ * 4) 1 s)"

definition plicinithart :: "hart \<Rightarrow> 'a hworld_scheme \<Rightarrow> 'a hworld_scheme" where
  "plicinithart h s =
     plic_write (PLIC_SPRIORITY (cpuid h)) 0
       (plic_write (PLIC_SENABLE (cpuid h)) (push_bit (unat UART0_IRQ) 1 OR push_bit (unat VIRTIO0_IRQ) 1) s)"

definition plic_claim :: "devs \<Rightarrow> hart \<Rightarrow> u32" where
  "plic_claim e h = e_plic e (PLIC_SCLAIM (cpuid h))"

definition plic_complete :: "hart \<Rightarrow> u32 \<Rightarrow> 'a hworld_scheme \<Rightarrow> 'a hworld_scheme" where
  "plic_complete h irq s = plic_write (PLIC_SCLAIM (cpuid h)) irq s"

section \<open>Device interrupts\<close>

text \<open>\<open>uartintr\<close> reports the wakeups of readers of the console; those of writers are seen by the counter \<open>uart_tx_r\<close>. A wait for the chip may not end.\<close>

definition uart_irq :: "kaddrs \<Rightarrow> devs \<Rightarrow> nat option \<Rightarrow> 'a hworld_scheme \<Rightarrow> 'a hworld_scheme res" where
  "uart_irq A e me s =
     (case uartintr (e_chip e) (e_panicked e) (e_procdump e) (console s) (serial s) of
        None \<Rightarrow> Fail (Blocked ''uart'')
      | Some (k, u, w) \<Rightarrow>
          let tx = (uart_tx_r u \<noteq> uart_tx_r (serial s)); s = s\<lparr>console := k, serial := u\<rparr>;
              s = (if w > 0 then wakeup me (a_cons_r A) s else s)
          in Ok (if tx then wakeup me (a_uart_tx_r A) s else s))"

text \<open>\<open>virtio_disk_intr\<close> wakes the threads whose buffers the device has finished with.\<close>

definition disk_irq :: "kaddrs \<Rightarrow> devs \<Rightarrow> nat option \<Rightarrow> 'a hworld_scheme \<Rightarrow> 'a hworld_scheme res" where
  "disk_irq A e me s =
     rbind (virtio_disk_intr (e_virtio e VIRTIO_MMIO_INTERRUPT_STATUS) (vd s)) (\<lambda>d.
       Ok (fold (\<lambda>b t. if bdisk (vd s) b \<and> \<not> bdisk d b then wakeup me (a_buf A b) t else t) [0..<NBUF] (s\<lparr>vd := d\<rparr>)))"

definition kprintf :: "string \<Rightarrow> varg list \<Rightarrow> 'a hworld_scheme \<Rightarrow> 'a hworld_scheme res" where
  "kprintf fmt args s = rbind (printf_loop fmt args) (\<lambda>out. Ok (s\<lparr>msgs := msgs s @ out\<rparr>))"

definition clockintr :: "devs \<Rightarrow> hart \<Rightarrow> 'a hworld_scheme \<Rightarrow> hart \<times> 'a hworld_scheme" where
  "clockintr e h s =
     (let s = (if cpuid h = 0 then wakeup (myproc (cpuid h) s) (ticks_addr s) (s\<lparr>ticks := ticks s + 1\<rparr>) else s)
      in (h\<lparr>stimecmp := e_time e + 1000000\<rparr>, s))"

definition devintr :: "kaddrs \<Rightarrow> devs \<Rightarrow> hart \<Rightarrow> 'a hworld_scheme \<Rightarrow> (nat \<times> hart \<times> 'a hworld_scheme) res" where
  "devintr A e h s =
     (if scause h = 0x8000000000000009 then
        let irq = plic_claim e h; me = myproc (cpuid h) s in
        rbind (if irq = UART0_IRQ then uart_irq A e me s
               else if irq = VIRTIO0_IRQ then disk_irq A e me s
               else if irq \<noteq> 0 then kprintf (''unexpected interrupt irq=%d'' @ [CHR 0x0A]) [VNum (scast irq)] s
               else Ok s)
          (\<lambda>s. Ok (1, h, if irq \<noteq> 0 then plic_complete h irq s else s))
      else if scause h = 0x8000000000000005 then
        case clockintr e h s of (h, s) \<Rightarrow> Ok (2, h, s)
      else Ok (0, h, s))"

section \<open>Traps\<close>

definition trapinithart :: "kaddrs \<Rightarrow> hart \<Rightarrow> hart" where
  "trapinithart A h = h\<lparr>stvec := a_kernelvec A\<rparr>"

text \<open>How a trap ends: a jump to \<open>userret\<close> with the page table for the user, a process that is gone, or one that waits in a system call.\<close>

datatype trapend = UserRet u64 u64 | TrapGone | TrapWait

definition usertrapret :: "kaddrs \<Rightarrow> nat \<Rightarrow> hart \<Rightarrow> 'a hworld_scheme \<Rightarrow> trapend \<times> hart \<times> 'a hworld_scheme" where
  "usertrapret A me h s =
     (let h = csr_intr_off h;
          h = h\<lparr>stvec := TRAMPOLINE + a_uservec A\<rparr>;
          s = tf_store me TF_kernel_satp (satp h) s;
          s = tf_store me TF_kernel_sp (p_kstack (procs s me) + PGSIZE) s;
          s = tf_store me TF_kernel_trap (a_usertrap A) s;
          s = tf_store me TF_kernel_hartid (tp h) s;
          x = sstatus h AND NOT SSTATUS_SPP;
          x = x OR SSTATUS_SPIE;
          h = h\<lparr>sstatus := x\<rparr>;
          h = h\<lparr>sepc := load64 (k_mem (km s)) (p_trapframe (procs s me) + TF_epc)\<rparr>
      in (UserRet (TRAMPOLINE + a_userret A) (MAKE_SATP (p_pagetable (procs s me))), h, s))"

definition exit_trap :: "nat \<Rightarrow> hart \<Rightarrow> 'a hworld_scheme \<Rightarrow> (trapend \<times> hart \<times> 'a hworld_scheme) res" where
  "exit_trap me h s = rbind (exit me (-1) s) (\<lambda>s. Ok (TrapGone, h, s))"

text \<open>The end of \<open>usertrap\<close>, which a process that waited in a system call also reaches. \<open>resume\<close> is what happens during \<open>yield\<close>.\<close>

definition usertrap_end ::
  "kaddrs \<Rightarrow> (hart \<Rightarrow> 'a hworld_scheme \<Rightarrow> hart \<times> 'a hworld_scheme) \<Rightarrow> nat \<Rightarrow> nat \<Rightarrow> hart \<Rightarrow> 'a hworld_scheme
    \<Rightarrow> (trapend \<times> hart \<times> 'a hworld_scheme) res" where
  "usertrap_end A resume me which_dev h s =
     (if killed me s then exit_trap me h s
      else case (if which_dev = 2 then resume h (yield me s) else (h, s)) of (h, s) \<Rightarrow> Ok (usertrapret A me h s))"

definition usertrap ::
  "kaddrs \<Rightarrow> devs \<Rightarrow> locals \<Rightarrow> (hart \<Rightarrow> 'a hworld_scheme \<Rightarrow> hart \<times> 'a hworld_scheme) \<Rightarrow> hart \<Rightarrow> 'a hworld_scheme
    \<Rightarrow> (trapend \<times> hart \<times> 'a hworld_scheme) res" where
  "usertrap A e lcl resume h s =
     (if sstatus h AND SSTATUS_SPP \<noteq> 0 then Fail (Panic ''usertrap: not from user mode'')
      else
      let h = h\<lparr>stvec := a_kernelvec A\<rparr> in
      case myproc (cpuid h) s of
        None \<Rightarrow> Fail (Fault ''usertrap: p'')
      | Some me \<Rightarrow>
          let s = tf_store me TF_epc (sepc h) s in
          if scause h = 8 then
            if killed me s then exit_trap me h s
            else
            let s = tf_store me TF_epc (load64 (k_mem (km s)) (p_trapframe (procs s me) + TF_epc) + 4) s;
                h = csr_intr_on h
            in rbind (syscall (e_chip e) lcl me s) (\<lambda>(v, s).
                 case v of
                   SysRet r \<Rightarrow> usertrap_end A resume me 0 h s
                 | SysWait \<Rightarrow> Ok (TrapWait, h, s)
                 | SysGone \<Rightarrow> Ok (TrapGone, h, s))
          else rbind (devintr A e h s) (\<lambda>(which_dev, h, s).
            if which_dev \<noteq> 0 then usertrap_end A resume me which_dev h s
            else
              rbind (kprintf (''usertrap(): unexpected scause 0x%lx pid=%d'' @ [CHR 0x0A]) [VNum (scause h), VNum (of_int (p_pid (procs s me)))] s) (\<lambda>s.
              rbind (kprintf (''            sepc=0x%lx stval=0x%lx'' @ [CHR 0x0A]) [VNum (sepc h), VNum (stval h)] s) (\<lambda>s.
              usertrap_end A resume me 0 h (setkilled me s)))))"

definition kerneltrap ::
  "kaddrs \<Rightarrow> devs \<Rightarrow> (hart \<Rightarrow> 'a hworld_scheme \<Rightarrow> hart \<times> 'a hworld_scheme) \<Rightarrow> hart \<Rightarrow> 'a hworld_scheme \<Rightarrow> (hart \<times> 'a hworld_scheme) res" where
  "kerneltrap A e resume h s =
     (let pc = sepc h; st = sstatus h in
      if st AND SSTATUS_SPP = 0 then Fail (Panic ''kerneltrap: not from supervisor mode'')
      else if csr_intr_get h then Fail (Panic ''kerneltrap: interrupts enabled'')
      else rbind (devintr A e h s) (\<lambda>(which_dev, h, s).
        if which_dev = 0 then
          rbind (kprintf (''scause=0x%lx sepc=0x%lx stval=0x%lx'' @ [CHR 0x0A]) [VNum (scause h), VNum (sepc h), VNum (stval h)] s)
            (\<lambda>s. Fail (Panic ''kerneltrap''))
        else
          case (case myproc (cpuid h) s of
                  Some me \<Rightarrow> if which_dev = 2 then resume h (yield me s) else (h, s)
                | None \<Rightarrow> (h, s)) of
            (h, s) \<Rightarrow> Ok (h\<lparr>sepc := pc, sstatus := st\<rparr>, s)))"

text \<open>The first code a new process runs. The lock it releases is elided.\<close>

definition forkret :: "kaddrs \<Rightarrow> nat \<Rightarrow> hart \<Rightarrow> 'a hworld_scheme \<Rightarrow> (trapend \<times> hart \<times> 'a hworld_scheme) res" where
  "forkret A me h s =
     rbind (if first_ret s then rbind (fsinit (p_pid (procs s me)) ROOTDEV s) (\<lambda>s. Ok (s\<lparr>first_ret := False\<rparr>)) else Ok s)
       (\<lambda>s. Ok (usertrapret A me h s))"

section \<open>Boot\<close>

definition timerinit :: "devs \<Rightarrow> hart \<Rightarrow> hart" where
  "timerinit e h =
     (let h = h\<lparr>mie := mie h OR MIE_STIE\<rparr>;
          h = h\<lparr>menvcfg := menvcfg h OR push_bit 63 1\<rparr>;
          h = h\<lparr>mcounteren := mcounteren h OR 2\<rparr>
      in h\<lparr>stimecmp := e_time e + 1000000\<rparr>)"

text \<open>After \<open>mret\<close> the hart runs at \<open>mepc\<close> in the mode that \<open>mstatus\<close> holds.\<close>

definition kstart :: "kaddrs \<Rightarrow> devs \<Rightarrow> hart \<Rightarrow> hart" where
  "kstart A e h =
     (let x = mstatus h AND NOT MSTATUS_MPP_MASK;
          x = x OR MSTATUS_MPP_S;
          h = h\<lparr>mstatus := x\<rparr>;
          h = h\<lparr>mepc := a_main A\<rparr>;
          h = h\<lparr>satp := 0\<rparr>;
          h = h\<lparr>medeleg := 0xffff\<rparr>;
          h = h\<lparr>mideleg := 0xffff\<rparr>;
          h = h\<lparr>sie_csr := sie_csr h OR SIE_SEIE OR SIE_STIE OR SIE_SSIE\<rparr>;
          h = h\<lparr>pmpaddr0 := 0x3fffffffffffff\<rparr>;
          h = h\<lparr>pmpcfg0 := 0xf\<rparr>;
          h = timerinit e h
      in h\<lparr>tp := scast (ucast (mhartid h) :: u32)\<rparr>)"

definition consoleinit :: "'a hworld_scheme \<Rightarrow> 'a hworld_scheme" where
  "consoleinit s = s\<lparr>serial := uartinit (serial s), devsw_console := True\<rparr>"

definition kvminit :: "kaddrs \<Rightarrow> 'a hworld_scheme \<Rightarrow> 'a hworld_scheme res" where
  "kvminit A s = rbind (kvmmake (a_etext A) (trampoline s) (km s)) (\<lambda>(pt, k). Ok (s\<lparr>km := k, kernel_pagetable := pt\<rparr>))"

definition kvminithart :: "'a hworld_scheme \<Rightarrow> hart \<Rightarrow> hart" where
  "kvminithart s h = h\<lparr>satp := MAKE_SATP (kernel_pagetable s)\<rparr>"

text \<open>Up to the call of the scheduler. A hart other than the first spins until the first has set \<open>started\<close>.\<close>

definition kmain :: "kaddrs \<Rightarrow> devs \<Rightarrow> hart \<Rightarrow> 'a hworld_scheme \<Rightarrow> (hart \<times> 'a hworld_scheme) res" where
  "kmain A e h s =
     (if cpuid h = 0 then
        let s = consoleinit s; s = s\<lparr>pr := printfinit (pr s)\<rparr> in
        rbind (kprintf [CHR 0x0A] [] s) (\<lambda>s.
        rbind (kprintf (''xv6 kernel is booting'' @ [CHR 0x0A]) [] s) (\<lambda>s.
        rbind (kprintf [CHR 0x0A] [] s) (\<lambda>s.
        rbind (kinit (km s)) (\<lambda>k.
        rbind (kvminit A (s\<lparr>km := k\<rparr>)) (\<lambda>s.
        let h = kvminithart s h;
            s = procinit s;
            h = trapinithart A h;
            s = plicinithart h (plicinit s);
            s = s\<lparr>bc := binit (bc s)\<rparr>;
            s = iinit s
        in rbind (virtio_disk_init (e_virtio e) (vd s) (km s)) (\<lambda>(d, k).
           rbind (userinit (a_initcode A) (s\<lparr>vd := d, km := k\<rparr>)) (\<lambda>s.
           Ok (h, s\<lparr>started := True\<rparr>))))))))
      else if \<not> started s then Fail (Blocked ''started'')
      else
        rbind (kprintf (''hart %d starting'' @ [CHR 0x0A]) [VNum (of_nat (cpuid h))] s) (\<lambda>s.
        let h = trapinithart A (kvminithart s h) in Ok (h, plicinithart h s)))"

section \<open>What interrupts leave alone\<close>

text \<open>Interrupts may wake processes but do not touch memory, nor what a process returns to.\<close>

definition same_space :: "'a hworld_scheme \<Rightarrow> 'a hworld_scheme \<Rightarrow> bool" where
  "same_space s t \<longleftrightarrow> km t = km s \<and> cur t = cur s \<and>
     (\<forall>j. p_killed (procs t j) = p_killed (procs s j) \<and> p_trapframe (procs t j) = p_trapframe (procs s j) \<and>
       p_pagetable (procs t j) = p_pagetable (procs s j) \<and> p_kstack (procs t j) = p_kstack (procs s j))"

lemma same_spaceD:
  assumes "same_space s t"
  shows "km t = km s" "cur t = cur s" "killed j t = killed j s" "p_trapframe (procs t j) = p_trapframe (procs s j)"
    "p_pagetable (procs t j) = p_pagetable (procs s j)" "p_kstack (procs t j) = p_kstack (procs s j)"
  using assms by (simp_all add: same_space_def killed_def)

lemma same_space_refl [simp]: "same_space s s"
  by (simp add: same_space_def)

lemma same_space_trans: "same_space s t \<Longrightarrow> same_space t u \<Longrightarrow> same_space s u"
  by (simp add: same_space_def)

lemma same_space_fields [simp]:
  "same_space s (t\<lparr>console := k\<rparr>) = same_space s t" "same_space s (t\<lparr>serial := u\<rparr>) = same_space s t" "same_space s (t\<lparr>vd := d\<rparr>) = same_space s t"
  "same_space s (t\<lparr>msgs := m\<rparr>) = same_space s t" "same_space s (t\<lparr>ticks := n\<rparr>) = same_space s t" "same_space s (plic_complete h i t) = same_space s t"
  by (simp_all add: same_space_def plic_complete_def plic_write_def)

lemma km_wakeup [simp]: "km (wakeup me chan t) = km t"
proof -
  have "km (fold (wake_one me chan) l t) = km t" for l by (induction l arbitrary: t) (simp_all add: wake_one_def pupd_def)
  then show ?thesis by (simp add: wakeup_def)
qed

lemma same_space_wakeup [simp]: "same_space s (wakeup me chan t) = same_space s t"
  by (auto simp: same_space_def procs_wakeup)

lemma same_space_kprintf: "kprintf fmt args s = Ok t \<Longrightarrow> same_space s t"
  by (cases "printf_loop fmt args") (auto simp: kprintf_def)

lemma same_space_uart_irq: "uart_irq A e me s = Ok t \<Longrightarrow> same_space s t"
  by (auto simp: uart_irq_def Let_def split: option.splits if_splits)

lemma same_space_disk_irq:
  assumes "disk_irq A e me s = Ok t"
  shows "same_space s t"
proof -
  obtain d where t: "t = fold (\<lambda>b t. if bdisk (vd s) b \<and> \<not> bdisk d b then wakeup me (a_buf A b) t else t) [0..<NBUF] (s\<lparr>vd := d\<rparr>)"
    using assms by (cases "virtio_disk_intr (e_virtio e VIRTIO_MMIO_INTERRUPT_STATUS) (vd s)") (auto simp: disk_irq_def)
  have "same_space s u \<Longrightarrow> same_space s (fold (\<lambda>b t. if bdisk (vd s) b \<and> \<not> bdisk d b then wakeup me (a_buf A b) t else t) l u)" for l u
    by (induction l arbitrary: u) auto
  then show ?thesis by (simp add: t)
qed

lemma devintr_frame:
  assumes "devintr A e h s = Ok (w, h1, s1)"
  shows "same_space s s1" "h1 = h\<lparr>stimecmp := stimecmp h1\<rparr>"
    and "w = (if scause h = 0x8000000000000009 then 1 else if scause h = 0x8000000000000005 then 2 else 0)"
proof -
  consider (ext) "scause h = 0x8000000000000009" | (timer) "scause h = 0x8000000000000005" | (other) "scause h \<noteq> 0x8000000000000009" "scause h \<noteq> 0x8000000000000005"
    by blast
  then have "same_space s s1 \<and> h1 = h\<lparr>stimecmp := stimecmp h1\<rparr> \<and> w = (if scause h = 0x8000000000000009 then 1 else if scause h = 0x8000000000000005 then 2 else 0)"
  proof cases
    case ext
    let ?r = "if plic_claim e h = UART0_IRQ then uart_irq A e (myproc (cpuid h) s) s
      else if plic_claim e h = VIRTIO0_IRQ then disk_irq A e (myproc (cpuid h) s) s
      else if plic_claim e h \<noteq> 0 then kprintf (''unexpected interrupt irq=%d'' @ [CHR 0x0A]) [VNum (scast (plic_claim e h))] s else Ok s"
    have "rbind ?r (\<lambda>s. Ok (1, h, if plic_claim e h \<noteq> 0 then plic_complete h (plic_claim e h) s else s)) = Ok (w, h1, s1)"
      using assms ext unfolding devintr_def Let_def by (simp only: if_True refl)
    then obtain t where t: "?r = Ok t" "w = 1" "h1 = h" "s1 = (if plic_claim e h \<noteq> 0 then plic_complete h (plic_claim e h) t else t)"
      by (cases ?r) auto
    have "same_space s t" using t(1) same_space_uart_irq same_space_disk_irq same_space_kprintf by (metis res.inject(1) same_space_refl)
    then show ?thesis using t ext by simp
  next
    case timer
    then show ?thesis using assms by (auto simp: devintr_def clockintr_def Let_def)
  next
    case other
    then show ?thesis using assms by (auto simp: devintr_def)
  qed
  then show "same_space s s1" "h1 = h\<lparr>stimecmp := stimecmp h1\<rparr>"
    "w = (if scause h = 0x8000000000000009 then 1 else if scause h = 0x8000000000000005 then 2 else 0)" by blast+
qed

section \<open>The trap frame\<close>

lemma load64_store64_apart:
  assumes "8 \<le> unat (b - a)" and "8 \<le> unat (a - b)"
  shows "load64 (store64 m a v) b = load64 m b"
proof (rule load64_cong)
  fix i :: nat assume i: "i < 8"
  have "(unat (a - b) + unat (b - a)) mod 2 ^ 64 = 0" using unat_word_ariths(1) [of "a - b" "b - a"] by simp
  moreover have "unat (a - b) < 2 ^ 64" "unat (b - a) < 2 ^ 64" using unsigned_less [of "a - b"] unsigned_less [of "b - a"] by simp_all
  ultimately have "unat (a - b) + unat (b - a) = 2 ^ 64" using assms
    by (cases "unat (a - b) + unat (b - a) < 2 ^ 64") (simp_all add: le_mod_geq not_less del: unat_sub_if_size)
  then have "unat (b - a) + i < 2 ^ 64" using assms(2) i by linarith
  then have "unat (b - a + of_nat i) = unat (b - a) + i" using i by (subst unat_add_lem [THEN iffD1]) (simp_all add: unat_of_nat)
  moreover have e: "b + of_nat i - a = b - a + of_nat i" by simp
  ultimately have "\<not> in_region (b + of_nat i) a 8" unfolding in_region_def e using assms(1) by linarith
  then show "store64 m a v (b + of_nat i) = m (b + of_nat i)" by (rule store64_other)
qed

lemma tf_store_simps [simp]:
  "procs (tf_store me r v s) = procs s" "cur (tf_store me r v s) = cur s" "killed j (tf_store me r v s) = killed j s"
  by (simp_all add: tf_store_def killed_def)

lemma tf_load_same [simp]: "load64 (k_mem (km (tf_store me r v s))) (p_trapframe (procs s me) + r) = v"
  by (simp add: tf_store_def)

lemma tf_load_other:
  assumes "8 \<le> unat (q - r)" and "8 \<le> unat (r - q)"
  shows "load64 (k_mem (km (tf_store me r v s))) (p_trapframe (procs s me) + q) = load64 (k_mem (km s)) (p_trapframe (procs s me) + q)"
  using load64_store64_apart [of "p_trapframe (procs s me) + q" "p_trapframe (procs s me) + r"] assms by (simp add: tf_store_def)

lemma usertrapret_sets:
  assumes "usertrapret A me h s = (UserRet pc pt, h', s')"
  shows "pc = TRAMPOLINE + a_userret A" "pt = MAKE_SATP (p_pagetable (procs s' me))" "stvec h' = TRAMPOLINE + a_uservec A"
    and "sstatus h' AND SSTATUS_SPP = 0" "sstatus h' AND SSTATUS_SPIE \<noteq> 0" "\<not> csr_intr_get h'" "procs s' = procs s"
    and "load64 (k_mem (km s')) (p_trapframe (procs s' me) + TF_kernel_satp) = satp h'"
    and "load64 (k_mem (km s')) (p_trapframe (procs s' me) + TF_kernel_sp) = p_kstack (procs s' me) + PGSIZE"
    and "load64 (k_mem (km s')) (p_trapframe (procs s' me) + TF_kernel_trap) = a_usertrap A"
    and "load64 (k_mem (km s')) (p_trapframe (procs s' me) + TF_kernel_hartid) = tp h'"
    and "load64 (k_mem (km s')) (p_trapframe (procs s' me) + TF_epc) = sepc h'"
    and "sepc h' = load64 (k_mem (km s)) (p_trapframe (procs s me) + TF_epc)"
proof -
  let ?t1 = "tf_store me TF_kernel_satp (satp h) s"
  let ?t2 = "tf_store me TF_kernel_sp (p_kstack (procs s me) + PGSIZE) ?t1"
  let ?t3 = "tf_store me TF_kernel_trap (a_usertrap A) ?t2"
  let ?t4 = "tf_store me TF_kernel_hartid (tp h) ?t3"
  let ?x = "((sstatus h AND NOT SSTATUS_SIE) AND NOT SSTATUS_SPP) OR SSTATUS_SPIE"
  have e: "pc = TRAMPOLINE + a_userret A" "pt = MAKE_SATP (p_pagetable (procs s me))" "s' = ?t4"
    "h' = h\<lparr>stvec := TRAMPOLINE + a_uservec A, sstatus := ?x, sepc := load64 (k_mem (km ?t4)) (p_trapframe (procs s me) + TF_epc)\<rparr>"
    using assms unfolding usertrapret_def Let_def csr_intr_off_def by auto
  show "pc = TRAMPOLINE + a_userret A" "pt = MAKE_SATP (p_pagetable (procs s' me))" "stvec h' = TRAMPOLINE + a_uservec A" "procs s' = procs s"
    unfolding e by simp_all
  have clear: "(x AND NOT a OR b) AND a = b AND a" "((x AND NOT a) AND NOT c OR b) AND a = b AND a" for x a b c :: u64
    by (rule bit_eqI, auto simp: bit_simps)+
  show "sstatus h' AND SSTATUS_SPP = 0" unfolding e
    by (simp add: clear) (simp add: SSTATUS_SPP_def SSTATUS_SPIE_def)
  have "bit (sstatus h' AND SSTATUS_SPIE) 5" unfolding e by (simp add: bit_simps SSTATUS_SPIE_def)
  then show "sstatus h' AND SSTATUS_SPIE \<noteq> 0" by (metis bit_0_eq bot_apply bot_boolE)
  have "sstatus h' AND SSTATUS_SIE = 0" unfolding e
    by (simp add: clear) (simp add: SSTATUS_SIE_def SSTATUS_SPIE_def)
  then show "\<not> csr_intr_get h'" by (simp add: csr_intr_get_def)
  have same: "load64 (k_mem (km (tf_store me r v t))) (p_trapframe (procs s me) + r) = v" if "procs t = procs s" for r v t
    using tf_load_same [of me r v t] that by simp
  have keep: "load64 (k_mem (km (tf_store me r v t))) (p_trapframe (procs s me) + q) = load64 (k_mem (km t)) (p_trapframe (procs s me) + q)"
    if "procs t = procs s" "8 \<le> unat (q - r)" "8 \<le> unat (r - q)" for r v q t
    using tf_load_other [of q r me v t] that by simp
  show "load64 (k_mem (km s')) (p_trapframe (procs s' me) + TF_kernel_satp) = satp h'"
    "load64 (k_mem (km s')) (p_trapframe (procs s' me) + TF_kernel_sp) = p_kstack (procs s' me) + PGSIZE"
    "load64 (k_mem (km s')) (p_trapframe (procs s' me) + TF_kernel_trap) = a_usertrap A"
    "load64 (k_mem (km s')) (p_trapframe (procs s' me) + TF_kernel_hartid) = tp h'"
    "load64 (k_mem (km s')) (p_trapframe (procs s' me) + TF_epc) = sepc h'"
    "sepc h' = load64 (k_mem (km s)) (p_trapframe (procs s me) + TF_epc)"
    unfolding e by (simp_all add: same keep same [of _ 0, simplified] keep [of _ 0, simplified])
qed

lemma exit_trap_gone: "exit_trap me h s \<noteq> Ok (UserRet pc pt, h', s')"
  by (cases "exit me (-1) s") (simp_all add: exit_trap_def)

lemma usertrap_end_user:
  assumes "usertrap_end A resume me w h s = Ok (UserRet pc pt, h', s')"
  obtains h1 s1 where "\<not> killed me s" "usertrapret A me h1 s1 = (UserRet pc pt, h', s')" "w \<noteq> 2 \<Longrightarrow> h1 = h \<and> s1 = s"
  using assms exit_trap_gone [of me h s pc pt h' s'] by (cases "resume h (yield me s)") (auto simp: usertrap_end_def split: if_splits)

text \<open>The three ways back to user space.\<close>

lemma usertrap_user:
  assumes "myproc (cpuid h) s = Some me" and "usertrap A e lcl resume h s = Ok (UserRet pc pt, h', s')"
  obtains h1 s1 where "usertrapret A me h1 s1 = (UserRet pc pt, h', s')" "sstatus h AND SSTATUS_SPP = 0" "\<not> killed me s"
    "scause h = 8 \<and> \<not> killed me s1 \<or>
     scause h = 0x8000000000000009 \<and> \<not> killed me s1 \<and> load64 (k_mem (km s1)) (p_trapframe (procs s1 me) + TF_epc) = sepc h \<or>
     scause h = 0x8000000000000005"
proof -
  have spp: "sstatus h AND SSTATUS_SPP = 0" using assms(2) by (auto simp: usertrap_def split: if_splits)
  let ?h = "h\<lparr>stvec := a_kernelvec A\<rparr>" and ?s = "tf_store me TF_epc (sepc h) s"
  have c: "cpuid ?h = cpuid h" by (simp add: cpuid_def)
  show thesis
  proof (cases "scause h = 8")
    case True
    let ?s2 = "tf_store me TF_epc (load64 (k_mem (km ?s)) (p_trapframe (procs ?s me) + TF_epc) + 4) ?s"
    have nk: "\<not> killed me s" using assms True spp c exit_trap_gone [of me ?h ?s pc pt h' s'] by (auto simp: usertrap_def Let_def simp del: TF_epc_def)
    have "rbind (syscall (e_chip e) lcl me ?s2) (\<lambda>(v, s). case v of SysRet r \<Rightarrow> usertrap_end A resume me 0 (csr_intr_on ?h) s
        | SysWait \<Rightarrow> Ok (TrapWait, csr_intr_on ?h, s) | SysGone \<Rightarrow> Ok (TrapGone, csr_intr_on ?h, s)) = Ok (UserRet pc pt, h', s')"
      using assms True spp c nk by (simp add: usertrap_def Let_def del: TF_epc_def)
    then obtain s3 where "usertrap_end A resume me 0 (csr_intr_on ?h) s3 = Ok (UserRet pc pt, h', s')"
      by (cases "syscall (e_chip e) lcl me ?s2") (auto split: prod.splits sysval.splits)
    then show thesis by (rule usertrap_end_user) (use that True spp nk in auto)
  next
    case False
    have "rbind (devintr A e ?h ?s) (\<lambda>(which_dev, h, s). if which_dev \<noteq> 0 then usertrap_end A resume me which_dev h s
        else rbind (kprintf (''usertrap(): unexpected scause 0x%lx pid=%d'' @ [CHR 0x0A]) [VNum (scause h), VNum (of_int (p_pid (procs s me)))] s) (\<lambda>s.
             rbind (kprintf (''            sepc=0x%lx stval=0x%lx'' @ [CHR 0x0A]) [VNum (sepc h), VNum (stval h)] s) (\<lambda>s.
             usertrap_end A resume me 0 h (setkilled me s)))) = Ok (UserRet pc pt, h', s')"
      using assms False spp c by (simp add: usertrap_def Let_def del: TF_epc_def)
    then obtain w h1 s1 where d: "devintr A e ?h ?s = Ok (w, h1, s1)" and r: "(if w \<noteq> 0 then usertrap_end A resume me w h1 s1
        else rbind (kprintf (''usertrap(): unexpected scause 0x%lx pid=%d'' @ [CHR 0x0A]) [VNum (scause h1), VNum (of_int (p_pid (procs s1 me)))] s1) (\<lambda>s.
             rbind (kprintf (''            sepc=0x%lx stval=0x%lx'' @ [CHR 0x0A]) [VNum (sepc h1), VNum (stval h1)] s) (\<lambda>s.
             usertrap_end A resume me 0 h1 (setkilled me s)))) = Ok (UserRet pc pt, h', s')"
      by (cases "devintr A e ?h ?s") (auto split: prod.splits)
    note D = same_spaceD [OF devintr_frame(1) [OF d]] and w = devintr_frame(3) [OF d]
    have k: "killed me (setkilled me t)" for t :: "'a hworld_scheme" by (simp add: killed_def setkilled_def pupd_def)
    have "w \<noteq> 0"
    proof
      assume "w = 0"
      then obtain t where "usertrap_end A resume me 0 h1 (setkilled me t) = Ok (UserRet pc pt, h', s')"
        using r by (auto simp: kprintf_def elim!: rbind_OkE)
      then show False using k [of t] exit_trap_gone [of me h1 "setkilled me t" pc pt h' s'] by (simp add: usertrap_end_def)
    qed
    then have "usertrap_end A resume me w h1 s1 = Ok (UserRet pc pt, h', s')" using r by simp
    then show thesis
    proof (rule usertrap_end_user)
      fix h2 s2 assume nk: "\<not> killed me s1" and u: "usertrapret A me h2 s2 = (UserRet pc pt, h', s')" and e: "w \<noteq> 2 \<Longrightarrow> h2 = h1 \<and> s2 = s1"
      have e2: "load64 (k_mem (km s1)) (p_trapframe (procs s1 me) + TF_epc) = sepc h"
        using tf_load_same [of me TF_epc "sepc h" s] by (simp add: D del: tf_load_same TF_epc_def)
      show thesis
        by (rule that [OF u spp]) (use nk D(3) [of me] w \<open>w \<noteq> 0\<close> e e2 in \<open>auto simp del: TF_epc_def split: if_splits\<close>)
    qed
  qed
qed

text \<open>C20: What a trap from user space ends in. If \<open>usertrap\<close> returns to user space, the trap came from user mode, the process was not killed (nor was it
  when the trap had been served, unless it was preempted), and the cause was a system call, a device or the timer: after any other exception the process
  never runs again. The registers are then set for \<^verbatim>\<open>sret\<close> to user mode with interrupts, at the saved program counter, with traps going to \<open>uservec\<close> and the
  process's page table; the trap frame holds the kernel's page table, stack, handler and hart for the next trap. After a device interrupt the program goes on where it was.\<close>

theorem usertrap_to_user:
  assumes "myproc (cpuid h) s = Some me" and "usertrap A e lcl resume h s = Ok (UserRet pc pt, h', s')"
  shows "sstatus h AND SSTATUS_SPP = 0 \<and> \<not> killed me s \<and>
    (scause h = 8 \<and> \<not> killed me s' \<or> scause h = 0x8000000000000009 \<and> \<not> killed me s' \<and> sepc h' = sepc h \<or> scause h = 0x8000000000000005) \<and>
    sstatus h' AND SSTATUS_SPP = 0 \<and> sstatus h' AND SSTATUS_SPIE \<noteq> 0 \<and> \<not> csr_intr_get h' \<and>
    stvec h' = TRAMPOLINE + a_uservec A \<and> pc = TRAMPOLINE + a_userret A \<and> pt = MAKE_SATP (p_pagetable (procs s' me)) \<and>
    (let tf = (\<lambda>r. load64 (k_mem (km s')) (p_trapframe (procs s' me) + r)) in
      sepc h' = tf TF_epc \<and> tf TF_kernel_satp = satp h' \<and> tf TF_kernel_sp = p_kstack (procs s' me) + PGSIZE \<and>
      tf TF_kernel_trap = a_usertrap A \<and> tf TF_kernel_hartid = tp h')"
proof -
  obtain h1 s1 where r: "usertrapret A me h1 s1 = (UserRet pc pt, h', s')" "sstatus h AND SSTATUS_SPP = 0" "\<not> killed me s"
    "scause h = 8 \<and> \<not> killed me s1 \<or>
     scause h = 0x8000000000000009 \<and> \<not> killed me s1 \<and> load64 (k_mem (km s1)) (p_trapframe (procs s1 me) + TF_epc) = sepc h \<or>
     scause h = 0x8000000000000005"
    by (rule usertrap_user [OF assms])
  note U = usertrapret_sets [OF r(1)]
  have "killed me s' = killed me s1" by (simp add: killed_def U(7))
  then show ?thesis using r(2-4) U unfolding Let_def by metis
qed

text \<open>A hart that runs process 0 in user mode at address 4096 and is interrupted by a device that no longer wants anything.\<close>

definition idle_hart :: hart where
  "idle_hart = \<lparr>sstatus = 0, sepc = 4096, scause = 0x8000000000000009, stval = 0, stvec = 0, satp = 0, sie_csr = 0, stimecmp = 0, tp = 0, mstatus = 0,
     mepc = 0, medeleg = 0, mideleg = 0, mie = 0, menvcfg = 0, mcounteren = 0, pmpaddr0 = 0, pmpcfg0 = 0, mhartid = 0\<rparr>"

definition idle_devs :: devs where
  "idle_devs = \<lparr>e_plic = (\<lambda>_. 0), e_virtio = (\<lambda>_. 0), e_time = 0, e_chip = (\<lambda>_ _. 0), e_panicked = False, e_procdump = Some\<rparr>"

definition user_world :: "vdisk \<Rightarrow> pr_state \<Rightarrow> hworld" where
  "user_world d p = kworld.extend (boot_world\<lparr>cur := (\<lambda>_. Some 0)\<rparr>) (hworld.fields d [] 0 True p True)"

lemma user_world_simps: "cur (user_world d p) = (\<lambda>_. Some 0)" "\<not> killed 0 (user_world d p)"
  by (simp_all add: user_world_def kworld.defs hworld.defs boot_world_def killed_def idle_proc_def)

theorem usertrap_to_user_witness:
  "\<forall>A lcl resume d p. case usertrap A idle_devs lcl resume idle_hart (user_world d p) of
     Ok (UserRet pc pt, h', s') \<Rightarrow> sepc h' = 4096 \<and> sstatus h' AND SSTATUS_SPP = 0
   | _ \<Rightarrow> False"
proof (intro allI)
  fix A :: kaddrs and lcl resume d p
  let ?s = "user_world d p" and ?h = "idle_hart\<lparr>stvec := a_kernelvec A\<rparr>"
  have m: "myproc (cpuid idle_hart) ?s = Some 0" by (simp add: myproc_def user_world_simps)
  have "usertrap A idle_devs lcl resume idle_hart ?s = Ok (usertrapret A 0 ?h (tf_store 0 TF_epc 4096 ?s))"
    by (simp add: usertrap_def devintr_def plic_claim_def usertrap_end_def Let_def m [unfolded myproc_def] myproc_def cpuid_def idle_hart_def idle_devs_def user_world_simps)
  moreover obtain pc pt h' s' where r: "usertrapret A 0 ?h (tf_store 0 TF_epc 4096 ?s) = (UserRet pc pt, h', s')"
    by (auto simp: usertrapret_def Let_def)
  ultimately have u: "usertrap A idle_devs lcl resume idle_hart ?s = Ok (UserRet pc pt, h', s')" by simp
  have "scause idle_hart = 0x8000000000000009" "sepc idle_hart = 4096" by (simp_all add: idle_hart_def)
  then show "case usertrap A idle_devs lcl resume idle_hart ?s of Ok (UserRet pc pt, h', s') \<Rightarrow> sepc h' = 4096 \<and> sstatus h' AND SSTATUS_SPP = 0 | _ \<Rightarrow> False"
    using usertrap_to_user [OF m u] unfolding u by simp
qed

text \<open>C21: A trap in the kernel is transparent. If \<open>kerneltrap\<close> returns, it was called from supervisor mode with interrupts off for a device or
  timer interrupt; program counter and status are what they were, whatever happened while the CPU was given up. It gives up the CPU only for the
  timer and only if a process was running; otherwise no control register but the timer's changes, nor the memory. For any other cause it does not return.\<close>

theorem kerneltrap_transparent:
  assumes "kerneltrap A e resume h s = Ok (h', s')"
  shows "sepc h' = sepc h \<and> sstatus h' = sstatus h \<and> sstatus h AND SSTATUS_SPP \<noteq> 0 \<and> \<not> csr_intr_get h \<and>
    (scause h = 0x8000000000000009 \<or> scause h = 0x8000000000000005) \<and>
    (scause h = 0x8000000000000009 \<or> myproc (cpuid h) s = None \<longrightarrow> h' = h\<lparr>stimecmp := stimecmp h'\<rparr> \<and> same_space s s')"
proof -
  have c: "sstatus h AND SSTATUS_SPP \<noteq> 0" "\<not> csr_intr_get h" using assms by (auto simp: kerneltrap_def Let_def split: if_splits)
  obtain w h1 s1 where d: "devintr A e h s = Ok (w, h1, s1)" using assms c by (auto simp: kerneltrap_def Let_def elim!: rbind_OkE)
  note w = devintr_frame(3) [OF d] and D = same_spaceD(2) [OF devintr_frame(1) [OF d]]
  have h1: "cpuid h1 = cpuid h" "sepc h1 = sepc h" "sstatus h1 = sstatus h"
    using arg_cong [OF devintr_frame(2) [OF d], of cpuid] arg_cong [OF devintr_frame(2) [OF d], of sepc] arg_cong [OF devintr_frame(2) [OF d], of sstatus]
    by (simp_all add: cpuid_def)
  have "w \<noteq> 0"
    using assms c by (cases "w = 0") (auto simp: kerneltrap_def Let_def d elim!: rbind_OkE)
  then obtain h2 s2 where r: "(case myproc (cpuid h1) s1 of Some me \<Rightarrow> if w = 2 then resume h1 (yield me s1) else (h1, s1) | None \<Rightarrow> (h1, s1)) = (h2, s2)"
      "h' = h2\<lparr>sepc := sepc h, sstatus := sstatus h\<rparr>" "s' = s2"
    using assms c by (auto simp: kerneltrap_def Let_def d split: prod.splits)
  have "h' = h1 \<and> s' = s1" if "scause h = 0x8000000000000009 \<or> myproc (cpuid h) s = None"
  proof -
    have "w \<noteq> 2 \<or> myproc (cpuid h1) s1 = None" using that w h1(1) D by (auto simp: myproc_def)
    then have "h2 = h1 \<and> s2 = s1" using r(1) by (auto split: option.splits)
    then show ?thesis using r(2,3) h1(2,3) by simp
  qed
  then show ?thesis using c w \<open>w \<noteq> 0\<close> r(2) devintr_frame(1,2) [OF d] by (auto split: if_splits)
qed

theorem kerneltrap_transparent_witness:
  "\<forall>A resume d p. case kerneltrap A idle_devs resume (idle_hart\<lparr>sstatus := SSTATUS_SPP\<rparr>) (user_world d p) of
     Ok (h', s') \<Rightarrow> sepc h' = 4096 \<and> same_space (user_world d p) s' | _ \<Rightarrow> False"
proof (intro allI)
  fix A :: kaddrs and resume d p
  let ?h = "idle_hart\<lparr>sstatus := SSTATUS_SPP\<rparr>" and ?s = "user_world d p"
  have h: "scause ?h = 0x8000000000000009" "sepc ?h = 4096" by (simp_all add: idle_hart_def)
  have "\<exists>h' s'. kerneltrap A idle_devs resume ?h ?s = Ok (h', s')"
    by (simp add: kerneltrap_def Let_def csr_intr_get_def SSTATUS_SPP_def SSTATUS_SIE_def devintr_def plic_claim_def myproc_def user_world_simps idle_hart_def idle_devs_def)
  then obtain h' s' where u: "kerneltrap A idle_devs resume ?h ?s = Ok (h', s')" by blast
  show "case kerneltrap A idle_devs resume ?h ?s of Ok (h', s') \<Rightarrow> sepc h' = 4096 \<and> same_space (user_world d p) s' | _ \<Rightarrow> False"
    using kerneltrap_transparent [OF u] h unfolding u by simp
qed

end
