(* ===== verification/Xv6_Crash.thy ===== *)
theory Xv6_Crash
  imports Xv6_Log
begin

text \<open>
  Crash safety of the log. The writes that \<open>commit\<close> makes to the disk, a crash after any number of them, and the recovery by \<open>initlog\<close> on the disk that
  is left. The buffer cache is described by what the log relies on: \<open>busy d pid R hs c\<close> is a cache of device \<open>d\<close> in which process \<open>pid\<close> holds the
  buffers \<open>hs\<close>, and \<open>R\<close> are the references that remain when they are released.
\<close>

declare NBUF_def [simp del]

section \<open>The cache as the log uses it\<close>

definition refs_ok :: "(nat \<Rightarrow> u32) \<Rightarrow> bool" where
  "refs_ok R \<longleftrightarrow> (\<forall>i<NBUF. R i + 1 \<noteq> 0) \<and> (\<exists>i<NBUF. \<exists>j<NBUF. i \<noteq> j \<and> R i = 0 \<and> R j = 0)"

definition busy :: "u32 \<Rightarrow> int \<Rightarrow> (nat \<Rightarrow> u32) \<Rightarrow> (nat \<times> u32) list \<Rightarrow> bcache \<Rightarrow> bool" where
  "busy d pid R hs c \<longleftrightarrow> binv c \<and> distinct (map fst hs) \<and>
     (\<forall>(b, z) \<in> set hs. cached c d z b \<and> valid (bufs c b) \<and> holdingsleep pid (b_lock (bufs c b)) \<and>
        (R b = 0 \<longrightarrow> view c d z = disk c z)) \<and>
     (\<forall>i<NBUF. (sl_locked (b_lock (bufs c i)) \<longrightarrow> i \<in> fst ` set hs) \<and> (dev (bufs c i) = 0 \<or> dev (bufs c i) = d) \<and>
        refcnt (bufs c i) = (if i \<in> fst ` set hs then R i + 1 else R i))"

lemma busyD:
  assumes "busy d pid R hs c"
  shows "binv c" "distinct (map fst hs)"
    and "(b, z) \<in> set hs \<Longrightarrow> cached c d z b" "(b, z) \<in> set hs \<Longrightarrow> valid (bufs c b)"
    and "(b, z) \<in> set hs \<Longrightarrow> holdingsleep pid (b_lock (bufs c b))" "(b, z) \<in> set hs \<Longrightarrow> R b = 0 \<Longrightarrow> view c d z = disk c z"
    and "i < NBUF \<Longrightarrow> sl_locked (b_lock (bufs c i)) \<Longrightarrow> i \<in> fst ` set hs"
    and "i < NBUF \<Longrightarrow> dev (bufs c i) = 0 \<or> dev (bufs c i) = d"
    and "i < NBUF \<Longrightarrow> refcnt (bufs c i) = (if i \<in> fst ` set hs then R i + 1 else R i)"
  using assms unfolding busy_def by (blast, blast, fastforce, fastforce, fastforce, fastforce, blast, blast, blast)

lemma busyI:
  assumes "binv c" "distinct (map fst hs)"
    and "\<And>b z. (b, z) \<in> set hs \<Longrightarrow> cached c d z b \<and> valid (bufs c b) \<and> holdingsleep pid (b_lock (bufs c b)) \<and> (R b = 0 \<longrightarrow> view c d z = disk c z)"
    and "\<And>i. i < NBUF \<Longrightarrow> (sl_locked (b_lock (bufs c i)) \<longrightarrow> i \<in> fst ` set hs) \<and> (dev (bufs c i) = 0 \<or> dev (bufs c i) = d) \<and>
        refcnt (bufs c i) = (if i \<in> fst ` set hs then R i + 1 else R i)"
  shows "busy d pid R hs c"
  unfolding busy_def using assms by blast

text \<open>The data of a held buffer are the contents of its block.\<close>

lemma busy_data: "busy d pid R hs c \<Longrightarrow> d \<noteq> 0 \<Longrightarrow> (b, z) \<in> set hs \<Longrightarrow> b_data (bufs c b) = view c d z"
  using view_cached [of c d z b] busyD(1,3,4) by simp

text \<open>A block without references is clean.\<close>

lemma view_clean:
  assumes "binv c" "d \<noteq> 0" "\<And>b. cached c d z b \<Longrightarrow> refcnt (bufs c b) = 0"
  shows "view c d z = disk c z"
proof (cases "\<exists>b. cached c d z b")
  case True
  then obtain b where b: "cached c d z b" by blast
  then have "valid (bufs c b) \<Longrightarrow> b_data (bufs c b) = disk c z"
    using binv_clean [OF assms(1), of b] assms(2,3) by (auto simp: cached_def)
  then show ?thesis using view_cached [OF assms(1,2) b] by simp
next
  case False
  then show ?thesis using view_uncached by blast
qed

lemma bread_free:
  assumes i: "binv c" and g: "can_get c d bn" and d: "d \<noteq> 0" and r: "bread pid d bn c = Ok (b, c')"
  shows "cached c d bn b \<or> (\<forall>j. \<not> cached c d bn j) \<and> refcnt (bufs c b) = 0"
proof -
  obtain xs where l: "lru c xs" and s: "set xs = {..<NBUF}" using binv_lru [OF i] by blast
  obtain b0 where b0: "bget pid d bn c = Ok (b0, bupd b0 (taken pid d bn) c)"
    "cached c d bn b0 \<and> refcnt (bufs c b0) + 1 \<noteq> 0 \<or> (\<forall>j. \<not> cached c d bn j) \<and> refcnt (bufs c b0) = 0"
    using bget_choice [OF i l s g d, of pid] by blast
  then have "b = b0" using r by (auto simp: bread_def split: if_splits)
  then show ?thesis using b0(2) by blast
qed

lemma busy_get:
  assumes B: "busy d pid R hs c" and R: "refs_ok R" and d: "d \<noteq> 0" and z: "z \<notin> snd ` set hs" and l: "length hs \<le> 1"
  obtains b c' where "bread pid d z c = Ok (b, c')" "busy d pid R ((b, z) # hs) c'" "disk c' = disk c" "dwrites c' = dwrites c"
    "\<And>y. view c' d y = view c d y" "\<And>j y. R j \<noteq> 0 \<Longrightarrow> cached c d y j \<Longrightarrow> cached c' d y j"
proof -
  note D = busyD [OF B]
  have notheld: "j \<notin> fst ` set hs" if "cached c d z j" for j
  proof
    assume "j \<in> fst ` set hs"
    then obtain y where y: "(j, y) \<in> set hs" by auto
    then have "y = z" using D(3) [OF y] that by (simp add: cached_def)
    then show False using y z by force
  qed
  have g: "can_get c d z"
  proof (cases "\<exists>j. cached c d z j")
    case True
    then obtain j where j: "cached c d z j" by blast
    then have jn: "j < NBUF" by (simp add: cached_def)
    then have "\<not> sl_locked (b_lock (bufs c j))" "refcnt (bufs c j) + 1 \<noteq> 0"
      using notheld [OF j] D(7) [of j] D(9) [of j] R by (auto simp: refs_ok_def)
    then show ?thesis using j unfolding can_get_def by blast
  next
    case False
    obtain i j where ij: "i < NBUF" "j < NBUF" "i \<noteq> j" "R i = 0" "R j = 0" using R by (auto simp: refs_ok_def)
    have "i \<notin> fst ` set hs \<or> j \<notin> fst ` set hs" using ij(3) l by (cases hs) auto
    then show ?thesis using False ij D(9) [of i] D(9) [of j] unfolding can_get_def by auto
  qed
  obtain b c' where b: "bread pid d z c = Ok (b, c')" "b < NBUF" "binv c'" "cached c' d z b" "valid (bufs c' b)"
    "b_data (bufs c' b) = view c d z" "holdingsleep pid (b_lock (bufs c' b))"
    "refcnt (bufs c' b) = (if cached c d z b then refcnt (bufs c b) + 1 else 1)"
    "\<forall>j. j \<noteq> b \<longrightarrow> bufs c' j = bufs c j" "disk c' = disk c" "dwrites c' = dwrites c"
    and v: "\<And>y. view c' d y = view c d y"
    using bread_spec [OF D(1) g d, of pid] d by blast
  have fr: "cached c d z b \<or> (\<forall>j. \<not> cached c d z j) \<and> refcnt (bufs c b) = 0" by (rule bread_free [OF D(1) g d b(1)])
  have nb: "b \<notin> fst ` set hs"
  proof (cases "cached c d z b")
    case True
    then show ?thesis by (rule notheld)
  next
    case False
    then have "refcnt (bufs c b) = 0" using fr by blast
    then show ?thesis using D(9) [OF b(2)] R b(2) by (auto simp: refs_ok_def split: if_splits)
  qed
  have Rb: "refcnt (bufs c b) = R b" using D(9) [OF b(2)] nb by simp
  have rb: "refcnt (bufs c' b) = R b + 1" using b(8) Rb fr by auto
  have cl: "view c d z = disk c z" if "R b = 0"
  proof (rule view_clean [OF D(1) d])
    fix j assume j: "cached c d z j"
    then have cb: "cached c d z b" using fr by blast
    have "j = b" by (rule binv_unique [OF D(1)]) (use j cb d in \<open>simp_all add: cached_def\<close>)
    then show "refcnt (bufs c j) = 0" using that Rb by simp
  qed
  have "busy d pid R ((b, z) # hs) c'"
  proof (rule busyI)
    show "binv c'" by (rule b(3))
    show "distinct (map fst ((b, z) # hs))" using D(2) nb by simp
    show "cached c' d y a \<and> valid (bufs c' a) \<and> holdingsleep pid (b_lock (bufs c' a)) \<and> (R a = 0 \<longrightarrow> view c' d y = disk c' y)"
      if "(a, y) \<in> set ((b, z) # hs)" for a y
    proof (cases "(a, y) = (b, z)")
      case True
      then show ?thesis using b cl v by simp
    next
      case False
      then have a: "(a, y) \<in> set hs" using that by auto
      then have "bufs c' a = bufs c a" using nb b(9) by force
      then show ?thesis using D(3-6) [OF a] b(10) v by (simp add: cached_def)
    qed
    fix i assume i: "i < NBUF"
    show "(sl_locked (b_lock (bufs c' i)) \<longrightarrow> i \<in> fst ` set ((b, z) # hs)) \<and> (dev (bufs c' i) = 0 \<or> dev (bufs c' i) = d) \<and>
        refcnt (bufs c' i) = (if i \<in> fst ` set ((b, z) # hs) then R i + 1 else R i)"
    proof (cases "i = b")
      case True
      then show ?thesis using b(4) rb by (simp add: cached_def)
    next
      case False
      then show ?thesis using b(9) D(7-9) [OF i] by simp
    qed
  qed
  moreover have "cached c' d y j" if "R j \<noteq> 0" "cached c d y j" for j y
  proof (cases "j = b")
    case True
    then have "cached c d z b" using fr Rb that(1) by simp
    then show ?thesis using that(2) True b(4) by (simp add: cached_def)
  next
    case False
    then show ?thesis using b(9) that(2) by (simp add: cached_def)
  qed
  ultimately show thesis using that b(1,10,11) v by blast
qed

text \<open>Writing a held buffer.\<close>

lemma disk_rw_write:
  "disk_rw b True (bupd b (b_data_update (\<lambda>_. x)) c) =
     (bupd b (b_data_update (\<lambda>_. x)) c)\<lparr>disk := (disk c)(blockno (bufs c b) := x), dwrites := dwrites c @ [(blockno (bufs c b), x)]\<rparr>"
  by (simp add: disk_rw_def Let_def bupd_def)

lemma busy_write:
  assumes B: "busy d pid R hs c" and d: "d \<noteq> 0" and h: "(b, z) \<in> set hs"
  obtains c' where "bwrite pid b (bupd b (b_data_update (\<lambda>_. x)) c) = Ok c'" "busy d pid R hs c'" "disk c' = (disk c)(z := x)"
    "dwrites c' = dwrites c @ [(z, x)]" "\<And>y. view c' d y = (if y = z then x else view c d y)" "\<And>j y. cached c' d y j = cached c d y j"
proof -
  note D = busyD [OF B]
  have cb: "cached c d z b" "b < NBUF" "blockno (bufs c b) = z" using D(3) [OF h] by (simp_all add: cached_def)
  define c' where "c' = disk_rw b True (bupd b (b_data_update (\<lambda>_. x)) c)"
  have c': "bufs c' = (\<lambda>i. if i = b then (bufs c b)\<lparr>b_data := x\<rparr> else bufs c i)" "disk c' = (disk c)(z := x)"
    "dwrites c' = dwrites c @ [(z, x)]"
    unfolding c'_def disk_rw_write cb(3) by (simp_all add: bupd_def fun_eq_iff)
  have fld: "valid (bufs c' i) = valid (bufs c i)" "dev (bufs c' i) = dev (bufs c i)" "blockno (bufs c' i) = blockno (bufs c i)"
    "b_lock (bufs c' i) = b_lock (bufs c i)" "refcnt (bufs c' i) = refcnt (bufs c i)" "nx c' i = nx c i" "pv c' i = pv c i" for i
    by (simp_all add: c'(1) nx_def pv_def)
  have ca: "cached c' d y j = cached c d y j" for j y by (simp add: cached_def fld)
  have bw: "bwrite pid b (bupd b (b_data_update (\<lambda>_. x)) c) = Ok c'"
    using D(5) [OF h] by (simp add: bwrite_def c'_def bupd_def)
  have only: "i = b" if "i < NBUF" "dev (bufs c i) \<noteq> 0" "blockno (bufs c i) = z" for i
    by (rule binv_unique [OF D(1)]) (use that cb D(8) [of i] d in \<open>auto simp: cached_def\<close>)
  have "refcnt (bufs c b) \<noteq> 0"
    by (rule binv_locked [OF D(1) cb(2)]) (use D(5) [OF h] in \<open>simp add: holdingsleep_def\<close>)
  have inv: "binv c'"
    unfolding binv_def
  proof (intro conjI allI impI)
    obtain xs where xs: "lru c xs" "set xs = {..<NBUF}" using binv_lru [OF D(1)] by blast
    have "nx c' = nx c" "pv c' = pv c" using fld(6,7) by blast+
    then have "lru c' xs" using xs(1) by (simp add: lru_def)
    then show "\<exists>xs. lru c' xs \<and> set xs = {..<NBUF}" using xs(2) by blast
    fix i j assume "i < NBUF" "j < NBUF" "dev (bufs c' i) = dev (bufs c' j)" "blockno (bufs c' i) = blockno (bufs c' j)" "dev (bufs c' i) \<noteq> 0"
    then show "i = j" unfolding fld by (rule binv_unique [OF D(1)])
  next
    fix i assume "i < NBUF" "sl_locked (b_lock (bufs c' i))"
    then show "refcnt (bufs c' i) \<noteq> 0" unfolding fld by (rule binv_locked [OF D(1)])
  next
    fix i assume i: "i < NBUF" "refcnt (bufs c' i) = 0 \<and> valid (bufs c' i) \<and> dev (bufs c' i) \<noteq> 0"
    then have "i \<noteq> b" using \<open>refcnt (bufs c b) \<noteq> 0\<close> by (auto simp: fld)
    moreover have "blockno (bufs c i) \<noteq> z" using only [of i] i calculation by (auto simp: fld)
    ultimately show "b_data (bufs c' i) = disk c' (blockno (bufs c' i))"
      using binv_clean [OF D(1), of i] i by (simp add: c' fld(3))
  qed
  have vw: "view c' d y = (if y = z then x else view c d y)" for y
  proof (cases "y = z")
    case True
    then show ?thesis using view_cached [OF inv d, of z b] ca cb(1) D(4) [OF h] by (simp add: fld c'(1))
  next
    case False
    have "view c' d y = view c d y"
      by (rule view_other) (use False cb in \<open>auto simp: fld c'\<close>)
    then show ?thesis using False by simp
  qed
  have "busy d pid R hs c'"
  proof (rule busyI [OF inv D(2)])
    fix a y assume a: "(a, y) \<in> set hs"
    show "cached c' d y a \<and> valid (bufs c' a) \<and> holdingsleep pid (b_lock (bufs c' a)) \<and> (R a = 0 \<longrightarrow> view c' d y = disk c' y)"
      using D(3-6) [OF a] by (simp add: ca fld vw c'(2))
  next
    fix i assume "i < NBUF"
    then show "(sl_locked (b_lock (bufs c' i)) \<longrightarrow> i \<in> fst ` set hs) \<and> (dev (bufs c' i) = 0 \<or> dev (bufs c' i) = d) \<and>
        refcnt (bufs c' i) = (if i \<in> fst ` set hs then R i + 1 else R i)"
      using D(7-9) [of i] by (simp add: fld)
  qed
  then show thesis using that bw c'(2,3) vw ca by blast
qed

text \<open>Releasing a held buffer.\<close>

lemma core_fields:
  assumes "core x = core y"
  shows "valid x = valid y" "dev x = dev y" "blockno x = blockno y" "b_lock x = b_lock y" "refcnt x = refcnt y" "b_data x = b_data y"
  using assms by (simp_all add: core_def)

lemma busy_rel:
  assumes B: "busy d pid R hs c" and d: "d \<noteq> 0" and h: "(b, z) \<in> set hs"
  obtains c' where "brelse pid b c = Ok c'" "busy d pid R (remove1 (b, z) hs) c'" "disk c' = disk c"
    "dwrites c' = dwrites c" "\<And>y. view c' d y = view c d y" "\<And>j y. cached c' d y j = cached c d y j"
proof -
  note D = busyD [OF B]
  have cb: "cached c d z b" "b < NBUF" "blockno (bufs c b) = z" using D(3) [OF h] by (simp_all add: cached_def)
  have bh: "b \<in> fst ` set hs" using h by force
  have rb: "refcnt (bufs c b) = R b + 1" using D(9) [OF cb(2)] bh by simp
  obtain xs where xs: "lru c xs" "set xs = {..<NBUF}" using binv_lru [OF D(1)] by blast
  have clean: "b_data (bufs c b) = disk c (blockno (bufs c b))" if "refcnt (bufs c b) = 1"
    using that rb D(6) [OF h] busy_data [OF B d h] cb(3) by simp
  obtain c' where c': "brelse pid b c = Ok c'" "binv c'" "disk c' = disk c" "dwrites c' = dwrites c"
    "core (bufs c' b) = core (dropped (bufs c b))" "\<forall>j. j \<noteq> b \<longrightarrow> core (bufs c' j) = core (bufs c j)"
    and v: "\<And>d bn. view c' d bn = view c d bn"
    using brelse_spec [OF D(1) cb(2) D(5) [OF h] clean xs] by blast
  have fb: "dev (bufs c' b) = dev (bufs c b)" "blockno (bufs c' b) = blockno (bufs c b)" "refcnt (bufs c' b) = R b"
    "\<not> sl_locked (b_lock (bufs c' b))"
    using core_fields [OF c'(5)] rb by simp_all
  have fj: "valid (bufs c' j) = valid (bufs c j)" "dev (bufs c' j) = dev (bufs c j)" "blockno (bufs c' j) = blockno (bufs c j)"
    "b_lock (bufs c' j) = b_lock (bufs c j)" "refcnt (bufs c' j) = refcnt (bufs c j)" if "j \<noteq> b" for j
    using core_fields [of "bufs c' j" "bufs c j"] c'(6) that by simp_all
  have ca: "cached c' d y j = cached c d y j" for j y by (cases "j = b") (simp_all add: cached_def fb fj)
  have ds: "distinct hs" using D(2) by (simp add: distinct_map)
  have rs: "set (remove1 (b, z) hs) = set hs - {(b, z)}" by (rule set_remove1_eq [OF ds])
  have fs: "fst ` set (remove1 (b, z) hs) = fst ` set hs - {b}"
  proof -
    have "inj_on fst (set hs)" using D(2) by (simp add: distinct_map)
    then show ?thesis using inj_on_image_set_diff [of fst "set hs" "set hs" "{(b, z)}"] h by (simp add: rs)
  qed
  have "busy d pid R (remove1 (b, z) hs) c'"
  proof (rule busyI [OF c'(2)])
    show "distinct (map fst (remove1 (b, z) hs))" using D(2) ds by (auto simp: distinct_map rs intro: inj_on_diff)
    fix a y assume a: "(a, y) \<in> set (remove1 (b, z) hs)"
    then have ah: "(a, y) \<in> set hs" "(a, y) \<noteq> (b, z)" unfolding rs by simp_all
    then have "a \<noteq> b" using eq_key_imp_eq_value [OF D(2) h] by auto
    then show "cached c' d y a \<and> valid (bufs c' a) \<and> holdingsleep pid (b_lock (bufs c' a)) \<and> (R a = 0 \<longrightarrow> view c' d y = disk c' y)"
      using D(3-6) [OF ah(1)] by (simp add: ca fj v c'(3))
  next
    fix i assume i: "i < NBUF"
    show "(sl_locked (b_lock (bufs c' i)) \<longrightarrow> i \<in> fst ` set (remove1 (b, z) hs)) \<and> (dev (bufs c' i) = 0 \<or> dev (bufs c' i) = d) \<and>
        refcnt (bufs c' i) = (if i \<in> fst ` set (remove1 (b, z) hs) then R i + 1 else R i)"
    proof (cases "i = b")
      case True
      then show ?thesis using fb D(8) [OF i] by (simp add: fs)
    next
      case False
      then show ?thesis using D(7-9) [OF i] by (simp add: fj fs)
    qed
  qed
  then show thesis using that c'(1,3,4) v ca by blast
qed

text \<open>Dropping the pin of a clean held buffer.\<close>

lemma busy_unpin:
  assumes B: "busy d pid R hs c" and h: "(b, z) \<in> set hs" and R: "R b \<noteq> 0" "R b + 1 \<noteq> 0" and cl: "view c d z = disk c z"
  shows "busy d pid (R(b := R b - 1)) hs (bunpin b c)" "disk (bunpin b c) = disk c" "dwrites (bunpin b c) = dwrites c"
    "view (bunpin b c) d y = view c d y" "cached (bunpin b c) d y j = cached c d y j"
proof -
  note D = busyD [OF B]
  have cb: "cached c d z b" "b < NBUF" using D(3) [OF h] by (simp_all add: cached_def)
  have bh: "b \<in> fst ` set hs" using h by force
  have rb: "refcnt (bufs c b) = R b + 1" using D(9) [OF cb(2)] bh by simp
  show ds: "disk (bunpin b c) = disk c" "dwrites (bunpin b c) = dwrites c" by (simp_all add: bunpin_def bupd_def)
  have vw: "view (bunpin b c) d y = view c d y" for y unfolding bunpin_def by (rule view_bupd_ctl) simp_all
  then show "view (bunpin b c) d y = view c d y" .
  have ca: "cached (bunpin b c) d y j = cached c d y j" for y j by (simp add: cached_def bunpin_def bupd_def)
  then show "cached (bunpin b c) d y j = cached c d y j" .
  have inv: "binv (bunpin b c)"
    unfolding bunpin_def by (rule binv_bupd [OF D(1) cb(2)]) (use rb R in \<open>auto simp: binv_locked\<close>)
  have fld: "valid (bufs (bunpin b c) i) = valid (bufs c i)" "dev (bufs (bunpin b c) i) = dev (bufs c i)"
    "b_lock (bufs (bunpin b c) i) = b_lock (bufs c i)" "refcnt (bufs (bunpin b c) i) = (if i = b then refcnt (bufs c b) - 1 else refcnt (bufs c i))" for i
    by (simp_all add: bunpin_def bupd_def)
  show "busy d pid (R(b := R b - 1)) hs (bunpin b c)"
  proof (rule busyI [OF inv D(2)])
    fix a y assume a: "(a, y) \<in> set hs"
    have "y = z" if "a = b" using D(3) [OF a] cb(1) that by (simp add: cached_def)
    then show "cached (bunpin b c) d y a \<and> valid (bufs (bunpin b c) a) \<and> holdingsleep pid (b_lock (bufs (bunpin b c) a)) \<and>
        ((R(b := R b - 1)) a = 0 \<longrightarrow> view (bunpin b c) d y = disk (bunpin b c) y)"
      using D(3-6) [OF a] cl by (auto simp: ca fld vw ds)
  next
    fix i assume "i < NBUF"
    then show "(sl_locked (b_lock (bufs (bunpin b c) i)) \<longrightarrow> i \<in> fst ` set hs) \<and> (dev (bufs (bunpin b c) i) = 0 \<or> dev (bufs (bunpin b c) i) = d) \<and>
        refcnt (bufs (bunpin b c) i) = (if i \<in> fst ` set hs then (R(b := R b - 1)) i + 1 else (R(b := R b - 1)) i)"
      using D(7-9) [of i] bh rb by (auto simp: fld)
  qed
qed

section \<open>The operations of the log\<close>

text \<open>What one of them does to the blocks and the disk: the writes \<open>ws\<close>, in this order.\<close>

definition apply_writes :: "(u32 \<times> block) list \<Rightarrow> (u32 \<Rightarrow> block) \<Rightarrow> u32 \<Rightarrow> block" where
  "apply_writes ws D = fold (\<lambda>(z, x) D. D(z := x)) ws D"

lemma apply_writes_simps [simp]:
  "apply_writes [] D = D" "apply_writes ((z, x) # ws) D = apply_writes ws (D(z := x))"
  "apply_writes (ws @ vs) D = apply_writes vs (apply_writes ws D)"
  by (simp_all add: apply_writes_def)

lemma apply_writes_other: "z \<notin> fst ` set ws \<Longrightarrow> apply_writes ws D z = D z"
  by (induction ws arbitrary: D) auto

definition does :: "u32 \<Rightarrow> int \<Rightarrow> (nat \<Rightarrow> u32) \<Rightarrow> (nat \<Rightarrow> u32) \<Rightarrow> (u32 \<times> block) list \<Rightarrow> 'a fsys_scheme \<Rightarrow> 'a fsys_scheme \<Rightarrow> bool" where
  "does d pid R R' ws s t \<longleftrightarrow> busy d pid R' [] (bc t) \<and> lg t = lg s \<and> disk (bc t) = apply_writes ws (disk (bc s)) \<and>
     dwrites (bc t) = dwrites (bc s) @ ws \<and> view (bc t) d = apply_writes ws (view (bc s) d) \<and>
     (\<forall>j y. R j \<noteq> 0 \<longrightarrow> cached (bc s) d y j \<longrightarrow> cached (bc t) d y j)"

lemma does_refl: "busy d pid R [] (bc s) \<Longrightarrow> does d pid R R [] s s"
  by (simp add: does_def)

lemma does_trans:
  assumes "does d pid R R ws s t" "does d pid R R' vs t u"
  shows "does d pid R R' (ws @ vs) s u"
  using assms unfolding does_def by auto

lemma doesD:
  assumes "does d pid R R' ws s t"
  shows "busy d pid R' [] (bc t)" "lg t = lg s" "disk (bc t) = apply_writes ws (disk (bc s))" "dwrites (bc t) = dwrites (bc s) @ ws"
    "view (bc t) d = apply_writes ws (view (bc s) d)" "R j \<noteq> 0 \<Longrightarrow> cached (bc s) d y j \<Longrightarrow> cached (bc t) d y j"
  using assms unfolding does_def by blast+

lemma write_one_does:
  assumes B: "busy d pid R [] (bc s)" and R: "refs_ok R" and d: "d \<noteq> 0" "l_dev (lg s) = d"
    and ne: "lh (lg s) ! t \<noteq> l_start (lg s) + of_nat t + 1"
  obtains u where "write_one pid t s = Ok u" "does d pid R R [(l_start (lg s) + of_nat t + 1, view (bc s) d (lh (lg s) ! t))] s u"
proof -
  let ?to = "l_start (lg s) + of_nat t + 1" and ?from = "lh (lg s) ! t"
  obtain a c1 where 1: "bread pid d ?to (bc s) = Ok (a, c1)" "busy d pid R [(a, ?to)] c1" "disk c1 = disk (bc s)" "dwrites c1 = dwrites (bc s)"
    "\<And>y. view c1 d y = view (bc s) d y" "\<And>j y. R j \<noteq> 0 \<Longrightarrow> cached (bc s) d y j \<Longrightarrow> cached c1 d y j"
    by (rule busy_get [OF B R d(1), of ?to]) auto
  obtain b c2 where 2: "bread pid d ?from c1 = Ok (b, c2)" "busy d pid R [(b, ?from), (a, ?to)] c2" "disk c2 = disk c1" "dwrites c2 = dwrites c1"
    "\<And>y. view c2 d y = view c1 d y" "\<And>j y. R j \<noteq> 0 \<Longrightarrow> cached c1 d y j \<Longrightarrow> cached c2 d y j"
    by (rule busy_get [OF 1(2) R d(1), of ?from]) (use ne in auto)
  have data: "b_data (bufs c2 b) = view (bc s) d ?from" using busy_data [OF 2(2) d(1), of b ?from] 1(5) 2(5) by simp
  obtain c3 where 3: "bwrite pid a (bupd a (b_data_update (\<lambda>_. b_data (bufs c2 b))) c2) = Ok c3" "busy d pid R [(b, ?from), (a, ?to)] c3"
    "disk c3 = (disk c2)(?to := b_data (bufs c2 b))" "dwrites c3 = dwrites c2 @ [(?to, b_data (bufs c2 b))]"
    "\<And>y. view c3 d y = (if y = ?to then b_data (bufs c2 b) else view c2 d y)" "\<And>j y. cached c3 d y j = cached c2 d y j"
    by (rule busy_write [OF 2(2) d(1), of a ?to "b_data (bufs c2 b)"]) auto
  obtain c4 where 4: "brelse pid b c3 = Ok c4" "busy d pid R (remove1 (b, ?from) [(b, ?from), (a, ?to)]) c4" "disk c4 = disk c3" "dwrites c4 = dwrites c3"
    "\<And>y. view c4 d y = view c3 d y" "\<And>j y. cached c4 d y j = cached c3 d y j"
    by (rule busy_rel [OF 3(2) d(1), of b ?from]) auto
  obtain c5 where 5: "brelse pid a c4 = Ok c5" "busy d pid R (remove1 (a, ?to) (remove1 (b, ?from) [(b, ?from), (a, ?to)])) c5"
    "disk c5 = disk c4" "dwrites c5 = dwrites c4" "\<And>y. view c5 d y = view c4 d y" "\<And>j y. cached c5 d y j = cached c4 d y j"
    by (rule busy_rel [OF 4(2) d(1), of a ?to]) auto
  let ?u = "s\<lparr>bc := c5\<rparr>"
  have "write_one pid t s = Ok ?u"
    using 1(1) 2(1) 3(1) 4(1) 5(1) d(2)
    by (simp add: write_one_def bread'_def bwrite'_def brelse'_def set_bdata_def bdata_def)
  moreover have "does d pid R R [(?to, view (bc s) d ?from)] s ?u"
    unfolding does_def using 5 4(3-6) 3(3-6) 2(3-6) 1(3-6) data by (auto simp: fun_eq_iff)
  ultimately show thesis by (rule that)
qed

lemma install_one_does:
  assumes B: "busy d pid R [] (bc s)" and R: "refs_ok R" and d: "d \<noteq> 0" "l_dev (lg s) = d"
    and ne: "lh (lg s) ! t \<noteq> l_start (lg s) + of_nat t + 1"
    and pin: "\<not> rc \<Longrightarrow> cached (bc s) d (lh (lg s) ! t) p \<and> R p \<noteq> 0"
  obtains u where "install_one pid rc t s = Ok u"
    "does d pid R (if rc then R else R(p := R p - 1)) [(lh (lg s) ! t, view (bc s) d (l_start (lg s) + of_nat t + 1))] s u"
proof -
  let ?to = "lh (lg s) ! t" and ?from = "l_start (lg s) + of_nat t + 1" and ?R = "if rc then R else R(p := R p - 1)"
  obtain b c1 where 1: "bread pid d ?from (bc s) = Ok (b, c1)" "busy d pid R [(b, ?from)] c1" "disk c1 = disk (bc s)" "dwrites c1 = dwrites (bc s)"
    "\<And>y. view c1 d y = view (bc s) d y" "\<And>j y. R j \<noteq> 0 \<Longrightarrow> cached (bc s) d y j \<Longrightarrow> cached c1 d y j"
    by (rule busy_get [OF B R d(1), of ?from]) auto
  obtain a c2 where 2: "bread pid d ?to c1 = Ok (a, c2)" "busy d pid R [(a, ?to), (b, ?from)] c2" "disk c2 = disk c1" "dwrites c2 = dwrites c1"
    "\<And>y. view c2 d y = view c1 d y" "\<And>j y. R j \<noteq> 0 \<Longrightarrow> cached c1 d y j \<Longrightarrow> cached c2 d y j"
    by (rule busy_get [OF 1(2) R d(1), of ?to]) (use ne in auto)
  have data: "b_data (bufs c2 b) = view (bc s) d ?from" using busy_data [OF 2(2) d(1), of b ?from] 1(5) 2(5) by simp
  obtain c3 where 3: "bwrite pid a (bupd a (b_data_update (\<lambda>_. b_data (bufs c2 b))) c2) = Ok c3" "busy d pid R [(a, ?to), (b, ?from)] c3"
    "disk c3 = (disk c2)(?to := b_data (bufs c2 b))" "dwrites c3 = dwrites c2 @ [(?to, b_data (bufs c2 b))]"
    "\<And>y. view c3 d y = (if y = ?to then b_data (bufs c2 b) else view c2 d y)" "\<And>j y. cached c3 d y j = cached c2 d y j"
    by (rule busy_write [OF 2(2) d(1), of a ?to "b_data (bufs c2 b)"]) auto
  define c4 where "c4 = (if rc then c3 else bunpin a c3)"
  have pa: "p = a" if "\<not> rc"
  proof (rule binv_unique [OF busyD(1) [OF 2(2)]])
    have "cached c2 d ?to p" "cached c2 d ?to a" using pin [OF that] 1(6) 2(6) busyD(3) [OF 2(2)] by auto
    then show "p < NBUF" "a < NBUF" "dev (bufs c2 p) = dev (bufs c2 a)" "blockno (bufs c2 p) = blockno (bufs c2 a)" "dev (bufs c2 p) \<noteq> 0"
      using d(1) by (auto simp: cached_def)
  qed
  have cl: "view c3 d ?to = disk c3 ?to" using 3(3,5) by simp
  have R1: "R a + 1 \<noteq> 0" using R busyD(3) [OF 2(2), of a ?to] by (simp add: refs_ok_def cached_def)
  have 4: "busy d pid ?R [(a, ?to), (b, ?from)] c4" "disk c4 = disk c3" "dwrites c4 = dwrites c3"
    "\<And>y. view c4 d y = view c3 d y" "\<And>j y. cached c4 d y j = cached c3 d y j"
    using busy_unpin [OF 3(2), of a ?to] cl R1 pa pin 3(2) by (auto simp: c4_def)
  obtain c5 where 5: "brelse pid b c4 = Ok c5" "busy d pid ?R (remove1 (b, ?from) [(a, ?to), (b, ?from)]) c5" "disk c5 = disk c4" "dwrites c5 = dwrites c4"
    "\<And>y. view c5 d y = view c4 d y" "\<And>j y. cached c5 d y j = cached c4 d y j"
    by (rule busy_rel [OF 4(1) d(1), of b ?from]) auto
  have "remove1 (b, ?from) [(a, ?to), (b, ?from)] = [(a, ?to)]" using busyD(2) [OF 4(1)] by auto
  then obtain c6 where 6: "brelse pid a c5 = Ok c6" "busy d pid ?R [] c6"
    "disk c6 = disk c5" "dwrites c6 = dwrites c5" "\<And>y. view c6 d y = view c5 d y" "\<And>j y. cached c6 d y j = cached c5 d y j"
    using busy_rel [of d pid ?R "[(a, ?to)]" c5 a ?to] 5(2) d(1) by auto
  let ?u = "s\<lparr>bc := c6\<rparr>"
  have "install_one pid rc t s = Ok ?u"
    using 1(1) 2(1) 3(1) 5(1) 6(1) d(2)
    by (cases rc) (simp_all add: install_one_def bread'_def bwrite'_def brelse'_def set_bdata_def bdata_def c4_def)
  moreover have "does d pid R ?R [(?to, view (bc s) d ?from)] s ?u"
    unfolding does_def using 6 5(3-6) 4(2-5) 3(3-6) 2(3-6) 1(3-6) data by (auto simp: fun_eq_iff)
  ultimately show thesis by (rule that)
qed

lemma write_head_does:
  assumes B: "busy d pid R [] (bc s)" and R: "refs_ok R" and d: "d \<noteq> 0" "l_dev (lg s) = d"
  obtains u where "write_head pid s = Ok u"
    "does d pid R R [(l_start (lg s), head_data (lh (lg s)) (view (bc s) d (l_start (lg s))))] s u"
proof -
  let ?z = "l_start (lg s)"
  obtain b c1 where 1: "bread pid d ?z (bc s) = Ok (b, c1)" "busy d pid R [(b, ?z)] c1" "disk c1 = disk (bc s)" "dwrites c1 = dwrites (bc s)"
    "\<And>y. view c1 d y = view (bc s) d y" "\<And>j y. R j \<noteq> 0 \<Longrightarrow> cached (bc s) d y j \<Longrightarrow> cached c1 d y j"
    by (rule busy_get [OF B R d(1), of ?z]) auto
  have data: "b_data (bufs c1 b) = view (bc s) d ?z" using busy_data [OF 1(2) d(1), of b ?z] 1(5) by simp
  let ?x = "head_data (lh (lg s)) (b_data (bufs c1 b))"
  obtain c2 where 2: "bwrite pid b (bupd b (b_data_update (\<lambda>_. ?x)) c1) = Ok c2" "busy d pid R [(b, ?z)] c2"
    "disk c2 = (disk c1)(?z := ?x)" "dwrites c2 = dwrites c1 @ [(?z, ?x)]"
    "\<And>y. view c2 d y = (if y = ?z then ?x else view c1 d y)" "\<And>j y. cached c2 d y j = cached c1 d y j"
    by (rule busy_write [OF 1(2) d(1), of b ?z ?x]) auto
  obtain c3 where 3: "brelse pid b c2 = Ok c3" "busy d pid R (remove1 (b, ?z) [(b, ?z)]) c3" "disk c3 = disk c2" "dwrites c3 = dwrites c2"
    "\<And>y. view c3 d y = view c2 d y" "\<And>j y. cached c3 d y j = cached c2 d y j"
    by (rule busy_rel [OF 2(2) d(1), of b ?z]) auto
  let ?u = "s\<lparr>bc := c3\<rparr>"
  have "write_head pid s = Ok ?u"
    using 1(1) 2(1) 3(1) d(2) by (simp add: write_head_def bread'_def bwrite'_def brelse'_def set_bdata_def bdata_def)
  moreover have "does d pid R R [(?z, head_data (lh (lg s)) (view (bc s) d ?z))] s ?u"
    unfolding does_def using 3 2(3-6) 1(3-6) data by (auto simp: fun_eq_iff)
  ultimately show thesis by (rule that)
qed

section \<open>Loops\<close>

text \<open>The log region of a transaction: the header block and one block per entry. The blocks of the transaction are elsewhere.\<close>

definition log_block :: "u32 \<Rightarrow> nat \<Rightarrow> u32" where
  "log_block start k = start + of_nat k + 1"

definition outside :: "u32 \<Rightarrow> u32 list \<Rightarrow> bool" where
  "outside start h \<longleftrightarrow> (\<forall>z \<in> set h. z \<noteq> start \<and> (\<forall>k<length h. z \<noteq> log_block start k))"

definition log_writes :: "u32 \<Rightarrow> u32 list \<Rightarrow> (u32 \<Rightarrow> block) \<Rightarrow> (u32 \<times> block) list" where
  "log_writes start h V = map (\<lambda>k. (log_block start k, V (h ! k))) [0..<length h]"

definition home_writes :: "u32 list \<Rightarrow> (nat \<Rightarrow> block) \<Rightarrow> (u32 \<times> block) list" where
  "home_writes h V = map (\<lambda>k. (h ! k, V k)) [0..<length h]"

lemma outside_nth: "outside start h \<Longrightarrow> i < length h \<Longrightarrow> k < length h \<Longrightarrow> h ! i \<noteq> log_block start k"
  unfolding outside_def by simp

lemma write_log_does:
  assumes B: "busy d pid R [] (bc s)" and R: "refs_ok R" and d: "d \<noteq> 0" "l_dev (lg s) = d" and o: "outside (l_start (lg s)) (lh (lg s))"
  obtains u where "write_log pid s = Ok u" "does d pid R R (log_writes (l_start (lg s)) (lh (lg s)) (view (bc s) d)) s u"
proof -
  let ?h = "lh (lg s)" and ?st = "l_start (lg s)" and ?V = "view (bc s) d"
  let ?ws = "\<lambda>i. map (\<lambda>k. (log_block ?st k, ?V (?h ! k))) [0..<i]"
  have "\<exists>u. rfold (write_one pid) [0..<length ?h] s = Ok u \<and> does d pid R R (?ws (length ?h)) s u"
  proof (rule rfold_upt_Ok)
    show "does d pid R R (?ws 0) s s" using does_refl [OF B] by simp
    fix i t assume i: "i < length ?h" and t: "does d pid R R (?ws i) s t"
    note T = doesD [OF t]
    have ne: "lh (lg t) ! i \<noteq> l_start (lg t) + of_nat i + 1" using outside_nth [OF o i i] by (simp add: T(2) log_block_def)
    have dt: "l_dev (lg t) = d" using d(2) T(2) by simp
    obtain u where u: "write_one pid i t = Ok u" "does d pid R R [(l_start (lg t) + of_nat i + 1, view (bc t) d (lh (lg t) ! i))] t u"
      by (rule write_one_does [OF T(1) R d(1) dt ne])
    have "?h ! i \<notin> fst ` set (?ws i)"
    proof
      assume "?h ! i \<in> fst ` set (?ws i)"
      then obtain k where "k < i" "?h ! i = log_block ?st k" by auto
      then show False using outside_nth [OF o i, of k] i by simp
    qed
    then have "view (bc t) d (?h ! i) = ?V (?h ! i)" unfolding T(5) by (rule apply_writes_other)
    then have "does d pid R R (?ws i @ [(log_block ?st i, ?V (?h ! i))]) s u"
      using does_trans [OF t u(2)] by (simp add: T(2) log_block_def)
    then show "\<exists>u. write_one pid i t = Ok u \<and> does d pid R R (?ws (Suc i)) s u" using u(1) by simp
  qed
  then show thesis using that by (auto simp: write_log_def log_writes_def)
qed

lemma refs_ok_unpin: "refs_ok R \<Longrightarrow> R p \<noteq> 0 \<Longrightarrow> refs_ok (R(p := R p - 1))"
  unfolding refs_ok_def by (metis (no_types, lifting) diff_add_cancel fun_upd_apply)

lemma install_does:
  assumes B: "busy d pid R [] (bc s)" and R: "refs_ok R" and d: "d \<noteq> 0" "l_dev (lg s) = d"
    and o: "outside (l_start (lg s)) (lh (lg s))" and di: "distinct (lh (lg s))"
    and pin: "\<not> rc \<Longrightarrow> \<forall>z \<in> set (lh (lg s)). \<exists>p. cached (bc s) d z p \<and> R p \<noteq> 0"
  obtains u R' where "install_trans pid rc s = Ok u" "busy d pid R' [] (bc u)" "refs_ok R'" "lg u = lg s"
    "disk (bc u) = apply_writes (home_writes (lh (lg s)) (\<lambda>k. view (bc s) d (log_block (l_start (lg s)) k))) (disk (bc s))"
    "dwrites (bc u) = dwrites (bc s) @ home_writes (lh (lg s)) (\<lambda>k. view (bc s) d (log_block (l_start (lg s)) k))"
    "view (bc u) d = apply_writes (home_writes (lh (lg s)) (\<lambda>k. view (bc s) d (log_block (l_start (lg s)) k))) (view (bc s) d)"
proof -
  let ?h = "lh (lg s)" and ?st = "l_start (lg s)" and ?n = "length (lh (lg s))"
  let ?V = "\<lambda>k. view (bc s) d (log_block ?st k)"
  let ?ws = "\<lambda>i. map (\<lambda>k. (?h ! k, ?V k)) [0..<i]"
  let ?P = "\<lambda>i u. \<exists>R'. busy d pid R' [] (bc u) \<and> refs_ok R' \<and> lg u = lg s \<and> disk (bc u) = apply_writes (?ws i) (disk (bc s)) \<and>
    dwrites (bc u) = dwrites (bc s) @ ?ws i \<and> view (bc u) d = apply_writes (?ws i) (view (bc s) d) \<and>
    (\<not> rc \<longrightarrow> (\<forall>k. i \<le> k \<and> k < ?n \<longrightarrow> (\<exists>p. cached (bc u) d (?h ! k) p \<and> R' p \<noteq> 0)))"
  have "\<exists>u. rfold (install_one pid rc) [0..<?n] s = Ok u \<and> ?P ?n u"
  proof (rule rfold_upt_Ok [where P = ?P])
    show "?P 0 s" using B R pin by (intro exI [of _ R]) auto
    fix i t assume i: "i < ?n" and "?P i t"
    then obtain Q where Q: "busy d pid Q [] (bc t)" "refs_ok Q" "lg t = lg s" "disk (bc t) = apply_writes (?ws i) (disk (bc s))"
      "dwrites (bc t) = dwrites (bc s) @ ?ws i" "view (bc t) d = apply_writes (?ws i) (view (bc s) d)"
      and pins: "\<And>k. \<not> rc \<Longrightarrow> i \<le> k \<Longrightarrow> k < ?n \<Longrightarrow> \<exists>p. cached (bc t) d (?h ! k) p \<and> Q p \<noteq> 0" by blast
    obtain p where p: "\<not> rc \<Longrightarrow> cached (bc t) d (?h ! i) p \<and> Q p \<noteq> 0" using pins [of i] i by auto
    have ne: "lh (lg t) ! i \<noteq> l_start (lg t) + of_nat i + 1" using outside_nth [OF o i i] by (simp add: Q(3) log_block_def)
    have dt: "l_dev (lg t) = d" using d(2) Q(3) by simp
    have pt: "\<not> rc \<Longrightarrow> cached (bc t) d (lh (lg t) ! i) p \<and> Q p \<noteq> 0" using p Q(3) by simp
    let ?Q = "if rc then Q else Q(p := Q p - 1)"
    obtain u where u: "install_one pid rc i t = Ok u" "does d pid Q ?Q [(lh (lg t) ! i, view (bc t) d (l_start (lg t) + of_nat i + 1))] t u"
      by (rule install_one_does [OF Q(1,2) d(1) dt ne pt])
    note U = doesD [OF u(2)]
    have src: "view (bc t) d (l_start (lg t) + of_nat i + 1) = ?V i"
    proof -
      have "log_block ?st i \<notin> fst ` set (?ws i)"
      proof
        assume "log_block ?st i \<in> fst ` set (?ws i)"
        then obtain k where "k < i" "?h ! k = log_block ?st i" by auto
        then show False using outside_nth [OF o, of k i] i by simp
      qed
      then show ?thesis unfolding Q(6) Q(3) log_block_def [symmetric] by (rule apply_writes_other)
    qed
    have "\<exists>q. cached (bc u) d (?h ! k) q \<and> ?Q q \<noteq> 0" if k: "\<not> rc" "Suc i \<le> k" "k < ?n" for k
    proof -
      obtain q where q: "cached (bc t) d (?h ! k) q" "Q q \<noteq> 0" using pins [of k] k by auto
      have "?h ! k \<noteq> ?h ! i" using di k i by (simp add: nth_eq_iff_index_eq)
      then have "q \<noteq> p" using q(1) p [OF k(1)] by (auto simp: cached_def)
      then show ?thesis using U(6) q k(1) by (intro exI [of _ q]) simp
    qed
    moreover have "refs_ok ?Q" using refs_ok_unpin [OF Q(2), of p] Q(2) p by auto
    ultimately have "?P (Suc i) u" using U(1-5) Q(3-6) src by (intro exI [of _ ?Q]) simp
    then show "\<exists>u. install_one pid rc i t = Ok u \<and> ?P (Suc i) u" using u(1) by blast
  qed
  then show thesis using that unfolding install_trans_def home_writes_def by blast
qed

section \<open>Commit and recovery\<close>

text \<open>All writes of a commit, for the contents \<open>V\<close> of the blocks before it.\<close>

definition commit_trace :: "u32 \<Rightarrow> u32 list \<Rightarrow> (u32 \<Rightarrow> block) \<Rightarrow> (u32 \<times> block) list" where
  "commit_trace start h V = log_writes start h V @ [(start, head_data h (V start))] @ home_writes h (\<lambda>k. V (h ! k)) @
     [(start, head_data [] (head_data h (V start)))]"

text \<open>The blocks of the region are different.\<close>

lemma log_block_inj:
  assumes "i < 2 ^ 31" "k < 2 ^ 31"
  shows "log_block start i = log_block start k \<longleftrightarrow> i = k" "log_block start i \<noteq> start"
proof -
  have u: "unat (of_nat j :: u32) = j" "unat (of_nat j + 1 :: u32) = j + 1" if "j < 2 ^ 31" for j
    using that by (simp_all add: unat_of_nat_small unat_add_of_nat unat_word_ariths)
  show "log_block start i = log_block start k \<longleftrightarrow> i = k"
    unfolding log_block_def using u(1) [OF assms(1)] u(1) [OF assms(2)] by (metis add_left_cancel add_right_cancel)
  show "log_block start i \<noteq> start"
  proof
    assume "log_block start i = start"
    then have "of_nat i + 1 = (0 :: u32)" by (simp add: log_block_def add.assoc)
    then show False using u(2) [OF assms(1)] by simp
  qed
qed

lemma log_writes_at:
  assumes "k < length h" "length h \<le> LOGSIZE"
  shows "apply_writes (log_writes start h V) D (log_block start k) = V (h ! k)" "apply_writes (log_writes start h V) D start = D start"
proof -
  have l: "length h < 2 ^ 31" using assms(2) by simp
  have "apply_writes (map (\<lambda>k. (log_block start k, V (h ! k))) [0..<n]) D (log_block start k) = V (h ! k)" if "k < n" "n \<le> length h" for n
    using that
  proof (induction n)
    case (Suc n)
    have "log_block start k = log_block start n \<longleftrightarrow> k = n" by (rule log_block_inj) (use Suc.prems l in linarith)+
    then show ?case using Suc by (cases "k = n") auto
  qed simp
  then show "apply_writes (log_writes start h V) D (log_block start k) = V (h ! k)" using assms(1) by (simp add: log_writes_def)
  have "start \<notin> fst ` set (log_writes start h V)"
  proof
    assume "start \<in> fst ` set (log_writes start h V)"
    then obtain j where "j < length h" "start = log_block start j" by (auto simp: log_writes_def)
    then show False using log_block_inj(2) [of j j start] l by simp
  qed
  then show "apply_writes (log_writes start h V) D start = D start" by (rule apply_writes_other)
qed

lemma home_writes_start: "outside start h \<Longrightarrow> apply_writes (home_writes h W) D start = D start"
  by (rule apply_writes_other) (auto simp: home_writes_def outside_def)

lemma home_writes_at: "apply_writes (home_writes h (\<lambda>k. V (h ! k))) D z = (if z \<in> set h then V z else D z)"
proof -
  have "apply_writes (map (\<lambda>k. (h ! k, V (h ! k))) [0..<n]) D z = (if z \<in> set (take n h) then V z else D z)" if "n \<le> length h" for n
    using that
  proof (induction n)
    case (Suc n)
    then show ?case by (simp add: take_Suc_conv_app_nth)
  qed simp
  from this [of "length h"] show ?thesis by (simp add: home_writes_def)
qed

lemma commit_does:
  assumes B: "busy d pid R [] (bc s)" and R: "refs_ok R" and d: "d \<noteq> 0" "l_dev (lg s) = d"
    and o: "outside (l_start (lg s)) (lh (lg s))" and di: "distinct (lh (lg s))" and l: "lh (lg s) \<noteq> []" "length (lh (lg s)) \<le> LOGSIZE"
    and pin: "\<forall>z \<in> set (lh (lg s)). \<exists>p. cached (bc s) d z p \<and> R p \<noteq> 0"
  obtains u where "commit pid s = Ok u"
    "dwrites (bc u) = dwrites (bc s) @ commit_trace (l_start (lg s)) (lh (lg s)) (view (bc s) d)"
    "disk (bc u) = apply_writes (commit_trace (l_start (lg s)) (lh (lg s)) (view (bc s) d)) (disk (bc s))" "lh (lg u) = []"
proof -
  let ?h = "lh (lg s)" and ?st = "l_start (lg s)" and ?V = "view (bc s) d"
  obtain s1 where 1: "write_log pid s = Ok s1" "does d pid R R (log_writes ?st ?h ?V) s s1" by (rule write_log_does [OF B R d o])
  note D1 = doesD [OF 1(2)]
  obtain s2 where 2: "write_head pid s1 = Ok s2"
    "does d pid R R [(l_start (lg s1), head_data (lh (lg s1)) (view (bc s1) d (l_start (lg s1))))] s1 s2"
    by (rule write_head_does [OF D1(1) R d(1)]) (use d(2) D1(2) in simp)
  note D2 = doesD [OF 2(2)]
  have lg2: "lg s2 = lg s" using D1(2) D2(2) by simp
  have hd: "view (bc s1) d ?st = ?V ?st" using log_writes_at(2) [of 0 ?h ?st ?V ?V] l unfolding D1(5) by (cases ?h) auto
  have v2: "view (bc s2) d (log_block ?st k) = ?V (?h ! k)" if "k < length ?h" for k
    unfolding D2(5) D1(2) using log_writes_at(1) [OF that l(2), of ?st ?V ?V] log_block_inj(2) [of k k ?st] that l(2) D1(5) by simp
  have v2s: "view (bc s2) d ?st = head_data ?h (?V ?st)" unfolding D2(5) D1(2) using hd by simp
  obtain s3 R' where 3: "install_trans pid False s2 = Ok s3" "busy d pid R' [] (bc s3)" "refs_ok R'" "lg s3 = lg s2"
    "disk (bc s3) = apply_writes (home_writes (lh (lg s2)) (\<lambda>k. view (bc s2) d (log_block (l_start (lg s2)) k))) (disk (bc s2))"
    "dwrites (bc s3) = dwrites (bc s2) @ home_writes (lh (lg s2)) (\<lambda>k. view (bc s2) d (log_block (l_start (lg s2)) k))"
    "view (bc s3) d = apply_writes (home_writes (lh (lg s2)) (\<lambda>k. view (bc s2) d (log_block (l_start (lg s2)) k))) (view (bc s2) d)"
  proof (rule install_does [OF D2(1) R d(1), of False])
    show "\<forall>z \<in> set (lh (lg s2)). \<exists>p. cached (bc s2) d z p \<and> R p \<noteq> 0"
      unfolding lg2 using pin D1(6) D2(6) by blast
  qed (use d(2) o di lg2 in auto)
  have hw: "home_writes (lh (lg s2)) (\<lambda>k. view (bc s2) d (log_block (l_start (lg s2)) k)) = home_writes ?h (\<lambda>k. ?V (?h ! k))"
    unfolding lg2 home_writes_def by (rule map_cong) (use v2 in auto)
  let ?s3 = "s3\<lparr>lg := (lg s3)\<lparr>lh := []\<rparr>\<rparr>"
  have v3: "view (bc s3) d ?st = head_data ?h (?V ?st)" unfolding 3(7) hw home_writes_start [OF o] by (rule v2s)
  obtain u where u: "write_head pid ?s3 = Ok u"
    "does d pid R' R' [(l_start (lg ?s3), head_data (lh (lg ?s3)) (view (bc ?s3) d (l_start (lg ?s3))))] ?s3 u"
    by (rule write_head_does [of d pid R' ?s3]) (use 3 d lg2 in auto)
  note DU = doesD [OF u(2)]
  have "commit pid s = Ok u" using 1(1) 2(1) 3(1) u(1) l(1) by (simp add: commit_def)
  moreover have "dwrites (bc u) = dwrites (bc s) @ commit_trace ?st ?h ?V"
    using DU(4) 3(6) D2(4) D1(4) hd v3 hw by (simp add: commit_trace_def lg2 3(4) D1(2))
  moreover have "disk (bc u) = apply_writes (commit_trace ?st ?h ?V) (disk (bc s))"
    using DU(3) 3(5) D2(3) D1(3) hd v3 hw by (simp add: commit_trace_def lg2 3(4) D1(2))
  moreover have "lh (lg u) = []" using DU(2) by simp
  ultimately show thesis by (rule that)
qed

lemma read_head_does:
  assumes B: "busy d pid R [] (bc s)" and R: "refs_ok R" and d: "d \<noteq> 0" "l_dev (lg s) = d"
    and n: "n = nat (sint (get32 (view (bc s) d (l_start (lg s))) 0))" "n \<le> LOGSIZE"
  obtains u where "read_head pid s = Ok u" "busy d pid R [] (bc u)" "disk (bc u) = disk (bc s)" "view (bc u) d = view (bc s) d"
    "lg u = (lg s)\<lparr>lh := map (\<lambda>i. get32 (view (bc s) d (l_start (lg s))) (4 + 4 * i)) [0..<n]\<rparr>"
proof -
  let ?z = "l_start (lg s)"
  obtain b c1 where 1: "bread pid d ?z (bc s) = Ok (b, c1)" "busy d pid R [(b, ?z)] c1" "disk c1 = disk (bc s)" "dwrites c1 = dwrites (bc s)"
    "\<And>y. view c1 d y = view (bc s) d y" "\<And>j y. R j \<noteq> 0 \<Longrightarrow> cached (bc s) d y j \<Longrightarrow> cached c1 d y j"
    by (rule busy_get [OF B R d(1), of ?z]) auto
  have data: "b_data (bufs c1 b) = view (bc s) d ?z" using busy_data [OF 1(2) d(1), of b ?z] 1(5) by simp
  obtain c3 where 3: "brelse pid b c1 = Ok c3" "busy d pid R (remove1 (b, ?z) [(b, ?z)]) c3" "disk c3 = disk c1" "dwrites c3 = dwrites c1"
    "\<And>y. view c3 d y = view c1 d y" "\<And>j y. cached c3 d y j = cached c1 d y j"
    by (rule busy_rel [OF 1(2) d(1), of b ?z]) auto
  let ?u = "s\<lparr>bc := c3, lg := (lg s)\<lparr>lh := map (\<lambda>i. get32 (view (bc s) d ?z) (4 + 4 * i)) [0..<n]\<rparr>\<rparr>"
  have "read_head pid s = Ok ?u"
    using 1(1) 3(1) d(2) n data by (simp add: read_head_def bread'_def brelse'_def bdata_def Let_def)
  then show thesis by (rule that) (use 3 1(3,5) in auto)
qed

lemma recover_does:
  assumes B: "busy d pid R [] (bc s)" and R: "refs_ok R" and d: "d \<noteq> 0" "l_dev (lg s) = d"
    and n: "length h = nat (sint (get32 (view (bc s) d (l_start (lg s))) 0))" "length h \<le> LOGSIZE"
    and h: "h = map (\<lambda>i. get32 (view (bc s) d (l_start (lg s))) (4 + 4 * i)) [0..<length h]"
    and o: "outside (l_start (lg s)) h" and di: "distinct h"
  obtains u where "recover_from_log pid s = Ok u" "lh (lg u) = []"
    "disk (bc u) = apply_writes (home_writes h (\<lambda>k. view (bc s) d (log_block (l_start (lg s)) k)) @
        [(l_start (lg s), head_data [] (view (bc s) d (l_start (lg s))))]) (disk (bc s))"
proof -
  let ?st = "l_start (lg s)" and ?V = "view (bc s) d"
  obtain s1 where 1: "read_head pid s = Ok s1" "busy d pid R [] (bc s1)" "disk (bc s1) = disk (bc s)" "view (bc s1) d = ?V" and
    "lg s1 = (lg s)\<lparr>lh := map (\<lambda>i. get32 (?V ?st) (4 + 4 * i)) [0..<length h]\<rparr>"
    by (rule read_head_does [OF B R d n])
  then have lg1: "lg s1 = (lg s)\<lparr>lh := h\<rparr>" using h by simp
  obtain s3 R' where 3: "install_trans pid True s1 = Ok s3" "busy d pid R' [] (bc s3)" "refs_ok R'" "lg s3 = lg s1"
    "disk (bc s3) = apply_writes (home_writes (lh (lg s1)) (\<lambda>k. view (bc s1) d (log_block (l_start (lg s1)) k))) (disk (bc s1))"
    "dwrites (bc s3) = dwrites (bc s1) @ home_writes (lh (lg s1)) (\<lambda>k. view (bc s1) d (log_block (l_start (lg s1)) k))"
    "view (bc s3) d = apply_writes (home_writes (lh (lg s1)) (\<lambda>k. view (bc s1) d (log_block (l_start (lg s1)) k))) (view (bc s1) d)"
    by (rule install_does [OF 1(2) R d(1), of True]) (use d(2) o di lg1 in auto)
  let ?s3 = "s3\<lparr>lg := (lg s3)\<lparr>lh := []\<rparr>\<rparr>"
  obtain u where u: "write_head pid ?s3 = Ok u"
    "does d pid R' R' [(l_start (lg ?s3), head_data (lh (lg ?s3)) (view (bc ?s3) d (l_start (lg ?s3))))] ?s3 u"
    by (rule write_head_does [of d pid R' ?s3]) (use 3 d lg1 in auto)
  note DU = doesD [OF u(2)]
  have v3: "view (bc s3) d ?st = ?V ?st" unfolding 3(7) lg1 1(4) using home_writes_start [OF o] by simp
  have "recover_from_log pid s = Ok u" using 1(1) 3(1) u(1) by (simp add: recover_from_log_def)
  moreover have "lh (lg u) = []" using DU(2) by simp
  moreover have "disk (bc u) = apply_writes (home_writes h (\<lambda>k. ?V (log_block ?st k)) @ [(?st, head_data [] (?V ?st))]) (disk (bc s))"
    using DU(3) 3(4,5) v3 1(3,4) lg1 by simp
  ultimately show thesis by (rule that)
qed

text \<open>After a crash: an empty cache and the disk as it was left.\<close>

definition rebooted :: "log \<Rightarrow> (u32 \<Rightarrow> block) \<Rightarrow> fsys" where
  "rebooted g D = \<lparr>bc = boot_cache\<lparr>disk := D\<rparr>, lg = g\<rparr>"

lemma boot_busy:
  assumes "d \<noteq> 0"
  shows "busy d pid (\<lambda>_. 0) [] (boot_cache\<lparr>disk := D\<rparr>)" "view (boot_cache\<lparr>disk := D\<rparr>) d = D" "refs_ok (\<lambda>_. 0)"
proof -
  let ?c = "boot_cache\<lparr>disk := D\<rparr>"
  have "lru ?c (rev bnodes)" using boot_lru by (simp add: lru_def nx_def pv_def)
  then have inv: "binv ?c" unfolding binv_def using boot_core by (intro conjI exI [of _ "rev bnodes"]) auto
  then show "busy d pid (\<lambda>_. 0) [] ?c" by (rule busyI) (use boot_core in auto)
  have "\<not> cached ?c d z b" for z b using boot_core [of b] assms by (auto simp: cached_def)
  then show "view ?c d = D" using view_uncached [of ?c d] by (simp add: fun_eq_iff)
  have "(0 :: nat) < NBUF" "(1 :: nat) < NBUF" by (simp_all add: NBUF_def)
  then show "refs_ok (\<lambda>_. 0)" unfolding refs_ok_def by (intro conjI exI [of _ 0] exI [of _ 1]) auto
qed

lemma initlog_does:
  assumes d: "d \<noteq> 0" and n: "length h = nat (sint (get32 (D (sb_logstart sb)) 0))" "length h \<le> LOGSIZE"
    and h: "h = map (\<lambda>i. get32 (D (sb_logstart sb)) (4 + 4 * i)) [0..<length h]"
    and o: "outside (sb_logstart sb) h" and di: "distinct h"
  obtains u where "initlog pid d sb (rebooted g D) = Ok u" "lh (lg u) = []"
    "disk (bc u) = apply_writes (home_writes h (\<lambda>k. D (log_block (sb_logstart sb) k)) @ [(sb_logstart sb, head_data [] (D (sb_logstart sb)))]) D"
proof -
  let ?s = "(rebooted g D)\<lparr>lg := (lg (rebooted g D))\<lparr>l_start := sb_logstart sb, l_size := sb_nlog sb, l_dev := d\<rparr>\<rparr>"
  have e: "initlog pid d sb (rebooted g D) = recover_from_log pid ?s" by (simp add: initlog_def)
  have b: "bc ?s = boot_cache\<lparr>disk := D\<rparr>" by (simp add: rebooted_def)
  note bb = boot_busy(1) [OF d, of pid D] boot_busy(2) [OF d, of D] boot_busy(3) [OF d]
  show thesis
    by (rule recover_does [of d pid "\<lambda>_. 0" ?s h]) (use bb d n h o di e that in \<open>auto simp: b\<close>)
qed

section \<open>Crash safety\<close>

definition in_log :: "u32 \<Rightarrow> nat \<Rightarrow> u32 \<Rightarrow> bool" where
  "in_log start n z \<longleftrightarrow> z = start \<or> (\<exists>k<n. z = log_block start k)"

lemma log_writes_out: "\<not> in_log start (length h) z \<Longrightarrow> apply_writes (take k (log_writes start h V)) D z = D z"
  by (rule apply_writes_other) (fastforce simp: in_log_def log_writes_def dest!: in_set_takeD)

lemma empty_header: "length x = BSIZE \<Longrightarrow> get32 (head_data [] x) 0 = 0"
  by (simp add: head_data_def get_put32_same)

lemma head_data_length: "length h \<le> LOGSIZE \<Longrightarrow> length x = BSIZE \<Longrightarrow> length (head_data h x) = BSIZE"
  using header_round_trip [of h x] by (simp add: Let_def)

text \<open>Recovery from each of the three kinds of disk that a crash leaves.\<close>

lemma recover_clean:
  assumes d: "d \<noteq> 0" and c: "get32 (D (sb_logstart sb)) 0 = 0"
  shows "\<exists>t. initlog pid d sb (rebooted g D) = Ok t \<and> lh (lg t) = [] \<and> (\<forall>z. z \<noteq> sb_logstart sb \<longrightarrow> disk (bc t) z = D z)"
proof -
  obtain t where "initlog pid d sb (rebooted g D) = Ok t" "lh (lg t) = []"
    "disk (bc t) = apply_writes (home_writes [] (\<lambda>k. D (log_block (sb_logstart sb) k)) @ [(sb_logstart sb, head_data [] (D (sb_logstart sb)))]) D"
    by (rule initlog_does [OF d, of "[]" D sb pid g]) (simp_all add: c outside_def)
  then show ?thesis by (intro exI [of _ t]) (simp add: home_writes_def)
qed

lemma recover_committed:
  assumes d: "d \<noteq> 0" and h: "length h \<le> LOGSIZE" "distinct h" "outside (sb_logstart sb) h" and x: "length x = BSIZE"
    and D: "D (sb_logstart sb) = head_data h x" "\<And>k. k < length h \<Longrightarrow> D (log_block (sb_logstart sb) k) = V (h ! k)"
  shows "\<exists>t. initlog pid d sb (rebooted g D) = Ok t \<and> lh (lg t) = [] \<and>
    (\<forall>z. z \<noteq> sb_logstart sb \<longrightarrow> disk (bc t) z = (if z \<in> set h then V z else D z))"
proof -
  have rt: "nat (sint (get32 (head_data h x) 0)) = length h" "map (\<lambda>i. get32 (head_data h x) (4 + 4 * i)) [0..<length h] = h"
    using header_round_trip [OF h(1) x] by (auto simp: Let_def)
  obtain t where t: "initlog pid d sb (rebooted g D) = Ok t" "lh (lg t) = []"
    "disk (bc t) = apply_writes (home_writes h (\<lambda>k. D (log_block (sb_logstart sb) k)) @ [(sb_logstart sb, head_data [] (D (sb_logstart sb)))]) D"
    by (rule initlog_does [OF d, of h D sb pid g]) (use rt h D(1) in simp_all)
  have "home_writes h (\<lambda>k. D (log_block (sb_logstart sb) k)) = home_writes h (\<lambda>k. V (h ! k))"
    unfolding home_writes_def by (rule map_cong) (use D(2) in auto)
  then show ?thesis using t by (intro exI [of _ t]) (simp add: home_writes_at)
qed

text \<open>The disk after the first \<open>k\<close> writes of a commit.\<close>

lemma trace_cases:
  assumes "length h = n"
  obtains (logging) "take k (commit_trace start h V) = take k (log_writes start h V)"
  | (installing) m where "take k (commit_trace start h V) = log_writes start h V @ (start, head_data h (V start)) # take m (home_writes h (\<lambda>k. V (h ! k)))"
      "k < length (commit_trace start h V)"
  | (all) "take k (commit_trace start h V) = commit_trace start h V"
proof -
  have len: "length (log_writes start h V) = n" "length (home_writes h (\<lambda>k. V (h ! k))) = n" using assms by (simp_all add: log_writes_def home_writes_def)
  consider "k \<le> n" | "n < k" "k < 2 * n + 2" | "2 * n + 2 \<le> k" by linarith
  then show thesis
  proof cases
    case 1
    then show thesis by (intro logging) (simp add: commit_trace_def len)
  next
    case 2
    define m where "m = k - n - 1"
    have m: "k = Suc (n + m)" "m \<le> n" using 2 by (simp_all add: m_def)
    show thesis by (rule installing [of m]) (use m len 2 in \<open>simp_all add: commit_trace_def\<close>)
  next
    case 3
    then show thesis by (intro all) (simp add: commit_trace_def len)
  qed
qed

text \<open>The machine stops while the log is written: nothing has happened.\<close>

lemma crash_logging:
  assumes "d \<noteq> 0" and h: "h \<noteq> []" "length h \<le> LOGSIZE" and "get32 (E st) 0 = 0" and st: "sb_logstart sb = st"
  shows "\<exists>t. initlog pid d sb (rebooted g (apply_writes (take k (log_writes st h V)) E)) = Ok t \<and> lh (lg t) = [] \<and>
    (\<forall>z. \<not> in_log st (length h) z \<longrightarrow> disk (bc t) z = E z)"
proof -
  let ?D = "apply_writes (take k (log_writes st h V)) E"
  have "st \<notin> fst ` set (take k (log_writes st h V))"
  proof
    assume "st \<in> fst ` set (take k (log_writes st h V))"
    then obtain j where "j < length h" "st = log_block st j" by (auto simp: log_writes_def dest!: in_set_takeD)
    then show False using log_block_inj(2) [of j j st] h(2) by simp
  qed
  then have "?D st = E st" by (rule apply_writes_other)
  then have "get32 (?D (sb_logstart sb)) 0 = 0" using assms(4) st by simp
  from recover_clean [where D = ?D and sb = sb and pid = pid and g = g, OF assms(1) this]
  obtain t where t: "initlog pid d sb (rebooted g ?D) = Ok t" "lh (lg t) = []" "\<forall>z. z \<noteq> st \<longrightarrow> disk (bc t) z = ?D z"
    using st by auto
  have "disk (bc t) z = E z" if "\<not> in_log st (length h) z" for z
    using t(3) log_writes_out [OF that, of k V E] that by (auto simp: in_log_def)
  then show ?thesis using t(1,2) by blast
qed

text \<open>The machine stops while the blocks are installed: recovery installs them all.\<close>

lemma crash_installing:
  assumes "d \<noteq> 0" and h: "h \<noteq> []" "length h \<le> LOGSIZE" "distinct h" "outside st h" and V: "length (V st) = BSIZE" and st: "sb_logstart sb = st"
  shows "\<exists>t. initlog pid d sb (rebooted g (apply_writes (log_writes st h V @ (st, head_data h (V st)) # take m (home_writes h (\<lambda>k. V (h ! k)))) E)) = Ok t \<and>
    lh (lg t) = [] \<and> (\<forall>z. \<not> in_log st (length h) z \<longrightarrow> disk (bc t) z = (if z \<in> set h then V z else E z))"
proof -
  let ?F = "(apply_writes (log_writes st h V) E)(st := head_data h (V st))"
  let ?D = "apply_writes (log_writes st h V @ (st, head_data h (V st)) # take m (home_writes h (\<lambda>k. V (h ! k)))) E"
  have D: "?D = apply_writes (take m (home_writes h (\<lambda>k. V (h ! k)))) ?F" by simp
  have hs: "z \<notin> set h \<Longrightarrow> z \<notin> fst ` set (take m (home_writes h (\<lambda>k. V (h ! k))))" for z
    by (auto simp: home_writes_def dest!: in_set_takeD)
  have o: "st \<notin> set h" "\<And>k. k < length h \<Longrightarrow> log_block st k \<notin> set h" using h(4) by (auto simp: outside_def)
  have 1: "?D (sb_logstart sb) = head_data h (V st)" unfolding D st using apply_writes_other [OF hs [OF o(1)]] by simp
  have 2: "?D (log_block (sb_logstart sb) k) = V (h ! k)" if "k < length h" for k
    unfolding D st using apply_writes_other [OF hs [OF o(2) [OF that]]] log_writes_at(1) [OF that h(2)] log_block_inj(2) [of k k st] that h(2) by simp
  obtain t where t: "initlog pid d sb (rebooted g ?D) = Ok t" "lh (lg t) = []" "\<forall>z. z \<noteq> st \<longrightarrow> disk (bc t) z = (if z \<in> set h then V z else ?D z)"
    using recover_committed [where D = ?D and sb = sb and pid = pid and g = g and V = V, OF assms(1) h(2,3) _ V 1 2] h(4) st by auto
  have "?D z = E z" if "\<not> in_log st (length h) z" "z \<notin> set h" for z
    unfolding D using apply_writes_other [OF hs [OF that(2)]] log_writes_out [OF that(1), of "length h" V E] that(1)
    by (simp add: in_log_def log_writes_def)
  then show ?thesis using t by (intro exI [of _ t]) (auto simp: in_log_def)
qed

text \<open>The machine stops after the commit: there is nothing to recover.\<close>

lemma crash_after:
  assumes "d \<noteq> 0" and h: "length h \<le> LOGSIZE" and V: "length (V st) = BSIZE" and st: "sb_logstart sb = st"
  shows "\<exists>t. initlog pid d sb (rebooted g (apply_writes (commit_trace st h V) E)) = Ok t \<and> lh (lg t) = [] \<and>
    (\<forall>z. \<not> in_log st (length h) z \<longrightarrow> disk (bc t) z = (if z \<in> set h then V z else E z))"
proof -
  let ?D = "apply_writes (commit_trace st h V) E"
  have "?D st = head_data [] (head_data h (V st))" by (simp add: commit_trace_def)
  then have "get32 (?D (sb_logstart sb)) 0 = 0" using empty_header [OF head_data_length [OF h V]] st by simp
  from recover_clean [where D = ?D and sb = sb and pid = pid and g = g, OF assms(1) this]
  obtain t where t: "initlog pid d sb (rebooted g ?D) = Ok t" "lh (lg t) = []" "\<forall>z. z \<noteq> st \<longrightarrow> disk (bc t) z = ?D z"
    using st by auto
  have "?D z = (if z \<in> set h then V z else E z)" if "\<not> in_log st (length h) z" for z
    using log_writes_out [OF that, of "length h" V E] that by (simp add: commit_trace_def home_writes_at in_log_def log_writes_def)
  then show ?thesis using t by (intro exI [of _ t]) (auto simp: in_log_def)
qed

text \<open>C1: Transactions are atomic across crashes. \<open>commit\<close> of a transaction succeeds. Whatever number of its disk writes have reached the disk when the machine
  stops, rebooting with \<open>initlog\<close> succeeds and leaves an empty log and, outside the log region, either every block as it was before the transaction, or
  every block of the transaction with its new contents and all others unchanged; the latter if all writes were made.\<close>

theorem crash_atomic:
  assumes "busy d pid R [] (bc s)" and "refs_ok R" and "d \<noteq> 0" and "l_dev (lg s) = d" and "lh (lg s) \<noteq> []" and "length (lh (lg s)) \<le> LOGSIZE"
    and "distinct (lh (lg s))" and "outside (l_start (lg s)) (lh (lg s))" and "\<forall>z \<in> set (lh (lg s)). \<exists>p. cached (bc s) d z p \<and> R p \<noteq> 0"
    and "get32 (disk (bc s) (l_start (lg s))) 0 = 0" and "length (view (bc s) d (l_start (lg s))) = BSIZE" and "sb_logstart sb = l_start (lg s)"
  shows "\<exists>u ws. commit pid s = Ok u \<and> dwrites (bc u) = dwrites (bc s) @ ws \<and>
    (\<forall>k. \<exists>t. initlog pid' d sb (rebooted g (apply_writes (take k ws) (disk (bc s)))) = Ok t \<and> lh (lg t) = [] \<and>
      (let old = (\<forall>z. \<not> in_log (l_start (lg s)) (length (lh (lg s))) z \<longrightarrow> disk (bc t) z = disk (bc s) z);
           new = (\<forall>z. \<not> in_log (l_start (lg s)) (length (lh (lg s))) z \<longrightarrow>
             disk (bc t) z = (if z \<in> set (lh (lg s)) then view (bc s) d z else disk (bc s) z))
       in (old \<or> new) \<and> (length ws \<le> k \<longrightarrow> new)))"
proof -
  let ?h = "lh (lg s)" and ?st = "l_start (lg s)" and ?V = "view (bc s) d" and ?E = "disk (bc s)"
  let ?ws = "commit_trace ?st ?h ?V"
  obtain u where u: "commit pid s = Ok u" "dwrites (bc u) = dwrites (bc s) @ ?ws"
    by (rule commit_does [OF assms(1-4,8,7,5,6,9)])
  have "\<exists>t. initlog pid' d sb (rebooted g (apply_writes (take k ?ws) ?E)) = Ok t \<and> lh (lg t) = [] \<and>
      (let old = (\<forall>z. \<not> in_log ?st (length ?h) z \<longrightarrow> disk (bc t) z = ?E z);
           new = (\<forall>z. \<not> in_log ?st (length ?h) z \<longrightarrow> disk (bc t) z = (if z \<in> set ?h then ?V z else ?E z))
       in (old \<or> new) \<and> (length ?ws \<le> k \<longrightarrow> new))" for k
  proof (rule trace_cases [OF refl, of k ?st ?h ?V])
    assume t: "take k ?ws = take k (log_writes ?st ?h ?V)"
    have "\<not> length ?ws \<le> k"
    proof
      assume "length ?ws \<le> k"
      then have "length (take k ?ws) = length ?ws" by simp
      then show False unfolding t using assms(5) by (simp add: commit_trace_def log_writes_def)
    qed
    then show ?thesis unfolding t Let_def using crash_logging [where E = ?E and st = ?st and pid = pid' and g = g and k = k and V = ?V, OF assms(3,5,6,10,12)] by blast
  next
    fix m assume t: "take k ?ws = log_writes ?st ?h ?V @ (?st, head_data ?h (?V ?st)) # take m (home_writes ?h (\<lambda>k. ?V (?h ! k)))"
    show ?thesis unfolding t Let_def using crash_installing [where E = ?E and V = ?V and st = ?st and pid = pid' and g = g and m = m, OF assms(3,5,6,7,8,11,12)] by blast
  next
    assume t: "take k ?ws = ?ws"
    show ?thesis unfolding t Let_def using crash_after [where E = ?E and V = ?V and st = ?st and pid = pid' and g = g, OF assms(3,6,11,12)] by blast
  qed
  then show ?thesis using u by blast
qed

text \<open>A transaction of one block: block 50 is read, changed and logged.\<close>

lemma one_block_transaction:
  "\<exists>(s :: fsys) R. busy 1 1 R [] (bc s) \<and> refs_ok R \<and> l_dev (lg s) = 1 \<and> l_start (lg s) = 2 \<and> lh (lg s) = [50] \<and>
     (\<exists>p. cached (bc s) 1 50 p \<and> R p \<noteq> 0) \<and> disk (bc s) = (\<lambda>_. replicate BSIZE 0) \<and> view (bc s) 1 2 = replicate BSIZE 0 \<and>
     view (bc s) 1 50 = replicate BSIZE 7"
proof -
  let ?D = "\<lambda>_ :: u32. replicate BSIZE 0 :: block" and ?c = "boot_cache\<lparr>disk := (\<lambda>_. replicate BSIZE 0)\<rparr>"
  note bb = boot_busy(1) [of 1 1 ?D] boot_busy(2) [of 1 ?D] boot_busy(3) [of "1 :: u32"]
  obtain b c1 where 1: "bread 1 1 50 ?c = Ok (b, c1)" "busy 1 1 (\<lambda>_. 0) [(b, 50)] c1" "disk c1 = disk ?c" "\<And>y. view c1 1 y = view ?c 1 y"
    by (rule busy_get [OF bb(1) bb(3), of 50]) auto
  note D = busyD [OF 1(2)]
  have cb: "cached c1 1 50 b" "b < NBUF" using D(3) [of b 50] by (simp_all add: cached_def)
  let ?R = "(\<lambda>_. 0)(b := 1 :: u32)" and ?f = "\<lambda>x. x\<lparr>b_data := replicate BSIZE 7, refcnt := 2\<rparr>"
  define c2 where "c2 = bupd b ?f c1"
  have fld: "valid (bufs c2 i) = valid (bufs c1 i)" "dev (bufs c2 i) = dev (bufs c1 i)" "blockno (bufs c2 i) = blockno (bufs c1 i)"
    "b_lock (bufs c2 i) = b_lock (bufs c1 i)" "refcnt (bufs c2 i) = (if i = b then 2 else refcnt (bufs c1 i))"
    "b_data (bufs c2 i) = (if i = b then replicate BSIZE 7 else b_data (bufs c1 i))" for i
    by (simp_all add: c2_def bupd_def)
  have inv: "binv c2" unfolding c2_def by (rule binv_bupd [OF D(1) cb(2)]) simp_all
  have vb: "view c2 1 50 = replicate BSIZE 7"
    using view_cached [OF inv, of 1 50 b] cb D(4) [of b 50] by (simp add: cached_def fld)
  have vo: "view c2 1 y = replicate BSIZE 0" if "y \<noteq> 50" for y
  proof -
    have "view c2 1 y = view c1 1 y"
      by (rule view_other) (use that cb in \<open>auto simp: fld cached_def c2_def bupd_def\<close>)
    then show ?thesis using 1(4) bb(2) by simp
  qed
  have B2: "busy 1 1 ?R [(b, 50)] c2"
  proof (rule busyI [OF inv])
    fix i assume i: "i < NBUF"
    show "(sl_locked (b_lock (bufs c2 i)) \<longrightarrow> i \<in> fst ` set [(b, 50 :: u32)]) \<and> (dev (bufs c2 i) = 0 \<or> dev (bufs c2 i) = 1) \<and>
        refcnt (bufs c2 i) = (if i \<in> fst ` set [(b, 50 :: u32)] then ?R i + 1 else ?R i)"
      using D(7-9) [OF i] by (auto simp: fld)
  qed (use cb D(3-5) [of b 50] in \<open>auto simp: cached_def fld\<close>)
  obtain c3 where 3: "brelse 1 b c2 = Ok c3" "busy 1 1 ?R (remove1 (b, 50) [(b, 50)]) c3" "disk c3 = disk c2"
    "\<And>y. view c3 1 y = view c2 1 y" "\<And>j y. cached c3 1 y j = cached c2 1 y j"
    by (rule busy_rel [OF B2, of b 50]) auto
  have R: "refs_ok ?R"
  proof -
    obtain i j where "i < NBUF" "j < NBUF" "i \<noteq> j" "i \<noteq> b" "j \<noteq> b"
    proof -
      have N: "(0 :: nat) < NBUF" "(1 :: nat) < NBUF" "(2 :: nat) < NBUF" by (simp_all add: NBUF_def)
      consider "b = 0" | "b = 1" | "b \<noteq> 0" "b \<noteq> 1" by blast
      then show thesis using N that [of 1 2] that [of 0 2] that [of 0 1] by cases auto
    qed
    then show ?thesis unfolding refs_ok_def by auto
  qed
  let ?s = "\<lparr>bc = c3, lg = \<lparr>l_start = 2, l_size = 30, outstanding = 0, committing = True, l_dev = 1, lh = [50]\<rparr>\<rparr>"
  have "disk c3 = ?D" using 3(3) 1(3) by (simp add: c2_def bupd_def)
  moreover have "cached c3 1 50 b" unfolding 3(5) using cb by (simp add: cached_def fld)
  ultimately show ?thesis using 3(2,4) R vb vo [of 2] by (intro exI [of _ ?s] exI [of _ ?R]) auto
qed

theorem crash_atomic_witness:
  "\<exists>(s :: fsys) sb g u ws. lh (lg s) = [50] \<and> commit 1 s = Ok u \<and> dwrites (bc u) = dwrites (bc s) @ ws \<and>
     (\<forall>k. \<exists>t. initlog 3 1 sb (rebooted g (apply_writes (take k ws) (disk (bc s)))) = Ok t \<and>
       (disk (bc t) 50 = replicate BSIZE 0 \<or> disk (bc t) 50 = replicate BSIZE 7))"
proof -
  obtain s :: fsys and R where s: "busy 1 1 R [] (bc s)" "refs_ok R" "l_dev (lg s) = 1" "l_start (lg s) = 2" "lh (lg s) = [50]"
    "\<exists>p. cached (bc s) 1 50 p \<and> R p \<noteq> 0" "disk (bc s) = (\<lambda>_. replicate BSIZE 0)" "view (bc s) 1 2 = replicate BSIZE 0"
    "view (bc s) 1 50 = replicate BSIZE 7" using one_block_transaction by blast
  let ?sb = "\<lparr>sb_magic = 0, sb_size = 0, sb_nblocks = 0, sb_ninodes = 0, sb_nlog = 0, sb_logstart = 2, sb_inodestart = 0, sb_bmapstart = 0\<rparr> :: superblock"
  let ?g = "lg s"
  have z: "get32 (replicate BSIZE 0) 0 = 0" by (simp add: get32_def le_word_def numeral_eq_Suc)
  have o: "outside 2 [50]" by (simp add: outside_def log_block_def)
  have nl: "\<not> in_log (l_start (lg s)) (length (lh (lg s))) 50" by (simp add: s in_log_def log_block_def)
  have "\<exists>u ws. commit 1 s = Ok u \<and> dwrites (bc u) = dwrites (bc s) @ ws \<and>
      (\<forall>k. \<exists>t. initlog 3 1 ?sb (rebooted ?g (apply_writes (take k ws) (disk (bc s)))) = Ok t \<and> lh (lg t) = [] \<and>
        (let old = (\<forall>z. \<not> in_log (l_start (lg s)) (length (lh (lg s))) z \<longrightarrow> disk (bc t) z = disk (bc s) z);
             new = (\<forall>z. \<not> in_log (l_start (lg s)) (length (lh (lg s))) z \<longrightarrow>
               disk (bc t) z = (if z \<in> set (lh (lg s)) then view (bc s) 1 z else disk (bc s) z))
         in (old \<or> new) \<and> (length ws \<le> k \<longrightarrow> new)))"
    by (rule crash_atomic [OF s(1,2) _ s(3)]) (simp_all only: s z o, simp_all add: s)
  then obtain u ws where u: "commit 1 s = Ok u" "dwrites (bc u) = dwrites (bc s) @ ws"
    and k: "\<And>k. \<exists>t. initlog 3 1 ?sb (rebooted ?g (apply_writes (take k ws) (disk (bc s)))) = Ok t \<and>
        (disk (bc t) 50 = disk (bc s) 50 \<or> disk (bc t) 50 = view (bc s) 1 50)"
    unfolding Let_def using nl by (metis s(5) list.set_intros(1))
  show ?thesis using u k s(5,7,9) by (intro exI [of _ s] exI [of _ ?sb] exI [of _ ?g] exI [of _ u] exI [of _ ws]) simp
qed

end
