(* ===== verification/Xv6_User.thy ===== *)
theory Xv6_User
  imports Xv6_Grep Xv6_Printf
begin

text \<open>
  User programs. A program runs until it makes a system call and goes on from the call's results: it is a resumption, possibly an infinite one. The results
  of a call are its value and what the kernel stores in the caller's memory. \<open>Exit\<close> is the call \<^verbatim>\<open>exit\<close>, which does not return. \<open>Spin\<close> is a program that has gone
  wrong: a loop that makes no system call, or undefined behaviour.
\<close>

datatype ucall =
    UFork | UWait bool | UPipe | URead int nat | UKill int | UExec string "string list" | UFstat int | UChdir string | UDup int | UGetpid
  | USbrk int | USleep int | UUptime | UOpen string int | UWrite int string | UMknod string int int | UUnlink string | ULink string string
  | UMkdir string | UClose int

text \<open>The value; the bytes read; the two descriptors of a pipe or the type, size and inode number of a file; the status of a child.\<close>

record uret =
  r_val :: int
  r_data :: string
  r_fds :: "int \<times> int"
  r_ino :: nat
  r_ftype :: int
  r_fsize :: nat
  r_status :: int

codatatype 'a uprog = Ret 'a | Exit int | Spin | Sys ucall "uret \<Rightarrow> 'a uprog"

primcorec ubind :: "'a uprog \<Rightarrow> ('a \<Rightarrow> 'b uprog) \<Rightarrow> 'b uprog" where
  "ubind p f = (case p of
      Ret x \<Rightarrow> (case f x of Ret y \<Rightarrow> Ret y | Exit n \<Rightarrow> Exit n | Spin \<Rightarrow> Spin | Sys c k \<Rightarrow> Sys c (\<lambda>r. k r))
    | Exit n \<Rightarrow> Exit n
    | Spin \<Rightarrow> Spin
    | Sys c k \<Rightarrow> Sys c (\<lambda>r. ubind (k r) f))"

text \<open>Run \<open>p\<close>, one turn of a loop with body \<open>f\<close>; it ends with the state for the next turn or with the loop's result.\<close>

primcorec uturn :: "('s \<Rightarrow> ('s + 'b) uprog) \<Rightarrow> ('s + 'b) uprog \<Rightarrow> 'b uprog" where
  "uturn f p = (case p of
      Ret x \<Rightarrow>
        (case x of Inr y \<Rightarrow> Ret y
         | Inl s \<Rightarrow>
            (case f s of
               Ret x \<Rightarrow> (case x of Inr y \<Rightarrow> Ret y | Inl s \<Rightarrow> Spin)
             | Exit n \<Rightarrow> Exit n
             | Spin \<Rightarrow> Spin
             | Sys c k \<Rightarrow> Sys c (\<lambda>r. uturn f (k r))))
    | Exit n \<Rightarrow> Exit n
    | Spin \<Rightarrow> Spin
    | Sys c k \<Rightarrow> Sys c (\<lambda>r. uturn f (k r)))"

definition uloop :: "('s \<Rightarrow> ('s + 'b) uprog) \<Rightarrow> 's \<Rightarrow> 'b uprog" where
  "uloop f s = uturn f (f s)"

lemma ubind_simps [simp]:
  "ubind (Ret x) f = f x" "ubind (Exit n) f = Exit n" "ubind Spin f = Spin" "ubind (Sys c k) f = Sys c (\<lambda>r. ubind (k r) f)"
  by (subst ubind.code, simp split: uprog.splits)+

lemma uturn_simps [simp]:
  "uturn f (Ret (Inr y)) = Ret y" "uturn f (Exit n) = Exit n" "uturn f Spin = Spin" "uturn f (Sys c k) = Sys c (\<lambda>r. uturn f (k r))"
  by (subst uturn.code, simp)+

lemma uturn_Inl: "f s \<noteq> Ret (Inl t) \<Longrightarrow> (\<And>t. f s \<noteq> Ret (Inl t)) \<Longrightarrow> uturn f (Ret (Inl s)) = uloop f s"
  unfolding uloop_def by (subst (1 2) uturn.code) (auto split: uprog.splits sum.splits)

section \<open>Output\<close>

text \<open>\<open>putc\<close> writes one byte at a time.\<close>

primrec uputs :: "int \<Rightarrow> string \<Rightarrow> unit uprog" where
  "uputs fd [] = Ret ()"
| "uputs fd (c # s) = Sys (UWrite fd [c]) (\<lambda>_. uputs fd s)"

definition ufprintf :: "int \<Rightarrow> string \<Rightarrow> varg list \<Rightarrow> unit uprog" where
  "ufprintf fd fmt ap = (case vprintf fmt ap of Ok s \<Rightarrow> uputs fd s | Fail e \<Rightarrow> Spin)"

definition nl :: string where [simp]: "nl = [CHR 0x0A]"

text \<open>The wrapper that calls a program's \<open>main\<close>.\<close>

definition ustart :: "'a uprog \<Rightarrow> unit uprog" where
  "ustart main = ubind main (\<lambda>_. Exit 0)"

section \<open>Runs\<close>

text \<open>The calls that a program makes when the kernel answers with \<open>rs\<close>, and how it ends.\<close>

datatype 'a uend = UDone 'a | UExit int | USpin | UWaits

primrec run :: "uret list \<Rightarrow> 'a uprog \<Rightarrow> ucall list \<times> 'a uend" where
  "run [] p = (case p of Ret x \<Rightarrow> ([], UDone x) | Exit n \<Rightarrow> ([], UExit n) | Spin \<Rightarrow> ([], USpin) | Sys c k \<Rightarrow> ([c], UWaits))"
| "run (r # rs) p =
     (case p of Ret x \<Rightarrow> ([], UDone x) | Exit n \<Rightarrow> ([], UExit n) | Spin \<Rightarrow> ([], USpin)
      | Sys c k \<Rightarrow> (case run rs (k r) of (cs, e) \<Rightarrow> (c # cs, e)))"

text \<open>The bytes that a sequence of calls sends to a descriptor.\<close>

definition sent :: "int \<Rightarrow> ucall list \<Rightarrow> string" where
  "sent fd cs = concat (map (\<lambda>c. case c of UWrite f s \<Rightarrow> if f = fd then s else [] | _ \<Rightarrow> []) cs)"

end
