(* ===== verification/Xv6_ShParse.thy ===== *)
theory Xv6_ShParse
  imports Xv6_Grep Xv6_Sysfile
begin

text \<open>
  The parser of the shell, \<^verbatim>\<open>user/sh.c\<close>. A command line is the text before its NUL; pointers into it are positions, \<open>es\<close> is its length.
  The structures that the constructors allocate are a datatype whose strings are pairs of positions (\<^verbatim>\<open>argv[i]\<close> with \<^verbatim>\<open>eargv[i]\<close>, \<^verbatim>\<open>file\<close> with
  \<^verbatim>\<open>efile\<close>). \<open>nulterminate\<close> then writes the NULs into the line. A call of \<open>panic\<close> ends the shell's child with its message, to which \<open>parsecmd\<close> adds the line it has printed before. The
  mutually recursive functions take the number of nested calls that the stack has room for.
\<close>

section \<open>Tokens\<close>

definition whitespace :: string where
  "whitespace = [CHR 0x20, CHR 0x09, CHR 0x0D, CHR 0x0A, CHR 0x0B]"

definition symbols :: string where
  "symbols = ''<|>&;()''"

function skip_ws :: "string \<Rightarrow> nat \<Rightarrow> nat" where
  "skip_ws b s = (if s < length b \<and> strchr whitespace (at b s) \<noteq> None then skip_ws b (s + 1) else s)"
  by pat_completeness auto
termination by (relation "measure (\<lambda>(b, s). length b - s)") auto

function skip_word :: "string \<Rightarrow> nat \<Rightarrow> nat" where
  "skip_word b s =
     (if s < length b \<and> strchr whitespace (at b s) = None \<and> strchr symbols (at b s) = None then skip_word b (s + 1) else s)"
  by pat_completeness auto
termination by (relation "measure (\<lambda>(b, s). length b - s)") auto

declare skip_ws.simps [simp del] skip_word.simps [simp del]

text \<open>The result: kind of token, its first position and the one behind it, and the position after the white space that follows.\<close>

definition gettoken :: "string \<Rightarrow> nat \<Rightarrow> char \<times> nat \<times> nat \<times> nat" where
  "gettoken b s =
     (let q = skip_ws b s; c = at b q;
          (ret, eq) =
            (if c = NUL then (c, q)
             else if c \<in> set ''|();&<'' then (c, q + 1)
             else if c = CHR ''>'' then (if at b (q + 1) = CHR ''>'' then (CHR ''+'', q + 2) else (c, q + 1))
             else (CHR ''a'', skip_word b q))
      in (ret, q, eq, skip_ws b eq))"

definition peek :: "string \<Rightarrow> nat \<Rightarrow> string \<Rightarrow> bool \<times> nat" where
  "peek b s toks = (let s = skip_ws b s in (at b s \<noteq> NUL \<and> strchr toks (at b s) \<noteq> None, s))"

section \<open>Commands\<close>

definition MAXARGS :: nat where [simp]: "MAXARGS = 10"

datatype cmd =
    EXEC "(nat \<times> nat) list"
  | REDIR cmd nat nat int int
  | PIPE cmd cmd
  | LIST cmd cmd
  | BACK cmd

text \<open>
  \<open>parseexec\<close> stores arguments through its pointer to the \<^verbatim>\<open>execcmd\<close>, which by then may be below redirections in the tree that it returns.
\<close>

primrec add_arg :: "nat \<times> nat \<Rightarrow> cmd \<Rightarrow> cmd" where
  "add_arg a (EXEC v) = EXEC (v @ [a])"
| "add_arg a (REDIR c file efile mode fd) = REDIR (add_arg a c) file efile mode fd"
| "add_arg a (PIPE l r) = PIPE l r"
| "add_arg a (LIST l r) = LIST l r"
| "add_arg a (BACK c) = BACK c"

definition redir_of :: "char \<Rightarrow> cmd \<Rightarrow> nat \<Rightarrow> nat \<Rightarrow> cmd" where
  "redir_of tok cmd q eq =
     (if tok = CHR ''<'' then REDIR cmd q eq O_RDONLY 0
      else if tok = CHR ''>'' then REDIR cmd q eq (O_WRONLY OR O_CREATE OR O_TRUNC) 1
      else if tok = CHR ''+'' then REDIR cmd q eq (O_WRONLY OR O_CREATE) 1
      else cmd)"

section \<open>Progress of the scanner\<close>

lemma skip_ws_ge: "s \<le> skip_ws b s"
  by (induction b s rule: skip_ws.induct) (subst skip_ws.simps, auto)

lemma skip_word_ge: "s \<le> skip_word b s"
  by (induction b s rule: skip_word.induct) (subst skip_word.simps, auto)

lemma skip_ws_le: "s \<le> length b \<Longrightarrow> skip_ws b s \<le> length b"
  by (induction b s rule: skip_ws.induct) (subst skip_ws.simps, auto)

lemma skip_word_le: "s \<le> length b \<Longrightarrow> skip_word b s \<le> length b"
  by (induction b s rule: skip_word.induct) (subst skip_word.simps, auto)

lemma at_NUL: "at b s \<noteq> NUL \<Longrightarrow> s < length b"
  by (simp add: at_def split: if_splits)

lemma strchr_iff: "NUL \<notin> set s \<Longrightarrow> strchr s c \<noteq> None \<longleftrightarrow> c \<in> set s"
  by (induction s) auto

lemma gettoken_ge:
  assumes "gettoken b s = (t, q, e, s')"
  shows "s \<le> q" "q \<le> e" "e \<le> s'" "s \<le> length b \<Longrightarrow> s' \<le> length b"
proof -
  have q: "q = skip_ws b s" and s': "s' = skip_ws b e" using assms by (auto simp: gettoken_def Let_def split: prod.splits)
  show "s \<le> q" "e \<le> s'" by (simp_all add: q s' skip_ws_ge)
  show "q \<le> e" using assms skip_word_ge [of q b] by (auto simp: gettoken_def Let_def q split: if_splits prod.splits)
  have gt: "at b k = CHR ''>'' \<Longrightarrow> k < length b" for k by (rule at_NUL) (simp add: NUL_def)
  have "e \<le> length b" if "s \<le> length b"
    using assms skip_ws_le [OF that] skip_word_le [OF skip_ws_le [OF that]] at_NUL [of b "skip_ws b s"] gt [of "skip_ws b s + 1"]
    by (auto simp: gettoken_def Let_def split: if_splits prod.splits)
  then show "s \<le> length b \<Longrightarrow> s' \<le> length b" by (simp add: s' skip_ws_le)
qed

lemma peek_fst:
  assumes "peek b s toks = (y, s')"
  shows "s' = skip_ws b s" "y \<longleftrightarrow> at b s' \<noteq> NUL \<and> strchr toks (at b s') \<noteq> None"
  using assms by (auto simp: peek_def Let_def)

lemma peek_ge:
  assumes "peek b s toks = (y, s')"
  shows "s \<le> s'" "s \<le> length b \<Longrightarrow> s' \<le> length b"
  using skip_ws_ge skip_ws_le peek_fst(1) [OF assms] by auto

lemma skip_ws_idem: "skip_ws b (skip_ws b s) = skip_ws b s"
  by (induction b s rule: skip_ws.induct) (metis skip_ws.simps)

text \<open>After a successful \<open>peek\<close> the next token is not empty.\<close>

lemma peek_gettoken:
  assumes "peek b s toks = (True, s1)" and "gettoken b s1 = (t, q, e, s2)"
  shows "s1 < s2"
proof -
  have n: "at b s1 \<noteq> NUL" using assms(1) by (auto simp: peek_def Let_def)
  have i: "skip_ws b s1 = s1" using peek_fst(1) [OF assms(1)] skip_ws_idem [of b s] by simp
  have q: "q = s1" using assms(2) i by (auto simp: gettoken_def Let_def split: prod.splits)
  have ns: "strchr whitespace (at b s1) = None"
  proof (rule ccontr)
    assume "strchr whitespace (at b s1) \<noteq> None"
    then have "skip_ws b s1 = skip_ws b (s1 + 1)" using at_NUL [OF n] skip_ws.simps [of b s1] by simp
    then show False using i skip_ws_ge [of "s1 + 1" b] by simp
  qed
  have "s1 < e"
  proof (cases "strchr symbols (at b s1) = None")
    case True
    then have "skip_word b s1 = skip_word b (s1 + 1)" using ns at_NUL [OF n] skip_word.simps [of b s1] by simp
    then have "s1 < skip_word b s1" using skip_word_ge [of "s1 + 1" b] by simp
    then show ?thesis using assms(2) n i by (auto simp: gettoken_def Let_def split: if_splits prod.splits)
  next
    case False
    then have "at b s1 \<in> set symbols" using strchr_iff [of symbols "at b s1"] by (simp add: symbols_def NUL_def)
    then show ?thesis using assms(2) n i by (auto simp: gettoken_def Let_def symbols_def split: if_splits prod.splits)
  qed
  then show ?thesis using gettoken_ge(3) [OF assms(2)] by simp
qed

section \<open>The parser\<close>

function parseredirs :: "string \<Rightarrow> cmd \<Rightarrow> nat \<Rightarrow> (cmd \<times> nat) res" where
  "parseredirs b cmd s =
     (case peek b s ''<>'' of (y, s) \<Rightarrow>
        if \<not> y then Ok (cmd, s)
        else case gettoken b s of (tok, _, _, s1) \<Rightarrow>
          case gettoken b s1 of (t, q, eq, s2) \<Rightarrow>
            if t \<noteq> CHR ''a'' then Fail (Panic ''missing file for redirection'')
            else parseredirs b (redir_of tok cmd q eq) s2)"
  by pat_completeness auto

lemma redirs_progress:
  assumes p: "peek b s toks = (True, s1)" and g: "gettoken b s1 = (tok, x1, x2, s2)" and h: "s2 \<le> s3"
  shows "length b - s3 < length b - s"
proof -
  have "s \<le> s1" by (rule peek_ge(1) [OF p])
  moreover have "s1 < s2" by (rule peek_gettoken [OF p g])
  moreover have "s1 < length b" by (rule at_NUL) (use peek_fst [OF p] in simp)
  ultimately show ?thesis using h by simp
qed

lemma scan_progress:
  "(True, s1) = peek b s toks \<Longrightarrow> (tok, x1, x2, s2) = gettoken b s1 \<Longrightarrow> length b - s2 < length b - s"
  "(True, s1) = peek b s toks \<Longrightarrow> (tok, x1, x2, s2) = gettoken b s1 \<Longrightarrow> (t, q, e, s3) = gettoken b s2 \<Longrightarrow>
    length b - s3 < length b - s"
  using redirs_progress gettoken_ge(1-3) [of b s2 t q e s3] by (metis order_refl, metis order_trans)

termination parseredirs
  by (relation "measure (\<lambda>(b, cmd, s). length b - s)") (simp, clarsimp, erule (2) scan_progress(2))

function parseargs :: "string \<Rightarrow> nat \<Rightarrow> cmd \<Rightarrow> nat \<Rightarrow> (cmd \<times> nat) res" where
  "parseargs b argc ret s =
     (case peek b s ''|)&;'' of (y, s) \<Rightarrow>
        if y then Ok (ret, s)
        else case gettoken b s of (tok, q, eq, s) \<Rightarrow>
          if tok = NUL then Ok (ret, s)
          else if tok \<noteq> CHR ''a'' then Fail (Panic ''syntax'')
          else if argc + 1 \<ge> MAXARGS then Fail (Panic ''too many args'')
          else rbind (parseredirs b (add_arg (q, eq) ret) s) (\<lambda>(ret, s). parseargs b (argc + 1) ret s))"
  by pat_completeness auto
termination by (relation "measure (\<lambda>(b, argc, ret, s). MAXARGS - argc)") auto

function parseback :: "string \<Rightarrow> cmd \<Rightarrow> nat \<Rightarrow> cmd \<times> nat" where
  "parseback b cmd s =
     (case peek b s ''&'' of (y, s) \<Rightarrow>
        if \<not> y then (cmd, s) else case gettoken b s of (_, _, _, s) \<Rightarrow> parseback b (BACK cmd) s)"
  by pat_completeness auto
termination
  by (relation "measure (\<lambda>(b, cmd, s). length b - s)") (simp, clarsimp, erule (1) scan_progress(1))

declare parseredirs.simps [simp del] parseargs.simps [simp del] parseback.simps [simp del]

fun parseline :: "nat \<Rightarrow> string \<Rightarrow> nat \<Rightarrow> (cmd \<times> nat) res"
  and parsepipe :: "nat \<Rightarrow> string \<Rightarrow> nat \<Rightarrow> (cmd \<times> nat) res"
  and parseblock :: "nat \<Rightarrow> string \<Rightarrow> nat \<Rightarrow> (cmd \<times> nat) res"
  and parseexec :: "nat \<Rightarrow> string \<Rightarrow> nat \<Rightarrow> (cmd \<times> nat) res" where
  "parseline 0 b s = Fail (Fault ''stack'')"
| "parseline (Suc n) b s =
     rbind (parsepipe n b s) (\<lambda>(cmd, s).
       case parseback b cmd s of (cmd, s) \<Rightarrow>
       case peek b s '';'' of (y, s) \<Rightarrow>
         if y then case gettoken b s of (_, _, _, s) \<Rightarrow> rbind (parseline n b s) (\<lambda>(r, s). Ok (LIST cmd r, s))
         else Ok (cmd, s))"
| "parsepipe 0 b s = Fail (Fault ''stack'')"
| "parsepipe (Suc n) b s =
     rbind (parseexec n b s) (\<lambda>(cmd, s).
       case peek b s ''|'' of (y, s) \<Rightarrow>
         if y then case gettoken b s of (_, _, _, s) \<Rightarrow> rbind (parsepipe n b s) (\<lambda>(r, s). Ok (PIPE cmd r, s))
         else Ok (cmd, s))"
| "parseblock 0 b s = Fail (Fault ''stack'')"
| "parseblock (Suc n) b s =
     (case peek b s ''('' of (y, s) \<Rightarrow>
        if \<not> y then Fail (Panic ''parseblock'')
        else case gettoken b s of (_, _, _, s) \<Rightarrow>
          rbind (parseline n b s) (\<lambda>(cmd, s).
            case peek b s '')'' of (y, s) \<Rightarrow>
              if \<not> y then Fail (Panic ''syntax - missing )'')
              else case gettoken b s of (_, _, _, s) \<Rightarrow> parseredirs b cmd s))"
| "parseexec 0 b s = Fail (Fault ''stack'')"
| "parseexec (Suc n) b s =
     (case peek b s ''('' of (y, s) \<Rightarrow>
        if y then parseblock n b s
        else rbind (parseredirs b (EXEC []) s) (\<lambda>(ret, s). parseargs b 0 ret s))"

text \<open>NUL-terminate all the counted strings; \<open>b\<close> is the line with its NUL.\<close>

primrec nulterminate :: "cmd \<Rightarrow> string \<Rightarrow> string" where
  "nulterminate (EXEC v) b = fold (\<lambda>(q, eq) b. b[eq := NUL]) v b"
| "nulterminate (REDIR c file efile mode fd) b = (nulterminate c b)[efile := NUL]"
| "nulterminate (PIPE l r) b = nulterminate r (nulterminate l b)"
| "nulterminate (LIST l r) b = nulterminate r (nulterminate l b)"
| "nulterminate (BACK c) b = nulterminate c b"

definition parsecmd :: "nat \<Rightarrow> string \<Rightarrow> (cmd \<times> string) res" where
  "parsecmd depth b =
     rbind (parseline depth b 0) (\<lambda>(cmd, s).
       case peek b s '''' of (_, s) \<Rightarrow>
         if s \<noteq> length b then Fail (Panic (''leftovers: '' @ drop s b @ [CHR 0x0A] @ ''syntax'')) else Ok (cmd, nulterminate cmd (b @ [NUL])))"

end
