(* ===== verification/Xv6_ShProof.thy ===== *)
theory Xv6_ShProof
  imports Xv6_ShParse
begin

text \<open>
  Correctness of the shell's parser: it always returns or reports an error, the strings that the commands see after \<open>nulterminate\<close> are the words of the
  line, and it reads back every command that is written in the shell's syntax.
\<close>

section \<open>Words\<close>

definition wordc :: "char \<Rightarrow> bool" where
  "wordc c \<longleftrightarrow> c \<noteq> NUL \<and> c \<notin> set whitespace \<and> c \<notin> set symbols"

lemma no_NUL [simp]: "NUL \<notin> set whitespace" "NUL \<notin> set symbols"
  by (simp_all add: whitespace_def symbols_def NUL_def)

lemma strchr_None: "NUL \<notin> set s \<Longrightarrow> strchr s c = None \<longleftrightarrow> c \<notin> set s"
  using strchr_iff [of s c] by blast

lemma skip_ws_step: "skip_ws b s = (if s < length b \<and> at b s \<in> set whitespace then skip_ws b (s + 1) else s)"
  by (subst skip_ws.simps) (simp add: strchr_None)

lemma skip_word_step:
  "NUL \<notin> set b \<Longrightarrow> skip_word b s = (if s < length b \<and> wordc (at b s) then skip_word b (s + 1) else s)"
proof -
  assume "NUL \<notin> set b"
  then have "s < length b \<Longrightarrow> at b s \<noteq> NUL" by (metis at_def nth_mem)
  then show ?thesis by (subst skip_word.simps) (auto simp: strchr_None wordc_def)
qed

text \<open>A word of the line: what lies between its two positions, with no word character behind it.\<close>

definition word_at :: "string \<Rightarrow> nat \<times> nat \<Rightarrow> bool" where
  "word_at b = (\<lambda>(q, e). q < e \<and> e \<le> length b \<and> (\<forall>k. q \<le> k \<and> k < e \<longrightarrow> wordc (b ! k)) \<and> \<not> wordc (at b e))"

lemma skip_word_span:
  assumes "NUL \<notin> set b" "s \<le> length b"
  shows "\<forall>k. s \<le> k \<and> k < skip_word b s \<longrightarrow> wordc (b ! k)" "\<not> wordc (at b (skip_word b s))"
proof -
  have "(\<forall>k. s \<le> k \<and> k < skip_word b s \<longrightarrow> wordc (b ! k)) \<and> \<not> wordc (at b (skip_word b s))"
    using assms
  proof (induction "length b - s" arbitrary: s)
    case 0
    then show ?case by (subst (1 2) skip_word_step) (auto simp: at_def wordc_def)
  next
    case (Suc n)
    show ?case
    proof (cases "wordc (at b s)")
      case True
      have l: "s < length b" using Suc.hyps(2) by simp
      have e: "skip_word b s = skip_word b (s + 1)" using True l Suc.prems(1) skip_word_step [of b s] by simp
      have "(\<forall>k. s + 1 \<le> k \<and> k < skip_word b (s + 1) \<longrightarrow> wordc (b ! k)) \<and> \<not> wordc (at b (skip_word b (s + 1)))"
        using Suc.hyps(2) Suc.prems l by (intro Suc.hyps(1)) simp_all
      moreover have "wordc (b ! s)" using True l by (simp add: at_def)
      ultimately show ?thesis unfolding e by (metis Suc_eq_plus1 Suc_leI le_eq_less_or_eq)
    next
      case False
      then show ?thesis using skip_word_step [OF Suc.prems(1), of s] by auto
    qed
  qed
  then show "\<forall>k. s \<le> k \<and> k < skip_word b s \<longrightarrow> wordc (b ! k)" "\<not> wordc (at b (skip_word b s))" by blast+
qed

lemma skip_ws_stop: "s \<le> length b \<Longrightarrow> at b (skip_ws b s) \<notin> set whitespace"
proof (induction b s rule: skip_ws.induct)
  case (1 b s)
  show ?case
  proof (cases "s < length b \<and> at b s \<in> set whitespace")
    case True
    then show ?thesis using 1 skip_ws_step [of b s] by (simp add: strchr_None)
  next
    case False
    then show ?thesis using skip_ws_step [of b s] no_NUL(1) by (cases "s < length b") (auto simp: at_def)
  qed
qed

lemma gettoken_word:
  assumes g: "gettoken b s = (CHR ''a'', q, e, s')" and n: "NUL \<notin> set b" and s: "s \<le> length b"
  shows "word_at b (q, e)"
proof -
  have q: "q = skip_ws b s" using g by (auto simp: gettoken_def Let_def split: prod.splits)
  have c: "at b q \<notin> set whitespace" using skip_ws_stop [OF s] by (simp add: q)
  have k: "at b q \<noteq> NUL \<and> at b q \<notin> set symbols \<and> e = skip_word b q"
    using g by (auto simp: gettoken_def Let_def q symbols_def NUL_def split: if_splits prod.splits)
  then have w: "wordc (at b q)" using c by (simp add: wordc_def)
  have l: "q < length b" using k at_NUL by blast
  have "skip_word b q = skip_word b (q + 1)" using skip_word_step [OF n, of q] w l by simp
  then have "q < e" using k skip_word_ge [of "q + 1" b] by simp
  then show ?thesis using skip_word_span [OF n, of q] skip_word_le [of q b] l k by (auto simp: word_at_def)
qed

text \<open>The pairs of positions in a command.\<close>

primrec cmd_words :: "cmd \<Rightarrow> (nat \<times> nat) set" where
  "cmd_words (EXEC v) = set v"
| "cmd_words (REDIR c file efile mode fd) = insert (file, efile) (cmd_words c)"
| "cmd_words (PIPE l r) = cmd_words l \<union> cmd_words r"
| "cmd_words (LIST l r) = cmd_words l \<union> cmd_words r"
| "cmd_words (BACK c) = cmd_words c"

lemma cmd_words_add_arg: "cmd_words (add_arg a c) \<subseteq> insert a (cmd_words c)"
  by (induction c) auto

lemma cmd_words_redir: "cmd_words (redir_of t c q e) \<subseteq> insert (q, e) (cmd_words c)"
  by (auto simp: redir_of_def)

section \<open>The parser returns\<close>

text \<open>What a call at position \<open>s\<close> may do: end with a message, or return a command and a position not before \<open>s\<close>.\<close>

definition returns :: "string \<Rightarrow> nat \<Rightarrow> (cmd \<times> nat) res \<Rightarrow> bool" where
  "returns b s r \<longleftrightarrow> (case r of Fail e \<Rightarrow> (\<exists>m. e = Panic m)
     | Ok (c, s') \<Rightarrow> s \<le> s' \<and> s' \<le> length b \<and> (\<forall>p \<in> cmd_words c. word_at b p))"

lemma returns_bind:
  assumes "returns b s m" and "\<And>c s'. m = Ok (c, s') \<Longrightarrow> s \<le> s' \<Longrightarrow> s' \<le> length b \<Longrightarrow> \<forall>p \<in> cmd_words c. word_at b p \<Longrightarrow> returns b s (f (c, s'))"
  shows "returns b s (rbind m f)"
  using assms by (cases m) (auto simp: returns_def)

lemma returns_mono: "returns b s r \<Longrightarrow> t \<le> s \<Longrightarrow> returns b t r"
  by (auto simp: returns_def split: res.splits)

lemma returns_redirs:
  "NUL \<notin> set b \<Longrightarrow> s \<le> length b \<Longrightarrow> \<forall>p \<in> cmd_words c. word_at b p \<Longrightarrow> returns b s (parseredirs b c s)"
proof (induction b c s rule: parseredirs.induct)
  case (1 b c s)
  obtain y s1 where p: "peek b s ''<>'' = (y, s1)" by (cases "peek b s ''<>''")
  obtain tok x1 x2 s2 where g: "gettoken b s1 = (tok, x1, x2, s2)" by (cases "gettoken b s1")
  obtain t q e s3 where h: "gettoken b s2 = (t, q, e, s3)" by (cases "gettoken b s2")
  note le = peek_ge [OF p] gettoken_ge [OF g] gettoken_ge [OF h]
  show ?case
  proof (cases "y \<and> t = CHR ''a''")
    case True
    have w: "word_at b (q, e)" by (rule gettoken_word [of b s2 q e s3]) (use h True 1 le in auto)
    have "\<forall>p \<in> cmd_words (redir_of tok c q e). word_at b p" using cmd_words_redir [of tok c q e] 1 w by blast
    then have "returns b s3 (parseredirs b (redir_of tok c q e) s3)"
      using 1 p g h True le by auto
    then show ?thesis using p g h True le by (subst parseredirs.simps) (auto elim!: returns_mono)
  next
    case False
    then show ?thesis using p g h le 1 by (subst parseredirs.simps) (auto simp: returns_def)
  qed
qed

lemma returns_args:
  "NUL \<notin> set b \<Longrightarrow> s \<le> length b \<Longrightarrow> \<forall>p \<in> cmd_words c. word_at b p \<Longrightarrow> returns b s (parseargs b argc c s)"
proof (induction b argc c s rule: parseargs.induct)
  case (1 b argc c s)
  obtain y s1 where p: "peek b s ''|)&;'' = (y, s1)" by (cases "peek b s ''|)&;''")
  obtain t q e s2 where g: "gettoken b s1 = (t, q, e, s2)" by (cases "gettoken b s1")
  note le = peek_ge [OF p] gettoken_ge [OF g]
  show ?case
  proof (cases "\<not> y \<and> t = CHR ''a'' \<and> argc + 1 < MAXARGS")
    case True
    have "word_at b (q, e)" by (rule gettoken_word [of b s1 q e s2]) (use g True 1 le in auto)
    then have w: "\<forall>p \<in> cmd_words (add_arg (q, e) c). word_at b p" using cmd_words_add_arg [of "(q, e)" c] 1 by blast
    have r: "returns b s2 (parseredirs b (add_arg (q, e) c) s2)" by (rule returns_redirs) (use 1 w le in auto)
    have "returns b s2 (rbind (parseredirs b (add_arg (q, e) c) s2) (\<lambda>(ret, s). parseargs b (argc + 1) ret s))"
    proof (rule returns_bind [OF r])
      fix c' s'
      assume "parseredirs b (add_arg (q, e) c) s2 = Ok (c', s')" "s2 \<le> s'" "s' \<le> length b" "\<forall>p \<in> cmd_words c'. word_at b p"
      then have "returns b s' (parseargs b (argc + 1) c' s')"
        using 1 p g True by (auto simp: NUL_def)
      then show "returns b s2 (case (c', s') of (ret, s) \<Rightarrow> parseargs b (argc + 1) ret s)" using \<open>s2 \<le> s'\<close> by (simp add: returns_mono)
    qed
    then have "returns b s (rbind (parseredirs b (add_arg (q, e) c) s2) (\<lambda>(ret, s). parseargs b (argc + 1) ret s))"
      by (rule returns_mono) (use le in linarith)
    then show ?thesis using p g True by (subst parseargs.simps) (simp add: NUL_def)
  next
    case False
    then show ?thesis using p g le 1 by (subst parseargs.simps) (auto simp: returns_def)
  qed
qed

lemma returns_back:
  "s \<le> length b \<Longrightarrow> parseback b c s = (c', s') \<Longrightarrow> s \<le> s' \<and> s' \<le> length b \<and> cmd_words c' = cmd_words c"
proof (induction b c s rule: parseback.induct)
  case (1 b c s)
  obtain y s1 where p: "peek b s ''&'' = (y, s1)" by (cases "peek b s ''&''")
  obtain t q e s2 where g: "gettoken b s1 = (t, q, e, s2)" by (cases "gettoken b s1")
  note le = peek_ge [OF p] gettoken_ge [OF g]
  show ?case
  proof (cases y)
    case True
    then have "parseback b (BACK c) s2 = (c', s')" using 1(3) p g by (subst (asm) parseback.simps) simp
    then show ?thesis using 1(1) [OF p [symmetric] _ g [symmetric] refl refl] 1(2) True le by fastforce
  next
    case False
    then show ?thesis using 1(2,3) p le by (subst (asm) parseback.simps) simp
  qed
qed

lemma room: "s1 < s2 \<Longrightarrow> s2 \<le> (l :: nat) \<Longrightarrow> 4 * (l - s) + k \<le> Suc n \<Longrightarrow> s \<le> s1 \<Longrightarrow> j \<le> 3 + k \<Longrightarrow> 4 * (l - s2) + j \<le> n"
  by linarith

lemma parser_returns:
  assumes b: "NUL \<notin> set b"
  shows "s \<le> length b \<Longrightarrow>
    (4 * (length b - s) + 4 \<le> n \<longrightarrow> returns b s (parseline n b s)) \<and>
    (4 * (length b - s) + 3 \<le> n \<longrightarrow> returns b s (parsepipe n b s)) \<and>
    (4 * (length b - s) + 1 \<le> n \<and> fst (peek b s ''('') \<longrightarrow> returns b s (parseblock n b s)) \<and>
    (4 * (length b - s) + 2 \<le> n \<longrightarrow> returns b s (parseexec n b s))"
proof (induction n arbitrary: s)
  case (Suc n)
  have line: "returns b s (parseline (Suc n) b s)" if r: "4 * (length b - s) + 4 \<le> Suc n"
  proof -
    have "returns b s (parsepipe n b s)" using Suc r by simp
    then show ?thesis unfolding parseline.simps
    proof (rule returns_bind)
      fix c s0 assume s0: "s \<le> s0" "s0 \<le> length b" and w: "\<forall>p \<in> cmd_words c. word_at b p"
      obtain c1 s1 where k: "parseback b c s0 = (c1, s1)" by (cases "parseback b c s0")
      note kb = returns_back [OF s0(2) k]
      obtain y s2 where p: "peek b s1 '';'' = (y, s2)" by (cases "peek b s1 '';''")
      obtain t q e s3 where g: "gettoken b s2 = (t, q, e, s3)" by (cases "gettoken b s2")
      note le = peek_ge [OF p] gettoken_ge [OF g]
      have "returns b s (rbind (parseline n b s3) (\<lambda>(r, s). Ok (LIST c1 r, s)))" if y
      proof (rule returns_bind)
        have "s2 < s3" by (rule peek_gettoken [OF _ g]) (use p that in simp)
        then have "4 * (length b - s3) + 4 \<le> n" using room [of s2 s3 "length b" s 4 n 4] r kb le s0 by simp
        then have "returns b s3 (parseline n b s3)" using Suc.IH [of s3] le kb by simp
        then show "returns b s (parseline n b s3)" by (rule returns_mono) (use le kb s0 in linarith)
      qed (use w kb in \<open>auto simp: returns_def\<close>)
      moreover have "returns b s (Ok (c1, s2))" using w kb le s0 by (auto simp: returns_def)
      ultimately show "returns b s (case (c, s0) of (cmd, s) \<Rightarrow> case parseback b cmd s of (cmd, s) \<Rightarrow> case peek b s '';'' of (y, s) \<Rightarrow>
         if y then case gettoken b s of (_, _, _, s) \<Rightarrow> rbind (parseline n b s) (\<lambda>(r, s). Ok (LIST cmd r, s)) else Ok (cmd, s))"
        using k p g by simp
    qed
  qed
  have pipe: "returns b s (parsepipe (Suc n) b s)" if r: "4 * (length b - s) + 3 \<le> Suc n"
  proof -
    have "returns b s (parseexec n b s)" using Suc r by simp
    then show ?thesis unfolding parsepipe.simps
    proof (rule returns_bind)
      fix c s1 assume s0: "s \<le> s1" "s1 \<le> length b" and w: "\<forall>p \<in> cmd_words c. word_at b p"
      obtain y s2 where p: "peek b s1 ''|'' = (y, s2)" by (cases "peek b s1 ''|''")
      obtain t q e s3 where g: "gettoken b s2 = (t, q, e, s3)" by (cases "gettoken b s2")
      note le = peek_ge [OF p] gettoken_ge [OF g]
      have "returns b s (rbind (parsepipe n b s3) (\<lambda>(r, s). Ok (PIPE c r, s)))" if y
      proof (rule returns_bind)
        have "s2 < s3" by (rule peek_gettoken [OF _ g]) (use p that in simp)
        then have "4 * (length b - s3) + 3 \<le> n" using room [of s2 s3 "length b" s 3 n 3] r le s0 by simp
        then have "returns b s3 (parsepipe n b s3)" using Suc.IH [of s3] le s0 by simp
        then show "returns b s (parsepipe n b s3)" by (rule returns_mono) (use le s0 in linarith)
      qed (use w in \<open>auto simp: returns_def\<close>)
      moreover have "returns b s (Ok (c, s2))" using w le s0 by (auto simp: returns_def)
      ultimately show "returns b s (case (c, s1) of (cmd, s) \<Rightarrow> case peek b s ''|'' of (y, s) \<Rightarrow>
         if y then case gettoken b s of (_, _, _, s) \<Rightarrow> rbind (parsepipe n b s) (\<lambda>(r, s). Ok (PIPE cmd r, s)) else Ok (cmd, s))"
        using p g by simp
    qed
  qed
  have block: "returns b s (parseblock (Suc n) b s)" if r: "4 * (length b - s) + 1 \<le> Suc n" "fst (peek b s ''('')"
  proof -
    obtain s1 where p: "peek b s ''('' = (True, s1)" using r(2) by (cases "peek b s ''(''") auto
    obtain t q e s2 where g: "gettoken b s1 = (t, q, e, s2)" by (cases "gettoken b s1")
    note le = peek_ge [OF p] gettoken_ge [OF g]
    have "4 * (length b - s2) + 4 \<le> n" using room [OF peek_gettoken [OF p g], of "length b" s 1 n 4] r le Suc.prems by simp
    then have "returns b s2 (parseline n b s2)" using Suc.IH [of s2] le Suc.prems by simp
    then have "returns b s2 (rbind (parseline n b s2) (\<lambda>(cmd, s). case peek b s '')'' of (y, s) \<Rightarrow>
        if \<not> y then Fail (Panic ''syntax - missing )'') else case gettoken b s of (_, _, _, s) \<Rightarrow> parseredirs b cmd s))"
    proof (rule returns_bind)
      fix c s3 assume s3: "s2 \<le> s3" "s3 \<le> length b" and w: "\<forall>p \<in> cmd_words c. word_at b p"
      obtain y s4 where p': "peek b s3 '')'' = (y, s4)" by (cases "peek b s3 '')''")
      obtain t' q' e' s5 where g': "gettoken b s4 = (t', q', e', s5)" by (cases "gettoken b s4")
      note le' = peek_ge [OF p'] gettoken_ge [OF g']
      have "returns b s5 (parseredirs b c s5)" by (rule returns_redirs) (use b w le' s3 in auto)
      then have "returns b s2 (parseredirs b c s5)" by (rule returns_mono) (use le' s3 in linarith)
      then show "returns b s2 (case (c, s3) of (cmd, s) \<Rightarrow> case peek b s '')'' of (y, s) \<Rightarrow>
        if \<not> y then Fail (Panic ''syntax - missing )'') else case gettoken b s of (_, _, _, s) \<Rightarrow> parseredirs b cmd s)"
        using p' g' by (auto simp: returns_def)
    qed
    then have "returns b s2 (parseblock (Suc n) b s)" using p g by simp
    then show ?thesis by (rule returns_mono) (use le in linarith)
  qed
  have exec: "returns b s (parseexec (Suc n) b s)" if r: "4 * (length b - s) + 2 \<le> Suc n"
  proof -
    obtain y s1 where p: "peek b s ''('' = (y, s1)" by (cases "peek b s ''(''")
    note le = peek_ge [OF p]
    have "peek b s1 ''('' = peek b s ''(''" unfolding peek_fst(1) [OF p] by (simp only: peek_def Let_def skip_ws_idem)
    then have i: "fst (peek b s1 ''('') = y" using p by simp
    have "returns b s1 (parseblock n b s1)" if y using Suc.IH [of s1] r le Suc.prems that i by simp
    moreover have "returns b s1 (rbind (parseredirs b (EXEC []) s1) (\<lambda>(ret, s). parseargs b 0 ret s))"
    proof (rule returns_bind)
      show "returns b s1 (parseredirs b (EXEC []) s1)" by (rule returns_redirs) (use b le Suc.prems in auto)
      fix c s2 assume "s1 \<le> s2" "s2 \<le> length b" "\<forall>p \<in> cmd_words c. word_at b p"
      then show "returns b s1 (case (c, s2) of (ret, s) \<Rightarrow> parseargs b 0 ret s)"
        using returns_mono [OF returns_args [OF b]] by simp
    qed
    ultimately have "returns b s1 (parseexec (Suc n) b s)" using p by simp
    then show ?thesis by (rule returns_mono [OF _ le(1)])
  qed
  show ?case using line pipe block exec by blast
qed simp

section \<open>Strings after \<open>nulterminate\<close>\<close>

lemma length_nulterminate [simp]: "length (nulterminate c b) = length b"
proof (induction c arbitrary: b)
  case (EXEC v)
  show ?case by (induction v arbitrary: b) auto
qed simp_all

lemma nth_upd: "k < length xs \<Longrightarrow> xs[i := x] ! k = (if i = k then x else xs ! k)"
  by (cases "i = k") simp_all

lemma nth_nulterminate: "k < length b \<Longrightarrow> nulterminate c b ! k = (if k \<in> snd ` cmd_words c then NUL else b ! k)"
proof (induction c arbitrary: b)
  case (EXEC v)
  then show ?case by (induction v arbitrary: b) (auto simp: nth_upd image_iff, fastforce)
qed (auto simp: nth_upd)

text \<open>The C string at a position.\<close>

definition cstr :: "string \<Rightarrow> nat \<Rightarrow> string" where
  "cstr b q = takeWhile (\<lambda>c. c \<noteq> NUL) (drop q b)"

definition sub :: "string \<Rightarrow> nat \<times> nat \<Rightarrow> string" where
  "sub b = (\<lambda>(q, e). take (e - q) (drop q b))"

lemma nul_word:
  assumes w: "\<forall>p \<in> cmd_words c. word_at b p" and p: "(q, e) \<in> cmd_words c"
  shows "cstr (nulterminate c (b @ [NUL])) q = sub b (q, e)"
proof -
  let ?b = "nulterminate c (b @ [NUL])"
  have qe: "q < e" "e \<le> length b" and wc: "\<And>k. q \<le> k \<Longrightarrow> k < e \<Longrightarrow> wordc (b ! k)" using w p by (auto simp: word_at_def)
  have keep: "?b ! k = b ! k" if "q \<le> k" "k < e" for k
  proof -
    have "k \<notin> snd ` cmd_words c"
    proof
      assume "k \<in> snd ` cmd_words c"
      then obtain q' where "(q', k) \<in> cmd_words c" by auto
      then have "\<not> wordc (at b k)" using w by (auto simp: word_at_def)
      then show False using wc [OF that] that qe by (simp add: at_def)
    qed
    then show ?thesis using that qe by (simp add: nth_nulterminate nth_append)
  qed
  have e: "?b ! e = NUL" using p qe by (auto simp: nth_nulterminate image_iff)
  have "takeWhile (\<lambda>c. c \<noteq> NUL) (drop q ?b) = take (e - q) (drop q ?b)"
    by (rule takeWhile_eq_take_P_nth) (use keep wc e qe in \<open>auto simp: wordc_def\<close>)
  also have "\<dots> = take (e - q) (drop q b)" by (rule nth_equalityI) (use keep qe in auto)
  finally show ?thesis by (simp add: cstr_def sub_def)
qed

text \<open>What a parsed command says, with its strings read by \<open>f\<close>.\<close>

datatype acmd =
    AExec "string list"
  | ARedir acmd string int int
  | APipe acmd acmd
  | AList acmd acmd
  | ABack acmd

primrec read_cmd :: "(nat \<times> nat \<Rightarrow> string) \<Rightarrow> cmd \<Rightarrow> acmd" where
  "read_cmd f (EXEC v) = AExec (map f v)"
| "read_cmd f (REDIR c file efile mode fd) = ARedir (read_cmd f c) (f (file, efile)) mode fd"
| "read_cmd f (PIPE l r) = APipe (read_cmd f l) (read_cmd f r)"
| "read_cmd f (LIST l r) = AList (read_cmd f l) (read_cmd f r)"
| "read_cmd f (BACK c) = ABack (read_cmd f c)"

lemma read_cmd_cong: "(\<And>p. p \<in> cmd_words c \<Longrightarrow> f p = g p) \<Longrightarrow> read_cmd f c = read_cmd g c"
  by (induction c) auto

section \<open>The shell's syntax\<close>

definition pr_redir :: "string \<times> int \<times> int \<Rightarrow> string" where
  "pr_redir = (\<lambda>(f, mode, fd). (if fd = 0 then ''<'' else if mode = 0x601 then ''>'' else ''>>'') @ f @ '' '')"

definition paren :: "bool \<Rightarrow> string \<Rightarrow> string" where
  "paren y s = (if y then ''('' @ s @ '')'' else s)"

text \<open>Commands in text; the number is the level of the grammar: line, background, pipe, exec.\<close>

primrec pr :: "nat \<Rightarrow> acmd \<Rightarrow> string" where
  "pr p (AExec ws) = concat (map (\<lambda>w. w @ '' '') ws)"
| "pr p (ARedir c f mode fd) = pr 3 c @ pr_redir (f, mode, fd)"
| "pr p (APipe l r) = paren (2 < p) (pr 3 l @ ''|'' @ pr 2 r)"
| "pr p (AList l r) = paren (0 < p) (pr 1 l @ '';'' @ pr 0 r)"
| "pr p (ABack c) = paren (1 < p) (pr 1 c @ ''&'')"

definition word :: "string \<Rightarrow> bool" where
  "word w \<longleftrightarrow> w \<noteq> [] \<and> (\<forall>c \<in> set w. wordc c)"

definition redir_ok :: "string \<times> int \<times> int \<Rightarrow> bool" where
  "redir_ok = (\<lambda>(f, mode, fd). word f \<and> (mode, fd) \<in> {(O_RDONLY, 0), (O_WRONLY OR O_CREATE OR O_TRUNC, 1), (O_WRONLY OR O_CREATE, 1)})"

primrec acmd_ok :: "acmd \<Rightarrow> bool" where
  "acmd_ok (AExec ws) \<longleftrightarrow> length ws < MAXARGS \<and> (\<forall>w \<in> set ws. word w)"
| "acmd_ok (ARedir c f mode fd) \<longleftrightarrow> acmd_ok c \<and> redir_ok (f, mode, fd)"
| "acmd_ok (APipe l r) \<longleftrightarrow> acmd_ok l \<and> acmd_ok r"
| "acmd_ok (AList l r) \<longleftrightarrow> acmd_ok l \<and> acmd_ok r"
| "acmd_ok (ABack c) \<longleftrightarrow> acmd_ok c"

section \<open>Scanning printed text\<close>

definition solid :: "string \<Rightarrow> bool" where
  "solid s \<longleftrightarrow> s = [] \<or> hd s \<notin> set whitespace"

definition follow :: "string \<Rightarrow> string \<Rightarrow> bool" where
  "follow cs s \<longleftrightarrow> s = [] \<or> hd s \<in> set cs"

lemma at_append [simp]: "at (pre @ s) (length pre + k) = at s k" "at (pre @ s) (length pre) = at s 0"
  by (auto simp: at_def nth_append)

lemma at0: "at s 0 = (if s = [] then NUL else hd s)"
  by (cases s) simp_all

lemma skip_solid: "solid s \<Longrightarrow> skip_ws (pre @ s) (length pre) = length pre"
  by (subst skip_ws_step) (auto simp: solid_def at0)

lemma skip_space: "solid s \<Longrightarrow> skip_ws (pre @ CHR '' '' # s) (length pre) = length pre + 1"
  using skip_solid [of s "pre @ '' ''"] by (subst skip_ws_step) (simp add: whitespace_def)

lemma peek_solid:
  assumes "solid s" "NUL \<notin> set toks"
  shows "peek (pre @ s) (length pre) toks = (s \<noteq> [] \<and> hd s \<in> set toks, length pre)"
  using assms strchr_None [OF assms(2), of "hd s"] by (auto simp: peek_def Let_def skip_solid at0)

lemma skip_word_word:
  "\<forall>c \<in> set w. wordc c \<Longrightarrow> skip_word (pre @ w @ CHR '' '' # s) (length pre) = length pre + length w"
proof (induction w arbitrary: pre)
  case Nil
  then show ?case by (subst skip_word.simps) (simp add: strchr_None whitespace_def NUL_def)
next
  case (Cons c w)
  have "skip_word ((pre @ [c]) @ w @ CHR '' '' # s) (length (pre @ [c])) = length (pre @ [c]) + length w" by (rule Cons.IH) (use Cons in auto)
  moreover have "strchr whitespace c = None" "strchr symbols c = None" using Cons.prems by (auto simp: strchr_None wordc_def)
  ultimately show ?case by (subst skip_word.simps) simp
qed

lemma wordc_hd: "word w \<Longrightarrow> w \<noteq> [] \<and> wordc (hd w)"
  by (cases w) (auto simp: word_def)

lemma wordc_not: "wordc c \<Longrightarrow> c \<notin> set whitespace \<and> c \<notin> set ''<|>&;()'' \<and> c \<noteq> NUL"
  by (simp add: wordc_def symbols_def)

lemma tok_word:
  assumes "word w" "solid s"
  shows "gettoken (pre @ w @ CHR '' '' # s) (length pre) = (CHR ''a'', length pre, length pre + length w, length pre + length w + 1)"
proof -
  note h = wordc_hd [OF assms(1)] wordc_not [OF conjunct2 [OF wordc_hd [OF assms(1)]]]
  have sk: "skip_ws (pre @ w @ CHR '' '' # s) (length pre) = length pre" by (rule skip_solid) (use h in \<open>simp add: solid_def\<close>)
  have "skip_ws ((pre @ w) @ CHR '' '' # s) (length (pre @ w)) = length (pre @ w) + 1" by (rule skip_space [OF assms(2)])
  then show ?thesis using h skip_word_word [of w pre s] assms(1) sk by (simp add: gettoken_def Let_def at0 word_def)
qed

lemma tok_sym:
  assumes "c \<in> set ''|();&<''" "solid s"
  shows "gettoken (pre @ c # s) (length pre) = (c, length pre, length pre + 1, length pre + 1)"
proof -
  have "c \<notin> set whitespace" "c \<noteq> NUL" using assms(1) by (auto simp: whitespace_def NUL_def)
  moreover have "skip_ws ((pre @ [c]) @ s) (length (pre @ [c])) = length (pre @ [c])" by (rule skip_solid [OF assms(2)])
  ultimately show ?thesis using assms(1) skip_solid [of "c # s" pre] by (simp add: gettoken_def Let_def solid_def)
qed

lemma tok_out:
  assumes "solid s" "s \<noteq> []" "hd s \<noteq> CHR ''>''"
  shows "gettoken (pre @ CHR ''>'' # s) (length pre) = (CHR ''>'', length pre, length pre + 1, length pre + 1)"
proof -
  have "at (pre @ CHR ''>'' # s) (Suc (length pre)) = hd s" using at_append(1) [of pre "CHR ''>'' # s" 1] assms(2) by (simp add: at0)
  moreover have "skip_ws ((pre @ '' > '') @ s) (length (pre @ '' > '')) = length (pre @ '' > '')" by (rule skip_solid [OF assms(1)])
  moreover have "skip_ws ((pre @ ''>'') @ s) (length (pre @ ''>'')) = length (pre @ ''>'')" by (rule skip_solid [OF assms(1)])
  ultimately show ?thesis using assms(3) skip_solid [of "CHR ''>'' # s" pre]
    by (simp add: gettoken_def Let_def solid_def whitespace_def NUL_def)
qed

lemma tok_app:
  assumes "solid s"
  shows "gettoken (pre @ CHR ''>'' # CHR ''>'' # s) (length pre) = (CHR ''+'', length pre, length pre + 2, length pre + 2)"
proof -
  have "at (pre @ CHR ''>'' # CHR ''>'' # s) (Suc (length pre)) = CHR ''>''" using at_append(1) [of pre "CHR ''>'' # CHR ''>'' # s" 1] by simp
  moreover have "skip_ws ((pre @ ''>>'') @ s) (length (pre @ ''>>'')) = length (pre @ ''>>'')" by (rule skip_solid [OF assms])
  ultimately show ?thesis using skip_solid [of "CHR ''>'' # CHR ''>'' # s" pre]
    by (simp add: gettoken_def Let_def solid_def whitespace_def NUL_def)
qed

section \<open>Parsing printed text\<close>

definition wrap :: "acmd \<Rightarrow> string \<times> int \<times> int \<Rightarrow> acmd" where
  "wrap t = (\<lambda>(f, mode, fd). ARedir t f mode fd)"

lemma sub_word: "sub (pre @ w @ s) (length pre, length pre + length w) = w"
  by (simp add: sub_def)

lemma solid_word: "word w \<Longrightarrow> solid (w @ s)"
  using wordc_hd [of w] wordc_not [of "hd w"] by (cases w) (auto simp: solid_def)

lemma solid_redir: "redir_ok r \<Longrightarrow> solid (pr_redir r @ s)"
  by (auto simp: redir_ok_def pr_redir_def solid_def whitespace_def)

lemma follow_solid: "follow cs s \<Longrightarrow> set cs \<subseteq> set symbols \<Longrightarrow> solid s"
  by (auto simp: follow_def solid_def symbols_def whitespace_def)

lemma solid_redirs: "\<forall>r \<in> set rs. redir_ok r \<Longrightarrow> solid s \<Longrightarrow> solid (concat (map pr_redir rs) @ s)"
  by (cases rs) (auto simp: solid_redir)

text \<open>One redirection.\<close>

lemma parse_redir:
  assumes "redir_ok r" "solid s"
  shows "\<exists>c'. parseredirs (pre @ pr_redir r @ s) c (length pre) = parseredirs (pre @ pr_redir r @ s) c' (length (pre @ pr_redir r)) \<and>
    read_cmd (sub (pre @ pr_redir r @ s)) c' = wrap (read_cmd (sub (pre @ pr_redir r @ s)) c) r"
proof -
  obtain f mode fd where r: "r = (f, mode, fd)" by (cases r)
  have f: "word f" using assms(1) by (simp add: r redir_ok_def)
  have nn: "NUL \<notin> set ''<>''" by (simp add: NUL_def)
  let ?b = "pre @ pr_redir r @ s"
  have pk: "peek ?b (length pre) ''<>'' = (True, length pre)"
    using peek_solid [OF solid_redir [OF assms(1), of s] nn, of pre] assms(1) by (auto simp: r pr_redir_def redir_ok_def)
  let ?fs = "f @ CHR '' '' # s"
  have sp: "solid ?fs" by (rule solid_word [OF f])
  have hd: "?fs \<noteq> []" "hd ?fs \<noteq> CHR ''>''" using wordc_hd [OF f] wordc_not [of "hd f"] by auto
  have "\<exists>op tk. pr_redir r = op @ f @ '' '' \<and> (\<forall>q e. redir_of tk c q e = REDIR c q e mode fd) \<and>
      gettoken (pre @ op @ ?fs) (length pre) = (tk, length pre, length pre + length op, length pre + length op)"
  proof -
    consider (rd) "mode = O_RDONLY" "fd = 0" | (wr) "mode = O_WRONLY OR O_CREATE OR O_TRUNC" "fd = 1" | (ap) "mode = O_WRONLY OR O_CREATE" "fd = 1"
      using assms(1) by (auto simp: r redir_ok_def)
    then show ?thesis
    proof cases
      case rd
      then show ?thesis using tok_sym [OF _ sp, of "CHR ''<''" pre]
        by (intro exI [of _ "''<''"] exI [of _ "CHR ''<''"]) (simp add: r pr_redir_def redir_of_def)
    next
      case wr
      then show ?thesis using tok_out [OF sp hd, of pre]
        by (intro exI [of _ "''>''"] exI [of _ "CHR ''>''"]) (simp add: r pr_redir_def redir_of_def)
    next
      case ap
      then show ?thesis using tok_app [OF sp, of pre]
        by (intro exI [of _ "''>>''"] exI [of _ "CHR ''+''"]) (simp add: r pr_redir_def redir_of_def)
    qed
  qed
  then obtain op tk where op: "pr_redir r = op @ f @ '' ''" and rd: "redir_of tk c q e = REDIR c q e mode fd"
    and tk: "gettoken (pre @ op @ ?fs) (length pre) = (tk, length pre, length pre + length op, length pre + length op)" for q e
    by blast
  have b: "?b = pre @ op @ ?fs" by (simp add: op)
  have w: "gettoken ?b (length pre + length op) = (CHR ''a'', length pre + length op, length pre + length op + length f, length pre + length op + length f + 1)"
    using tok_word [OF f assms(2), of "pre @ op"] by (simp add: b)
  let ?c = "REDIR c (length pre + length op) (length pre + length op + length f) mode fd"
  have "parseredirs ?b c (length pre) = parseredirs ?b ?c (length (pre @ pr_redir r))"
    using pk tk w by (subst parseredirs.simps) (simp add: b rd op add.assoc)
  moreover have "sub ?b (length pre + length op, length pre + length op + length f) = f"
    using sub_word [of "pre @ op" f "CHR '' '' # s"] by (simp add: b)
  ultimately show ?thesis by (intro exI [of _ ?c]) (simp add: r wrap_def)
qed

text \<open>Any number of them.\<close>

lemma parse_redirs:
  assumes "\<forall>r \<in> set rs. redir_ok r" "solid s" "s = [] \<or> hd s \<notin> set ''<>''"
  shows "\<exists>c'. parseredirs (pre @ concat (map pr_redir rs) @ s) c (length pre) = Ok (c', length (pre @ concat (map pr_redir rs))) \<and>
    read_cmd (sub (pre @ concat (map pr_redir rs) @ s)) c' = foldl wrap (read_cmd (sub (pre @ concat (map pr_redir rs) @ s)) c) rs"
  using assms(1)
proof (induction rs arbitrary: pre c)
  case Nil
  have "peek (pre @ s) (length pre) ''<>'' = (False, length pre)"
    using peek_solid [OF assms(2), of "''<>''" pre] assms(3) by (auto simp: NUL_def)
  then show ?case by (subst parseredirs.simps) simp
next
  case (Cons r rs)
  let ?t = "concat (map pr_redir rs) @ s"
  have so: "solid ?t" by (rule solid_redirs) (use Cons.prems assms in auto)
  obtain c1 where c1: "parseredirs (pre @ pr_redir r @ ?t) c (length pre) = parseredirs (pre @ pr_redir r @ ?t) c1 (length (pre @ pr_redir r))"
    "read_cmd (sub (pre @ pr_redir r @ ?t)) c1 = wrap (read_cmd (sub (pre @ pr_redir r @ ?t)) c) r"
    using parse_redir [of r ?t pre c] Cons.prems so by auto
  obtain c2 where "parseredirs ((pre @ pr_redir r) @ ?t) c1 (length (pre @ pr_redir r)) = Ok (c2, length ((pre @ pr_redir r) @ concat (map pr_redir rs)))"
    "read_cmd (sub ((pre @ pr_redir r) @ ?t)) c2 = foldl wrap (read_cmd (sub ((pre @ pr_redir r) @ ?t)) c1) rs"
    using Cons.IH [of "pre @ pr_redir r" c1] Cons.prems by auto
  then show ?case using c1 by (intro exI [of _ c2]) simp
qed

text \<open>The arguments of a command, then its redirections.\<close>

lemma args_end:
  assumes "follow ''|)&;'' s"
  shows "parseargs (pre @ s) argc c (length pre) = Ok (c, length pre)"
proof -
  have so: "solid s" by (rule follow_solid [OF assms]) (simp add: symbols_def)
  have nn: "NUL \<notin> set ''|)&;''" by (simp add: NUL_def)
  show ?thesis
  proof (cases "s = []")
    case True
    then show ?thesis using peek_solid [OF so nn, of pre] skip_solid [of "[]" pre]
      by (subst parseargs.simps) (simp add: gettoken_def Let_def solid_def at_def)
  next
    case False
    then show ?thesis using peek_solid [OF so nn, of pre] assms by (subst parseargs.simps) (simp add: follow_def)
  qed
qed

lemma parse_args:
  assumes rs: "\<forall>r \<in> set rs. redir_ok r" and s: "follow ''|)&;'' s"
  shows "ws \<noteq> [] \<or> rs = [] \<Longrightarrow> \<forall>w \<in> set ws. word w \<Longrightarrow> argc + length ws < MAXARGS \<Longrightarrow>
    b = pre @ concat (map (\<lambda>w. w @ '' '') ws) @ concat (map pr_redir rs) @ s \<Longrightarrow>
    \<exists>c. parseargs b argc (EXEC v) (length pre) = Ok (c, length b - length s) \<and>
      read_cmd (sub b) c = foldl wrap (AExec (map (sub b) v @ ws)) rs"
proof (induction ws arbitrary: argc v pre)
  case Nil
  then show ?case using args_end [OF s, of pre argc "EXEC v"] by simp
next
  case (Cons w ws)
  have w: "word w" using Cons.prems by simp
  note hw = wordc_hd [OF w] wordc_not [OF conjunct2 [OF wordc_hd [OF w]]]
  have so: "solid s" by (rule follow_solid [OF s]) (simp add: symbols_def)
  let ?ws = "concat (map (\<lambda>w. w @ '' '') ws)" and ?rs = "concat (map pr_redir rs)" and ?p = "pre @ w @ '' ''"
  have b: "b = pre @ w @ CHR '' '' # ?ws @ ?rs @ s" and b': "b = ?p @ ?ws @ ?rs @ s" using Cons.prems(4) by simp_all
  have sr: "solid (?rs @ s)" by (rule solid_redirs [OF rs so])
  have st: "solid (?ws @ ?rs @ s)" using Cons.prems(2) sr by (cases ws) (auto intro: solid_word)
  have pk: "peek b (length pre) ''|)&;'' = (False, length pre)"
    unfolding b using peek_solid [OF solid_word [OF w], of "''|)&;''"] hw by (auto simp: NUL_def)
  have tk: "gettoken b (length pre) = (CHR ''a'', length pre, length pre + length w, length ?p)"
    unfolding b using tok_word [OF w st, of pre] by simp
  let ?v = "v @ [(length pre, length pre + length w)]"
  have sb: "sub b (length pre, length pre + length w) = w" unfolding b by (rule sub_word)
  have step: "parseargs b argc (EXEC v) (length pre) =
      rbind (parseredirs b (EXEC ?v) (length ?p)) (\<lambda>(ret, s). parseargs b (argc + 1) ret s)"
    using pk tk Cons.prems(3) by (subst parseargs.simps) (simp add: NUL_def)
  show ?case
  proof (cases "ws = []")
    case True
    have e: "s = [] \<or> hd s \<notin> set ''<>''" using s by (auto simp: follow_def)
    obtain c where c: "parseredirs b (EXEC ?v) (length ?p) = Ok (c, length (?p @ ?rs))"
      "read_cmd (sub b) c = foldl wrap (read_cmd (sub b) (EXEC ?v)) rs"
      using parse_redirs [OF rs so e, of ?p "EXEC ?v"] b' True by auto
    have "parseargs ((?p @ ?rs) @ s) (argc + 1) c (length (?p @ ?rs)) = Ok (c, length (?p @ ?rs))" by (rule args_end [OF s])
    then show ?thesis using step c sb True b' by (intro exI [of _ c]) simp
  next
    case False
    let ?s = "?ws @ ?rs @ s"
    have e: "?s = [] \<or> hd ?s \<notin> set ''<>''"
      using False Cons.prems(2) wordc_hd [of "hd ws"] wordc_not [of "hd (hd ws)"] by (cases ws) auto
    have "parseredirs b (EXEC ?v) (length ?p) = Ok (EXEC ?v, length ?p)"
      using peek_solid [OF st, of "''<>''" ?p] e b' by (subst parseredirs.simps) (auto simp: NUL_def)
    moreover obtain c where "parseargs b (argc + 1) (EXEC ?v) (length ?p) = Ok (c, length b - length s)"
      "read_cmd (sub b) c = foldl wrap (AExec (map (sub b) ?v @ ws)) rs"
      using Cons.IH [of "argc + 1" ?p ?v] Cons.prems False b' by auto
    ultimately show ?thesis using step sb by (intro exI [of _ c]) simp
  qed
qed

section \<open>Reading back printed commands\<close>

lemma solid_syms [simp]:
  "solid (CHR ''('' # s)" "solid (CHR '')'' # s)" "solid (CHR ''|'' # s)" "solid (CHR '';'' # s)" "solid (CHR ''&'' # s)"
  by (simp_all add: solid_def whitespace_def)

lemma solid_pr: "acmd_ok t \<Longrightarrow> solid s \<Longrightarrow> solid (pr p t @ s)"
proof (induction t arbitrary: p s)
  case (AExec ws)
  then show ?case by (cases ws) (auto intro: solid_word)
next
  case (ARedir t f mode fd)
  then show ?case by (simp add: solid_redir)
qed (auto simp: paren_def)

text \<open>The statement for each level of the grammar.\<close>

definition exec_level :: "acmd \<Rightarrow> bool" where
  "exec_level t \<longleftrightarrow> (\<forall>b pre rs s n. (\<forall>r \<in> set rs. redir_ok r) \<and> follow ''|)&;'' s \<and> b = pre @ pr 3 t @ concat (map pr_redir rs) @ s \<and>
     4 * (length b - length pre) + 2 \<le> n \<longrightarrow>
     (\<exists>c. parseexec n b (length pre) = Ok (c, length b - length s) \<and> read_cmd (sub b) c = foldl wrap t rs))"

definition pipe_level :: "acmd \<Rightarrow> bool" where
  "pipe_level t \<longleftrightarrow> (\<forall>b pre s n. follow '')&;'' s \<and> b = pre @ pr 2 t @ s \<and> 4 * (length b - length pre) + 3 \<le> n \<longrightarrow>
     (\<exists>c. parsepipe n b (length pre) = Ok (c, length b - length s) \<and> read_cmd (sub b) c = t))"

definition back_level :: "acmd \<Rightarrow> bool" where
  "back_level t \<longleftrightarrow> (\<forall>b pre s n. follow '')&;'' s \<and> b = pre @ pr 1 t @ s \<and> 4 * (length b - length pre) + 3 \<le> n \<longrightarrow>
     (\<exists>c0 s0 c. parsepipe n b (length pre) = Ok (c0, s0) \<and> parseback b c0 s0 = parseback b c (length b - length s) \<and>
       read_cmd (sub b) c = t))"

definition line_level :: "acmd \<Rightarrow> bool" where
  "line_level t \<longleftrightarrow> (\<forall>b pre s n. follow '')'' s \<and> b = pre @ pr 0 t @ s \<and> 4 * (length b - length pre) + 4 \<le> n \<longrightarrow>
     (\<exists>c. parseline n b (length pre) = Ok (c, length b - length s) \<and> read_cmd (sub b) c = t))"

lemma follow_mono: "follow cs s \<Longrightarrow> set cs \<subseteq> set ds \<Longrightarrow> follow ds s"
  by (auto simp: follow_def)

lemma peek_follow:
  assumes "follow cs s" "set cs \<subseteq> set symbols" "NUL \<notin> set toks" "b = pre @ s"
  shows "peek b (length pre) toks = (s \<noteq> [] \<and> hd s \<in> set toks, length pre)"
  using peek_solid [OF follow_solid [OF assms(1,2)] assms(3), of pre] assms(4) by simp

lemma exec_pipe:
  assumes t: "exec_level t" "pr 2 t = pr 3 t"
  shows "pipe_level t"
  unfolding pipe_level_def
proof (intro allI impI)
  fix b pre s n assume a: "follow '')&;'' s \<and> b = pre @ pr 2 t @ s \<and> 4 * (length b - length pre) + 3 \<le> n"
  then obtain m where n: "n = Suc m" by (cases n) auto
  have "follow ''|)&;'' s" using a follow_mono by fastforce
  then obtain c where c: "parseexec m b (length pre) = Ok (c, length b - length s)" "read_cmd (sub b) c = t"
    using t(1) [unfolded exec_level_def, rule_format, of "[]" s b pre m] a t(2) n by auto
  have "peek b (length (pre @ pr 2 t)) ''|'' = (False, length (pre @ pr 2 t))"
    using peek_follow [of "'')&;''" s "''|''" b "pre @ pr 2 t"] a by (auto simp: symbols_def NUL_def follow_def)
  then show "\<exists>c. parsepipe n b (length pre) = Ok (c, length b - length s) \<and> read_cmd (sub b) c = t"
    using c a n by simp
qed

lemma pipe_back:
  assumes t: "pipe_level t" "pr 1 t = pr 2 t"
  shows "back_level t"
  unfolding back_level_def
proof (intro allI impI)
  fix b pre s n assume a: "follow '')&;'' s \<and> b = pre @ pr 1 t @ s \<and> 4 * (length b - length pre) + 3 \<le> n"
  then obtain c where "parsepipe n b (length pre) = Ok (c, length b - length s)" "read_cmd (sub b) c = t"
    using t(1) [unfolded pipe_level_def, rule_format, of s b pre n] t(2) by auto
  then show "\<exists>c0 s0 c. parsepipe n b (length pre) = Ok (c0, s0) \<and> parseback b c0 s0 = parseback b c (length b - length s) \<and>
       read_cmd (sub b) c = t" by blast
qed

lemma back_stop:
  assumes "follow '');'' s" "b = pre @ s"
  shows "parseback b c (length pre) = (c, length pre)"
  using peek_follow [OF assms(1) _ _ assms(2), of "''&''"] assms(1)
  by (subst parseback.simps) (auto simp: symbols_def NUL_def follow_def)

lemma back_line:
  assumes t: "back_level t" "pr 0 t = pr 1 t"
  shows "line_level t"
  unfolding line_level_def
proof (intro allI impI)
  fix b pre s n assume a: "follow '')'' s \<and> b = pre @ pr 0 t @ s \<and> 4 * (length b - length pre) + 4 \<le> n"
  then obtain m where n: "n = Suc m" by (cases n) auto
  have "follow '')&;'' s" "follow '');'' s" using a by (auto elim!: follow_mono)
  then obtain c0 s0 c where c: "parsepipe m b (length pre) = Ok (c0, s0)" "parseback b c0 s0 = parseback b c (length b - length s)" "read_cmd (sub b) c = t"
    using t(1) [unfolded back_level_def, rule_format, of s b pre m] t(2) a n by auto
  let ?p = "pre @ pr 0 t"
  have b: "b = ?p @ s" "length b - length s = length ?p" using a by simp_all
  have "parseback b c (length ?p) = (c, length ?p)" by (rule back_stop [OF \<open>follow '');'' s\<close> b(1)])
  moreover have "peek b (length ?p) '';'' = (False, length ?p)"
    using peek_follow [of "'')''" s "'';''" b ?p] a b by (auto simp: symbols_def NUL_def follow_def)
  ultimately show "\<exists>c. parseline n b (length pre) = Ok (c, length b - length s) \<and> read_cmd (sub b) c = t"
    using c n b(2) by simp
qed

text \<open>A command in parentheses, with redirections behind it.\<close>

lemma line_exec:
  assumes t: "line_level t" "pr 3 t = ''('' @ pr 0 t @ '')''" "acmd_ok t"
  shows "exec_level t"
  unfolding exec_level_def
proof (intro allI impI)
  fix b pre rs s n
  assume a: "(\<forall>r \<in> set rs. redir_ok r) \<and> follow ''|)&;'' s \<and> b = pre @ pr 3 t @ concat (map pr_redir rs) @ s \<and>
     4 * (length b - length pre) + 2 \<le> n"
  let ?rs = "concat (map pr_redir rs)" and ?p = "pre @ ''(''" and ?q = "pre @ ''('' @ pr 0 t" and ?u = "pre @ ''('' @ pr 0 t @ '')''"
  have b: "b = pre @ CHR ''('' # pr 0 t @ CHR '')'' # ?rs @ s" "b = ?p @ pr 0 t @ CHR '')'' # ?rs @ s"
    "b = ?q @ CHR '')'' # ?rs @ s" "b = ?u @ ?rs @ s" using a t(2) by simp_all
  obtain m where n: "n = Suc (Suc m)" using a by (cases n; cases "n - 1") auto
  have so: "solid s" by (rule follow_solid [of "''|)&;''"]) (use a in \<open>simp_all add: symbols_def\<close>)
  have sr: "solid (?rs @ s)" by (rule solid_redirs) (use a so in auto)
  have p1: "peek b (length pre) ''('' = (True, length pre)"
    unfolding b(1) using peek_solid [of "CHR ''('' # pr 0 t @ CHR '')'' # ?rs @ s" "''(''" pre] by (simp add: NUL_def)
  have s1: "solid (pr 0 t @ CHR '')'' # ?rs @ s)" by (rule solid_pr [OF t(3)]) simp
  have t1: "gettoken b (length pre) = (CHR ''('', length pre, length pre + 1, length ?p)"
    unfolding b(1) using tok_sym [OF _ s1, of "CHR ''(''" pre] by simp
  have "4 * (length b - length ?p) + 4 \<le> m" using a n b(1) by simp
  then obtain c where c: "parseline m b (length ?p) = Ok (c, length ?q)" "read_cmd (sub b) c = t"
    using t(1) [unfolded line_level_def, rule_format, of "CHR '')'' # ?rs @ s" b ?p m] b(2,3) by (auto simp: follow_def)
  have p2: "peek b (length ?q) '')'' = (True, length ?q)"
    unfolding b(3) using peek_solid [of "CHR '')'' # ?rs @ s" "'')''" ?q] by (simp add: NUL_def)
  have t2: "gettoken b (length ?q) = (CHR '')'', length ?q, length ?q + 1, length ?u)"
    unfolding b(3) using tok_sym [OF _ sr, of "CHR '')''" ?q] by simp
  have e: "s = [] \<or> hd s \<notin> set ''<>''" using a by (auto simp: follow_def)
  obtain c' where c': "parseredirs b c (length ?u) = Ok (c', length (?u @ ?rs))" "read_cmd (sub b) c' = foldl wrap (read_cmd (sub b) c) rs"
    using parse_redirs [OF _ so e, of rs ?u c] a unfolding b(4) [symmetric] by blast
  have "parseblock (Suc m) b (length pre) = Ok (c', length (?u @ ?rs))"
    unfolding parseblock.simps p1 using t1 c(1) p2 t2 c'(1) by (simp del: append_assoc length_append)
  then have "parseexec n b (length pre) = Ok (c', length (?u @ ?rs))" using p1 n by simp
  then show "\<exists>c. parseexec n b (length pre) = Ok (c, length b - length s) \<and> read_cmd (sub b) c = foldl wrap t rs"
    using c'(2) c(2) b(4) by (intro exI [of _ c']) simp
qed

lemma exec_words:
  assumes "acmd_ok (AExec ws)"
  shows "exec_level (AExec ws)"
  unfolding exec_level_def
proof (intro allI impI)
  fix b pre rs s n
  assume a: "(\<forall>r \<in> set rs. redir_ok r) \<and> follow ''|)&;'' s \<and> b = pre @ pr 3 (AExec ws) @ concat (map pr_redir rs) @ s \<and>
     4 * (length b - length pre) + 2 \<le> n"
  let ?rs = "concat (map pr_redir rs)" and ?ws = "concat (map (\<lambda>w. w @ '' '') ws)"
  obtain m where n: "n = Suc m" using a by (cases n) auto
  have fs: "follow ''|)&;'' s" using a by simp
  have so: "solid s" by (rule follow_solid [OF fs]) (simp add: symbols_def)
  have e: "s = [] \<or> hd s \<notin> set ''<>''" using a by (auto simp: follow_def)
  have b: "b = pre @ ?ws @ ?rs @ s" using a by simp
  have sr: "solid (?rs @ s)" by (rule solid_redirs) (use a so in auto)
  have st: "solid (?ws @ ?rs @ s)" using assms sr by (cases ws) (auto intro: solid_word)
  have hd: "?ws @ ?rs @ s = [] \<or> hd (?ws @ ?rs @ s) \<notin> set ''(''"
  proof (cases ws)
    case Nil
    then show ?thesis using a by (cases rs) (auto simp: follow_def redir_ok_def pr_redir_def)
  next
    case (Cons w ws')
    then show ?thesis using assms wordc_hd [of w] wordc_not [of "hd w"] by auto
  qed
  have p: "peek b (length pre) ''('' = (False, length pre)"
    unfolding b using peek_solid [OF st, of "''(''" pre] hd by (auto simp: NUL_def)
  have pe: "parseexec n b (length pre) = rbind (parseredirs b (EXEC []) (length pre)) (\<lambda>(ret, s). parseargs b 0 ret s)"
    using p n by simp
  show "\<exists>c. parseexec n b (length pre) = Ok (c, length b - length s) \<and> read_cmd (sub b) c = foldl wrap (AExec ws) rs"
  proof (cases "ws = []")
    case True
    then have b': "b = pre @ ?rs @ s" using b by simp
    obtain c where c: "parseredirs b (EXEC []) (length pre) = Ok (c, length (pre @ ?rs))"
      "read_cmd (sub b) c = foldl wrap (read_cmd (sub b) (EXEC [])) rs"
      using parse_redirs [OF _ so e, of rs pre "EXEC []"] a b' by auto
    have "parseargs ((pre @ ?rs) @ s) 0 c (length (pre @ ?rs)) = Ok (c, length (pre @ ?rs))" by (rule args_end [OF fs])
    then show ?thesis using pe c True b' by (intro exI [of _ c]) simp
  next
    case False
    then have "hd (?ws @ ?rs @ s) \<notin> set ''<>''" using assms wordc_hd [of "hd ws"] wordc_not [of "hd (hd ws)"] by (cases ws) auto
    then have "parseredirs b (EXEC []) (length pre) = Ok (EXEC [], length pre)"
      unfolding b using peek_solid [OF st, of "''<>''" pre] by (subst parseredirs.simps) (auto simp: NUL_def)
    moreover obtain c where "parseargs b 0 (EXEC []) (length pre) = Ok (c, length b - length s)"
      "read_cmd (sub b) c = foldl wrap (AExec (map (sub b) [] @ ws)) rs"
      using parse_args [OF _ fs, of rs ws 0 b pre "[]"] a b False assms by auto
    ultimately show ?thesis using pe by (intro exI [of _ c]) simp
  qed
qed

lemma exec_redir:
  assumes "exec_level t" "redir_ok (f, mode, fd)"
  shows "exec_level (ARedir t f mode fd)"
  unfolding exec_level_def
proof (intro allI impI)
  fix b pre rs s n
  assume a: "(\<forall>r \<in> set rs. redir_ok r) \<and> follow ''|)&;'' s \<and> b = pre @ pr 3 (ARedir t f mode fd) @ concat (map pr_redir rs) @ s \<and>
     4 * (length b - length pre) + 2 \<le> n"
  then have b: "b = pre @ pr 3 t @ concat (map pr_redir ((f, mode, fd) # rs)) @ s" by simp
  have "\<forall>r \<in> set ((f, mode, fd) # rs). redir_ok r" using a assms(2) by simp
  then obtain c where "parseexec n b (length pre) = Ok (c, length b - length s)" "read_cmd (sub b) c = foldl wrap t ((f, mode, fd) # rs)"
    using assms(1) [unfolded exec_level_def, rule_format, of "(f, mode, fd) # rs" s b pre n] a b by blast
  then show "\<exists>c. parseexec n b (length pre) = Ok (c, length b - length s) \<and> read_cmd (sub b) c = foldl wrap (ARedir t f mode fd) rs"
    by (intro exI [of _ c]) (simp add: wrap_def)
qed

lemma pipe_pipe:
  assumes l: "exec_level l" and r: "pipe_level r" and ok: "acmd_ok r"
  shows "pipe_level (APipe l r)"
  unfolding pipe_level_def
proof (intro allI impI)
  fix b pre s n assume a: "follow '')&;'' s \<and> b = pre @ pr 2 (APipe l r) @ s \<and> 4 * (length b - length pre) + 3 \<le> n"
  obtain m where n: "n = Suc m" using a by (cases n) auto
  let ?q = "pre @ pr 3 l" and ?u = "pre @ pr 3 l @ ''|''"
  have b: "b = pre @ pr 3 l @ CHR ''|'' # pr 2 r @ s" "b = ?q @ CHR ''|'' # pr 2 r @ s" "b = ?u @ pr 2 r @ s"
    using a by (simp_all add: paren_def)
  have so: "solid s" by (rule follow_solid [of "'')&;''"]) (use a in \<open>simp_all add: symbols_def\<close>)
  obtain c where c: "parseexec m b (length pre) = Ok (c, length ?q)" "read_cmd (sub b) c = l"
    using l [unfolded exec_level_def, rule_format, of "[]" "CHR ''|'' # pr 2 r @ s" b pre m] a n b(1) by (auto simp: follow_def)
  have p: "peek b (length ?q) ''|'' = (True, length ?q)"
    unfolding b(2) using peek_solid [of "CHR ''|'' # pr 2 r @ s" "''|''" ?q] by (simp add: NUL_def)
  have t: "gettoken b (length ?q) = (CHR ''|'', length ?q, length ?q + 1, length ?u)"
    unfolding b(2) using tok_sym [OF _ solid_pr [OF ok so], of "CHR ''|''" ?q] by simp
  obtain c' where "parsepipe m b (length ?u) = Ok (c', length b - length s)" "read_cmd (sub b) c' = r"
    using r [unfolded pipe_level_def, rule_format, of s b ?u m] a n b(3) by auto
  then show "\<exists>c. parsepipe n b (length pre) = Ok (c, length b - length s) \<and> read_cmd (sub b) c = APipe l r"
    using c p t n by (intro exI [of _ "PIPE c c'"]) (simp del: length_append)
qed

lemma back_back:
  assumes t: "back_level t"
  shows "back_level (ABack t)"
  unfolding back_level_def
proof (intro allI impI)
  fix b pre s n assume a: "follow '')&;'' s \<and> b = pre @ pr 1 (ABack t) @ s \<and> 4 * (length b - length pre) + 3 \<le> n"
  let ?q = "pre @ pr 1 t" and ?u = "pre @ pr 1 t @ ''&''"
  have b: "b = pre @ pr 1 t @ CHR ''&'' # s" "b = ?q @ CHR ''&'' # s" "b = ?u @ s" using a by (simp_all add: paren_def)
  have so: "solid s" by (rule follow_solid [of "'')&;''"]) (use a in \<open>simp_all add: symbols_def\<close>)
  obtain c0 s0 c where c: "parsepipe n b (length pre) = Ok (c0, s0)" "parseback b c0 s0 = parseback b c (length ?q)" "read_cmd (sub b) c = t"
    using t [unfolded back_level_def, rule_format, of "CHR ''&'' # s" b pre n] a b(1) by (auto simp: follow_def)
  have p: "peek b (length ?q) ''&'' = (True, length ?q)"
    unfolding b(2) using peek_solid [of "CHR ''&'' # s" "''&''" ?q] by (simp add: NUL_def)
  have g: "gettoken b (length ?q) = (CHR ''&'', length ?q, length ?q + 1, length ?u)"
    unfolding b(2) using tok_sym [OF _ so, of "CHR ''&''" ?q] by simp
  have "parseback b c (length ?q) = parseback b (BACK c) (length ?u)" using p g by (subst parseback.simps) (simp del: length_append)
  then show "\<exists>c0 s0 c. parsepipe n b (length pre) = Ok (c0, s0) \<and> parseback b c0 s0 = parseback b c (length b - length s) \<and>
       read_cmd (sub b) c = ABack t"
    using c b(3) by (intro exI [of _ c0] exI [of _ s0] exI [of _ "BACK c"]) simp
qed

lemma line_list:
  assumes l: "back_level l" and r: "line_level r" and ok: "acmd_ok r"
  shows "line_level (AList l r)"
  unfolding line_level_def
proof (intro allI impI)
  fix b pre s n assume a: "follow '')'' s \<and> b = pre @ pr 0 (AList l r) @ s \<and> 4 * (length b - length pre) + 4 \<le> n"
  obtain m where n: "n = Suc m" using a by (cases n) auto
  let ?q = "pre @ pr 1 l" and ?u = "pre @ pr 1 l @ '';''"
  have b: "b = pre @ pr 1 l @ CHR '';'' # pr 0 r @ s" "b = ?q @ CHR '';'' # pr 0 r @ s" "b = ?u @ pr 0 r @ s"
    using a by (simp_all add: paren_def)
  have so: "solid s" by (rule follow_solid [of "'')''"]) (use a in \<open>simp_all add: symbols_def\<close>)
  obtain c0 s0 c where c: "parsepipe m b (length pre) = Ok (c0, s0)" "parseback b c0 s0 = parseback b c (length ?q)" "read_cmd (sub b) c = l"
    using l [unfolded back_level_def, rule_format, of "CHR '';'' # pr 0 r @ s" b pre m] a n b(1) by (auto simp: follow_def)
  have k: "parseback b c (length ?q) = (c, length ?q)" by (rule back_stop [OF _ b(2)]) (simp add: follow_def)
  have p: "peek b (length ?q) '';'' = (True, length ?q)"
    unfolding b(2) using peek_solid [of "CHR '';'' # pr 0 r @ s" "'';''" ?q] by (simp add: NUL_def)
  have t: "gettoken b (length ?q) = (CHR '';'', length ?q, length ?q + 1, length ?u)"
    unfolding b(2) using tok_sym [OF _ solid_pr [OF ok so], of "CHR '';''" ?q] by simp
  obtain c' where "parseline m b (length ?u) = Ok (c', length b - length s)" "read_cmd (sub b) c' = r"
    using r [unfolded line_level_def, rule_format, of s b ?u m] a n b(3) by auto
  then show "\<exists>c. parseline n b (length pre) = Ok (c, length b - length s) \<and> read_cmd (sub b) c = AList l r"
    using c k p t n by (intro exI [of _ "LIST c c'"]) (simp del: length_append)
qed

lemma all_levels: "acmd_ok t \<Longrightarrow> exec_level t \<and> pipe_level t \<and> back_level t \<and> line_level t"
proof (induction t)
  case (AExec ws)
  then show ?case by (simp add: exec_words exec_pipe pipe_back back_line)
next
  case (ARedir t f mode fd)
  then show ?case by (simp add: exec_redir exec_pipe pipe_back back_line)
next
  case (APipe l r)
  then have "pipe_level (APipe l r)" by (simp add: pipe_pipe)
  then show ?case using APipe.prems by (simp add: pipe_back back_line line_exec paren_def)
next
  case (AList l r)
  then have "line_level (AList l r)" by (simp add: line_list)
  then show ?case using AList.prems by (simp add: pipe_back exec_pipe line_exec paren_def)
next
  case (ABack t)
  then have "back_level (ABack t)" by (simp add: back_back)
  then show ?case using ABack.prems by (simp add: back_line exec_pipe line_exec paren_def)
qed

lemma pr_no_NUL: "acmd_ok t \<Longrightarrow> NUL \<notin> set (pr p t)"
  by (induction t arbitrary: p) (auto simp: pr_redir_def paren_def redir_ok_def word_def wordc_def NUL_def)

section \<open>Properties\<close>

text \<open>C19: The shell's parser handles every line: with stack for four calls per character it returns a command or reports an error, and never runs on or
  past the end of the line. In a command that it returns every string is a whole word of the line, and after \<open>nulterminate\<close> has written its NULs into the
  line, the C strings that \<open>exec\<close> and \<open>open\<close> will see are exactly those words.\<close>

theorem sh_parse_words:
  assumes "NUL \<notin> set b" and "4 * length b + 4 \<le> depth"
  shows "case parsecmd depth b of
      Fail e \<Rightarrow> (\<exists>m. e = Panic m)
    | Ok (c, buf) \<Rightarrow> length buf = length b + 1 \<and> (\<forall>p \<in> cmd_words c. word_at b p) \<and>
        read_cmd (\<lambda>(q, e). cstr buf q) c = read_cmd (sub b) c"
proof (cases "parsecmd depth b")
  case (Fail e)
  have "returns b 0 (parseline depth b 0)" using parser_returns [OF assms(1), of 0 depth] assms(2) by simp
  then show ?thesis using Fail
    by (cases "parseline depth b 0") (auto simp: parsecmd_def returns_def split: if_splits prod.splits)
next
  case (Ok r)
  obtain c buf where r: "r = (c, buf)" by (cases r)
  have "returns b 0 (parseline depth b 0)" using parser_returns [OF assms(1), of 0 depth] assms(2) by simp
  then have w: "\<forall>p \<in> cmd_words c. word_at b p" and buf: "buf = nulterminate c (b @ [NUL])"
    using Ok r by (auto simp: parsecmd_def rbind_Ok_iff returns_def split: if_splits prod.splits)
  have "read_cmd (\<lambda>(q, e). cstr buf q) c = read_cmd (sub b) c"
    by (rule read_cmd_cong) (use nul_word [OF w] buf in auto)
  then show ?thesis using Ok r w buf by simp
qed

theorem sh_parse_words_witness:
  "case parsecmd 100 ''ls>f'' of Fail e \<Rightarrow> (\<exists>m. e = Panic m)
    | Ok (c, buf) \<Rightarrow> length buf = 5 \<and> read_cmd (\<lambda>(q, e). cstr buf q) c = read_cmd (sub ''ls>f'') c"
  using sh_parse_words [of "''ls>f''" 100] by (auto simp: NUL_def split: res.splits prod.splits)

text \<open>C6: Parsing inverts printing. For every command tree, with its words, redirections, pipes, lists and background marks nested in any way, the shell's parser
  reads the text of the command back as exactly that tree, down to the argument strings after \<open>nulterminate\<close> and the open modes and descriptors of
  the redirections.\<close>

theorem sh_parse_print:
  assumes "acmd_ok t" and "4 * length (pr 0 t) + 4 \<le> depth"
  shows "\<exists>c buf. parsecmd depth (pr 0 t) = Ok (c, buf) \<and> read_cmd (\<lambda>(q, e). cstr buf q) c = t"
proof -
  let ?b = "pr 0 t"
  obtain c where c: "parseline depth ?b 0 = Ok (c, length ?b)" "read_cmd (sub ?b) c = t"
    using all_levels [OF assms(1)] assms(2) unfolding line_level_def
    by (elim conjE, drule_tac spec [of _ ?b], drule_tac spec [of _ "[]"], drule_tac spec [of _ "[]"], drule_tac spec [of _ depth])
      (auto simp: follow_def)
  have n: "NUL \<notin> set ?b" by (rule pr_no_NUL [OF assms(1)])
  have p: "peek ?b (length ?b) '''' = (False, length ?b)" using peek_solid [of "[]" "''''" ?b] by (simp add: solid_def)
  then have pc: "parsecmd depth ?b = Ok (c, nulterminate c (?b @ [NUL]))" using c by (simp add: parsecmd_def)
  have "returns ?b 0 (parseline depth ?b 0)" using parser_returns [OF n, of 0 depth] assms(2) by simp
  then have w: "\<forall>p \<in> cmd_words c. word_at ?b p" using c by (simp add: returns_def)
  have "read_cmd (\<lambda>(q, e). cstr (nulterminate c (?b @ [NUL])) q) c = read_cmd (sub ?b) c"
    by (rule read_cmd_cong) (use nul_word [OF w] in auto)
  then show ?thesis using pc c(2) by auto
qed

definition sample_cmd :: acmd where
  "sample_cmd = AList (ABack (APipe (AExec [''cat'', ''f'']) (ARedir (AExec [''wc'']) ''g'' 0x601 1))) (ARedir (AList (AExec [''a'']) (AExec [''b''])) ''h'' 0 0)"

theorem sh_parse_print_witness:
  "pr 0 sample_cmd = ''cat f |wc >g &;(a ;b )<h '' \<and>
   (\<exists>c buf. parsecmd 200 (pr 0 sample_cmd) = Ok (c, buf) \<and> read_cmd (\<lambda>(q, e). cstr buf q) c = sample_cmd)"
proof
  show pr: "pr 0 sample_cmd = ''cat f |wc >g &;(a ;b )<h ''" by (simp add: sample_cmd_def pr_redir_def paren_def)
  have "acmd_ok sample_cmd" by (simp add: sample_cmd_def redir_ok_def word_def wordc_def whitespace_def symbols_def NUL_def)
  then show "\<exists>c buf. parsecmd 200 (pr 0 sample_cmd) = Ok (c, buf) \<and> read_cmd (\<lambda>(q, e). cstr buf q) c = sample_cmd"
    by (rule sh_parse_print) (simp add: pr)
qed

end
