(* ===== verification/Xv6_Sh.thy ===== *)
theory Xv6_Sh
  imports Xv6_User Xv6_ShProof
begin

text \<open>
  The shell, \<^verbatim>\<open>user/sh.c\<close>, as a user program: \<open>runcmd\<close> on a parsed command and the line \<open>b\<close> that holds its strings, and the loop of \<open>main\<close>. The text of a
  syntax error is the message of its \<open>panic\<close>. After a fork the program goes on with value 0 in the child and the child's pid in the parent.
\<close>

definition sh_panic :: "string \<Rightarrow> 'a uprog" where
  "sh_panic s = ubind (ufprintf 2 (''%s'' @ nl) [VStr (Some s)]) (\<lambda>_. Exit 1)"

definition fork1 :: "(int \<Rightarrow> 'a uprog) \<Rightarrow> 'a uprog" where
  "fork1 k = Sys UFork (\<lambda>r. if r_val r = -1 then sh_panic ''fork'' else k (r_val r))"

primrec runcmd :: "string \<Rightarrow> cmd \<Rightarrow> unit uprog" where
  "runcmd b (EXEC v) =
     (case v of
        [] \<Rightarrow> Exit 1
      | a # _ \<Rightarrow> Sys (UExec (cstr b (fst a)) (map (\<lambda>a. cstr b (fst a)) v)) (\<lambda>_.
          ubind (ufprintf 2 (''exec %s failed'' @ nl) [VStr (Some (cstr b (fst a)))]) (\<lambda>_. Exit 0)))"
| "runcmd b (REDIR c file efile mode fd) =
     Sys (UClose fd) (\<lambda>_. Sys (UOpen (cstr b file) mode) (\<lambda>r.
       if r_val r < 0 then ubind (ufprintf 2 (''open %s failed'' @ nl) [VStr (Some (cstr b file))]) (\<lambda>_. Exit 1)
       else runcmd b c))"
| "runcmd b (LIST l r) =
     fork1 (\<lambda>pid. if pid = 0 then runcmd b l else Sys (UWait False) (\<lambda>_. runcmd b r))"
| "runcmd b (PIPE l r) =
     Sys UPipe (\<lambda>p. if r_val p < 0 then sh_panic ''pipe''
       else fork1 (\<lambda>pid.
         if pid = 0 then
           Sys (UClose 1) (\<lambda>_. Sys (UDup (snd (r_fds p))) (\<lambda>_. Sys (UClose (fst (r_fds p))) (\<lambda>_. Sys (UClose (snd (r_fds p))) (\<lambda>_. runcmd b l))))
         else fork1 (\<lambda>pid.
           if pid = 0 then
             Sys (UClose 0) (\<lambda>_. Sys (UDup (fst (r_fds p))) (\<lambda>_. Sys (UClose (fst (r_fds p))) (\<lambda>_. Sys (UClose (snd (r_fds p))) (\<lambda>_. runcmd b r))))
           else Sys (UClose (fst (r_fds p))) (\<lambda>_. Sys (UClose (snd (r_fds p))) (\<lambda>_.
             Sys (UWait False) (\<lambda>_. Sys (UWait False) (\<lambda>_. Exit 0)))))))"
| "runcmd b (BACK c) = fork1 (\<lambda>pid. if pid = 0 then runcmd b c else Exit 0)"

text \<open>\<open>gets\<close> of \<^verbatim>\<open>user/ulib.c\<close> with its reads.\<close>

definition sh_gets :: "nat \<Rightarrow> string uprog" where
  "sh_gets mx = uloop (\<lambda>buf.
     if length buf + 1 < mx then
       Sys (URead 0 1) (\<lambda>r.
         if r_val r < 1 then Ret (Inr buf)
         else let c = hd (r_data r) in
           Ret (if c = CHR 0x0A \<or> c = CHR 0x0D then Inr (buf @ [c]) else Inl (buf @ [c])))
     else Ret (Inr buf)) []"

text \<open>The command line as a C string; it is empty at the end of the input.\<close>

definition getcmd :: "nat \<Rightarrow> string uprog" where
  "getcmd nbuf = Sys (UWrite 2 ''$ '') (\<lambda>_. ubind (sh_gets nbuf) (\<lambda>buf. Ret (takeWhile (\<lambda>c. c \<noteq> NUL) buf)))"

definition sh_turn :: "nat \<Rightarrow> string \<Rightarrow> (unit + unit) uprog" where
  "sh_turn depth buf =
     (if buf = [] then Ret (Inr ())
      else if take 3 buf = ''cd '' then
        let dir = drop 3 (butlast buf) in
        Sys (UChdir dir) (\<lambda>r.
          if r_val r < 0 then ubind (ufprintf 2 (''cannot cd %s'' @ nl) [VStr (Some dir)]) (\<lambda>_. Ret (Inl ()))
          else Ret (Inl ()))
      else fork1 (\<lambda>pid.
        if pid = 0 then
          (case parsecmd depth buf of
             Ok (c, b) \<Rightarrow> ubind (runcmd b c) (\<lambda>_. Spin)
           | Fail (Panic m) \<Rightarrow> sh_panic m
           | Fail _ \<Rightarrow> Spin)
        else Sys (UWait False) (\<lambda>_. Ret (Inl ()))))"

definition sh_main :: "nat \<Rightarrow> unit uprog" where
  "sh_main depth =
     ubind (uloop (\<lambda>_. Sys (UOpen ''console'' O_RDWR) (\<lambda>r.
         if r_val r < 0 then Ret (Inr ())
         else if r_val r \<ge> 3 then Sys (UClose (r_val r)) (\<lambda>_. Ret (Inr ()))
         else Ret (Inl ()))) ())
     (\<lambda>_. ubind (uloop (\<lambda>_. ubind (getcmd 100) (sh_turn depth)) ()) (\<lambda>_. Exit 0))"

end
