(* ===== verification/Xv6_Progs.thy ===== *)
theory Xv6_Progs
  imports Xv6_User Xv6_Ulib Xv6_Sysfile
begin

text \<open>
  The small user programs: \<^verbatim>\<open>cat\<close>, \<^verbatim>\<open>echo\<close>, \<^verbatim>\<open>wc\<close>, \<^verbatim>\<open>ls\<close>, \<^verbatim>\<open>ln\<close>, \<^verbatim>\<open>rm\<close>, \<^verbatim>\<open>kill\<close>, \<^verbatim>\<open>mkdir\<close>, \<^verbatim>\<open>init\<close>, \<^verbatim>\<open>zombie\<close>, \<^verbatim>\<open>forktest\<close>, \<^verbatim>\<open>stressfs\<close> and the \<open>main\<close> of \<^verbatim>\<open>grep\<close>.
  \<open>argv\<close> is the list of arguments with the program's name first.
\<close>

section \<open>cat and echo\<close>

definition cat :: "int \<Rightarrow> unit uprog" where
  "cat fd = uloop (\<lambda>_. Sys (URead fd 512) (\<lambda>r.
     if r_val r > 0 then
       Sys (UWrite 1 (r_data r)) (\<lambda>w.
         if r_val w \<noteq> r_val r then ubind (ufprintf 2 (''cat: write error'' @ nl) []) (\<lambda>_. Exit 1)
         else Ret (Inl ()))
     else if r_val r < 0 then ubind (ufprintf 2 (''cat: read error'' @ nl) []) (\<lambda>_. Exit 1)
     else Ret (Inr ()))) ()"

primrec cat_files :: "string list \<Rightarrow> unit uprog" where
  "cat_files [] = Exit 0"
| "cat_files (f # fs) = Sys (UOpen f O_RDONLY) (\<lambda>r.
     if r_val r < 0 then ubind (ufprintf 2 (''cat: cannot open %s'' @ nl) [VStr (Some f)]) (\<lambda>_. Exit 1)
     else ubind (cat (r_val r)) (\<lambda>_. Sys (UClose (r_val r)) (\<lambda>_. cat_files fs)))"

definition cat_main :: "string list \<Rightarrow> unit uprog" where
  "cat_main argv = (if length argv \<le> 1 then ubind (cat 0) (\<lambda>_. Exit 0) else cat_files (tl argv))"

primrec echo_args :: "string list \<Rightarrow> unit uprog" where
  "echo_args [] = Exit 0"
| "echo_args (a # as) = Sys (UWrite 1 a) (\<lambda>_. Sys (UWrite 1 (if as \<noteq> [] then '' '' else nl)) (\<lambda>_. echo_args as))"

definition echo_main :: "string list \<Rightarrow> unit uprog" where
  "echo_main argv = echo_args (tl argv)"

section \<open>wc\<close>

text \<open>Lines, words, characters, and whether the last character was in a word; the counters are printed as 32-bit values.\<close>

type_synonym counts = "int \<times> int \<times> int \<times> bool"

definition wc_char :: "char \<Rightarrow> counts \<Rightarrow> counts" where
  "wc_char x = (\<lambda>(l, w, c, inword).
     let c = c + 1; l = (if x = CHR 0x0A then l + 1 else l) in
     if strchr [CHR 0x20, CHR 0x0D, CHR 0x09, CHR 0x0A, CHR 0x0B] x \<noteq> None then (l, w, c, False)
     else if \<not> inword then (l, w + 1, c, True)
     else (l, w, c, inword))"

definition wc :: "int \<Rightarrow> string \<Rightarrow> unit uprog" where
  "wc fd name = ubind
     (uloop (\<lambda>st. Sys (URead fd 512) (\<lambda>r.
        if r_val r > 0 then Ret (Inl (fold wc_char (r_data r) st)) else Ret (Inr (r_val r, st)))) (0, 0, 0, False))
     (\<lambda>(n, l, w, c, _).
        if n < 0 then ubind (ufprintf 1 (''wc: read error'' @ nl) []) (\<lambda>_. Exit 1)
        else ufprintf 1 (''%d %d %d %s'' @ nl) [VNum (of_int l), VNum (of_int w), VNum (of_int c), VStr (Some name)])"

primrec wc_files :: "string list \<Rightarrow> unit uprog" where
  "wc_files [] = Exit 0"
| "wc_files (f # fs) = Sys (UOpen f O_RDONLY) (\<lambda>r.
     if r_val r < 0 then ubind (ufprintf 1 (''wc: cannot open %s'' @ nl) [VStr (Some f)]) (\<lambda>_. Exit 1)
     else ubind (wc (r_val r) f) (\<lambda>_. Sys (UClose (r_val r)) (\<lambda>_. wc_files fs)))"

definition wc_main :: "string list \<Rightarrow> unit uprog" where
  "wc_main argv = (if length argv \<le> 1 then ubind (wc 0 []) (\<lambda>_. Exit 0) else wc_files (tl argv))"

section \<open>ls\<close>

text \<open>The name after the last slash, padded with blanks to \<open>DIRSIZ\<close>.\<close>

definition fmtname :: "string \<Rightarrow> string" where
  "fmtname path =
     (let p = rev (takeWhile (\<lambda>c. c \<noteq> CHR ''/'') (rev path)) in
      if length p \<ge> DIRSIZ then p else p @ replicate (DIRSIZ - length p) (CHR '' ''))"

definition ls_line :: "string \<Rightarrow> uret \<Rightarrow> unit uprog" where
  "ls_line path st = ufprintf 1 (''%s %d %d %d'' @ nl)
     [VStr (Some (fmtname path)), VNum (of_int (r_ftype st)), VNum (of_nat (r_ino st)), VNum (of_nat (r_fsize st))]"

text \<open>\<open>stat\<close> of \<^verbatim>\<open>user/ulib.c\<close>: open, \<open>fstat\<close>, close. The result of a failed open has value -1.\<close>

definition ustat :: "string \<Rightarrow> (uret \<Rightarrow> 'a uprog) \<Rightarrow> 'a uprog" where
  "ustat path k = Sys (UOpen path O_RDONLY) (\<lambda>r.
     if r_val r < 0 then k (r\<lparr>r_val := -1\<rparr>)
     else Sys (UFstat (r_val r)) (\<lambda>st. Sys (UClose (r_val r)) (\<lambda>_. k st)))"

text \<open>An entry of a directory is 16 bytes: the inode number, little endian, and the name.\<close>

definition de_inum :: "string \<Rightarrow> nat" where
  "de_inum d = of_char (d ! 0) + 256 * of_char (d ! 1)"

definition de_cname :: "string \<Rightarrow> string" where
  "de_cname d = takeWhile (\<lambda>c. c \<noteq> NUL) (take DIRSIZ (drop 2 d))"

definition ls_dir :: "int \<Rightarrow> string \<Rightarrow> unit uprog" where
  "ls_dir fd path = uloop (\<lambda>_. Sys (URead fd 16) (\<lambda>r.
     if r_val r \<noteq> 16 then Ret (Inr ())
     else if de_inum (r_data r) = 0 then Ret (Inl ())
     else let buf = path @ ''/'' @ de_cname (r_data r) in
       ustat buf (\<lambda>st.
         if r_val st < 0 then ubind (ufprintf 1 (''ls: cannot stat %s'' @ nl) [VStr (Some buf)]) (\<lambda>_. Ret (Inl ()))
         else ubind (ls_line buf st) (\<lambda>_. Ret (Inl ()))))) ()"

definition ls :: "string \<Rightarrow> unit uprog" where
  "ls path = Sys (UOpen path O_RDONLY) (\<lambda>r. let fd = r_val r in
     if fd < 0 then ufprintf 2 (''ls: cannot open %s'' @ nl) [VStr (Some path)]
     else Sys (UFstat fd) (\<lambda>st.
       if r_val st < 0 then
         ubind (ufprintf 2 (''ls: cannot stat %s'' @ nl) [VStr (Some path)]) (\<lambda>_. Sys (UClose fd) (\<lambda>_. Ret ()))
       else ubind
         (if r_ftype st = 3 \<or> r_ftype st = 2 then ls_line path st
          else if r_ftype st = 1 then
            (if length path + 1 + DIRSIZ + 1 > 512 then ufprintf 1 (''ls: path too long'' @ nl) [] else ls_dir fd path)
          else Ret ())
         (\<lambda>_. Sys (UClose fd) (\<lambda>_. Ret ()))))"

primrec ls_args :: "string list \<Rightarrow> unit uprog" where
  "ls_args [] = Exit 0"
| "ls_args (a # as) = ubind (ls a) (\<lambda>_. ls_args as)"

definition ls_main :: "string list \<Rightarrow> unit uprog" where
  "ls_main argv = (if length argv < 2 then ubind (ls ''.'') (\<lambda>_. Exit 0) else ls_args (tl argv))"

section \<open>ln, rm, mkdir, kill\<close>

definition ln_main :: "string list \<Rightarrow> unit uprog" where
  "ln_main argv =
     (if length argv \<noteq> 3 then ubind (ufprintf 2 (''Usage: ln old new'' @ nl) []) (\<lambda>_. Exit 1)
      else Sys (ULink (argv ! 1) (argv ! 2)) (\<lambda>r.
        if r_val r < 0 then
          ubind (ufprintf 2 (''link %s %s: failed'' @ nl) [VStr (Some (argv ! 1)), VStr (Some (argv ! 2))]) (\<lambda>_. Exit 0)
        else Exit 0))"

primrec rm_args :: "string list \<Rightarrow> unit uprog" where
  "rm_args [] = Exit 0"
| "rm_args (a # as) = Sys (UUnlink a) (\<lambda>r.
     if r_val r < 0 then ubind (ufprintf 2 (''rm: %s failed to delete'' @ nl) [VStr (Some a)]) (\<lambda>_. Exit 0) else rm_args as)"

definition rm_main :: "string list \<Rightarrow> unit uprog" where
  "rm_main argv =
     (if length argv < 2 then ubind (ufprintf 2 (''Usage: rm files...'' @ nl) []) (\<lambda>_. Exit 1) else rm_args (tl argv))"

primrec mkdir_args :: "string list \<Rightarrow> unit uprog" where
  "mkdir_args [] = Exit 0"
| "mkdir_args (a # as) = Sys (UMkdir a) (\<lambda>r.
     if r_val r < 0 then ubind (ufprintf 2 (''mkdir: %s failed to create'' @ nl) [VStr (Some a)]) (\<lambda>_. Exit 0) else mkdir_args as)"

definition mkdir_main :: "string list \<Rightarrow> unit uprog" where
  "mkdir_main argv =
     (if length argv < 2 then ubind (ufprintf 2 (''Usage: mkdir files...'' @ nl) []) (\<lambda>_. Exit 1) else mkdir_args (tl argv))"

text \<open>For a number that overflows in \<open>atoi\<close> the program's behaviour is not defined; the model makes no system call then.\<close>

primrec kill_args :: "string list \<Rightarrow> unit uprog" where
  "kill_args [] = Exit 0"
| "kill_args (a # as) = (case atoi a of Ok n \<Rightarrow> Sys (UKill n) (\<lambda>_. kill_args as) | Fail _ \<Rightarrow> Spin)"

definition kill_main :: "string list \<Rightarrow> unit uprog" where
  "kill_main argv =
     (if length argv < 2 then ubind (ufprintf 2 (''usage: kill pid...'' @ nl) []) (\<lambda>_. Exit 1) else kill_args (tl argv))"

section \<open>init and zombie\<close>

definition init_wait :: "int \<Rightarrow> unit uprog" where
  "init_wait pid = uloop (\<lambda>_. Sys (UWait False) (\<lambda>r.
     if r_val r = pid then Ret (Inr ())
     else if r_val r < 0 then ubind (ufprintf 1 (''init: wait returned an error'' @ nl) []) (\<lambda>_. Exit 1)
     else Ret (Inl ()))) ()"

definition init_shell :: "unit uprog" where
  "init_shell = ubind (ufprintf 1 (''init: starting sh'' @ nl) []) (\<lambda>_. Sys UFork (\<lambda>r. let pid = r_val r in
     if pid < 0 then ubind (ufprintf 1 (''init: fork failed'' @ nl) []) (\<lambda>_. Exit 1)
     else if pid = 0 then
       Sys (UExec ''sh'' [''sh'']) (\<lambda>_. ubind (ufprintf 1 (''init: exec sh failed'' @ nl) []) (\<lambda>_. Exit 1))
     else init_wait pid))"

definition init_main :: "unit uprog" where
  "init_main = Sys (UOpen ''console'' O_RDWR) (\<lambda>r.
     let k = Sys (UDup 0) (\<lambda>_. Sys (UDup 0) (\<lambda>_. uloop (\<lambda>_. ubind init_shell (\<lambda>_. Ret (Inl ()))) ())) in
     if r_val r < 0 then Sys (UMknod ''console'' 1 0) (\<lambda>_. Sys (UOpen ''console'' O_RDWR) (\<lambda>_. k)) else k)"

definition zombie_main :: "unit uprog" where
  "zombie_main = Sys UFork (\<lambda>r. if r_val r > 0 then Sys (USleep 5) (\<lambda>_. Exit 0) else Exit 0)"

section \<open>forktest and stressfs\<close>

text \<open>The forks that succeeded; the child of each exits.\<close>

primrec ft_forks :: "nat \<Rightarrow> nat \<Rightarrow> nat uprog" where
  "ft_forks 0 n = Ret n"
| "ft_forks (Suc m) n = Sys UFork (\<lambda>r.
     if r_val r < 0 then Ret n else if r_val r = 0 then Exit 0 else ft_forks m (n + 1))"

primrec ft_waits :: "nat \<Rightarrow> unit uprog" where
  "ft_waits 0 = Ret ()"
| "ft_waits (Suc n) = Sys (UWait False) (\<lambda>r.
     if r_val r < 0 then Sys (UWrite 1 (''wait stopped early'' @ nl)) (\<lambda>_. Exit 1) else ft_waits n)"

definition forktest_main :: "unit uprog" where
  "forktest_main = Sys (UWrite 1 (''fork test'' @ nl)) (\<lambda>_. ubind (ft_forks 1000 0) (\<lambda>n.
     if n = 1000 then Sys (UWrite 1 (''fork claimed to work N times!'' @ nl)) (\<lambda>_. Exit 1)
     else ubind (ft_waits n) (\<lambda>_. Sys (UWait False) (\<lambda>r.
       if r_val r \<noteq> -1 then Sys (UWrite 1 (''wait got too many'' @ nl)) (\<lambda>_. Exit 1)
       else Sys (UWrite 1 (''fork test OK'' @ nl)) (\<lambda>_. Exit 0)))))"

primrec urepeat :: "nat \<Rightarrow> ucall \<Rightarrow> unit uprog" where
  "urepeat 0 c = Ret ()"
| "urepeat (Suc n) c = Sys c (\<lambda>_. urepeat n c)"

primrec sf_forks :: "nat \<Rightarrow> nat \<Rightarrow> nat uprog" where
  "sf_forks 0 i = Ret i"
| "sf_forks (Suc m) i = Sys UFork (\<lambda>r. if r_val r > 0 then Ret i else sf_forks m (i + 1))"

definition stressfs_main :: "unit uprog" where
  "stressfs_main = ubind (ufprintf 1 (''stressfs starting'' @ nl) []) (\<lambda>_. ubind (sf_forks 4 0) (\<lambda>i.
     ubind (ufprintf 1 (''write %d'' @ nl) [VNum (of_nat i)]) (\<lambda>_.
     let path = ''stressfs'' @ [char_of (48 + i)] in
     Sys (UOpen path (O_CREATE OR O_RDWR)) (\<lambda>f. ubind (urepeat 20 (UWrite (r_val f) (replicate 512 (CHR ''a'')))) (\<lambda>_.
     Sys (UClose (r_val f)) (\<lambda>_. ubind (ufprintf 1 (''read'' @ nl) []) (\<lambda>_.
     Sys (UOpen path O_RDONLY) (\<lambda>f. ubind (urepeat 20 (URead (r_val f) 512)) (\<lambda>_.
     Sys (UClose (r_val f)) (\<lambda>_. Sys (UWait False) (\<lambda>_. Exit 0)))))))))))"

section \<open>grep\<close>

text \<open>The complete lines of the buffer, one write for each that matches; the result is the text from \<open>p\<close> on.\<close>

function grep_writes :: "string \<Rightarrow> string \<Rightarrow> string uprog" where
  "grep_writes pattern p =
     (case strchr p (CHR 0x0A) of
        None \<Rightarrow> Ret p
      | Some q \<Rightarrow>
          if match pattern (take q p) then Sys (UWrite 1 (take (q + 1) p)) (\<lambda>_. grep_writes pattern (drop (q + 1) p))
          else grep_writes pattern (drop (q + 1) p))"
  by pat_completeness auto
termination by (relation "measure (\<lambda>(pat, p). length p)") (auto dest: strchr_less)

declare grep_writes.simps [simp del]

definition ugrep :: "string \<Rightarrow> int \<Rightarrow> unit uprog" where
  "ugrep pattern fd = uloop (\<lambda>b. Sys (URead fd (GREPBUF - length b - 1)) (\<lambda>r.
     if r_val r > 0 then ubind (grep_writes pattern (b @ r_data r)) (\<lambda>rest. Ret (Inl rest))
     else Ret (Inr ()))) []"

primrec grep_files :: "string \<Rightarrow> string list \<Rightarrow> unit uprog" where
  "grep_files pattern [] = Exit 0"
| "grep_files pattern (f # fs) = Sys (UOpen f O_RDONLY) (\<lambda>r.
     if r_val r < 0 then ubind (ufprintf 1 (''grep: cannot open %s'' @ nl) [VStr (Some f)]) (\<lambda>_. Exit 1)
     else ubind (ugrep pattern (r_val r)) (\<lambda>_. Sys (UClose (r_val r)) (\<lambda>_. grep_files pattern fs)))"

definition grep_main :: "string list \<Rightarrow> unit uprog" where
  "grep_main argv =
     (if length argv \<le> 1 then ubind (ufprintf 2 (''usage: grep pattern [file ...]'' @ nl) []) (\<lambda>_. Exit 1)
      else if length argv \<le> 2 then ubind (ugrep (argv ! 1) 0) (\<lambda>_. Exit 0)
      else grep_files (argv ! 1) (drop 2 argv))"

end
