(* ===== verification/Xv6_Umalloc.thy ===== *)
theory Xv6_Umalloc
  imports Xv6_Prelude
begin

text \<open>
  The memory allocator of user programs, \<^verbatim>\<open>user/umalloc.c\<close>. Addresses are numbers; a header takes 16 bytes and its fields are functions of its address.
  The free blocks form a ring in the order of their addresses, which starts at the static header \<^verbatim>\<open>base\<close>. The loops follow the ring and may not
  end when it is damaged. \<open>grow n b\<close> says whether the kernel grants \<^verbatim>\<open>sbrk(n)\<close> at break \<open>b\<close>.
\<close>

section \<open>The code\<close>

record uheap =
  hptr :: "nat \<Rightarrow> nat"
  hsize :: "nat \<Rightarrow> nat"
  freep :: nat
  brk :: nat
  base :: nat

text \<open>The place in the ring where \<open>free\<close> inserts a block.\<close>

partial_function (option) free_find :: "uheap \<Rightarrow> nat \<Rightarrow> nat \<Rightarrow> nat option" where
  "free_find h bp p =
     (if bp > p \<and> bp < hptr h p then Some p
      else if p \<ge> hptr h p \<and> (bp > p \<or> bp < hptr h p) then Some p
      else free_find h bp (hptr h p))"

definition free_upper :: "nat \<Rightarrow> nat \<Rightarrow> uheap \<Rightarrow> uheap" where
  "free_upper bp p h =
     (let q = hptr h p in
      if bp + 16 * hsize h bp = q then
        let h = h\<lparr>hsize := (hsize h)(bp := (hsize h bp + hsize h q) mod 2 ^ 32)\<rparr> in h\<lparr>hptr := (hptr h)(bp := hptr h q)\<rparr>
      else h\<lparr>hptr := (hptr h)(bp := q)\<rparr>)"

definition free_lower :: "nat \<Rightarrow> nat \<Rightarrow> uheap \<Rightarrow> uheap" where
  "free_lower bp p h =
     (if p + 16 * hsize h p = bp then
        let h = h\<lparr>hsize := (hsize h)(p := (hsize h p + hsize h bp) mod 2 ^ 32)\<rparr> in h\<lparr>hptr := (hptr h)(p := hptr h bp)\<rparr>
      else h\<lparr>hptr := (hptr h)(p := bp)\<rparr>)"

definition ufree :: "nat \<Rightarrow> uheap \<Rightarrow> uheap option" where
  "ufree ap h =
     (let bp = ap - 16 in
      case free_find h bp (freep h) of
        None \<Rightarrow> None
      | Some p \<Rightarrow> Some ((free_lower bp p (free_upper bp p h))\<lparr>freep := p\<rparr>))"

text \<open>The argument of \<open>sbrk\<close> is an \<^verbatim>\<open>int\<close>. A null pointer is 0.\<close>

definition morecore :: "(int \<Rightarrow> nat \<Rightarrow> bool) \<Rightarrow> nat \<Rightarrow> uheap \<Rightarrow> (nat \<times> uheap) option" where
  "morecore grow nu h =
     (let nu = (if nu < 4096 then 4096 else nu); n = sint (of_nat (nu * 16) :: u32) in
      if \<not> grow n (brk h) then Some (0, h)
      else
        let hp = brk h; h = h\<lparr>brk := nat (int (brk h) + n)\<rparr>; h = h\<lparr>hsize := (hsize h)(hp := nu)\<rparr> in
        case ufree (hp + 16) h of None \<Rightarrow> None | Some h \<Rightarrow> Some (freep h, h))"

definition take_block :: "nat \<Rightarrow> nat \<Rightarrow> nat \<Rightarrow> uheap \<Rightarrow> nat \<times> uheap" where
  "take_block nunits prevp p h =
     (if hsize h p = nunits then (p + 16, h\<lparr>hptr := (hptr h)(prevp := hptr h p), freep := prevp\<rparr>)
      else
        let h = h\<lparr>hsize := (hsize h)(p := hsize h p - nunits)\<rparr>; p = p + 16 * hsize h p; h = h\<lparr>hsize := (hsize h)(p := nunits)\<rparr>
        in (p + 16, h\<lparr>freep := prevp\<rparr>))"

partial_function (option) malloc_loop :: "(int \<Rightarrow> nat \<Rightarrow> bool) \<Rightarrow> nat \<Rightarrow> nat \<Rightarrow> nat \<Rightarrow> uheap \<Rightarrow> (nat \<times> uheap) option" where
  "malloc_loop grow nunits prevp p h =
     (if hsize h p \<ge> nunits then Some (take_block nunits prevp p h)
      else if p = freep h then
        Option.bind (morecore grow nunits h) (\<lambda>r.
          if fst r = 0 then Some (0, snd r) else malloc_loop grow nunits (fst r) (hptr (snd r) (fst r)) (snd r))
      else malloc_loop grow nunits p (hptr h p) h)"

definition umalloc :: "(int \<Rightarrow> nat \<Rightarrow> bool) \<Rightarrow> nat \<Rightarrow> uheap \<Rightarrow> (nat \<times> uheap) option" where
  "umalloc grow nbytes h =
     (let nunits = (nbytes + 16 - 1) div 16 + 1;
          h = (if freep h = 0 then h\<lparr>hptr := (hptr h)(base h := base h), freep := base h, hsize := (hsize h)(base h := 0)\<rparr> else h)
      in malloc_loop grow nunits (freep h) (hptr h (freep h)) h)"

section \<open>The ring\<close>

fun links :: "(nat \<Rightarrow> nat) \<Rightarrow> nat \<Rightarrow> nat list \<Rightarrow> nat \<Rightarrow> bool" where
  "links f a [] b \<longleftrightarrow> f a = b"
| "links f a (x # xs) b \<longleftrightarrow> f a = x \<and> links f x xs b"

lemma links_append: "links f a (xs @ y # ys) b \<longleftrightarrow> links f a xs y \<and> links f y ys b"
  by (induction xs arbitrary: a) auto

lemma links_upd [simp]: "p \<noteq> a \<Longrightarrow> p \<notin> set xs \<Longrightarrow> links (f(p := v)) a xs b = links f a xs b"
  by (induction xs arbitrary: a) auto

lemma links_next: "links f a xs b \<Longrightarrow> f a = hd (xs @ [b])"
  by (cases xs) auto

text \<open>Every free block ends before the next one begins, and the last before the break.\<close>

definition ring :: "uheap \<Rightarrow> nat list \<Rightarrow> bool" where
  "ring h xs \<longleftrightarrow> links (hptr h) (base h) xs (base h) \<and> 0 < base h \<and> hsize h (base h) = 0 \<and> freep h \<in> set (base h # xs) \<and>
     (\<forall>x \<in> set xs. base h + 16 \<le> x \<and> 0 < hsize h x \<and> x + 16 * hsize h x \<le> brk h) \<and>
     sorted_wrt (\<lambda>x y. x + 16 * hsize h x < y) xs"

definition cover :: "uheap \<Rightarrow> nat list \<Rightarrow> nat set" where
  "cover h xs = (\<Union>x \<in> set xs. {x..<x + 16 * hsize h x})"

lemma ring_sorted:
  assumes "ring h xs"
  shows "sorted_wrt (<) (base h # xs)"
proof -
  have "sorted_wrt (<) xs" using assms unfolding ring_def by (elim conjE) (erule sorted_wrt_mono_rel [rotated], simp)
  then show ?thesis using assms by (auto simp: ring_def)
qed

text \<open>From any element of the ring one gets back to it through all the others.\<close>

lemma ring_from:
  assumes "ring h xs" and "base h # xs = us @ f # vs"
  shows "links (hptr h) f (vs @ us) f"
proof (cases us)
  case Nil
  then show ?thesis using assms by (auto simp: ring_def)
next
  case (Cons u us')
  then have "u = base h" "xs = us' @ f # vs" using assms(2) by auto
  then show ?thesis using assms(1) Cons links_append [of "hptr h" f vs "base h" us' f] links_append [of "hptr h" "base h" us' f vs "base h"]
    by (auto simp: ring_def)
qed

section \<open>free finds its place\<close>

lemma find_stop:
  assumes "bp > p \<and> bp < hptr h p \<or> p \<ge> hptr h p \<and> (bp > p \<or> bp < hptr h p)"
  shows "free_find h bp p = Some p"
  using assms by (subst free_find.simps) auto

lemma find_walk:
  assumes "\<not> (bp > p \<and> bp < hptr h p)" and "\<not> (p \<ge> hptr h p \<and> (bp > p \<or> bp < hptr h p))"
  shows "free_find h bp p = free_find h bp (hptr h p)"
  using assms by (subst free_find.simps) auto

lemma find_low:
  assumes "links (hptr h) a ws p" and "sorted_wrt (<) (a # ws @ [p])" and "p < bp"
  shows "free_find h bp a = free_find h bp p"
  using assms
proof (induction ws arbitrary: a)
  case Nil
  then show ?case using find_walk [of a bp h] by auto
next
  case (Cons w ws)
  then have "free_find h bp a = free_find h bp w" using find_walk [of a bp h] by auto
  then show ?case using Cons by auto
qed

lemma find_high:
  assumes "links (hptr h) a ws b" and "sorted_wrt (<) (a # ws)" and "b < bp" and "bp < a"
  shows "free_find h bp a = free_find h bp b"
  using assms
proof (induction ws arbitrary: a)
  case Nil
  then show ?case using find_walk [of a bp h] by auto
next
  case (Cons w ws)
  then have "free_find h bp a = free_find h bp w" using find_walk [of a bp h] by auto
  then show ?case using Cons by auto
qed

text \<open>The block is inserted behind the last element below it, wherever the search begins.\<close>

lemma free_find_place:
  assumes R: "ring h xs" and e: "base h # xs = us @ p # vs" and lo: "p < bp" and hi: "\<forall>v \<in> set vs. bp < v"
  shows "free_find h bp (freep h) = Some p"
proof -
  have S: "sorted_wrt (<) (us @ p # vs)" using ring_sorted [OF R] e by simp
  have b: "base h \<le> p" using S e by (cases us) (auto simp: sorted_wrt_append)
  have nx: "hptr h p = hd (vs @ [base h])"
  proof (cases us)
    case Nil
    then show ?thesis using R e by (auto simp: ring_def dest: links_next)
  next
    case (Cons u us')
    then have "links (hptr h) p vs (base h)" using R e by (auto simp: ring_def links_append)
    then show ?thesis by (rule links_next)
  qed
  have stop: "free_find h bp p = Some p"
    by (rule find_stop) (use nx lo hi b in \<open>cases vs; auto\<close>)
  have low: "free_find h bp a = Some p" if a: "us = as @ a # bs" for as a bs
  proof -
    have "links (hptr h) a (bs @ p # vs @ as) a" using ring_from [OF R, of as a "bs @ p # vs"] e a by simp
    then have "links (hptr h) a bs p" by (simp add: links_append)
    then show ?thesis using find_low [of h a bs p bp] S a lo stop by (auto simp: sorted_wrt_append)
  qed
  have frombase: "free_find h bp (base h) = Some p"
    using e low [of "[]" "base h" "tl us"] stop by (cases us) auto
  have "freep h \<in> set us \<or> freep h = p \<or> freep h \<in> set vs" using R e unfolding ring_def by (metis in_set_conv_decomp set_append set_ConsD Un_iff)
  then show ?thesis
  proof (elim disjE)
    assume "freep h \<in> set us"
    then obtain as bs where "us = as @ freep h # bs" by (meson split_list)
    then show ?thesis by (rule low)
  next
    assume "freep h \<in> set vs"
    then obtain as bs where v: "vs = as @ freep h # bs" by (meson split_list)
    obtain xs1 where xs1: "xs = xs1 @ freep h # bs" using e v by (cases us) auto
    then have "links (hptr h) (freep h) bs (base h)" using R by (simp add: ring_def links_append)
    then show ?thesis using find_high [of h "freep h" bs "base h" bp] S v hi b lo frombase by (auto simp: sorted_wrt_append)
  qed (simp add: stop)
qed

section \<open>free keeps the ring\<close>

lemma links_cong: "links f a xs b \<Longrightarrow> (\<And>x. x \<in> set (a # xs) \<Longrightarrow> g x = f x) \<Longrightarrow> links g a xs b"
  by (induction xs arbitrary: a) auto

lemma links_replace:
  assumes "links f b xs b" and "b # xs = us @ p # vs" and "\<And>x. x \<in> set us \<Longrightarrow> g x = f x" and "links g p ws b"
  shows "links g b (tl (us @ p # ws)) b"
proof (cases us)
  case Nil
  then show ?thesis using assms by simp
next
  case (Cons u us')
  then have "u = b" "links f b us' p" using assms(1,2) by (auto simp: links_append)
  moreover have "links g b us' p" by (rule links_cong [OF \<open>links f b us' p\<close>]) (use assms(3) Cons \<open>u = b\<close> in auto)
  ultimately show ?thesis using Cons assms(4) by (simp add: links_append)
qed

lemma links_suffix:
  assumes "links f b xs b" and "b # xs = us @ p # vs"
  shows "links f p vs b"
  using assms by (cases us) (auto simp: links_append)

lemma cover_base: "hsize h b = 0 \<Longrightarrow> cover h (b # xs) = cover h xs"
  by (simp add: cover_def)

lemma cover_append: "cover h (xs @ ys) = cover h xs \<union> cover h ys"
  by (auto simp: cover_def)

lemma cover_Cons: "cover h (x # xs) = {x..<x + 16 * hsize h x} \<union> cover h xs"
  by (simp add: cover_def)

lemma cover_cong: "(\<And>x. x \<in> set xs \<Longrightarrow> hsize h' x = hsize h x) \<Longrightarrow> cover h' xs = cover h xs"
  by (simp add: cover_def)

text \<open>The ring with its base as one list.\<close>

lemma ring_gap:
  assumes "ring h xs"
  shows "sorted_wrt (\<lambda>x y. x + 16 * hsize h x < y) (base h # xs)"
  using assms by (auto simp: ring_def)

text \<open>The place of a block that overlaps no free block.\<close>

lemma free_place:
  assumes R: "ring h xs" and bp: "base h + 16 \<le> bp" "0 < hsize h bp" and dis: "cover h xs \<inter> {bp..<bp + 16 * hsize h bp} = {}"
  obtains us p vs where "base h # xs = us @ p # vs" "p + 16 * hsize h p \<le> bp" "p < bp" "\<forall>v \<in> set vs. bp + 16 * hsize h bp \<le> v"
proof -
  let ?L = "base h # xs" and ?P = "\<lambda>x. x < bp"
  have ne: "takeWhile ?P ?L \<noteq> []" using bp by simp
  define us p vs where "us = butlast (takeWhile ?P ?L)" and "p = last (takeWhile ?P ?L)" and "vs = dropWhile ?P ?L"
  have "?L = (us @ [p]) @ vs" unfolding us_def p_def vs_def append_butlast_last_id [OF ne] by (rule takeWhile_dropWhile_id [symmetric])
  then have e: "?L = us @ p # vs" by simp
  have p: "p < bp" using set_takeWhileD [of p ?P ?L] last_in_set [OF ne] by (simp add: p_def del: takeWhile.simps)
  have G: "sorted_wrt (\<lambda>x y. x + 16 * hsize h x < y) (us @ p # vs)" using ring_gap [OF R] e by simp
  have apart: "x + 16 * hsize h x \<le> bp \<or> bp + 16 * hsize h bp \<le> x" if x: "x \<in> set ?L" for x
  proof (cases "x = base h")
    case True
    then show ?thesis using R bp by (simp add: ring_def)
  next
    case False
    then have "x \<in> set xs" "0 < hsize h x" using x R by (auto simp: ring_def)
    then have "{x..<x + 16 * hsize h x} \<subseteq> cover h xs" by (auto simp: cover_def)
    then have "{x..<x + 16 * hsize h x} \<inter> {bp..<bp + 16 * hsize h bp} = {}" using dis by blast
    then have "max x bp \<notin> {x..<x + 16 * hsize h x} \<inter> {bp..<bp + 16 * hsize h bp}" by blast
    then show ?thesis using bp \<open>0 < hsize h x\<close> by (auto simp: max_def split: if_splits)
  qed
  have "p + 16 * hsize h p \<le> bp" using apart [of p] p e by fastforce
  moreover have "bp + 16 * hsize h bp \<le> v" if "v \<in> set vs" for v
  proof -
    have "vs \<noteq> []" using that by auto
    then have "\<not> hd vs < bp" using hd_dropWhile [of ?P ?L] by (simp add: vs_def del: dropWhile.simps)
    moreover have "hd vs \<le> v" using G that by (cases vs) (auto simp: sorted_wrt_append)
    ultimately have "bp \<le> v" by simp
    have L: "v \<in> set ?L" unfolding e using that by simp
    then have "0 < hsize h v" using R \<open>bp \<le> v\<close> bp(1) by (auto simp: ring_def)
    then show ?thesis using apart [OF L] \<open>bp \<le> v\<close> by simp
  qed
  ultimately show thesis using that e p by blast
qed

lemma free_upper_ok:
  assumes R: "ring h xs" and e: "base h # xs = us @ p # vs" and p: "p < bp" and b: "base h < bp" and s: "0 < hsize h bp" "bp + 16 * hsize h bp \<le> brk h" "brk h \<le> 2 ^ 36"
    and hi: "\<forall>v \<in> set vs. bp + 16 * hsize h bp \<le> v"
  obtains vs1 s1 where "free_upper bp p h = h\<lparr>hsize := (hsize h)(bp := s1), hptr := (hptr h)(bp := hd (vs1 @ [base h]))\<rparr>"
    "set vs1 \<subseteq> set vs" "sorted_wrt (\<lambda>x y. x + 16 * hsize h x < y) vs1" "\<forall>v \<in> set vs1. bp + 16 * s1 < v" "0 < s1" "bp + 16 * s1 \<le> brk h"
    "{bp..<bp + 16 * s1} \<union> cover h vs1 = {bp..<bp + 16 * hsize h bp} \<union> cover h vs" "links ((hptr h)(bp := hd (vs1 @ [base h]))) bp vs1 (base h)"
proof -
  have L: "links (hptr h) p vs (base h)" using R e by (auto simp: ring_def intro: links_suffix)
  have q: "hptr h p = hd (vs @ [base h])" using L by (rule links_next)
  have G: "sorted_wrt (\<lambda>x y. x + 16 * hsize h x < y) vs" using ring_gap [OF R] e by (simp add: sorted_wrt_append)
  have nb: "bp \<notin> set vs" using hi s by force
  show thesis
  proof (cases "bp + 16 * hsize h bp = hptr h p")
    case False
    have "bp + 16 * hsize h bp < v" if "v \<in> set vs" for v
      using hi that False q G by (cases vs) force+
    moreover have "links ((hptr h)(bp := hd (vs @ [base h]))) bp vs (base h)"
      using L nb by (cases vs) auto
    ultimately show thesis
      using that [of vs "hsize h bp"] False q s G by (simp add: free_upper_def Let_def)
  next
    case True
    then obtain v vs' where vs: "vs = v # vs'" "v = bp + 16 * hsize h bp" using q b by (cases vs) auto
    have v: "0 < hsize h v" "v + 16 * hsize h v \<le> brk h"
    proof -
      have "v \<in> set xs" using e vs b by (cases us) auto
      then show "0 < hsize h v" "v + 16 * hsize h v \<le> brk h" using R by (auto simp: ring_def)
    qed
    let ?s = "hsize h bp + hsize h v"
    have m: "?s mod 2 ^ 32 = ?s" using v(2) vs(2) s(3) b by simp
    have L': "links (hptr h) v vs' (base h)" using L vs by simp
    have ne: "v \<noteq> bp" using vs s by simp
    have fu: "free_upper bp p h = h\<lparr>hsize := (hsize h)(bp := ?s), hptr := (hptr h)(bp := hd (vs' @ [base h]))\<rparr>"
      using True vs m links_next [OF L'] q by (simp add: free_upper_def Let_def)
    have nb': "bp \<notin> set vs'" using nb vs by simp
    have l: "links ((hptr h)(bp := hd (vs' @ [base h]))) bp vs' (base h)"
      using L' nb' by (cases vs') auto
    have c: "{bp..<bp + 16 * ?s} \<union> cover h vs' = {bp..<bp + 16 * hsize h bp} \<union> cover h vs"
      using vs by (auto simp: cover_Cons)
    show thesis
      by (rule that [of vs' ?s, OF fu _ _ _ _ _ c l]) (use vs G v s in auto)
  qed
qed

text \<open>What follows an element of the ring is replaced by \<open>ws\<close>.\<close>

lemma ring_replace:
  assumes R: "ring h xs" and e: "base h # xs = us @ p # vs"
    and f: "base h' = base h" "brk h' = brk h" "freep h' = p"
    and us: "\<forall>x \<in> set us. hptr h' x = hptr h x \<and> hsize h' x = hsize h x"
    and p: "p = base h \<Longrightarrow> hsize h' p = 0" "p \<noteq> base h \<Longrightarrow> 0 < hsize h' p \<and> p + 16 * hsize h' p \<le> brk h"
    and ws: "links (hptr h') p ws (base h)" "sorted_wrt (\<lambda>x y. x + 16 * hsize h' x < y) (p # ws)"
      "\<forall>w \<in> set ws. base h + 16 \<le> w \<and> 0 < hsize h' w \<and> w + 16 * hsize h' w \<le> brk h"
  shows "ring h' (tl (us @ p # ws))" and "cover h' (tl (us @ p # ws)) = cover h us \<union> cover h' (p # ws)"
proof -
  let ?xs = "tl (us @ p # ws)"
  have b: "base h # ?xs = us @ p # ws" using e by (cases us) auto
  have z: "hsize h' (base h) = 0"
    using R us p(1) b by (cases us) (auto simp: ring_def)
  have x: "base h + 16 \<le> x \<and> 0 < hsize h' x \<and> x + 16 * hsize h' x \<le> brk h" if "x \<in> set ?xs" for x
  proof (cases "x \<in> set ws")
    case False
    have "x \<in> set xs" "x \<in> set us \<or> x = p" using that False e by (cases us; auto)+
    then show ?thesis using R us p by (auto simp: ring_def)
  qed (use ws(3) in blast)
  have l: "links (hptr h') (base h) ?xs (base h)"
    by (rule links_replace [OF _ e _ ws(1)]) (use R us in \<open>auto simp: ring_def\<close>)
  have G: "sorted_wrt (\<lambda>x y. x + 16 * hsize h x < y) (us @ p # vs)" using ring_gap [OF R] e by simp
  have "sorted_wrt (\<lambda>x y. x + 16 * hsize h' x < y) us"
    by (rule sorted_wrt_mono_rel [of us "\<lambda>x y. x + 16 * hsize h x < y"]) (use G us in \<open>auto simp: sorted_wrt_append\<close>)
  moreover have "x + 16 * hsize h' x < y" if "x \<in> set us" "y \<in> set (p # ws)" for x y
  proof -
    have "x + 16 * hsize h' x < p" using G us that(1) by (auto simp: sorted_wrt_append)
    moreover have "p \<le> y" using ws(2) that(2) by auto
    ultimately show ?thesis by simp
  qed
  ultimately have "sorted_wrt (\<lambda>x y. x + 16 * hsize h' x < y) (us @ p # ws)" using ws(2) by (simp add: sorted_wrt_append)
  then have g: "sorted_wrt (\<lambda>x y. x + 16 * hsize h' x < y) ?xs" using b by (metis sorted_wrt.simps(2))
  show "ring h' ?xs" unfolding ring_def f using l z x g R b by (auto simp: ring_def simp del: tl_append)
  have "cover h' ?xs = cover h' (us @ p # ws)" using z cover_base [of h' "base h" ?xs] b by simp
  also have "\<dots> = cover h us \<union> cover h' (p # ws)" using us cover_cong [of us h' h] by (simp add: cover_append)
  finally show "cover h' ?xs = cover h us \<union> cover h' (p # ws)" .
qed

lemma links_head:
  assumes "links f a vs b" and "g p = f a" and "\<And>x. x \<in> set vs \<Longrightarrow> g x = f x"
  shows "links g p vs b"
  using assms by (cases vs) (auto intro: links_cong)

lemma free_inserts:
  assumes R: "ring h xs" and bp: "base h + 16 \<le> bp" "0 < hsize h bp" "bp + 16 * hsize h bp \<le> brk h" "brk h \<le> 2 ^ 36"
    and dis: "cover h xs \<inter> {bp..<bp + 16 * hsize h bp} = {}"
  obtains h' xs' where "ufree (bp + 16) h = Some h'" "ring h' xs'" "cover h' xs' = cover h xs \<union> {bp..<bp + 16 * hsize h bp}"
    "brk h' = brk h" "base h' = base h" "\<And>a. a \<notin> cover h xs \<Longrightarrow> a \<noteq> bp \<Longrightarrow> hsize h' a = hsize h a"
proof -
  obtain us p vs where P: "base h # xs = us @ p # vs" "p + 16 * hsize h p \<le> bp" "p < bp" "\<forall>v \<in> set vs. bp + 16 * hsize h bp \<le> v"
    by (rule free_place [OF R bp(1,2) dis])
  have b: "base h < bp" using bp(1) by simp
  obtain vs1 s1 where U: "free_upper bp p h = h\<lparr>hsize := (hsize h)(bp := s1), hptr := (hptr h)(bp := hd (vs1 @ [base h]))\<rparr>"
    "set vs1 \<subseteq> set vs" "sorted_wrt (\<lambda>x y. x + 16 * hsize h x < y) vs1" "\<forall>v \<in> set vs1. bp + 16 * s1 < v" "0 < s1" "bp + 16 * s1 \<le> brk h"
    "{bp..<bp + 16 * s1} \<union> cover h vs1 = {bp..<bp + 16 * hsize h bp} \<union> cover h vs" "links ((hptr h)(bp := hd (vs1 @ [base h]))) bp vs1 (base h)"
    by (rule free_upper_ok [OF R P(1,3) b bp(2-4) P(4)])
  have "\<forall>v \<in> set vs. bp < v" using P(4) bp(2) by force
  then have fnd: "free_find h bp (freep h) = Some p" by (rule free_find_place [OF R P(1,3)])
  let ?h1 = "h\<lparr>hsize := (hsize h)(bp := s1), hptr := (hptr h)(bp := hd (vs1 @ [base h]))\<rparr>"
  let ?h = "(free_lower bp p ?h1)\<lparr>freep := p\<rparr>"
  have fr: "ufree (bp + 16) h = Some ?h" by (simp add: ufree_def Let_def fnd U(1))
  have S: "sorted_wrt (<) (us @ p # vs)" using ring_sorted [OF R] P(1) by simp
  have n: "bp \<notin> set us" "p \<notin> set us" "p \<noteq> bp" "bp \<notin> set vs1" "p \<notin> set vs1"
    using S P(3) U(2,4) \<open>\<forall>v \<in> set vs. bp < v\<close> by (auto simp: sorted_wrt_append)
  have V: "\<forall>v \<in> set vs1. base h + 16 \<le> v \<and> 0 < hsize h v \<and> v + 16 * hsize h v \<le> brk h"
  proof -
    have "set vs \<subseteq> set xs" using P(1) by (cases us) auto
    then show ?thesis using R U(2) by (auto simp: ring_def)
  qed
  have px: "p \<in> set xs" if "p \<noteq> base h" using P(1) that by (cases us) auto
  have cov: "cover h xs = cover h us \<union> {p..<p + 16 * hsize h p} \<union> cover h vs"
    using cover_base [of h "base h" xs] R P(1) by (simp add: ring_def cover_append cover_Cons Un_assoc)
  show thesis
  proof (cases "p + 16 * hsize h p = bp")
    case False
    let ?k = "h\<lparr>hsize := (hsize h)(bp := s1), hptr := (hptr h)(bp := hd (vs1 @ [base h]), p := bp), freep := p\<rparr>"
    have fr: "ufree (bp + 16) h = Some ?k" using fr False n by (simp add: free_lower_def)
    have l: "links (hptr ?k) p (bp # vs1) (base h)"
      using U(8) n by (simp add: fun_upd_twist [of p bp])
    have sw: "sorted_wrt (\<lambda>x y. x + 16 * hsize ?k x < y) (p # bp # vs1)"
    proof -
      have "sorted_wrt (\<lambda>x y. x + 16 * hsize ?k x < y) vs1"
        by (rule sorted_wrt_mono_rel [OF _ U(3)]) (use n in auto)
      then show ?thesis using U(4) n False P(2) by auto
    qed
    note r = ring_replace [where h' = ?k and ws = "bp # vs1", OF R P(1) _ _ _ _ _ _ l sw]
    have r1: "ring ?k (tl (us @ p # bp # vs1))"
      by (rule r(1)) (use n V U bp R px in \<open>auto simp: ring_def\<close>)
    have r2: "cover ?k (tl (us @ p # bp # vs1)) = cover h us \<union> cover ?k (p # bp # vs1)"
      by (rule r(2)) (use n V U bp R px in \<open>auto simp: ring_def\<close>)
    have "cover ?k vs1 = cover h vs1" by (rule cover_cong) (use n in auto)
    then have "cover ?k (p # bp # vs1) = {p..<p + 16 * hsize h p} \<union> ({bp..<bp + 16 * s1} \<union> cover h vs1)"
      using n by (simp add: cover_Cons)
    then have "cover ?k (tl (us @ p # bp # vs1)) = cover h xs \<union> {bp..<bp + 16 * hsize h bp}"
      unfolding r2 U(7) cov by auto
    then show thesis using that [OF fr r1] by simp
  next
    case True
    have pb: "p \<noteq> base h" using True R b by (auto simp: ring_def)
    then have pp: "0 < hsize h p" "p + 16 * hsize h p \<le> brk h" "base h + 16 \<le> p" using px R by (auto simp: ring_def)
    let ?s = "hsize h p + s1"
    have m: "?s mod 2 ^ 32 = ?s" using True U(6) bp(4) b pp by simp
    let ?k = "h\<lparr>hsize := (hsize h)(bp := s1, p := ?s), hptr := (hptr h)(bp := hd (vs1 @ [base h]), p := hd (vs1 @ [base h])), freep := p\<rparr>"
    have fr: "ufree (bp + 16) h = Some ?k" using fr m n True by (simp add: free_lower_def Let_def)
    have l: "links (hptr ?k) p vs1 (base h)"
      by (rule links_head [OF U(8)]) (use n in auto)
    have sw: "sorted_wrt (\<lambda>x y. x + 16 * hsize ?k x < y) (p # vs1)"
    proof -
      have "sorted_wrt (\<lambda>x y. x + 16 * hsize ?k x < y) vs1"
        by (rule sorted_wrt_mono_rel [OF _ U(3)]) (use n in auto)
      then show ?thesis using U(4) n True by auto
    qed
    note r = ring_replace [where h' = ?k and ws = vs1, OF R P(1) _ _ _ _ _ _ l sw]
    have r1: "ring ?k (tl (us @ p # vs1))"
      by (rule r(1)) (use n V U bp R pb pp True in \<open>auto simp: ring_def\<close>)
    have r2: "cover ?k (tl (us @ p # vs1)) = cover h us \<union> cover ?k (p # vs1)"
      by (rule r(2)) (use n V U bp R pb pp True in \<open>auto simp: ring_def\<close>)
    have "cover ?k vs1 = cover h vs1" by (rule cover_cong) (use n in auto)
    then have "cover ?k (p # vs1) = {p..<p + 16 * hsize h p} \<union> ({bp..<bp + 16 * s1} \<union> cover h vs1)"
      using n True by (auto simp: cover_Cons)
    then have "cover ?k (tl (us @ p # vs1)) = cover h xs \<union> {bp..<bp + 16 * hsize h bp}"
      unfolding r2 U(7) cov by auto
    moreover have "p \<in> cover h xs" using px [OF pb] pp by (auto simp: cover_def)
    ultimately show thesis by (intro that [OF fr r1]) auto
  qed
qed

section \<open>malloc takes a block out of the ring\<close>

lemma ring_parts:
  assumes R: "ring h xs" and e: "base h # xs = us @ q # p # vs"
  shows "cover h xs = cover h us \<union> cover h (q # vs) \<union> {p..<p + 16 * hsize h p}"
    and "(cover h us \<union> cover h (q # vs)) \<inter> {p..<p + 16 * hsize h p} = {}"
proof -
  show "cover h xs = cover h us \<union> cover h (q # vs) \<union> {p..<p + 16 * hsize h p}"
    using cover_base [of h "base h" xs] R unfolding e by (auto simp: ring_def cover_append cover_Cons)
  have "sorted_wrt (\<lambda>x y. x + 16 * hsize h x < y) (us @ q # p # vs)" using ring_gap [OF R] e by simp
  then have "\<forall>x \<in> set us \<union> {q}. x + 16 * hsize h x < p" "\<forall>x \<in> set vs. p + 16 * hsize h p < x" by (auto simp: sorted_wrt_append)
  then show "(cover h us \<union> cover h (q # vs)) \<inter> {p..<p + 16 * hsize h p} = {}"
    by (fastforce simp: cover_def)
qed

lemma take_block_ok:
  assumes R: "ring h xs" and q: "q \<in> set (base h # xs)" "hptr h q = p" and n: "n \<le> hsize h p" "0 < n"
  obtains r h' xs' where "take_block n q p h = (r + 16, h')" "ring h' xs'" "hsize h' r = n" "cover h xs = cover h' xs' \<union> {r..<r + 16 * n}"
    "cover h' xs' \<inter> {r..<r + 16 * n} = {}" "brk h' = brk h" "base h' = base h"
proof -
  obtain us ws where e0: "base h # xs = us @ q # ws" using q(1) by (meson split_list)
  have l0: "links (hptr h) q ws (base h)" using R e0 by (auto simp: ring_def intro: links_suffix)
  have "p \<noteq> base h" using n R by (auto simp: ring_def)
  then obtain vs where ws: "ws = p # vs" using links_next [OF l0] q(2) by (cases ws) auto
  have e: "base h # xs = us @ q # p # vs" using e0 ws by simp
  have l: "links (hptr h) p vs (base h)" using l0 ws by simp
  have G: "sorted_wrt (\<lambda>x y. x + 16 * hsize h x < y) (us @ q # p # vs)" using ring_gap [OF R] e by simp
  have S: "sorted_wrt (<) (us @ q # p # vs)" using ring_sorted [OF R] e by simp
  have d: "q \<notin> set us" "p \<notin> set us" "p \<noteq> q" "p \<notin> set vs" "q \<notin> set vs" using S by (auto simp: sorted_wrt_append)
  have X: "x \<in> set (p # vs) \<Longrightarrow> x \<in> set xs" "q \<noteq> base h \<Longrightarrow> q \<in> set xs" for x using e by (cases us; auto)+
  have V: "\<forall>v \<in> set (p # vs). base h + 16 \<le> v \<and> 0 < hsize h v \<and> v + 16 * hsize h v \<le> brk h" using R X(1) by (auto simp: ring_def)
  note parts = ring_parts [OF R e]
  show thesis
  proof (cases "hsize h p = n")
    case True
    let ?h = "h\<lparr>hptr := (hptr h)(q := hptr h p), freep := q\<rparr>"
    have lk: "links (hptr ?h) q vs (base h)" by (rule links_head [OF l]) (use d in auto)
    have sw: "sorted_wrt (\<lambda>x y. x + 16 * hsize ?h x < y) (q # vs)" using G by (auto simp: sorted_wrt_append)
    note r = ring_replace [where h' = ?h and ws = vs, OF R e _ _ _ _ _ _ lk sw]
    have r1: "ring ?h (tl (us @ q # vs))" by (rule r(1)) (use d V R X in \<open>auto simp: ring_def\<close>)
    have "cover ?h (tl (us @ q # vs)) = cover h us \<union> cover ?h (q # vs)" by (rule r(2)) (use d V R X in \<open>auto simp: ring_def\<close>)
    then have r2: "cover ?h (tl (us @ q # vs)) = cover h us \<union> cover h (q # vs)" by (simp add: cover_def)
    show thesis by (rule that [of p ?h, OF _ r1]) (use True parts r2 in \<open>auto simp: take_block_def\<close>)
  next
    case False
    define r where "r = p + 16 * (hsize h p - n)"
    let ?h = "h\<lparr>hsize := (hsize h)(p := hsize h p - n, r := n), freep := q\<rparr>"
    have rp: "p < r" "r < p + 16 * hsize h p" "r + 16 * n = p + 16 * hsize h p" using False n by (auto simp: r_def)
    have rb: "p + 16 * (hsize h p - n) \<le> brk h" using V rp(2) by (auto simp: r_def)
    have rn: "r \<notin> set us" "r \<noteq> q" "r \<noteq> p" "r \<notin> set vs" using rp G S by (auto simp: sorted_wrt_append)
    have lk: "links (hptr ?h) q (p # vs) (base h)" using l q(2) by simp
    have sw: "sorted_wrt (\<lambda>x y. x + 16 * hsize ?h x < y) (q # p # vs)"
    proof -
      have "sorted_wrt (\<lambda>x y. x + 16 * hsize ?h x < y) vs"
        by (rule sorted_wrt_mono_rel [of vs "\<lambda>x y. x + 16 * hsize h x < y"]) (use rn d G in \<open>auto simp: sorted_wrt_append\<close>)
      then show ?thesis using G rn d by (auto simp: sorted_wrt_append)
    qed
    note rr = ring_replace [where h' = ?h and ws = "p # vs", OF R e _ _ _ _ _ _ lk sw]
    have r1: "ring ?h (tl (us @ q # p # vs))" by (rule rr(1)) (use d V R X rn rb False n in \<open>auto simp: ring_def\<close>)
    have "cover ?h (tl (us @ q # p # vs)) = cover h us \<union> cover ?h (q # p # vs)" by (rule rr(2)) (use d V R X rn rb False n in \<open>auto simp: ring_def\<close>)
    moreover have "cover ?h (q # vs) = cover h (q # vs)" by (rule cover_cong) (use rn d in auto)
    ultimately have r2: "cover ?h (tl (us @ q # p # vs)) = cover h us \<union> cover h (q # vs) \<union> {p..<r}"
      using rn d by (auto simp: cover_Cons r_def [symmetric])
    have b: "{p..<p + 16 * hsize h p} = {p..<r} \<union> {r..<r + 16 * n}" using n rp by auto
    show thesis
      by (rule that [of r ?h, OF _ r1]) (use False n rn parts r2 b in \<open>auto simp: take_block_def Let_def r_def [symmetric]\<close>)
  qed
qed

section \<open>The search of malloc\<close>

lemma sint_of_nat_small: "k < 2 ^ 31 \<Longrightarrow> sint (of_nat k :: u32) = int k"
  by (simp add: signed_of_nat signed_take_bit_int_eq_self)

lemma malloc_scan:
  assumes "links (hptr h) q ws (freep h)" and "freep h \<notin> set ws"
  shows "(\<exists>a \<in> set (q # ws). n \<le> hsize h (hptr h a) \<and> malloc_loop grow n q (hptr h q) h = Some (take_block n a (hptr h a) h)) \<or>
    (\<forall>x \<in> set (ws @ [freep h]). hsize h x < n) \<and> malloc_loop grow n q (hptr h q) h =
      Option.bind (morecore grow n h) (\<lambda>r. if fst r = 0 then Some (0, snd r) else malloc_loop grow n (fst r) (hptr (snd r) (fst r)) (snd r))"
  using assms
proof (induction ws arbitrary: q)
  case Nil
  then show ?case by (subst (1 2) malloc_loop.simps) auto
next
  case (Cons w ws)
  show ?case
  proof (cases "n \<le> hsize h w")
    case True
    then show ?thesis using Cons.prems by (subst (1 2) malloc_loop.simps) auto
  next
    case False
    then have "malloc_loop grow n q (hptr h q) h = malloc_loop grow n w (hptr h w) h"
      using Cons.prems by (subst malloc_loop.simps) auto
    then show ?thesis using Cons.IH [of w] Cons.prems False by auto
  qed
qed

text \<open>The search goes once around the ring.\<close>

lemma malloc_first:
  assumes R: "ring h xs"
  shows "(\<exists>a \<in> set (base h # xs). n \<le> hsize h (hptr h a) \<and> malloc_loop grow n (freep h) (hptr h (freep h)) h = Some (take_block n a (hptr h a) h)) \<or>
    (\<forall>x \<in> set (base h # xs). hsize h x < n) \<and> malloc_loop grow n (freep h) (hptr h (freep h)) h =
      Option.bind (morecore grow n h) (\<lambda>r. if fst r = 0 then Some (0, snd r) else malloc_loop grow n (fst r) (hptr (snd r) (fst r)) (snd r))"
proof -
  have "freep h \<in> set (base h # xs)" using R by (simp add: ring_def)
  then obtain us vs where e: "base h # xs = us @ freep h # vs" by (meson split_list)
  have "sorted_wrt (<) (us @ freep h # vs)" using ring_sorted [OF R] e by simp
  then have "freep h \<notin> set (vs @ us)" by (auto simp: sorted_wrt_append)
  from malloc_scan [OF ring_from [OF R e] this, of n grow] show ?thesis unfolding e by auto
qed

text \<open>A stretch of free memory lies in one block.\<close>

lemma big_block:
  assumes R: "ring h xs" and "{b..<b + 16 * m} \<subseteq> cover h xs" and "0 < m"
  shows "\<exists>x \<in> set xs. m \<le> hsize h x"
proof -
  have "b \<in> cover h xs" using assms by auto
  then obtain x where x: "x \<in> set xs" "x \<le> b" "b < x + 16 * hsize h x" by (auto simp: cover_def)
  have "b + 16 * m \<le> x + 16 * hsize h x"
  proof (rule ccontr)
    let ?e = "x + 16 * hsize h x"
    assume "\<not> ?thesis"
    then have "?e \<in> cover h xs" using assms(2) x(3) by (auto simp: subset_iff)
    then obtain y where y: "y \<in> set xs" "y \<le> ?e" "?e < y + 16 * hsize h y" by (auto simp: cover_def)
    have "y \<noteq> x" using y by auto
    moreover have G: "sorted_wrt (\<lambda>x y. x + 16 * hsize h x < y) xs" using R by (simp add: ring_def)
    ultimately have "?e < y \<or> y + 16 * hsize h y < x"
      using x(1) y(1) by (metis (no_types, lifting) in_set_conv_nth linorder_neqE_nat sorted_wrt_iff_nth_less)
    then show False using y x by auto
  qed
  then show ?thesis using x by (intro bexI [of _ x]) auto
qed

lemma morecore_ok:
  assumes R: "ring h xs" and b: "base h + 16 \<le> brk h" and n: "16 * n < 2 ^ 31" and m: "brk h + 16 * max 4096 n \<le> 2 ^ 36"
  shows "\<not> grow (int (16 * max 4096 n)) (brk h) \<and> morecore grow n h = Some (0, h) \<or>
    (\<exists>h' xs'. morecore grow n h = Some (freep h', h') \<and> ring h' xs' \<and> cover h' xs' = cover h xs \<union> {brk h..<brk h + 16 * max 4096 n} \<and>
      brk h' = brk h + 16 * max 4096 n \<and> base h' = base h)"
proof -
  let ?m = "max 4096 n"
  have m31: "?m * 16 < 2 ^ 31" using n by simp
  have si: "sint (of_nat (?m * 16) :: u32) = int (16 * ?m)" using m31 by (intro sint_of_nat_small [THEN trans]) (simp_all add: mult.commute)
  have nt: "nat (int (brk h) + int (16 * ?m)) = brk h + 16 * ?m" by linarith
  have mx: "(if n < 4096 then 4096 else n) = ?m" by simp
  let ?h = "h\<lparr>brk := brk h + 16 * ?m, hsize := (hsize h)(brk h := ?m)\<rparr>"
  have X: "\<forall>x \<in> set (base h # xs). x < brk h" using R b by (force simp: ring_def)
  have nb: "brk h \<notin> set (base h # xs)" using X by auto
  have R': "ring ?h xs"
  proof -
    have "sorted_wrt (\<lambda>x y. x + 16 * hsize ?h x < y) xs"
      by (rule sorted_wrt_mono_rel [of xs "\<lambda>x y. x + 16 * hsize h x < y"]) (use R nb in \<open>auto simp: ring_def\<close>)
    then show ?thesis using R nb by (auto simp: ring_def)
  qed
  have c: "cover ?h xs = cover h xs" by (rule cover_cong) (use nb in auto)
  have "cover h xs \<subseteq> {..<brk h}" using R by (fastforce simp: cover_def ring_def)
  then have dis: "cover ?h xs \<inter> {brk h..<brk h + 16 * hsize ?h (brk h)} = {}" unfolding c by auto
  obtain h' xs' where F: "ufree (brk h + 16) ?h = Some h'" "ring h' xs'" "cover h' xs' = cover ?h xs \<union> {brk h..<brk h + 16 * hsize ?h (brk h)}"
    "brk h' = brk ?h" "base h' = base ?h"
    by (rule free_inserts [OF R' _ _ _ _ dis]) (use b m in auto)
  have "morecore grow n h = (if \<not> grow (int (16 * ?m)) (brk h) then Some (0, h) else Some (freep h', h'))"
    using F(1) unfolding morecore_def mx si Let_def nt by simp
  then show ?thesis using F c by (intro disjCI) auto
qed

text \<open>A block that is taken can be given back.\<close>

lemma block_taken:
  assumes R: "ring h xs" and a: "a \<in> set (base h # xs)" "n \<le> hsize h (hptr h a)" "0 < n" and b36: "brk h \<le> 2 ^ 36"
  shows "\<exists>b h' xs' h2 xs2. take_block n a (hptr h a) h = (b + 16, h') \<and> ring h' xs' \<and> hsize h' b = n \<and> brk h' = brk h \<and>
    cover h' xs' \<inter> {b..<b + 16 * n} = {} \<and> cover h' xs' \<union> {b..<b + 16 * n} = cover h xs \<and>
    ufree (b + 16) h' = Some h2 \<and> ring h2 xs2 \<and> cover h2 xs2 = cover h xs"
proof -
  obtain b h' xs' where T: "take_block n a (hptr h a) h = (b + 16, h')" "ring h' xs'" "hsize h' b = n" "cover h xs = cover h' xs' \<union> {b..<b + 16 * n}"
    "cover h' xs' \<inter> {b..<b + 16 * n} = {}" "brk h' = brk h" "base h' = base h"
    by (rule take_block_ok [OF R a(1) refl a(2,3)])
  have "b \<in> cover h xs" "b + 16 * n - 1 \<in> cover h xs" using T(4) a(3) by auto
  then obtain x y where "x \<in> set xs" "x \<le> b" "y \<in> set xs" "b + 16 * n - 1 < y + 16 * hsize h y" by (auto simp: cover_def)
  then have bb: "base h + 16 \<le> b" "b + 16 * n \<le> brk h" using R by (fastforce simp: ring_def)+
  obtain h2 xs2 where F: "ufree (b + 16) h' = Some h2" "ring h2 xs2" "cover h2 xs2 = cover h' xs' \<union> {b..<b + 16 * hsize h' b}"
    by (rule free_inserts [OF T(2), of b]) (use bb T a(3) b36 in auto)
  then show ?thesis using T by blast
qed

lemma malloc_loop_ok:
  assumes R: "ring h xs" and b: "base h + 16 \<le> brk h" and n: "16 * n < 2 ^ 31" "0 < n" and m: "brk h + 16 * max 4096 n \<le> 2 ^ 36"
  shows "\<not> grow (int (16 * max 4096 n)) (brk h) \<and> (\<forall>x \<in> set xs. hsize h x < n) \<and> malloc_loop grow n (freep h) (hptr h (freep h)) h = Some (0, h) \<or>
    (\<exists>b h' xs' h2 xs2. malloc_loop grow n (freep h) (hptr h (freep h)) h = Some (b + 16, h') \<and> ring h' xs' \<and> hsize h' b = n \<and>
      cover h' xs' \<inter> {b..<b + 16 * n} = {} \<and> cover h' xs' \<union> {b..<b + 16 * n} = cover h xs \<union> {brk h..<brk h'} \<and>
      ufree (b + 16) h' = Some h2 \<and> ring h2 xs2 \<and> cover h2 xs2 = cover h xs \<union> {brk h..<brk h'})"
  using malloc_first [OF R, of n grow]
proof (elim disjE bexE conjE)
  fix a assume a: "a \<in> set (base h # xs)" "n \<le> hsize h (hptr h a)" and l: "malloc_loop grow n (freep h) (hptr h (freep h)) h = Some (take_block n a (hptr h a) h)"
  show ?thesis using block_taken [OF R a n(2)] m l by fastforce
next
  assume small: "\<forall>x \<in> set (base h # xs). hsize h x < n"
    and l: "malloc_loop grow n (freep h) (hptr h (freep h)) h =
      Option.bind (morecore grow n h) (\<lambda>r. if fst r = 0 then Some (0, snd r) else malloc_loop grow n (fst r) (hptr (snd r) (fst r)) (snd r))"
  show ?thesis using morecore_ok [OF R b n(1) m, of grow]
  proof (elim disjE exE conjE)
    assume "\<not> grow (int (16 * max 4096 n)) (brk h)" "morecore grow n h = Some (0, h)"
    then show ?thesis using l small by simp
  next
    fix h1 xs1 assume h1: "morecore grow n h = Some (freep h1, h1)" "ring h1 xs1" "cover h1 xs1 = cover h xs \<union> {brk h..<brk h + 16 * max 4096 n}"
      "brk h1 = brk h + 16 * max 4096 n" "base h1 = base h"
    have "freep h1 \<noteq> 0" using h1(2) by (fastforce simp: ring_def)
    then have l1: "malloc_loop grow n (freep h) (hptr h (freep h)) h = malloc_loop grow n (freep h1) (hptr h1 (freep h1)) h1" using l h1(1) by simp
    obtain x where "x \<in> set xs1" "max 4096 n \<le> hsize h1 x" using big_block [OF h1(2), of "brk h" "max 4096 n"] h1(3) by (auto simp: less_max_iff_disj)
    then obtain a where a: "a \<in> set (base h1 # xs1)" "n \<le> hsize h1 (hptr h1 a)"
      and l2: "malloc_loop grow n (freep h1) (hptr h1 (freep h1)) h1 = Some (take_block n a (hptr h1 a) h1)"
      using malloc_first [OF h1(2), of n grow] by fastforce
    obtain b h' xs' h2 xs2 where B: "take_block n a (hptr h1 a) h1 = (b + 16, h')" "ring h' xs'" "hsize h' b = n" "brk h' = brk h1"
      "cover h' xs' \<inter> {b..<b + 16 * n} = {}" "cover h' xs' \<union> {b..<b + 16 * n} = cover h1 xs1"
      "ufree (b + 16) h' = Some h2" "ring h2 xs2" "cover h2 xs2 = cover h1 xs1"
      using block_taken [OF h1(2) a n(2)] m h1(4) by auto
    have "malloc_loop grow n (freep h) (hptr h (freep h)) h = Some (b + 16, h')" using l1 l2 B(1) by simp
    moreover have "cover h1 xs1 = cover h xs \<union> {brk h..<brk h'}" using h1(3,4) B(4) by simp
    ultimately show ?thesis using B by (intro disjI2 exI [of _ b] exI [of _ h'] exI [of _ xs'] exI [of _ h2] exI [of _ xs2]) simp
  qed
qed

text \<open>A heap before the first call of \<open>malloc\<close> or with a ring of free blocks.\<close>

definition heap_ok :: "uheap \<Rightarrow> nat list \<Rightarrow> bool" where
  "heap_ok h xs \<longleftrightarrow> base h + 16 \<le> brk h \<and> (if freep h = 0 then 0 < base h \<and> xs = [] else ring h xs)"

text \<open>C22: The allocator of user programs. \<open>malloc\<close> returns, for every request below 2 GB. It returns null only if no free block is large enough and the kernel refuses
  more memory, and then the free memory is unchanged. Otherwise the block, header included, was free or is new memory, holds the bytes asked for, and overlaps no
  free block; block and free blocks together are exactly the memory that was free and the new memory. \<open>free\<close> of the block returns and restores the free memory.\<close>

theorem umalloc_correct:
  assumes "heap_ok h xs" and "n = (nbytes + 15) div 16 + 1" and "16 * n < 2 ^ 31" and "brk h + 16 * max 4096 n \<le> 2 ^ 36"
  shows "\<exists>r h' xs'. umalloc grow nbytes h = Some (r, h') \<and> ring h' xs' \<and>
    (if r = 0 then \<not> grow (int (16 * max 4096 n)) (brk h) \<and> cover h' xs' = cover h xs \<and> (\<forall>x \<in> set xs'. hsize h' x < n)
     else nbytes \<le> 16 * (hsize h' (r - 16) - 1) \<and> cover h' xs' \<inter> {r - 16..<r - 16 + 16 * hsize h' (r - 16)} = {} \<and>
       cover h' xs' \<union> {r - 16..<r - 16 + 16 * hsize h' (r - 16)} = cover h xs \<union> {brk h..<brk h'} \<and>
       (\<exists>h2 xs2. ufree r h' = Some h2 \<and> ring h2 xs2 \<and> cover h2 xs2 = cover h xs \<union> {brk h..<brk h'}))"
proof -
  let ?h = "if freep h = 0 then h\<lparr>hptr := (hptr h)(base h := base h), freep := base h, hsize := (hsize h)(base h := 0)\<rparr> else h"
  have R: "ring ?h xs" and c: "cover ?h xs = cover h xs" and b: "brk ?h = brk h" "base ?h + 16 \<le> brk ?h"
    using assms(1) by (auto simp: heap_ok_def ring_def cover_def)
  have n: "0 < n" "nbytes \<le> 16 * (n - 1)" using assms(2) by auto
  have e: "umalloc grow nbytes h = malloc_loop grow n (freep ?h) (hptr ?h (freep ?h)) ?h"
    using assms(2) by (cases "freep h = 0") (simp_all add: umalloc_def Let_def add.commute)
  have m: "brk ?h + 16 * max 4096 n \<le> 2 ^ 36" using assms(4) b by simp
  show ?thesis using malloc_loop_ok [OF R b(2) assms(3) n(1) m, of grow]
  proof (elim disjE exE conjE)
    assume "\<not> grow (int (16 * max 4096 n)) (brk ?h)" "\<forall>x \<in> set xs. hsize ?h x < n" "malloc_loop grow n (freep ?h) (hptr ?h (freep ?h)) ?h = Some (0, ?h)"
    then show ?thesis unfolding e using R c b(1) by (intro exI [of _ 0] exI [of _ ?h] exI [of _ xs]) simp
  next
    fix a h' xs' h2 xs2 assume "malloc_loop grow n (freep ?h) (hptr ?h (freep ?h)) ?h = Some (a + 16, h')" "ring h' xs'" "hsize h' a = n"
      "cover h' xs' \<inter> {a..<a + 16 * n} = {}" "cover h' xs' \<union> {a..<a + 16 * n} = cover ?h xs \<union> {brk ?h..<brk h'}"
      "ufree (a + 16) h' = Some h2" "ring h2 xs2" "cover h2 xs2 = cover ?h xs \<union> {brk ?h..<brk h'}"
    then show ?thesis unfolding e using c b(1) n(2) by (intro exI [of _ "a + 16"] exI [of _ h'] exI [of _ xs']) auto
  qed
qed

theorem umalloc_correct_witness:
  "\<exists>r h' xs'. umalloc (\<lambda>_ _. True) 100 \<lparr>hptr = (\<lambda>_. 0), hsize = (\<lambda>_. 0), freep = 0, brk = 8192, base = 4096\<rparr> = Some (r, h') \<and> ring h' xs' \<and> r \<noteq> 0 \<and>
     (\<exists>h2 xs2. ufree r h' = Some h2 \<and> ring h2 xs2 \<and> cover h2 xs2 = {8192..<brk h'})"
proof -
  let ?h = "\<lparr>hptr = (\<lambda>_. 0), hsize = (\<lambda>_. 0), freep = 0, brk = 8192, base = 4096\<rparr> :: uheap"
  have e: "cover ?h [] = {}" "brk ?h = 8192" by (simp_all add: cover_def)
  have ok: "heap_ok ?h []" by (simp add: heap_ok_def)
  obtain r h' xs' where m: "umalloc (\<lambda>_ _. True) 100 ?h = Some (r, h')" "ring h' xs'" and
    i: "if r = 0 then \<not> True \<and> cover h' xs' = cover ?h [] \<and> (\<forall>x \<in> set xs'. hsize h' x < 8)
     else 100 \<le> 16 * (hsize h' (r - 16) - 1) \<and> cover h' xs' \<inter> {r - 16..<r - 16 + 16 * hsize h' (r - 16)} = {} \<and>
       cover h' xs' \<union> {r - 16..<r - 16 + 16 * hsize h' (r - 16)} = cover ?h [] \<union> {brk ?h..<brk h'} \<and>
       (\<exists>h2 xs2. ufree r h' = Some h2 \<and> ring h2 xs2 \<and> cover h2 xs2 = cover ?h [] \<union> {brk ?h..<brk h'})"
    using umalloc_correct [OF ok, of 8 100 "\<lambda>_ _. True"] by auto
  have "r \<noteq> 0" using i by (cases "r = 0") simp_all
  then have "\<exists>h2 xs2. ufree r h' = Some h2 \<and> ring h2 xs2 \<and> cover h2 xs2 = {8192..<brk h'}" using i unfolding e by simp
  then show ?thesis using m \<open>r \<noteq> 0\<close> by blast
qed

text \<open>
  For a request of almost 4 GB the size in bytes no longer fits the argument of \<open>sbrk\<close>: the break grows by 16 bytes, and \<open>malloc\<close> returns
  a pointer to the end of the memory, with a header that claims 4 GB.
\<close>

lemma malloc_huge:
  assumes "freep h = 0" and "0 < base h" and "base h < brk h" and "grow 16 (brk h)"
  shows "\<exists>h'. umalloc grow (2 ^ 32 - 1) h = Some (brk h + 16, h') \<and> brk h' = brk h + 16 \<and> hsize h' (brk h) = 2 ^ 28 + 1"
proof -
  let ?h = "h\<lparr>hptr := (hptr h)(base h := base h), freep := base h, hsize := (hsize h)(base h := 0)\<rparr>"
  let ?n = "268435457 :: nat"
  have e: "umalloc grow (2 ^ 32 - 1) h = malloc_loop grow ?n (base h) (base h) ?h" using assms by (simp add: umalloc_def Let_def)
  let ?h1 = "?h\<lparr>brk := brk h + 16, hsize := (hsize ?h)(brk h := ?n)\<rparr>"
  let ?h2 = "?h1\<lparr>hptr := (hptr ?h1)(brk h := base h, base h := brk h)\<rparr>"
  have "free_find ?h1 (brk h) (base h) = Some (base h)" using assms by (subst free_find.simps) simp
  then have f: "ufree (brk h + 16) ?h1 = Some ?h2" using assms by (simp add: ufree_def free_upper_def free_lower_def Let_def)
  have "nat (int (brk h) + 16) = brk h + 16" by linarith
  then have "morecore grow ?n ?h = Some (base h, ?h2)" using f assms by (simp add: morecore_def Let_def)
  then have "malloc_loop grow ?n (base h) (base h) ?h = malloc_loop grow ?n (base h) (brk h) ?h2"
    using assms by (subst malloc_loop.simps) simp
  moreover have "malloc_loop grow ?n (base h) (brk h) ?h2 = Some (take_block ?n (base h) (brk h) ?h2)" using assms by (subst malloc_loop.simps) simp
  ultimately show ?thesis unfolding e using assms by (simp add: take_block_def)
qed

end
