(* ===== verification/Xv6_Mkfs.thy ===== *)
theory Xv6_Mkfs
  imports Xv6_Fs
begin

unbundle bit_operations_syntax

text \<open>
  \<^verbatim>\<open>mkfs/mkfs.c\<close>, which writes the initial file system. The image is a function from block numbers to blocks. A failed assertion or \<open>die\<close> is a failure with
  its text. Reading behind the end of the image fails; no block is written there, since each is read before. The integers on the disk are little endian, so \<open>xint\<close> and \<open>xshort\<close> are part of the
  functions that store and load fields. A file to copy is its name and contents; \<open>None\<close> is one that cannot be opened.
  The messages to the terminal and the opening of the image are left out.
\<close>

definition NINODES :: nat where [simp]: "NINODES = 200"
definition nbitmap :: nat where [simp]: "nbitmap = FSSIZE div BPB + 1"
definition ninodeblocks :: nat where [simp]: "ninodeblocks = NINODES div IPB + 1"
definition nlog :: nat where [simp]: "nlog = LOGSIZE"
definition nmeta :: nat where [simp]: "nmeta = 2 + nlog + ninodeblocks + nbitmap"

record mkfs =
  img :: "u32 \<Rightarrow> block"
  mk_sb :: superblock
  freeinode :: u32
  freeblock :: u32

definition wsect :: "u32 \<Rightarrow> block \<Rightarrow> mkfs \<Rightarrow> mkfs" where
  "wsect sec buf m = m\<lparr>img := (img m)(sec := buf)\<rparr>"

definition rsect :: "u32 \<Rightarrow> mkfs \<Rightarrow> block res" where
  "rsect sec m = (if unat sec < FSSIZE then Ok (img m sec) else Fail (Panic ''read''))"

text \<open>A \<^verbatim>\<open>struct dinode\<close> is the part of an inode that is on the disk.\<close>

definition zero_din :: inode where
  "zero_din = \<lparr>i_dev = 0, i_num = 0, i_ref = 0, i_lock = initsleeplock [], i_valid = False, i_type = 0, i_major = 0, i_minor = 0, i_nlink = 0,
     i_size = 0, i_addrs = replicate (NDIRECT + 1) 0\<rparr>"

definition winode :: "u32 \<Rightarrow> inode \<Rightarrow> mkfs \<Rightarrow> mkfs res" where
  "winode inum ip m = (let bn = IBLOCK inum (mk_sb m) in rbind (rsect bn m) (\<lambda>buf. Ok (wsect bn (put_dinode ip (dip inum) buf) m)))"

definition rinode :: "u32 \<Rightarrow> mkfs \<Rightarrow> inode res" where
  "rinode inum m = rbind (rsect (IBLOCK inum (mk_sb m)) m) (\<lambda>buf. Ok (get_dinode buf (dip inum) zero_din))"

definition mk_ialloc :: "u16 \<Rightarrow> mkfs \<Rightarrow> (u32 \<times> mkfs) res" where
  "mk_ialloc ty m =
     (let inum = freeinode m; m = m\<lparr>freeinode := freeinode m + 1\<rparr>
      in rbind (winode inum (zero_din\<lparr>i_type := ty, i_nlink := 1, i_size := 0\<rparr>) m) (\<lambda>m. Ok (inum, m)))"

definition bitmap_block :: "nat \<Rightarrow> block" where
  "bitmap_block used = fold (\<lambda>i b. b[i div 8 := b ! (i div 8) OR push_bit (i mod 8) 1]) [0..<used] (replicate BSIZE 0)"

definition mk_balloc :: "nat \<Rightarrow> mkfs \<Rightarrow> mkfs res" where
  "mk_balloc used m =
     (if \<not> used < BPB then Fail (Panic ''used < BPB'') else Ok (wsect (sb_bmapstart (mk_sb m)) (bitmap_block used) m))"

text \<open>The block that holds byte \<open>fbn * BSIZE\<close> of a file, allocated if need be.\<close>

definition iappend_block :: "nat \<Rightarrow> inode \<Rightarrow> mkfs \<Rightarrow> (u32 \<times> inode \<times> mkfs) res" where
  "iappend_block fbn din m =
     (if fbn < NDIRECT then
        let (din, m) = (if i_addrs din ! fbn = 0 then (din\<lparr>i_addrs := (i_addrs din)[fbn := freeblock m]\<rparr>, m\<lparr>freeblock := freeblock m + 1\<rparr>) else (din, m))
        in Ok (i_addrs din ! fbn, din, m)
      else
        let (din, m) = (if i_addrs din ! NDIRECT = 0 then (din\<lparr>i_addrs := (i_addrs din)[NDIRECT := freeblock m]\<rparr>, m\<lparr>freeblock := freeblock m + 1\<rparr>) else (din, m));
            ib = i_addrs din ! NDIRECT; k = 4 * (fbn - NDIRECT)
        in rbind (rsect ib m) (\<lambda>indirect.
             if get32 indirect k = 0 then
               let indirect = put32 indirect k (freeblock m)
               in Ok (get32 indirect k, din, wsect ib indirect (m\<lparr>freeblock := freeblock m + 1\<rparr>))
             else Ok (get32 indirect k, din, m)))"

lemma block_rest: "off < BSIZE + off div BSIZE * BSIZE" "off < BSIZE + BSIZE * (off div BSIZE)" "\<not> BSIZE + off div BSIZE * BSIZE \<le> off"
  "\<not> BSIZE + BSIZE * (off div BSIZE) \<le> off" for off :: nat
  using mod_less_divisor [of BSIZE off] div_mult_mod_eq [of off BSIZE] by (simp_all add: mult.commute)

function iappend_loop :: "u8 list \<Rightarrow> nat \<Rightarrow> inode \<Rightarrow> mkfs \<Rightarrow> (nat \<times> inode \<times> mkfs) res" where
  "iappend_loop p off din m =
     (if p = [] then Ok (off, din, m)
      else let fbn = off div BSIZE in
        if \<not> fbn < MAXFILE then Fail (Panic ''fbn < MAXFILE'')
        else rbind (iappend_block fbn din m) (\<lambda>(x, din, m).
          let n1 = min (length p) ((fbn + 1) * BSIZE - off); o1 = off - fbn * BSIZE in
          rbind (rsect x m) (\<lambda>buf.
            iappend_loop (drop n1 p) (off + n1) din (wsect x (take o1 buf @ take n1 p @ drop (o1 + n1) buf) m))))"
  by pat_completeness auto
termination by (relation "measure (\<lambda>(p, off, din, m). length p)") (auto simp: block_rest)

declare iappend_loop.simps [simp del]

definition iappend :: "u32 \<Rightarrow> u8 list \<Rightarrow> mkfs \<Rightarrow> mkfs res" where
  "iappend inum p m =
     rbind (rinode inum m) (\<lambda>din.
     rbind (iappend_loop p (unat (i_size din)) din m) (\<lambda>(off, din, m). winode inum (din\<lparr>i_size := of_nat off\<rparr>) m))"

text \<open>A directory entry: the inode number and the name, filled up with zeros.\<close>

definition mkfs_dirent :: "u32 \<Rightarrow> u8 list \<Rightarrow> u8 list" where
  "mkfs_dirent inum name = [le_byte inum 0, le_byte inum 1] @ take DIRSIZ (name @ replicate DIRSIZ 0)"

definition mk_shortname :: "u8 list \<Rightarrow> u8 list" where
  "mk_shortname name = (if take 5 name = [117, 115, 101, 114, 47] then drop 5 name else name)"

fun mk_chunks :: "u32 \<Rightarrow> u8 list list \<Rightarrow> mkfs \<Rightarrow> mkfs res" where
  "mk_chunks inum [] m = Ok m"
| "mk_chunks inum (c # cs) m = rbind (iappend inum c m) (mk_chunks inum cs)"

text \<open>The contents of a file are the pieces that \<^verbatim>\<open>read\<close> returns.\<close>

definition mk_file :: "u32 \<Rightarrow> u8 list \<times> u8 list list option \<Rightarrow> mkfs \<Rightarrow> mkfs res" where
  "mk_file rootino = (\<lambda>(name, contents) m.
     let shortname = mk_shortname name in
     if 47 \<in> set shortname then Fail (Panic ''index(shortname, /) == 0'')
     else case contents of
       None \<Rightarrow> Fail (Panic ''open'')
     | Some cs \<Rightarrow>
         let shortname = (if shortname \<noteq> [] \<and> hd shortname = 95 then tl shortname else shortname) in
         if \<not> length shortname \<le> DIRSIZ then Fail (Panic ''strlen(shortname) <= DIRSIZ'')
         else rbind (mk_ialloc T_FILE m) (\<lambda>(inum, m).
           rbind (iappend rootino (mkfs_dirent inum shortname) m) (mk_chunks inum cs)))"

definition mk_super :: superblock where
  "mk_super = \<lparr>sb_magic = FSMAGIC, sb_size = of_nat FSSIZE, sb_nblocks = of_nat (FSSIZE - nmeta), sb_ninodes = of_nat NINODES, sb_nlog = of_nat nlog,
     sb_logstart = 2, sb_inodestart = of_nat (2 + nlog), sb_bmapstart = of_nat (2 + nlog + ninodeblocks)\<rparr>"

definition put_super :: "superblock \<Rightarrow> block" where
  "put_super s = (let b = replicate BSIZE 0; b = put32 b 0 (sb_magic s); b = put32 b 4 (sb_size s); b = put32 b 8 (sb_nblocks s); b = put32 b 12 (sb_ninodes s);
     b = put32 b 16 (sb_nlog s); b = put32 b 20 (sb_logstart s); b = put32 b 24 (sb_inodestart s) in put32 b 28 (sb_bmapstart s))"

definition mkfs_main :: "(u8 list \<times> u8 list list option) list \<Rightarrow> mkfs res" where
  "mkfs_main fs =
     (let m = \<lparr>img = (\<lambda>_. replicate BSIZE 0), mk_sb = mk_super, freeinode = 1, freeblock = of_nat nmeta\<rparr>;
          m = wsect 1 (put_super mk_super) m
      in rbind (mk_ialloc T_DIR m) (\<lambda>(rootino, m).
        if rootino \<noteq> ROOTINO then Fail (Panic ''rootino == ROOTINO'')
        else
          rbind (iappend rootino (mkfs_dirent rootino [46]) m) (\<lambda>m.
          rbind (iappend rootino (mkfs_dirent rootino [46, 46]) m) (\<lambda>m.
          rbind (rfold (mk_file rootino) fs m) (\<lambda>m.
          rbind (rinode rootino m) (\<lambda>din.
            let off = (unat (i_size din) div BSIZE + 1) * BSIZE in
            rbind (winode rootino (din\<lparr>i_size := of_nat off\<rparr>) m) (\<lambda>m. mk_balloc (unat (freeblock m)) m)))))))"

section \<open>The bitmap\<close>

text \<open>The bitmap marks exactly the blocks below \<open>used\<close>.\<close>

lemma bitmap_block_bits:
  assumes "used \<le> BPB" and "k < BPB"
  shows "length (bitmap_block used) = BSIZE \<and> (bit (bitmap_block used ! (k div 8)) (k mod 8) \<longleftrightarrow> k < used)"
  using assms(1)
proof (induction used)
  case 0
  then show ?case using assms(2) by (simp add: bitmap_block_def)
next
  case (Suc u)
  let ?b = "bitmap_block u"
  have e: "bitmap_block (Suc u) = ?b[u div 8 := ?b ! (u div 8) OR push_bit (u mod 8) 1]" by (simp add: bitmap_block_def)
  have IH: "length ?b = BSIZE" "bit (?b ! (k div 8)) (k mod 8) \<longleftrightarrow> k < u" using Suc by auto
  have u: "u div 8 < length ?b" using Suc.prems IH(1) by simp
  show ?case
  proof (cases "k div 8 = u div 8")
    case True
    then have "k mod 8 = u mod 8 \<longleftrightarrow> k = u" by (metis div_mult_mod_eq)
    then show ?thesis using True u IH by (auto simp: e bit_simps less_Suc_eq)
  next
    case False
    then show ?thesis using IH by (auto simp: e less_Suc_eq)
  qed
qed

text \<open>The regions of the disk follow each other and leave the rest for data.\<close>

lemma mkfs_layout:
  "unat (sb_logstart mk_super) + unat (sb_nlog mk_super) = unat (sb_inodestart mk_super)"
  "unat (IBLOCK (sb_ninodes mk_super - 1) mk_super) < unat (sb_bmapstart mk_super)"
  "unat (sb_bmapstart mk_super) + nbitmap = nmeta" "nmeta + unat (sb_nblocks mk_super) = FSSIZE"
  by (simp_all add: mk_super_def IBLOCK_def)

text \<open>The superblock that \<open>readsb\<close> finds is the one that was written.\<close>

lemma put_super_read:
  "get32 (put_super s) 0 = sb_magic s" "get32 (put_super s) 4 = sb_size s" "get32 (put_super s) 8 = sb_nblocks s" "get32 (put_super s) 12 = sb_ninodes s"
  "get32 (put_super s) 16 = sb_nlog s" "get32 (put_super s) 20 = sb_logstart s" "get32 (put_super s) 24 = sb_inodestart s" "get32 (put_super s) 28 = sb_bmapstart s"
  by (simp_all add: put_super_def Let_def get_put32_same get_put32_other)

end
