(* ===== verification/Spec2Isabelle.thy ===== *)
theory Spec2Isabelle
  imports Xv6_Pipe Xv6_Spinlock Xv6_Grep Xv6_Ulib Xv6_Sched Xv6_ExecSafe Xv6_DiskSafe Xv6_Syscall Xv6_Trap Xv6_Crash Xv6_Sh Xv6_Progs Xv6_Umalloc Xv6_Mkfs
begin

text \<open>
  A verification development for the xv6 teaching kernel (RISC-V, with the page-table exercise
  compiled in) and its user programs. The sources are C files under \<^verbatim>\<open>src/kernel\<close>, \<^verbatim>\<open>src/user\<close> and \<^verbatim>\<open>src/mkfs\<close>.

  \<^bold>\<open>Conventions.\<close> C integers are words of their width (\<open>u8\<close>, \<open>u32\<close>, \<open>u64\<close>) where overflow matters and
  \<open>int\<close> or \<open>nat\<close> elsewhere. Physical memory is a function from 64-bit addresses to bytes. A call that
  can panic, fault or wait returns \<open>'a res\<close>: \<open>Ok\<close>, or \<open>Fail\<close> with \<open>Panic\<close>, \<open>Fault\<close> (an access
  the C program must not make) or \<open>Blocked\<close>. State is passed explicitly in records named after the C
  structures. In the sequential models a spin lock is elided, since the code it protects runs as one step;
  \<open>Xv6_Spinlock\<close> proves the locks themselves on interleaved instructions. Waiting is a value: the
  call returns what it needs to go on. Linker symbols, addresses of locals, devices and system
  calls are arguments.

  \<^bold>\<open>Parts.\<close>
  \<^item> \<open>Xv6_Prelude\<close>, \<open>Xv6_Machine\<close>: results, words, bytes; \<^verbatim>\<open>riscv.h\<close>, \<^verbatim>\<open>memlayout.h\<close>, \<^verbatim>\<open>param.h\<close>.
  \<^item> \<open>Xv6_String\<close>: \<^verbatim>\<open>kernel/string.c\<close> on byte memory. Exact effect of every routine, overlap included.
  \<^item> \<open>Xv6_Allocator\<close> (the contract of a page allocator as a locale), \<open>Xv6_Kalloc\<close>: \<^verbatim>\<open>kernel/kalloc.c\<close>, whose free list
    is threaded through the free pages. Pages handed out are distinct; free and allocated pages partition memory.
  \<^item> \<open>Xv6_Vm\<close> (definitions), \<open>Xv6_PageTable\<close>, \<open>Xv6_VmMap\<close>, \<open>Xv6_Uvm\<close>, \<open>Xv6_UvmFree\<close>, \<open>Xv6_UvmCopy\<close>, \<open>Xv6_CopyUser\<close>: \<^verbatim>\<open>kernel/vm.c\<close>.
    The three-level tables live in memory; \<open>vm_inv\<close> says they form a tree of private pages. Mapping,
    unmapping, growing, copying and freeing address spaces, and the copies between kernel and
    user memory, which stay inside what the user may access.
  \<^item> \<open>Xv6_Spinlock\<close>: \<^verbatim>\<open>kernel/spinlock.c\<close>. A step relation of single instructions on any number of CPUs;
    mutual exclusion and interrupt nesting as invariants of the reachable states.
  \<^item> \<open>Xv6_Queue\<close> (the contract of a bounded queue as a locale, ring arithmetic on wrapping counters), interpreted by
    \<open>Xv6_Pipe\<close> (\<^verbatim>\<open>kernel/pipe.c\<close>) and \<open>Xv6_Uart\<close> (\<^verbatim>\<open>kernel/uart.c\<close>); \<open>Xv6_Console\<close>: \<^verbatim>\<open>kernel/console.c\<close> as a line editor.
  \<^item> \<open>Xv6_Printf\<close>: the kernel's and the user's \<open>printf\<close>; \<open>Xv6_Ulib\<close>: \<^verbatim>\<open>user/ulib.c\<close>; \<open>Xv6_Grep\<close>: \<^verbatim>\<open>user/grep.c\<close>.
  \<^item> \<open>Xv6_Bio\<close>: \<^verbatim>\<open>kernel/sleeplock.c\<close> and \<^verbatim>\<open>kernel/bio.c\<close>, down to the \<open>prev\<close> and \<open>next\<close> pointers.
    Reads give the current block contents; the pointer list is a least-recently-used order.
  \<^item> \<open>Xv6_Log\<close>: \<^verbatim>\<open>kernel/log.c\<close>. The log header survives writing and reading; the space \<open>begin_op\<close> reserves is enough.
    \<open>Xv6_Crash\<close>: a transaction survives a crash whole or not at all.
  \<^item> \<open>Xv6_Fs\<close> (blocks and inodes) and \<open>Xv6_Dir\<close> (directories and path names): \<^verbatim>\<open>kernel/fs.c\<close>. Path parsing.
  \<^item> \<open>Xv6_File\<close>: \<^verbatim>\<open>kernel/file.c\<close>, and the opening and closing of pipes. The state records extend each other:
    \<open>fsys\<close> (cache, log, disk), \<open>fstate\<close> (inodes, memory), \<open>fworld\<close> (open files, pipes, console).
  \<^item> \<open>Xv6_Proc\<close>: \<^verbatim>\<open>kernel/proc.c\<close>, on \<open>kworld\<close>, which adds the process table. \<open>Xv6_Sleep\<close>: \<open>sleep\<close> and \<open>wakeup\<close> interleaved at the grain
    of lock operations lose no wakeup. \<open>Xv6_Sched\<close>: the critical sections of \<^verbatim>\<open>proc.c\<close> as a step relation, one CPU per process, unique pids,
    no starvation.
  \<^item> \<open>Xv6_Vmprint\<close>, \<open>Xv6_Sysproc\<close>, \<open>Xv6_Exec\<close>, \<open>Xv6_Sysfile\<close>: fetching system-call arguments (\<^verbatim>\<open>kernel/syscall.c\<close>) and the calls of
    \<^verbatim>\<open>kernel/sysproc.c\<close>, \<^verbatim>\<open>kernel/sysfile.c\<close> and \<^verbatim>\<open>kernel/exec.c\<close>. \<open>Xv6_Frame\<close>: the file system leaves the other tables alone. \<open>Xv6_Fdtable\<close>: the
    reference counts of open files are exact after every sequence of calls. \<open>Xv6_ExecSafe\<close>: \<open>exec\<close> is all or nothing.
  \<^item> \<open>Xv6_Virtio\<close>: \<^verbatim>\<open>kernel/virtio_disk.c\<close>. \<open>Xv6_VirtioSys\<close>: the driver, its threads and its interrupts interleaved with the device, with the invariant
    of its descriptors and rings. \<open>Xv6_DiskSafe\<close>: every step keeps it, and requests are served.
  \<^item> \<open>Xv6_Syscall\<close>: the table and the dispatcher of \<^verbatim>\<open>kernel/syscall.c\<close>.
  \<^item> \<open>Xv6_Trap\<close>: the control registers of a hart, \<^verbatim>\<open>kernel/trap.c\<close>, \<^verbatim>\<open>kernel/plic.c\<close>, \<^verbatim>\<open>kernel/start.c\<close> and \<^verbatim>\<open>kernel/main.c\<close>, on \<open>hworld\<close>, which adds the
    devices to \<open>kworld\<close>. What a return to user space has set up, and that traps inside the kernel are transparent.
  \<^item> \<open>Xv6_User\<close>: user programs as resumptions, which make a system call and go on from its results. \<open>Xv6_Progs\<close>: the small programs of \<^verbatim>\<open>src/user\<close>.
    \<open>Xv6_ShParse\<close>, \<open>Xv6_ShProof\<close>: the parser of \<^verbatim>\<open>user/sh.c\<close>, which returns on every line and inverts printing. \<open>Xv6_Sh\<close>: the commands it runs.
    \<open>Xv6_Umalloc\<close>: the ring of free blocks of \<^verbatim>\<open>user/umalloc.c\<close>. Its loops return, no memory is lost or handed out twice.
  \<^item> \<open>Xv6_Mkfs\<close>: the initial file system of \<^verbatim>\<open>mkfs/mkfs.c\<close>, its bitmap, layout and superblock.

  \<^bold>\<open>Bounds.\<close> Loops are total functions with a measure; a loop that may wait for a device forever is a partial
  function with value \<open>None\<close>. The list searches of \<open>bget\<close> get \<open>NBUF + 1\<close> steps, which the list
  invariant shows to be enough. The recursion of \<open>freewalk\<close> gets the number of table levels.
  The shell's recursive parser gets the depth of its stack; four calls for each character, and four, are enough.

  \<^bold>\<open>Not modelled.\<close> Assembly (\<^verbatim>\<open>entry.S\<close>, \<^verbatim>\<open>swtch.S\<close>, \<^verbatim>\<open>trampoline.S\<close>, \<^verbatim>\<open>kernelvec.S\<close>) and the nesting of interrupts in running kernel code; the device side of the
  disk; the larger test programs, which exercise the system with fixed or random calls.
\<close>

end
